(* ===== verification/Hush_Prelude.thy ===== *)
theory Hush_Prelude
  imports Main "HOL-Library.Word"
begin

unbundle bit_operations_syntax

text \<open>
  Shared vocabulary of the development: the C integer types the daemon uses as words, byte
  buffers and C strings, little-endian field encodings with their round trips, and the two
  generic interfaces (a prefix codec and a keyed table) that several components provide.

  Conventions. \<open>uint8_t\<close>, \<open>uint16_t\<close>, \<open>uint32_t\<close>, \<open>uint64_t\<close> are words of that width.
  \<open>uint256\<close> is a 256-bit word, its byte image in memory being the little-endian one.
  \<open>int32_t\<close> and \<open>int64_t\<close> values are HOL integers: they enter the model through \<^const>\<open>sint\<close>
  of a word and leave it through \<^const>\<open>word_of_int\<close>, so a value read from a buffer is always
  in range; where the program computes with them beyond their range the text of the
  definition says so.
\<close>

section \<open>C types\<close>

type_synonym byte = "8 word"
type_synonym u16 = "16 word"
type_synonym u32 = "32 word"
type_synonym u64 = "64 word"
type_synonym uint256 = "256 word"

text \<open>A pubkey is the 33-byte compressed form, a buffer any list of bytes.\<close>

type_synonym pubkey33 = "byte list"
type_synonym buffer = "byte list"

text \<open>Ranges of the signed types.\<close>

definition is_i32 :: "int \<Rightarrow> bool" where
  "is_i32 k \<longleftrightarrow> - (2 ^ 31) \<le> k \<and> k < 2 ^ 31"

definition is_i64 :: "int \<Rightarrow> bool" where
  "is_i64 k \<longleftrightarrow> - (2 ^ 63) \<le> k \<and> k < 2 ^ 63"

named_theorems le_simps \<open>little-endian encoding and decoding\<close>
named_theorems hush_defs \<open>definitions unfolded by default in component proofs\<close>

lemma sint_word_of_int32: "is_i32 k \<Longrightarrow> sint (word_of_int k :: u32) = k"
  by (simp add: is_i32_def sint_sbintrunc' signed_take_bit_int_eq_self)

lemma is_i32_sint [simp]: "is_i32 (sint (w :: u32))"
  using sint_greater_eq [of w] sint_less [of w] by (simp add: is_i32_def)

text \<open>Signed 32-bit arithmetic that wraps, and the division that truncates.\<close>

definition wrap32 :: "int \<Rightarrow> int" where
  "wrap32 k = sint (word_of_int k :: u32)"

definition c_div :: "int \<Rightarrow> int \<Rightarrow> int" where
  "c_div a b = (if (a < 0) = (b < 0) then \<bar>a\<bar> div \<bar>b\<bar> else - (\<bar>a\<bar> div \<bar>b\<bar>))"

lemma wrap32_id [simp]: "is_i32 k \<Longrightarrow> wrap32 k = k"
  by (simp add: wrap32_def sint_word_of_int32)

lemma is_i32_wrap32 [simp]: "is_i32 (wrap32 k)"
  by (simp add: wrap32_def)

lemma c_div_nonneg [simp]: "0 \<le> a \<Longrightarrow> 0 < b \<Longrightarrow> c_div a b = a div b"
  by (simp add: c_div_def)

section \<open>Little-endian fields\<close>

text \<open>
  \<open>le_bytes n x\<close> is the loop \<open>for (i=0; i<n; i++,x >>= 8) p[i] = (uint8_t)(x & 0xff)\<close>;
  \<open>le_word bs\<close> the loop \<open>for (i=n-1; i>=0; i--) { x <<= 8; x |= p[i]; }\<close> from \<open>x = 0\<close>. On the
  little-endian hosts the daemon supports they are also what \<open>memcpy\<close>, \<open>fwrite\<close> and \<open>fread\<close>
  of an integer variable do.
\<close>

primrec le_bytes :: "nat \<Rightarrow> 'a::len word \<Rightarrow> buffer" where
  "le_bytes 0 x = []"
| "le_bytes (Suc n) x = ucast x # le_bytes n (drop_bit 8 x)"

primrec le_word :: "buffer \<Rightarrow> 'a::len word" where
  "le_word [] = 0"
| "le_word (b # bs) = push_bit 8 (le_word bs) OR ucast b"

lemma length_le_bytes [simp, le_simps]: "length (le_bytes n x) = n"
  by (induction n arbitrary: x) auto

lemma le_word_le_bytes: "le_word (le_bytes n x) = take_bit (8 * n) x"
proof (induction n arbitrary: x)
  case 0
  then show ?case by simp
next
  case (Suc n)
  show ?case
    unfolding le_bytes.simps le_word.simps Suc.IH
    by (rule bit_word_eqI) (auto simp: bit_simps not_le)
qed

lemma le_word_le_bytes_full [simp, le_simps]:
  "LENGTH('a) \<le> 8 * n \<Longrightarrow> le_word (le_bytes n x) = (x :: 'a::len word)"
  unfolding le_word_le_bytes by (simp add: take_bit_word_eq_self)

lemma bit_le_word:
  "bit (le_word bs :: 'a::len word) i \<longleftrightarrow>
     i < LENGTH('a) \<and> i div 8 < length bs \<and> bit (bs ! (i div 8)) (i mod 8)"
proof (induction bs arbitrary: i)
  case Nil
  then show ?case by simp
next
  case (Cons b bs)
  show ?case
  proof (cases "i < 8")
    case True
    then show ?thesis by (auto simp: bit_simps)
  next
    case False
    then obtain j where j: "i = 8 + j" by (metis le_add_diff_inverse not_le)
    have "\<not> bit b (8 + j)" by (auto dest: bit_imp_le_length)
    moreover have "(8 + j) div 8 = Suc (j div 8)" by simp
    ultimately show ?thesis using Cons.IH [of j] by (auto simp: j bit_simps simp del: div_add_self1)
  qed
qed

lemma nth_le_bytes:
  "k < n \<Longrightarrow> le_bytes n x ! k = (ucast (drop_bit (8 * k) x) :: byte)"
proof (induction n arbitrary: x k)
  case 0
  then show ?case by simp
next
  case (Suc n)
  then show ?case by (cases k) (simp_all add: add.commute)
qed

lemma le_bytes_le_word [le_simps]:
  assumes "8 * length bs \<le> LENGTH('a)"
  shows "le_bytes (length bs) (le_word bs :: 'a::len word) = bs"
proof (rule nth_equalityI)
  fix i
  assume "i < length (le_bytes (length bs) (le_word bs :: 'a word))"
  then have i: "i < length bs" by simp
  then have "8 * i + 8 \<le> LENGTH('a)" using assms by simp
  moreover have "bit (bs ! ((8 * i + k) div 8)) ((8 * i + k) mod 8) = bit (bs ! i) k"
    if "k < 8" for k using that by simp
  ultimately have "ucast (drop_bit (8 * i) (le_word bs :: 'a word)) = bs ! i"
    using i by (intro bit_word_eqI) (simp add: bit_simps bit_le_word)
  then show "le_bytes (length bs) (le_word bs :: 'a word) ! i = bs ! i"
    using i by (simp add: nth_le_bytes)
qed simp

text \<open>The same for signed 32-bit fields.\<close>

definition le_i32 :: "int \<Rightarrow> buffer" where
  "le_i32 k = le_bytes 4 (word_of_int k :: u32)"

definition rd_i32 :: "buffer \<Rightarrow> int" where
  "rd_i32 bs = sint (le_word (take 4 bs) :: u32)"

lemma length_le_i32 [simp, le_simps]: "length (le_i32 k) = 4"
  by (simp add: le_i32_def)

lemma rd_le_i32 [simp, le_simps]: "is_i32 k \<Longrightarrow> rd_i32 (le_i32 k @ r) = k"
  by (simp add: rd_i32_def le_i32_def sint_word_of_int32)

lemma rd_le_i32' [simp, le_simps]: "is_i32 k \<Longrightarrow> rd_i32 (le_i32 k) = k"
  using rd_le_i32 [of k "[]"] by simp

lemma is_i32_rd_i32 [simp]: "is_i32 (rd_i32 bs)"
  by (simp add: rd_i32_def)

section \<open>C strings\<close>

text \<open>
  The memory a \<open>char *\<close> points to is a function from offsets to characters: a string followed
  by its terminator and then by bytes \<open>junk\<close> that belong to something else. Code that reads
  past the terminator reads \<open>junk\<close>; a theorem quantified over it shows the result does not
  depend on what is there.
\<close>

type_synonym cmem = "nat \<Rightarrow> char"

definition nul :: char where
  "nul = CHR 0x00"

definition cmem_of :: "string \<Rightarrow> (nat \<Rightarrow> char) \<Rightarrow> cmem" where
  "cmem_of s junk = (\<lambda>i. if i < length s then s ! i else if i = length s then nul else junk i)"

text \<open>The string a \<open>char\<close> array holds: the bytes up to the first zero (or its end).\<close>

definition cstr :: "buffer \<Rightarrow> string" where
  "cstr bs = map (\<lambda>b. char_of (unat b)) (takeWhile (\<lambda>b. b \<noteq> 0) bs)"

definition bytes_of :: "string \<Rightarrow> buffer" where
  "bytes_of s = map (\<lambda>c. word_of_nat (of_char c)) s"

lemma length_bytes_of [simp]: "length (bytes_of s) = length s"
  by (simp add: bytes_of_def)

lemma bytes_of_nz: "nul \<notin> set s \<Longrightarrow> 0 \<notin> set (bytes_of s)"
proof -
  have nz: "(word_of_nat (of_char c) :: byte) = 0 \<Longrightarrow> c = nul" for c
  proof -
    assume "(word_of_nat (of_char c) :: byte) = 0"
    then have "unat (word_of_nat (of_char c) :: byte) = 0" by simp
    moreover have "(of_char c :: nat) < 256" by (rule nat_of_char_less_256)
    ultimately have "(of_char c :: nat) = 0" by (simp add: unat_of_nat)
    then have "char_of (of_char c :: nat) = char_of (0 :: nat)" by simp
    moreover have "char_of (0 :: nat) = nul" by (simp add: nul_def char_of_def)
    ultimately show "c = nul" by simp
  qed
  assume "nul \<notin> set s"
  then show "0 \<notin> set (bytes_of s)"
    using nz by (fastforce simp: bytes_of_def simp del: word_of_nat_eq_0_iff)
qed

lemma char_of_bytes_of: "map (\<lambda>b. char_of (unat b)) (bytes_of s) = s"
proof -
  have "char_of (unat (word_of_nat (of_char c) :: byte)) = c" for c
  proof -
    have "(of_char c :: nat) < 256" by (rule nat_of_char_less_256)
    then show ?thesis by (simp add: unat_of_nat)
  qed
  then show ?thesis by (simp add: bytes_of_def comp_def)
qed

lemma cstr_bytes_of: "nul \<notin> set s \<Longrightarrow> cstr (bytes_of s @ 0 # r) = s"
proof -
  assume "nul \<notin> set s"
  then have "takeWhile (\<lambda>b. b \<noteq> 0) (bytes_of s @ 0 # r) = bytes_of s"
    using bytes_of_nz [of s] by (subst takeWhile_append2) auto
  then show ?thesis by (simp add: cstr_def char_of_bytes_of)
qed

text \<open>Likewise for a byte array whose tail holds stale bytes.\<close>

type_synonym bmem = "nat \<Rightarrow> byte"

definition bmem_of :: "buffer \<Rightarrow> bmem \<Rightarrow> bmem" where
  "bmem_of bs junk = (\<lambda>i. if i < length bs then bs ! i else junk i)"

lemma bmem_of_nth [simp]: "i < length bs \<Longrightarrow> bmem_of bs junk i = bs ! i"
  by (simp add: bmem_of_def)

text \<open>\<open>n\<close> bytes starting at an offset.\<close>

definition bslice :: "bmem \<Rightarrow> nat \<Rightarrow> nat \<Rightarrow> buffer" where
  "bslice m off n = map (\<lambda>i. m (off + i)) [0..<n]"

lemma length_bslice [simp]: "length (bslice m off n) = n"
  by (simp add: bslice_def)

lemma bslice_bmem_of:
  "off + n \<le> length bs \<Longrightarrow> bslice (bmem_of bs junk) off n = take n (drop off bs)"
  by (rule nth_equalityI) (auto simp: bslice_def)

section \<open>Interface: a prefix codec\<close>

text \<open>
  What every serialised record of the daemon promises: a well-formed value can be read back
  from the front of any buffer that starts with its encoding, leaving the rest.
\<close>

locale prefix_codec =
  fixes enc :: "'a \<Rightarrow> buffer"
    and dec :: "buffer \<Rightarrow> ('a \<times> buffer) option"
    and wf :: "'a \<Rightarrow> bool"
  assumes dec_enc: "wf x \<Longrightarrow> dec (enc x @ r) = Some (x, r)"
begin

lemma dec_enc_exact: "wf x \<Longrightarrow> dec (enc x) = Some (x, [])"
  using dec_enc [of x "[]"] by simp

lemma enc_inj:
  assumes "wf x" and "wf y" and "enc x @ r = enc y @ s"
  shows "x = y \<and> r = s"
proof -
  have "Some (x, r) = dec (enc x @ r)" using assms(1) by (rule dec_enc [symmetric])
  also have "\<dots> = Some (y, s)" unfolding assms(3) using assms(2) by (rule dec_enc)
  finally show ?thesis by simp
qed

end

text \<open>Reading a sequence of records until the buffer is used up.\<close>

fun decode_seq :: "nat \<Rightarrow> (buffer \<Rightarrow> ('a \<times> buffer) option) \<Rightarrow> buffer \<Rightarrow> 'a list option" where
  "decode_seq 0 dec bs = (if bs = [] then Some [] else None)"
| "decode_seq (Suc n) dec bs =
     (case dec bs of None \<Rightarrow> None
      | Some (x, r) \<Rightarrow> map_option (Cons x) (decode_seq n dec r))"

context prefix_codec
begin

lemma decode_seq_concat:
  "list_all wf xs \<Longrightarrow> decode_seq (length xs) dec (concat (map enc xs)) = Some xs"
  by (induction xs) (auto simp: dec_enc)

end

section \<open>Interface: a keyed table\<close>

text \<open>
  The daemon keeps its tables in \<open>uthash\<close> hash tables, used through \<open>HASH_FIND\<close>,
  \<open>HASH_ADD_KEYPTR\<close> (always after a failed \<open>HASH_FIND\<close>, or for keys known to be new),
  \<open>HASH_DELETE\<close> and \<open>HASH_ITER\<close>, which walks the entries in insertion order. The table is
  therefore an association list in insertion order.
\<close>

definition hash_find :: "'k \<Rightarrow> ('k \<times> 'v) list \<Rightarrow> 'v option" where
  "hash_find k t = map_of t k"

definition hash_add :: "'k \<Rightarrow> 'v \<Rightarrow> ('k \<times> 'v) list \<Rightarrow> ('k \<times> 'v) list" where
  "hash_add k v t = t @ [(k, v)]"

definition hash_delete :: "'k \<Rightarrow> ('k \<times> 'v) list \<Rightarrow> ('k \<times> 'v) list" where
  "hash_delete k t = filter (\<lambda>(k', _). k' \<noteq> k) t"

text \<open>Writing through the pointer \<open>HASH_FIND\<close> returned updates the entry in place.\<close>

definition hash_set :: "'k \<Rightarrow> 'v \<Rightarrow> ('k \<times> 'v) list \<Rightarrow> ('k \<times> 'v) list" where
  "hash_set k v t = map (\<lambda>(k', v'). (k', if k' = k then v else v')) t"

definition hash_ok :: "('k \<times> 'v) list \<Rightarrow> bool" where
  "hash_ok t \<longleftrightarrow> distinct (map fst t)"

locale keyed_table =
  fixes find :: "'k \<Rightarrow> 't \<Rightarrow> 'v option"
    and add :: "'k \<Rightarrow> 'v \<Rightarrow> 't \<Rightarrow> 't"
    and del :: "'k \<Rightarrow> 't \<Rightarrow> 't"
    and upd :: "'k \<Rightarrow> 'v \<Rightarrow> 't \<Rightarrow> 't"
    and ok :: "'t \<Rightarrow> bool"
  assumes find_add: "find k t = None \<Longrightarrow> find k' (add k v t) = (if k' = k then Some v else find k' t)"
    and find_del: "find k' (del k t) = (if k' = k then None else find k' t)"
    and find_upd: "find k t \<noteq> None \<Longrightarrow> find k' (upd k v t) = (if k' = k then Some v else find k' t)"
    and ok_add: "ok t \<Longrightarrow> find k t = None \<Longrightarrow> ok (add k v t)"
    and ok_del: "ok t \<Longrightarrow> ok (del k t)"
    and ok_upd: "ok t \<Longrightarrow> ok (upd k v t)"
begin

lemma find_add_same: "find k t = None \<Longrightarrow> find k (add k v t) = Some v"
  by (simp add: find_add)

lemma find_upd_same: "find k t \<noteq> None \<Longrightarrow> find k (upd k v t) = Some v"
  by (simp add: find_upd)

text \<open>Insert-or-update, the way every client uses the table.\<close>

lemma find_put:
  "find k' (if find k t = None then add k v t else upd k v t) =
     (if k' = k then Some v else find k' t)"
  by (simp add: find_add find_upd)

lemma ok_put: "ok t \<Longrightarrow> ok (if find k t = None then add k v t else upd k v t)"
  by (simp add: ok_add ok_upd)

end

interpretation uthash: keyed_table hash_find hash_add hash_delete hash_set hash_ok
proof
  fix k k' :: 'k and v :: 'v and t
  show "hash_find k t = None \<Longrightarrow>
      hash_find k' (hash_add k v t) = (if k' = k then Some v else hash_find k' t)"
    by (auto simp: hash_find_def hash_add_def map_add_def split: option.splits)
  show "hash_find k' (hash_delete k t) = (if k' = k then None else hash_find k' t)"
    by (induction t) (auto simp: hash_find_def hash_delete_def)
  have "map_of (hash_set k v t) k' = (if k' = k then map_option (\<lambda>_. v) (map_of t k) else map_of t k')"
    by (induction t) (auto simp: hash_set_def)
  then show "hash_find k t \<noteq> None \<Longrightarrow>
      hash_find k' (hash_set k v t) = (if k' = k then Some v else hash_find k' t)"
    by (auto simp: hash_find_def)
  show "hash_ok t \<Longrightarrow> hash_find k t = None \<Longrightarrow> hash_ok (hash_add k v t)"
    by (force simp: hash_ok_def hash_find_def hash_add_def map_of_eq_None_iff)
  show "hash_ok t \<Longrightarrow> hash_ok (hash_delete k t)"
    by (induction t) (auto simp: hash_ok_def hash_delete_def)
  have "map fst (hash_set k v t) = map fst t"
    by (simp add: hash_set_def case_prod_unfold)
  then show "hash_ok t \<Longrightarrow> hash_ok (hash_set k v t)"
    by (simp add: hash_ok_def)
qed

section \<open>Interface: a memoised function\<close>

text \<open>
  A function-local static that remembers the last result: \<open>run\<close> takes and returns the cell, \<open>f\<close> is the function it
  stands for, and \<open>ok\<close> says that the cell holds a result of \<open>f\<close> (or nothing).
\<close>

locale memo_cell =
  fixes f :: "'k \<Rightarrow> 'v"
    and run :: "'k \<Rightarrow> 'c \<Rightarrow> 'v \<times> 'c"
    and ok :: "'c \<Rightarrow> bool"
  assumes run_value: "ok c \<Longrightarrow> fst (run k c) = f k"
    and run_ok: "ok c \<Longrightarrow> ok (snd (run k c))"
begin

lemma ok_after: "ok c \<Longrightarrow> ok (fold (\<lambda>k c. snd (run k c)) ks c)"
  by (induction ks arbitrary: c) (simp_all add: run_ok)

text \<open>Whatever was asked before, the answer is the same.\<close>

lemma transparent: "ok c \<Longrightarrow> fst (run k (fold (\<lambda>k c. snd (run k c)) ks c)) = f k"
  by (rule run_value) (rule ok_after)

end

end
