(* ===== verification/Hush_Codec.thy ===== *)
theory Hush_Codec
  imports Hush_Prelude
begin

text \<open>
  The encodings of \<open>src/src/hush_utils.h\<close> that every other component is built on: the population
  count of a notary mask (\<open>bitweight\<close>), hexadecimal strings (\<open>_unhex\<close> to \<open>bits256_str\<close>), the
  little-endian field codec (\<open>dragon_rwnum\<close>, \<open>dragon_rwbignum\<close>) and the script push encoding of
  \<open>OP_RETURN\<close> payloads (\<open>hush_scriptitemlen\<close>, \<open>hush_opreturnscript\<close>).
\<close>

section \<open>Population count\<close>

definition bitweight :: "u64 \<Rightarrow> int" where
  "bitweight x = fold (\<lambda>i wt. if push_bit i 1 AND x \<noteq> 0 then wt + 1 else wt) [0..<64] 0"

lemma fold_count:
  "fold (\<lambda>i wt. if P i then wt + 1 else wt) xs (n :: int) = n + int (length (filter P xs))"
  by (induction xs arbitrary: n) auto

lemma push_bit_1_and_iff: "push_bit i 1 AND (x :: u64) \<noteq> 0 \<longleftrightarrow> bit x i"
proof
  assume "bit x i"
  then have "bit (push_bit i 1 AND x) i"
    by (auto simp: bit_simps dest: bit_imp_le_length)
  then show "push_bit i 1 AND x \<noteq> 0" by auto
next
  assume "push_bit i 1 AND x \<noteq> 0"
  then obtain j where "bit (push_bit i 1 AND x) j" by (auto simp: bit_eq_iff)
  then have "j = i" and "bit x j" by (auto simp: bit_simps)
  then show "bit x i" by simp
qed

lemma bitweight_card: "bitweight x = int (card {i. bit x i})"
proof -
  have "length (filter (bit x) [0..<64]) = card {i. i < 64 \<and> bit x i}"
    by (subst length_filter_conv_card) (auto intro!: arg_cong [where f = card])
  also have "{i. i < 64 \<and> bit x i} = {i. bit x i}"
    by (auto dest: bit_imp_le_length)
  finally show ?thesis
    unfolding bitweight_def fold_count push_bit_1_and_iff by simp
qed

lemma finite_bits [simp]: "finite {i. bit (x :: u64) i}"
  by (rule finite_subset [of _ "{..<64}"]) (auto dest: bit_imp_le_length)

lemma bitweight_le_64: "0 \<le> bitweight x \<and> bitweight x \<le> 64"
proof -
  have "{i. bit x i} \<subseteq> {..<64}" by (auto dest: bit_imp_le_length)
  then have "card {i. bit x i} \<le> card {..<64::nat}" by (rule card_mono [rotated]) simp
  then show ?thesis by (simp add: bitweight_card)
qed

lemma bitweight_0 [simp]: "bitweight 0 = 0"
  by (simp add: bitweight_card)

text \<open>Setting the bit of one more signer counts it once.\<close>

lemma bitweight_set:
  assumes "k < 64"
  shows "bitweight (x OR push_bit k 1) = (if bit x k then bitweight x else bitweight x + 1)"
proof -
  have "{i. bit (x OR push_bit k 1) i} = insert k {i. bit x i}"
    using assms by (auto simp: bit_simps)
  then show ?thesis by (simp add: bitweight_card insert_absorb)
qed

section \<open>Hexadecimal\<close>

text \<open>\<open>_unhex\<close>: the digit value, or -1.\<close>

definition unhex0 :: "char \<Rightarrow> int" where
  "unhex0 c =
     (let k = of_char c :: int in
      if 48 \<le> k \<and> k \<le> 57 then k - 48
      else if 97 \<le> k \<and> k \<le> 102 then k - 97 + 10
      else if 65 \<le> k \<and> k \<le> 70 then k - 65 + 10
      else -1)"

fun hexrun :: "string \<Rightarrow> int \<Rightarrow> int \<Rightarrow> int" where
  "hexrun [] n i = i"
| "hexrun (c # cs) n i =
     (if n > 0 \<and> i \<ge> n then i else if unhex0 c < 0 then i else hexrun cs n (i + 1))"

definition is_hexstr :: "string \<Rightarrow> int \<Rightarrow> int" where
  "is_hexstr s n =
     (if s = [] then 0
      else let i = hexrun s n 0 in if n = 0 then i else if i = n then 1 else 0)"

text \<open>\<open>unhex\<close> is \<open>_unhex\<close> with a warning printed on -1.\<close>

definition unhex :: "char \<Rightarrow> int" where
  "unhex c = unhex0 c"

text \<open>\<open>_decode_hex\<close>: two digits as one \<open>unsigned char\<close>; an illegal digit contributes -1.\<close>

definition decode_hex1 :: "char \<Rightarrow> char \<Rightarrow> byte" where
  "decode_hex1 a b = word_of_int (push_bit 4 (unhex a) OR unhex b)"

text \<open>
  \<open>decode_hex(bytes,n,hex)\<close> on a string \<open>s\<close> followed in memory by its terminator and \<open>junk\<close>:
  the bytes written and the value returned. \<open>None\<close> is the read of \<open>hex[-1]\<close> for \<open>n = 0\<close>.
\<close>

definition decode_hex :: "nat \<Rightarrow> string \<Rightarrow> cmem \<Rightarrow> (buffer \<times> nat) option" where
  "decode_hex n s junk =
     (if is_hexstr s (int n) \<le> 0 then Some (replicate n 0, n)
      else if n = 0 then None
      else
        let hex = cmem_of s junk;
            strip = (of_char (hex (n - 1)) = (10 :: nat) \<or> of_char (hex (n - 1)) = (13 :: nat));
            m = (if strip then n - 1 else n);
            hex = (if strip then hex(m := nul) else hex)
        in if m = 0 \<or> hex (m * 2 + 1) = nul \<and> hex (m * 2) \<noteq> nul
           then Some ((if m > 0
                       then word_of_int (unhex (hex 0)) #
                            map (\<lambda>i. decode_hex1 (hex (1 + i * 2)) (hex (1 + i * 2 + 1))) [0..<m]
                       else []), m + 1)
           else Some (map (\<lambda>i. decode_hex1 (hex (i * 2)) (hex (i * 2 + 1))) [0..<m], m))"

definition hexbyte :: "int \<Rightarrow> char" where
  "hexbyte c =
     (let c = c AND 0xf in
      if c < 10 then char_of (48 + c) else if c < 16 then char_of (97 + c - 10) else char_of (0 :: int))"

text \<open>The string written (without its terminator) and the value returned.\<close>

definition init_hexbytes_noT :: "buffer \<Rightarrow> string \<times> nat" where
  "init_hexbytes_noT message =
     (if message = [] then ([], 1)
      else (concat (map (\<lambda>b. [hexbyte (uint (drop_bit 4 b AND 0xf)), hexbyte (uint (b AND 0xf))]) message),
            length message * 2 + 1))"

definition bits256_str :: "uint256 \<Rightarrow> string" where
  "bits256_str x = fst (init_hexbytes_noT (le_bytes 32 x))"

subsection \<open>Round trip\<close>

definition is_hexdigit :: "char \<Rightarrow> bool" where
  "is_hexdigit c \<longleftrightarrow> 0 \<le> unhex0 c"

lemma unhex0_range: "-1 \<le> unhex0 c \<and> unhex0 c < 16"
  by (simp add: unhex0_def Let_def)

lemma unhex0_hexbyte: "0 \<le> k \<Longrightarrow> k < 16 \<Longrightarrow> unhex0 (hexbyte k) = k"
proof -
  have "\<forall>k \<in> set (map int [0..<16]). unhex0 (hexbyte k) = k" by code_simp
  moreover assume "0 \<le> k" and "k < 16"
  then have "k \<in> set (map int [0..<16])"
    using image_iff [of k int "{0..<16}"] by (force simp: image_iff intro: bexI [of _ "nat k"])
  ultimately show ?thesis by blast
qed

lemma and_15: "(b :: byte) AND 0xf = take_bit 4 b"
  by (simp add: take_bit_eq_mask mask_eq_exp_minus_1)

lemma nibble_range: "0 \<le> uint ((b :: byte) AND 0xf) \<and> uint (b AND 0xf) < 16"
proof -
  have "uint (take_bit 4 b) = take_bit 4 (uint b)"
    by (rule bit_eqI) (auto simp: bit_simps bit_uint_iff dest: bit_imp_le_length)
  then show ?thesis unfolding and_15 by (simp add: take_bit_int_less_exp [of 4, simplified])
qed

lemma byte_of_nibbles:
  "word_of_int (push_bit 4 (uint (drop_bit 4 b AND 0xf)) OR uint (b AND 0xf)) = (b :: byte)"
  unfolding and_15 by (rule bit_word_eqI) (auto simp: bit_simps bit_uint_iff not_less)

lemma decode_hexbyte:
  "decode_hex1 (hexbyte (uint (drop_bit 4 b AND 0xf))) (hexbyte (uint (b AND 0xf))) = b"
  using nibble_range [of b] nibble_range [of "drop_bit 4 b"]
  by (simp add: decode_hex1_def unhex_def unhex0_hexbyte byte_of_nibbles)

lemma hexrun_digits:
  "list_all is_hexdigit s \<Longrightarrow> 0 < n \<Longrightarrow> i \<le> n \<Longrightarrow> hexrun s n i = min n (i + int (length s))"
  by (induction s arbitrary: i) (auto simp: is_hexdigit_def)

lemma hexrun_stop:
  "\<not> is_hexdigit c \<Longrightarrow> list_all is_hexdigit s \<Longrightarrow> 0 < n \<Longrightarrow> i + int (length s) < n \<Longrightarrow>
   hexrun (s @ c # t) n i = i + int (length s)"
  by (induction s arbitrary: i) (auto simp: is_hexdigit_def)

abbreviation hexstr :: "buffer \<Rightarrow> string" where
  "hexstr bs \<equiv> fst (init_hexbytes_noT bs)"

lemma hexstr_eq:
  "hexstr bs = concat (map (\<lambda>b. [hexbyte (uint (drop_bit 4 b AND 0xf)), hexbyte (uint (b AND 0xf))]) bs)"
  by (simp add: init_hexbytes_noT_def)

lemma length_hexstr [simp]: "length (hexstr bs) = 2 * length bs"
  unfolding hexstr_eq by (induction bs) auto

lemma nth_pairs:
  "i < length xs \<Longrightarrow> concat (map (\<lambda>x. [f x, g x]) xs) ! (i * 2) = f (xs ! i) \<and>
     concat (map (\<lambda>x. [f x, g x]) xs) ! Suc (i * 2) = g (xs ! i)"
proof (induction xs arbitrary: i)
  case Nil
  then show ?case by simp
next
  case (Cons x xs)
  then show ?case by (cases i) auto
qed

lemma hexstr_digits: "list_all is_hexdigit (hexstr bs)"
proof -
  have "is_hexdigit (hexbyte (uint ((b :: byte) AND 0xf)))" for b
    using nibble_range [of b] by (simp add: is_hexdigit_def unhex0_hexbyte)
  then show ?thesis unfolding hexstr_eq by (auto simp: list_all_iff)
qed

lemma is_hexstr_hexstr: "bs \<noteq> [] \<Longrightarrow> is_hexstr (hexstr bs) (int (length bs)) = 1"
  using hexrun_digits [OF hexstr_digits [of bs], of "int (length bs)" 0] length_hexstr [of bs]
  by (auto simp: is_hexstr_def Let_def simp del: length_hexstr)

lemma hexdigit_not_eol:
  assumes "is_hexdigit c"
  shows "of_char c \<noteq> (10 :: nat)" and "of_char c \<noteq> (13 :: nat)"
proof -
  have "of_char c \<noteq> (10 :: nat) \<and> of_char c \<noteq> (13 :: nat)"
  proof (rule ccontr)
    assume "\<not> ?thesis"
    then have "(of_char c :: int) = 10 \<or> (of_char c :: int) = 13"
      by (metis of_nat_numeral of_nat_of_char)
    then show False using assms by (auto simp: is_hexdigit_def unhex0_def)
  qed
  then show "of_char c \<noteq> (10 :: nat)" and "of_char c \<noteq> (13 :: nat)" by auto
qed

lemma decode_hex_digits:
  assumes "n \<noteq> 0" and "length s = 2 * n" and "list_all is_hexdigit s"
  shows "decode_hex n s junk = Some (map (\<lambda>i. decode_hex1 (s ! (i * 2)) (s ! (i * 2 + 1))) [0..<n], n)"
proof -
  have ne: "s \<noteq> []" using assms by auto
  have "hexrun s (int n) 0 = int n"
    using hexrun_digits [OF assms(3), of "int n" 0] assms by simp
  then have ok: "is_hexstr s (int n) = 1"
    using assms(1) ne by (simp add: is_hexstr_def)
  have "is_hexdigit (s ! (n - 1))" using assms by (simp add: list_all_length)
  note eol = hexdigit_not_eol [OF this]
  have rd: "cmem_of s junk i = s ! i" if "i < 2 * n" for i
    using that assms(2) by (simp add: cmem_of_def)
  have stop: "cmem_of s junk (n * 2) = nul"
    using assms(2) by (simp add: cmem_of_def)
  have "n - 1 < 2 * n" using assms(1) by simp
  then show ?thesis
    using assms(1) eol by (simp add: decode_hex_def ok rd stop Let_def)
qed

lemma decode_hex_hexstr: "bs \<noteq> [] \<Longrightarrow> decode_hex (length bs) (hexstr bs) junk = Some (bs, length bs)"
proof -
  assume "bs \<noteq> []"
  then have "decode_hex (length bs) (hexstr bs) junk =
      Some (map (\<lambda>i. decode_hex1 (hexstr bs ! (i * 2)) (hexstr bs ! (i * 2 + 1))) [0..<length bs], length bs)"
    by (intro decode_hex_digits hexstr_digits) auto
  also have "map (\<lambda>i. decode_hex1 (hexstr bs ! (i * 2)) (hexstr bs ! (i * 2 + 1))) [0..<length bs] = bs"
    by (rule nth_equalityI)
      (simp_all add: hexstr_eq nth_pairs decode_hexbyte)
  finally show ?thesis .
qed

text \<open>A string whose first \<open>n\<close> characters are not all digits decodes to zero bytes.\<close>

lemma decode_hex_bad:
  assumes "list_all is_hexdigit s" and "length s < n" and "c \<noteq> nul \<Longrightarrow> \<not> is_hexdigit c"
  shows "decode_hex n (s @ (if c = nul then [] else c # t)) junk = Some (replicate n 0, n)"
proof -
  have "is_hexstr (s @ (if c = nul then [] else c # t)) (int n) = 0"
  proof (cases "c = nul")
    case True
    then show ?thesis
      using assms hexrun_digits [of s "int n" 0] by (auto simp: is_hexstr_def Let_def)
  next
    case False
    then show ?thesis
      using assms hexrun_stop [of c s "int n" 0 t] by (auto simp: is_hexstr_def Let_def)
  qed
  then show ?thesis by (simp add: decode_hex_def)
qed

section \<open>Field codec\<close>

text \<open>
  \<open>dragon_rwnum(rwflag,serialized,len,endianedp)\<close> with the variable at \<open>endianedp\<close> as a 64-bit
  word: the buffer, the variable and the returned length afterwards. A width other than 1, 2,
  4 or 8 writes zeros and reads nothing.
\<close>

definition rwnum_width :: "nat \<Rightarrow> u64 \<Rightarrow> u64 option" where
  "rwnum_width len x =
     (if len = 1 \<or> len = 2 \<or> len = 4 \<or> len = 8 then Some (take_bit (8 * len) x) else None)"

definition dragon_rwnum :: "int \<Rightarrow> buffer \<Rightarrow> nat \<Rightarrow> u64 \<Rightarrow> buffer \<times> u64 \<times> nat" where
  "dragon_rwnum rwflag serialized len endianed =
     (if rwflag = 0
      then (serialized,
            case rwnum_width len (le_word (take len serialized)) of
              None \<Rightarrow> endianed | Some x \<Rightarrow> x, len)
      else (le_bytes len (case rwnum_width len endianed of None \<Rightarrow> 0 | Some x \<Rightarrow> x)
              @ drop len serialized, endianed, len))"

definition dragon_rwbignum :: "int \<Rightarrow> buffer \<Rightarrow> nat \<Rightarrow> buffer \<Rightarrow> buffer \<times> buffer \<times> nat" where
  "dragon_rwbignum rwflag serialized len endianed =
     (if rwflag = 0
      then (serialized, take len serialized @ drop len endianed, len)
      else (take len endianed @ drop len serialized, endianed, len))"

lemma rwnum_roundtrip:
  assumes "len \<in> {1, 2, 4, 8}"
  shows "fst (snd (dragon_rwnum 0 (fst (dragon_rwnum 1 buf len v)) len v')) = take_bit (8 * len) v"
proof -
  have "rwnum_width len x = Some (take_bit (8 * len) x)" for x
    using assms by (auto simp: rwnum_width_def)
  then show ?thesis by (simp add: dragon_rwnum_def le_word_le_bytes)
qed

lemma rwbignum_roundtrip:
  assumes "length endianed = len" and "length endianed' = len"
  shows "fst (snd (dragon_rwbignum 0 (fst (dragon_rwbignum 1 buf len endianed)) len endianed')) = endianed"
  using assms by (simp add: dragon_rwbignum_def)

text \<open>
  How the callers use the reader: a 4-byte field into an \<open>int32_t\<close> and a 32-byte field into a
  \<open>uint256\<close>.
\<close>

definition rwnum_i32 :: "buffer \<Rightarrow> int" where
  "rwnum_i32 serialized = sint (ucast (fst (snd (dragon_rwnum 0 serialized 4 0))) :: u32)"

lemma take_le_word_u32:
  "ucast (take_bit 32 (le_word bs :: u64)) = (le_word bs :: u32)"
  by (rule bit_word_eqI) (auto simp: bit_simps bit_le_word)

lemma rwnum_i32_rd [simp]: "rwnum_i32 bs = rd_i32 bs"
  by (simp add: rwnum_i32_def dragon_rwnum_def rwnum_width_def rd_i32_def take_le_word_u32)

section \<open>Script push encoding\<close>

text \<open>\<open>hush_scriptitemlen(&opretlen,script)\<close>: the item length and the bytes its prefix takes.\<close>

definition hush_scriptitemlen :: "bmem \<Rightarrow> int \<times> nat" where
  "hush_scriptitemlen script =
     (let opretlen = uint (script 0) in
      if opretlen \<ge> 0x4c
      then if opretlen = 0x4c then (uint (script 1), 2)
           else if opretlen = 0x4d then (uint (script 1) + uint (script 2) * 2 ^ 8, 3)
           else (opretlen, 1)
      else (opretlen, 1))"

definition hush_opreturnscript :: "byte \<Rightarrow> buffer \<Rightarrow> buffer \<times> int" where
  "hush_opreturnscript type opret =
     (let opretlen = int (length opret) + 1;
          prefix = 0x6a #
            (if opretlen \<ge> 0x4c
             then if opretlen > 0xff
                  then [0x4d, word_of_int (opretlen AND 0xff), word_of_int (drop_bit 8 opretlen AND 0xff)]
                  else [0x4c, word_of_int opretlen]
             else [word_of_int opretlen]) @ [type]
      in (prefix @ opret, int (length prefix) + opretlen - 1))"

lemma u8_split_16: "0 \<le> k \<Longrightarrow> k < 2 ^ 16 \<Longrightarrow>
   uint (word_of_int (k AND 0xff) :: byte) + uint (word_of_int (drop_bit 8 k AND 0xff) :: byte) * 256 = k"
proof -
  have m: "(k AND 0xff) = take_bit 8 k" for k :: int
    by (simp add: take_bit_eq_mask mask_eq_exp_minus_1)
  assume "0 \<le> k" and "k < 2 ^ 16"
  then have "k div 256 mod 256 = k div 256" by simp
  then show ?thesis by (simp add: m uint_word_of_int take_bit_eq_mod drop_bit_eq_div)
qed

lemma scriptitem_opreturnscript:
  assumes "length opret < 65535"
  shows "hush_scriptitemlen (bmem_of (tl (fst (hush_opreturnscript type opret))) junk) =
         (int (length opret) + 1,
          if length opret + 1 < 0x4c then 1 else if length opret + 1 \<le> 0xff then 2 else 3)"
proof -
  let ?n = "int (length opret) + 1"
  have w: "?n < 256 \<Longrightarrow> uint (word_of_int ?n :: byte) = ?n"
    by (subst uint_word_of_int) simp
  consider "?n < 0x4c" | "0x4c \<le> ?n" "?n \<le> 0xff" | "0xff < ?n" by linarith
  then show ?thesis
  proof cases
    case 1
    then show ?thesis
      using w by (simp add: hush_opreturnscript_def hush_scriptitemlen_def Let_def)
  next
    case 2
    then show ?thesis
      using w by (simp add: hush_opreturnscript_def hush_scriptitemlen_def Let_def)
  next
    case 3
    then show ?thesis
      using u8_split_16 [of ?n] assms
      by (simp add: hush_opreturnscript_def hush_scriptitemlen_def Let_def nth_Cons' )
  qed
qed

section \<open>Properties\<close>

text \<open>Decoding the hexadecimal string that \<open>init_hexbytes_noT\<close> prints for a non-empty buffer gives
  back exactly the buffer and its length, whatever memory follows the string.\<close>
theorem hex_roundtrip:
  assumes "bs \<noteq> []"
  shows "\<forall>junk. decode_hex (length bs) (hexstr bs) junk = Some (bs, length bs)"
  using decode_hex_hexstr [OF assms] by blast

theorem hex_roundtrip_witness:
  "hexstr [0xde, 0xad, 0x00] = ''dead00'' \<and>
   (\<forall>junk. decode_hex 3 ''dead00'' junk = Some ([0xde, 0xad, 0x00], 3))"
proof -
  have e: "hexstr [0xde, 0xad, 0x00] = ''dead00''"
    by (simp add: init_hexbytes_noT_def hexbyte_def char_of_def)
  then show ?thesis using hex_roundtrip [of "[0xde, 0xad, 0x00]"] by (simp add: e eval_nat_numeral)
qed

text \<open>\<open>decode_hex\<close> validates too few characters: for an \<open>n\<close>-byte field it checks \<open>n\<close> of the
  \<open>2 n\<close> characters, so a two-character string whose second character is not a digit is accepted and
  decodes to \<open>0xff\<close>, where a string whose first character is bad decodes to zero.\<close>
theorem decode_hex_half_checked:
  assumes "is_hexdigit a" and "\<not> is_hexdigit b" and "b \<noteq> nul"
  shows "decode_hex 1 [a, b] junk = Some ([0xff], 1) \<and> decode_hex 1 [b, a] junk = Some ([0], 1)"
proof
  have eol: "of_char a \<noteq> (10 :: nat)" "of_char a \<noteq> (13 :: nat)"
    using assms(1) by (rule hexdigit_not_eol)+
  have b: "unhex0 b = -1" using assms(2) unhex0_range [of b] by (simp add: is_hexdigit_def)
  have v: "decode_hex1 a b = 0xff" by (simp add: decode_hex1_def unhex_def b)
  have ok: "is_hexstr [a, b] 1 = 1"
    using assms(1) by (simp add: is_hexstr_def is_hexdigit_def Let_def)
  have stop: "cmem_of [a, b] junk 2 = nul" and "cmem_of [a, b] junk 0 = a" "cmem_of [a, b] junk (Suc 0) = b"
    by (simp_all add: cmem_of_def)
  then show "decode_hex 1 [a, b] junk = Some ([0xff], 1)"
    using eol by (simp add: decode_hex_def ok v Let_def)
  show "decode_hex 1 [b, a] junk = Some ([0], 1)"
    using decode_hex_bad [of "[]" 1 b "[a]" junk] assms by simp
qed

theorem decode_hex_half_checked_witness:
  "decode_hex 1 ''0g'' (\<lambda>_. nul) = Some ([0xff], 1) \<and> decode_hex 1 ''g0'' (\<lambda>_. nul) = Some ([0], 1)"
proof (rule decode_hex_half_checked)
  show "is_hexdigit CHR ''0''" and "\<not> is_hexdigit CHR ''g''" and "CHR ''g'' \<noteq> nul" by code_simp+
qed

text \<open>The push encoding is read back: after the \<open>OP_RETURN\<close> byte, \<open>hush_scriptitemlen\<close> finds the
  length of type byte plus payload that \<open>hush_opreturnscript\<close> wrote, in each of the three forms, and
  the bytes after the prefix are the type and the payload.\<close>
theorem opreturnscript_roundtrip:
  assumes "length opret < 65535"
  shows "\<exists>k. hush_scriptitemlen (bmem_of (tl (fst (hush_opreturnscript type opret))) junk) =
             (int (length opret) + 1, k) \<and>
           drop k (tl (fst (hush_opreturnscript type opret))) = type # opret \<and>
           snd (hush_opreturnscript type opret) = int (length (fst (hush_opreturnscript type opret)))"
proof (intro exI conjI)
  let ?k = "if length opret + 1 < 0x4c then 1 else if length opret + 1 \<le> 0xff then 2 else 3"
  show "hush_scriptitemlen (bmem_of (tl (fst (hush_opreturnscript type opret))) junk) =
      (int (length opret) + 1, ?k)"
    by (rule scriptitem_opreturnscript [OF assms])
  show "drop ?k (tl (fst (hush_opreturnscript type opret))) = type # opret"
    by (auto simp: hush_opreturnscript_def Let_def)
  show "snd (hush_opreturnscript type opret) = int (length (fst (hush_opreturnscript type opret)))"
    by (auto simp: hush_opreturnscript_def Let_def)
qed

theorem opreturnscript_roundtrip_witness:
  "hush_opreturnscript 0x4b (replicate 80 7) = (0x6a # 0x4c # 81 # 0x4b # replicate 80 7, 84) \<and>
   (\<exists>k. hush_scriptitemlen (bmem_of (tl (fst (hush_opreturnscript 0x4b (replicate 80 7)))) (\<lambda>_. 0)) = (81, k))"
proof
  show "hush_opreturnscript 0x4b (replicate 80 7) = (0x6a # 0x4c # 81 # 0x4b # replicate 80 7, 84)"
    by (simp add: hush_opreturnscript_def)
  show "\<exists>k. hush_scriptitemlen (bmem_of (tl (fst (hush_opreturnscript 0x4b (replicate 80 7)))) (\<lambda>_. 0)) = (81, k)"
    using opreturnscript_roundtrip [of "replicate 80 7" "0x4b" "\<lambda>_. 0"] by auto
qed

end
