(* ===== verification/Hush_Digest.thy ===== *)
theory Hush_Digest
  imports Hush_Codec
begin

text \<open>
  The digests of \<open>src/src/hush_utils.h\<close>: SHA-256, RIPEMD-160, their compositions and CRC-32. The two
  hashes share the buffering loop (\<open>sha256_vprocess\<close> is written out, \<open>rmd160_vprocess\<close> comes
  from the macro \<open>HASH_PROCESS\<close>) and the padding (\<open>_vdone\<close>); the loop is modelled once, with
  the compression function as its argument, as the macro has it. The locale \<open>block_hash\<close> proves once
  that a hash built this way is the Merkle-Damgard iteration over the padded message, however
  the message is cut into pieces; it is interpreted for both hashes. CRC-32 is shown equal to
  the bit-serial definition its table was computed from.
\<close>

section \<open>State and word access\<close>

text \<open>\<open>struct sha256_vstate\<close> and \<open>struct rmd160_vstate\<close>, which have the same members.\<close>

record hash_vstate =
  md_length :: u64
  md_state :: "u32 list"
  md_curlen :: nat
  md_buf :: buffer

definition LOAD32H :: "buffer \<Rightarrow> u32" where
  "LOAD32H y = push_bit 24 (ucast (y ! 0)) OR push_bit 16 (ucast (y ! 1)) OR
     push_bit 8 (ucast (y ! 2)) OR ucast (y ! 3)"

definition LOAD32L :: "buffer \<Rightarrow> u32" where
  "LOAD32L y = push_bit 24 (ucast (y ! 3)) OR push_bit 16 (ucast (y ! 2)) OR
     push_bit 8 (ucast (y ! 1)) OR ucast (y ! 0)"

definition STORE32H :: "u32 \<Rightarrow> buffer" where
  "STORE32H x = [ucast (drop_bit 24 x), ucast (drop_bit 16 x), ucast (drop_bit 8 x), ucast x]"

definition STORE32L :: "u32 \<Rightarrow> buffer" where
  "STORE32L x = [ucast x, ucast (drop_bit 8 x), ucast (drop_bit 16 x), ucast (drop_bit 24 x)]"

definition STORE64H :: "u64 \<Rightarrow> buffer" where
  "STORE64H x = [ucast (drop_bit 56 x), ucast (drop_bit 48 x), ucast (drop_bit 40 x),
     ucast (drop_bit 32 x), ucast (drop_bit 24 x), ucast (drop_bit 16 x), ucast (drop_bit 8 x),
     ucast x]"

definition STORE64L :: "u64 \<Rightarrow> buffer" where
  "STORE64L x = [ucast x, ucast (drop_bit 8 x), ucast (drop_bit 16 x), ucast (drop_bit 24 x),
     ucast (drop_bit 32 x), ucast (drop_bit 40 x), ucast (drop_bit 48 x), ucast (drop_bit 56 x)]"

text \<open>\<open>memcpy(buf + off,data,n)\<close> within the buffer.\<close>

definition buf_write :: "buffer \<Rightarrow> nat \<Rightarrow> buffer \<Rightarrow> buffer" where
  "buf_write buf off data = take off buf @ data @ drop (off + length data) buf"

section \<open>SHA-256\<close>

definition RORc :: "u32 \<Rightarrow> nat \<Rightarrow> u32" where
  "RORc x y = drop_bit y x OR push_bit (32 - y) x"

definition Ch :: "u32 \<Rightarrow> u32 \<Rightarrow> u32 \<Rightarrow> u32" where
  "Ch x y z = z XOR (x AND (y XOR z))"

definition Maj :: "u32 \<Rightarrow> u32 \<Rightarrow> u32 \<Rightarrow> u32" where
  "Maj x y z = ((x OR y) AND z) OR (x AND y)"

definition Sigma0 :: "u32 \<Rightarrow> u32" where
  "Sigma0 x = RORc x 2 XOR RORc x 13 XOR RORc x 22"

definition Sigma1 :: "u32 \<Rightarrow> u32" where
  "Sigma1 x = RORc x 6 XOR RORc x 11 XOR RORc x 25"

definition Gamma0 :: "u32 \<Rightarrow> u32" where
  "Gamma0 x = RORc x 7 XOR RORc x 18 XOR drop_bit 3 x"

definition Gamma1 :: "u32 \<Rightarrow> u32" where
  "Gamma1 x = RORc x 17 XOR RORc x 19 XOR drop_bit 10 x"

text \<open>The schedule \<open>W[0..63]\<close>, grown to the right.\<close>

definition sha256_schedule :: "buffer \<Rightarrow> u32 list" where
  "sha256_schedule buf =
     fold (\<lambda>i W. W @ [Gamma1 (W ! (i - 2)) + W ! (i - 7) + Gamma0 (W ! (i - 15)) + W ! (i - 16)])
       [16..<64] (map (\<lambda>i. LOAD32H (drop (4 * i) buf)) [0..<16])"

text \<open>The arguments \<open>i\<close> and \<open>ki\<close> of the 64 lines \<open>RND(...)\<close>.\<close>

definition sha256_K :: "u32 list" where
  "sha256_K = map snd
     [(0 :: nat, 0x428a2f98), (1, 0x71374491), (2, 0xb5c0fbcf), (3, 0xe9b5dba5), (4, 0x3956c25b),
      (5, 0x59f111f1), (6, 0x923f82a4), (7, 0xab1c5ed5), (8, 0xd807aa98), (9, 0x12835b01),
      (10, 0x243185be), (11, 0x550c7dc3), (12, 0x72be5d74), (13, 0x80deb1fe), (14, 0x9bdc06a7),
      (15, 0xc19bf174), (16, 0xe49b69c1), (17, 0xefbe4786), (18, 0x0fc19dc6), (19, 0x240ca1cc),
      (20, 0x2de92c6f), (21, 0x4a7484aa), (22, 0x5cb0a9dc), (23, 0x76f988da), (24, 0x983e5152),
      (25, 0xa831c66d), (26, 0xb00327c8), (27, 0xbf597fc7), (28, 0xc6e00bf3), (29, 0xd5a79147),
      (30, 0x06ca6351), (31, 0x14292967), (32, 0x27b70a85), (33, 0x2e1b2138), (34, 0x4d2c6dfc),
      (35, 0x53380d13), (36, 0x650a7354), (37, 0x766a0abb), (38, 0x81c2c92e), (39, 0x92722c85),
      (40, 0xa2bfe8a1), (41, 0xa81a664b), (42, 0xc24b8b70), (43, 0xc76c51a3), (44, 0xd192e819),
      (45, 0xd6990624), (46, 0xf40e3585), (47, 0x106aa070), (48, 0x19a4c116), (49, 0x1e376c08),
      (50, 0x2748774c), (51, 0x34b0bcb5), (52, 0x391c0cb3), (53, 0x4ed8aa4a), (54, 0x5b9cca4f),
      (55, 0x682e6ff3), (56, 0x748f82ee), (57, 0x78a5636f), (58, 0x84c87814), (59, 0x8cc70208),
      (60, 0x90befffa), (61, 0xa4506ceb), (62, 0xbef9a3f7), (63, 0xc67178f2)]"

text \<open>
  Line \<open>i\<close> of the unrolled rounds names its registers \<open>S[-i mod 8], S[1-i mod 8], ...\<close> and
  assigns to the ones in the roles \<open>d\<close> and \<open>h\<close>.
\<close>

definition sha256_RND :: "u32 list \<Rightarrow> nat \<Rightarrow> u32 list \<Rightarrow> u32 list" where
  "sha256_RND W i S =
     (let r = (\<lambda>j. (j + 64 - i) mod 8);
          t0 = S ! r 7 + Sigma1 (S ! r 4) + Ch (S ! r 4) (S ! r 5) (S ! r 6) + sha256_K ! i + W ! i;
          t1 = Sigma0 (S ! r 0) + Maj (S ! r 0) (S ! r 1) (S ! r 2)
      in S[r 3 := S ! r 3 + t0, r 7 := t0 + t1])"

definition sha256_vcompress :: "u32 list \<Rightarrow> buffer \<Rightarrow> u32 list" where
  "sha256_vcompress state buf =
     (let W = sha256_schedule buf;
          S = fold (sha256_RND W) [0..<64] (take 8 state)
      in map (\<lambda>i. state ! i + S ! i) [0..<8])"

definition sha256_init_state :: "u32 list" where
  "sha256_init_state =
     [0x6A09E667, 0xBB67AE85, 0x3C6EF372, 0xA54FF53A, 0x510E527F, 0x9B05688C, 0x1F83D9AB, 0x5BE0CD19]"

text \<open>\<open>sha256_vinit\<close> leaves \<open>buf\<close> as it finds it on the stack.\<close>

definition sha256_vinit :: "buffer \<Rightarrow> hash_vstate" where
  "sha256_vinit stack_buf =
     \<lparr>md_length = 0, md_state = sha256_init_state, md_curlen = 0, md_buf = stack_buf\<rparr>"

section \<open>The buffering loop and the padding\<close>

text \<open>
  The body of \<open>sha256_vprocess\<close> and of \<open>HASH_PROCESS\<close>; \<open>None\<close> is the error return -1. The
  compression functions always return 0.
\<close>

function hash_vloop :: "(u32 list \<Rightarrow> buffer \<Rightarrow> u32 list) \<Rightarrow> hash_vstate \<Rightarrow> buffer \<Rightarrow> hash_vstate" where
  "hash_vloop compress md inp =
     (if inp = [] \<or> 64 < md_curlen md then md
      else if md_curlen md = 0 \<and> 64 \<le> length inp
      then hash_vloop compress
             (md\<lparr>md_state := compress (md_state md) (take 64 inp), md_length := md_length md + 64 * 8\<rparr>)
             (drop 64 inp)
      else
        let n = min (length inp) (64 - md_curlen md);
            md = md\<lparr>md_buf := buf_write (md_buf md) (md_curlen md) (take n inp),
                    md_curlen := md_curlen md + n\<rparr>;
            md = (if md_curlen md = 64
                  then md\<lparr>md_state := compress (md_state md) (md_buf md),
                          md_length := md_length md + 8 * 64, md_curlen := 0\<rparr>
                  else md)
        in hash_vloop compress md (drop n inp))"
  by pat_completeness auto
termination
  by (relation "measure (\<lambda>(c, md, inp). 2 * length inp + (if md_curlen md = 64 then 1 else 0))")
    (auto simp: Let_def min_def split: if_splits)

declare hash_vloop.simps [simp del]

definition hash_vprocess ::
    "(u32 list \<Rightarrow> buffer \<Rightarrow> u32 list) \<Rightarrow> hash_vstate \<Rightarrow> buffer \<Rightarrow> hash_vstate option" where
  "hash_vprocess compress md inp =
     (if md_curlen md > 64 then None else Some (hash_vloop compress md inp))"

definition sha256_vprocess :: "hash_vstate \<Rightarrow> buffer \<Rightarrow> hash_vstate option" where
  "sha256_vprocess = hash_vprocess sha256_vcompress"

text \<open>
  \<open>sha256_vdone\<close> and \<open>rmd160_vdone\<close> differ in the byte order of the length and of the output.
\<close>

definition hash_vdone ::
    "(u32 list \<Rightarrow> buffer \<Rightarrow> u32 list) \<Rightarrow> (u64 \<Rightarrow> buffer) \<Rightarrow> hash_vstate \<Rightarrow> u32 list option" where
  "hash_vdone compress store64 md =
     (if md_curlen md \<ge> 64 then None
      else
        let len = md_length md + word_of_nat (md_curlen md * 8);
            buf = buf_write (md_buf md) (md_curlen md) [0x80];
            cur = md_curlen md + 1;
            (st, buf, cur) =
              (if cur > 56
               then (let buf = buf_write buf cur (replicate (64 - cur) 0)
                     in (compress (md_state md) buf, buf, 0))
               else (md_state md, buf, cur));
            buf = buf_write buf cur (replicate (56 - cur) 0);
            buf = buf_write buf 56 (store64 len)
        in Some (compress st buf))"

definition sha256_vdone :: "hash_vstate \<Rightarrow> buffer option" where
  "sha256_vdone md =
     map_option (\<lambda>st. concat (map (\<lambda>i. STORE32H (st ! i)) [0..<8]))
       (hash_vdone sha256_vcompress STORE64H md)"

definition vcalc_sha256 :: "buffer \<Rightarrow> buffer \<Rightarrow> buffer option" where
  "vcalc_sha256 stack_buf src =
     Option.bind (sha256_vprocess (sha256_vinit stack_buf) src) sha256_vdone"

text \<open>The double hash, stored byte-reversed.\<close>

definition bits256_doublesha256 :: "buffer \<Rightarrow> buffer \<Rightarrow> buffer option" where
  "bits256_doublesha256 stack_buf data =
     Option.bind (vcalc_sha256 stack_buf data)
       (\<lambda>hash. map_option rev (vcalc_sha256 stack_buf hash))"

section \<open>RIPEMD-160\<close>

datatype rmd_op = RmdF | RmdG | RmdH | RmdI | RmdJ

fun rmd_f :: "rmd_op \<Rightarrow> u32 \<Rightarrow> u32 \<Rightarrow> u32 \<Rightarrow> u32" where
  "rmd_f RmdF x y z = x XOR y XOR z"
| "rmd_f RmdG x y z = (x AND y) OR (NOT x AND z)"
| "rmd_f RmdH x y z = (x OR NOT y) XOR z"
| "rmd_f RmdI x y z = (x AND z) OR (y AND NOT z)"
| "rmd_f RmdJ x y z = x XOR (y OR NOT z)"

definition ROLc :: "u32 \<Rightarrow> nat \<Rightarrow> u32" where
  "ROLc x y = push_bit y x OR drop_bit (32 - y) x"

text \<open>
  The ten macros \<open>FF\<close> to \<open>JJJ\<close> are one step with a function and a constant; line \<open>i\<close> names its
  registers \<open>-i, 1-i, ..., 4-i\<close> modulo 5.
\<close>

definition rmd_step :: "u32 list \<Rightarrow> nat \<times> rmd_op \<times> u32 \<times> nat \<times> nat \<Rightarrow> u32 list \<Rightarrow> u32 list" where
  "rmd_step X = (\<lambda>(i, f, k, x, s) R.
     (let r = (\<lambda>j. (j + 80 - i) mod 5);
          a = R ! r 0 + (rmd_f f (R ! r 1) (R ! r 2) (R ! r 3) + X ! x + k);
          a = ROLc a s + R ! r 4
      in R[r 0 := a, r 2 := ROLc (R ! r 2) 10]))"

definition rmd_lines :: "(rmd_op \<times> u32 \<times> (nat \<times> nat) list) list \<Rightarrow> (nat \<times> rmd_op \<times> u32 \<times> nat \<times> nat) list" where
  "rmd_lines gs =
     (let ls = concat (map (\<lambda>(f, k, xs). map (\<lambda>(x, s). (f, k, x, s)) xs) gs)
      in zip [0..<length ls] ls)"

definition rmd160_rounds :: "(rmd_op \<times> u32 \<times> (nat \<times> nat) list) list" where
  "rmd160_rounds =
     [
      (RmdF, 0,
       [(0, 11), (1, 14), (2, 15), (3, 12), (4, 5), (5, 8), (6, 7), (7, 9), (8, 11), (9, 13), (10, 14), (11, 15), (12, 6), (13, 7), (14, 9), (15, 8)]),
      (RmdG, 0x5a827999,
       [(7, 7), (4, 6), (13, 8), (1, 13), (10, 11), (6, 9), (15, 7), (3, 15), (12, 7), (0, 12), (9, 15), (5, 9), (2, 11), (14, 7), (11, 13), (8, 12)]),
      (RmdH, 0x6ed9eba1,
       [(3, 11), (10, 13), (14, 6), (4, 7), (9, 14), (15, 9), (8, 13), (1, 15), (2, 14), (7, 8), (0, 13), (6, 6), (13, 5), (11, 12), (5, 7), (12, 5)]),
      (RmdI, 0x8f1bbcdc,
       [(1, 11), (9, 12), (11, 14), (10, 15), (0, 14), (8, 15), (12, 9), (4, 8), (13, 9), (3, 14), (7, 5), (15, 6), (14, 8), (5, 6), (6, 5), (2, 12)]),
      (RmdJ, 0xa953fd4e,
       [(4, 9), (0, 15), (5, 5), (9, 11), (7, 6), (12, 8), (2, 13), (10, 12), (14, 5), (1, 12), (3, 13), (8, 14), (11, 11), (6, 8), (15, 5), (13, 6)])]"

definition rmd160_parallel_rounds :: "(rmd_op \<times> u32 \<times> (nat \<times> nat) list) list" where
  "rmd160_parallel_rounds =
     [
      (RmdJ, 0x50a28be6,
       [(5, 8), (14, 9), (7, 9), (0, 11), (9, 13), (2, 15), (11, 15), (4, 5), (13, 7), (6, 7), (15, 8), (8, 11), (1, 14), (10, 14), (3, 12), (12, 6)]),
      (RmdI, 0x5c4dd124,
       [(6, 9), (11, 13), (3, 15), (7, 7), (0, 12), (13, 8), (5, 9), (10, 11), (14, 7), (15, 7), (8, 12), (12, 7), (4, 6), (9, 15), (1, 13), (2, 11)]),
      (RmdH, 0x6d703ef3,
       [(15, 9), (5, 7), (1, 15), (3, 11), (7, 8), (14, 6), (6, 6), (9, 14), (11, 12), (8, 13), (12, 5), (2, 14), (10, 13), (0, 13), (4, 7), (13, 5)]),
      (RmdG, 0x7a6d76e9,
       [(8, 15), (6, 5), (4, 8), (1, 11), (3, 14), (11, 14), (15, 6), (0, 14), (5, 6), (12, 9), (2, 12), (13, 9), (9, 12), (7, 5), (10, 15), (14, 8)]),
      (RmdF, 0,
       [(12, 8), (15, 5), (10, 12), (4, 9), (1, 12), (5, 5), (8, 14), (7, 6), (6, 8), (2, 13), (13, 6), (14, 5), (0, 15), (3, 13), (9, 11), (11, 11)])]"

definition rmd160_vcompress :: "u32 list \<Rightarrow> buffer \<Rightarrow> u32 list" where
  "rmd160_vcompress state buf =
     (let X = map (\<lambda>i. LOAD32L (drop (4 * i) buf)) [0..<16];
          L = fold (rmd_step X) (rmd_lines rmd160_rounds) (take 5 state);
          R = fold (rmd_step X) (rmd_lines rmd160_parallel_rounds) (take 5 state);
          ddd = R ! 3 + (L ! 2 + state ! 1)
      in [ddd, state ! 2 + L ! 3 + R ! 4, state ! 3 + L ! 4 + R ! 0,
          state ! 4 + L ! 0 + R ! 1, state ! 0 + L ! 1 + R ! 2])"

definition rmd160_init_state :: "u32 list" where
  "rmd160_init_state = [0x67452301, 0xefcdab89, 0x98badcfe, 0x10325476, 0xc3d2e1f0]"

definition rmd160_vinit :: "buffer \<Rightarrow> hash_vstate" where
  "rmd160_vinit stack_buf =
     \<lparr>md_length = 0, md_state = rmd160_init_state, md_curlen = 0, md_buf = stack_buf\<rparr>"

definition rmd160_vprocess :: "hash_vstate \<Rightarrow> buffer \<Rightarrow> hash_vstate option" where
  "rmd160_vprocess = hash_vprocess rmd160_vcompress"

definition rmd160_vdone :: "hash_vstate \<Rightarrow> buffer option" where
  "rmd160_vdone md =
     map_option (\<lambda>st. concat (map (\<lambda>i. STORE32L (st ! i)) [0..<5]))
       (hash_vdone rmd160_vcompress STORE64L md)"

definition calc_rmd160 :: "buffer \<Rightarrow> buffer \<Rightarrow> buffer option" where
  "calc_rmd160 stack_buf msg =
     Option.bind (rmd160_vprocess (rmd160_vinit stack_buf) msg) rmd160_vdone"

definition calc_rmd160_sha256 :: "buffer \<Rightarrow> buffer \<Rightarrow> buffer option" where
  "calc_rmd160_sha256 stack_buf data =
     Option.bind (vcalc_sha256 stack_buf data) (calc_rmd160 stack_buf)"

section \<open>CRC-32\<close>

definition crc32_tab :: "u32 list" where
  "crc32_tab =
     [0x00000000, 0x77073096, 0xee0e612c, 0x990951ba, 0x076dc419, 0x706af48f,
      0xe963a535, 0x9e6495a3, 0x0edb8832, 0x79dcb8a4, 0xe0d5e91e, 0x97d2d988,
      0x09b64c2b, 0x7eb17cbd, 0xe7b82d07, 0x90bf1d91, 0x1db71064, 0x6ab020f2,
      0xf3b97148, 0x84be41de, 0x1adad47d, 0x6ddde4eb, 0xf4d4b551, 0x83d385c7,
      0x136c9856, 0x646ba8c0, 0xfd62f97a, 0x8a65c9ec, 0x14015c4f, 0x63066cd9,
      0xfa0f3d63, 0x8d080df5, 0x3b6e20c8, 0x4c69105e, 0xd56041e4, 0xa2677172,
      0x3c03e4d1, 0x4b04d447, 0xd20d85fd, 0xa50ab56b, 0x35b5a8fa, 0x42b2986c,
      0xdbbbc9d6, 0xacbcf940, 0x32d86ce3, 0x45df5c75, 0xdcd60dcf, 0xabd13d59,
      0x26d930ac, 0x51de003a, 0xc8d75180, 0xbfd06116, 0x21b4f4b5, 0x56b3c423,
      0xcfba9599, 0xb8bda50f, 0x2802b89e, 0x5f058808, 0xc60cd9b2, 0xb10be924,
      0x2f6f7c87, 0x58684c11, 0xc1611dab, 0xb6662d3d, 0x76dc4190, 0x01db7106,
      0x98d220bc, 0xefd5102a, 0x71b18589, 0x06b6b51f, 0x9fbfe4a5, 0xe8b8d433,
      0x7807c9a2, 0x0f00f934, 0x9609a88e, 0xe10e9818, 0x7f6a0dbb, 0x086d3d2d,
      0x91646c97, 0xe6635c01, 0x6b6b51f4, 0x1c6c6162, 0x856530d8, 0xf262004e,
      0x6c0695ed, 0x1b01a57b, 0x8208f4c1, 0xf50fc457, 0x65b0d9c6, 0x12b7e950,
      0x8bbeb8ea, 0xfcb9887c, 0x62dd1ddf, 0x15da2d49, 0x8cd37cf3, 0xfbd44c65,
      0x4db26158, 0x3ab551ce, 0xa3bc0074, 0xd4bb30e2, 0x4adfa541, 0x3dd895d7,
      0xa4d1c46d, 0xd3d6f4fb, 0x4369e96a, 0x346ed9fc, 0xad678846, 0xda60b8d0,
      0x44042d73, 0x33031de5, 0xaa0a4c5f, 0xdd0d7cc9, 0x5005713c, 0x270241aa,
      0xbe0b1010, 0xc90c2086, 0x5768b525, 0x206f85b3, 0xb966d409, 0xce61e49f,
      0x5edef90e, 0x29d9c998, 0xb0d09822, 0xc7d7a8b4, 0x59b33d17, 0x2eb40d81,
      0xb7bd5c3b, 0xc0ba6cad, 0xedb88320, 0x9abfb3b6, 0x03b6e20c, 0x74b1d29a,
      0xead54739, 0x9dd277af, 0x04db2615, 0x73dc1683, 0xe3630b12, 0x94643b84,
      0x0d6d6a3e, 0x7a6a5aa8, 0xe40ecf0b, 0x9309ff9d, 0x0a00ae27, 0x7d079eb1,
      0xf00f9344, 0x8708a3d2, 0x1e01f268, 0x6906c2fe, 0xf762575d, 0x806567cb,
      0x196c3671, 0x6e6b06e7, 0xfed41b76, 0x89d32be0, 0x10da7a5a, 0x67dd4acc,
      0xf9b9df6f, 0x8ebeeff9, 0x17b7be43, 0x60b08ed5, 0xd6d6a3e8, 0xa1d1937e,
      0x38d8c2c4, 0x4fdff252, 0xd1bb67f1, 0xa6bc5767, 0x3fb506dd, 0x48b2364b,
      0xd80d2bda, 0xaf0a1b4c, 0x36034af6, 0x41047a60, 0xdf60efc3, 0xa867df55,
      0x316e8eef, 0x4669be79, 0xcb61b38c, 0xbc66831a, 0x256fd2a0, 0x5268e236,
      0xcc0c7795, 0xbb0b4703, 0x220216b9, 0x5505262f, 0xc5ba3bbe, 0xb2bd0b28,
      0x2bb45a92, 0x5cb36a04, 0xc2d7ffa7, 0xb5d0cf31, 0x2cd99e8b, 0x5bdeae1d,
      0x9b64c2b0, 0xec63f226, 0x756aa39c, 0x026d930a, 0x9c0906a9, 0xeb0e363f,
      0x72076785, 0x05005713, 0x95bf4a82, 0xe2b87a14, 0x7bb12bae, 0x0cb61b38,
      0x92d28e9b, 0xe5d5be0d, 0x7cdcefb7, 0x0bdbdf21, 0x86d3d2d4, 0xf1d4e242,
      0x68ddb3f8, 0x1fda836e, 0x81be16cd, 0xf6b9265b, 0x6fb077e1, 0x18b74777,
      0x88085ae6, 0xff0f6a70, 0x66063bca, 0x11010b5c, 0x8f659eff, 0xf862ae69,
      0x616bffd3, 0x166ccf45, 0xa00ae278, 0xd70dd2ee, 0x4e048354, 0x3903b3c2,
      0xa7672661, 0xd06016f7, 0x4969474d, 0x3e6e77db, 0xaed16a4a, 0xd9d65adc,
      0x40df0b66, 0x37d83bf0, 0xa9bcae53, 0xdebb9ec5, 0x47b2cf7f, 0x30b5ffe9,
      0xbdbdf21c, 0xcabac28a, 0x53b39330, 0x24b4a3a6, 0xbad03605, 0xcdd70693,
      0x54de5729, 0x23d967bf, 0xb3667a2e, 0xc4614ab8, 0x5d681b02, 0x2a6f2b94,
      0xb40bbe37, 0xc30c8ea1, 0x5a05df1b, 0x2d02ef8d]"

definition calc_crc32 :: "u32 \<Rightarrow> buffer \<Rightarrow> u32" where
  "calc_crc32 crc buf =
     fold (\<lambda>p crc. crc32_tab ! unat ((crc XOR ucast p) AND 0xFF) XOR drop_bit 8 crc) buf (crc XOR NOT 0)
       XOR NOT 0"

section \<open>Reference: Merkle-Damgard over the padded message\<close>

function blocks_fold :: "(u32 list \<Rightarrow> buffer \<Rightarrow> u32 list) \<Rightarrow> u32 list \<Rightarrow> buffer \<Rightarrow> u32 list" where
  "blocks_fold c st bs = (if length bs < 64 then st else blocks_fold c (c st (take 64 bs)) (drop 64 bs))"
  by pat_completeness auto
termination
  by (relation "measure (\<lambda>(c, st, bs). length bs)") auto

declare blocks_fold.simps [simp del]

definition hash_pad :: "(u64 \<Rightarrow> buffer) \<Rightarrow> buffer \<Rightarrow> buffer" where
  "hash_pad store64 m =
     m @ 0x80 # replicate ((119 - length m mod 64) mod 64) 0 @ store64 (word_of_nat (8 * length m))"

lemma blocks_fold_short: "length bs < 64 \<Longrightarrow> blocks_fold c st bs = st"
  by (simp add: blocks_fold.simps [of c st bs])

lemma blocks_fold_append:
  "64 dvd length a \<Longrightarrow> blocks_fold c st (a @ b) = blocks_fold c (blocks_fold c st a) b"
proof (induction c st a rule: blocks_fold.induct)
  case (1 c st a)
  show ?case
  proof (cases "length a < 64")
    case True
    with "1.prems" have "a = []" by (auto dest: dvd_imp_le)
    then show ?thesis by (simp add: blocks_fold_short)
  next
    case False
    then have "64 dvd length (drop 64 a)"
      using "1.prems" by (auto intro: dvd_diff_nat)
    with "1.IH" False have "blocks_fold c (c st (take 64 a)) (drop 64 a @ b)
        = blocks_fold c (blocks_fold c (c st (take 64 a)) (drop 64 a)) b" by simp
    then show ?thesis
      using False by (simp add: blocks_fold.simps [of c st a] blocks_fold.simps [of c st "a @ b"])
  qed
qed

lemma blocks_fold_one: "length b = 64 \<Longrightarrow> blocks_fold c st b = c st b"
  by (simp add: blocks_fold.simps [of c st b] blocks_fold_short)

lemma blocks_fold_trailing:
  "blocks_fold c st m = blocks_fold c st (take (64 * (length m div 64)) m)"
proof -
  let ?k = "64 * (length m div 64)"
  have "blocks_fold c st (take ?k m @ drop ?k m) = blocks_fold c (blocks_fold c st (take ?k m)) (drop ?k m)"
    by (rule blocks_fold_append) (simp add: min_absorb2)
  moreover have "length (drop ?k m) < 64"
    by (simp add: minus_mult_div_eq_mod)
  ultimately show ?thesis by (simp add: blocks_fold_short)
qed

lemma block_split: "(a :: nat) + b = (a mod 64 + b) + 64 * (a div 64)"
  by simp

lemma block_fill:
  assumes "(a :: nat) mod 64 + b < 64"
  shows "(a + b) div 64 = a div 64 \<and> (a + b) mod 64 = a mod 64 + b"
  using assms unfolding block_split [of a b] by (simp only: div_mult_self2 mod_mult_self2) simp

lemma block_complete:
  assumes "(a :: nat) mod 64 + b = 64"
  shows "(a + b) div 64 = a div 64 + 1 \<and> (a + b) mod 64 = 0"
  using assms unfolding block_split [of a b] by (simp only: div_mult_self2 mod_mult_self2) simp

text \<open>Completing the last partial block of \<open>m\<close> feeds one more block to the iteration.\<close>

lemma blocks_fold_complete:
  assumes "length m mod 64 + length x = 64"
  shows "blocks_fold c st (m @ x) = c (blocks_fold c st m) (drop (64 * (length m div 64)) m @ x)"
proof -
  let ?k = "64 * (length m div 64)"
  have len: "length (drop ?k m @ x) = 64"
    using assms by (simp add: minus_mult_div_eq_mod)
  have "blocks_fold c st (take ?k m @ (drop ?k m @ x)) = c (blocks_fold c st (take ?k m)) (drop ?k m @ x)"
    using len by (subst blocks_fold_append) (simp_all add: blocks_fold_one min_absorb2)
  then have "blocks_fold c st (m @ x) = c (blocks_fold c st (take ?k m)) (drop ?k m @ x)"
    by (simp only: append_assoc [symmetric] append_take_drop_id)
  then show ?thesis unfolding blocks_fold_trailing [of c st m] .
qed

lemma buf_write_length: "off + length d \<le> length buf \<Longrightarrow> length (buf_write buf off d) = length buf"
  by (simp add: buf_write_def)

lemma take_buf_write:
  "off + length d \<le> length buf \<Longrightarrow> take (off + length d) (buf_write buf off d) = take off buf @ d"
  by (simp add: buf_write_def)

text \<open>What the hash state knows after the message \<open>m\<close> went in.\<close>

definition hash_repr ::
    "(u32 list \<Rightarrow> buffer \<Rightarrow> u32 list) \<Rightarrow> u32 list \<Rightarrow> hash_vstate \<Rightarrow> buffer \<Rightarrow> bool" where
  "hash_repr c st0 md m \<longleftrightarrow>
     md_curlen md = length m mod 64 \<and> length (md_buf md) = 64 \<and>
     take (md_curlen md) (md_buf md) = drop (64 * (length m div 64)) m \<and>
     md_state md = blocks_fold c st0 m \<and>
     md_length md = word_of_nat (512 * (length m div 64))"

lemma hash_repr_curlen: "hash_repr c st0 md m \<Longrightarrow> md_curlen md < 64"
  by (simp add: hash_repr_def)

lemma hash_repr_block:
  assumes r: "hash_repr c st0 md m" and "md_curlen md = 0" and x: "length x = 64"
  shows "hash_repr c st0 (md\<lparr>md_state := c (md_state md) x, md_length := md_length md + 512\<rparr>) (m @ x)"
proof -
  have d: "64 dvd length m" using r assms(2) by (simp add: hash_repr_def dvd_eq_mod_eq_0)
  then have "(length m + 64) div 64 = length m div 64 + 1" by simp
  then show ?thesis
    using assms d by (simp add: hash_repr_def blocks_fold_append blocks_fold_one algebra_simps)
qed

lemma hash_repr_fill:
  assumes r: "hash_repr c st0 md m" and x: "md_curlen md + length x < 64"
  shows "hash_repr c st0
     (md\<lparr>md_buf := buf_write (md_buf md) (md_curlen md) x, md_curlen := md_curlen md + length x\<rparr>) (m @ x)"
proof -
  let ?q = "length m div 64"
  have c: "md_curlen md = length m mod 64" using r by (simp add: hash_repr_def)
  have q: "length (m @ x) div 64 = ?q" and m: "length (m @ x) mod 64 = length m mod 64 + length x"
    using x c block_fill [of "length m" "length x"] by simp_all
  have le: "64 * ?q \<le> length m" by simp
  have s: "blocks_fold c st0 (m @ x) = blocks_fold c st0 m"
    using blocks_fold_trailing [of c st0 "m @ x"] blocks_fold_trailing [of c st0 m] q le by simp
  show ?thesis
    using r x c le unfolding hash_repr_def q m s
    by (simp add: buf_write_length take_buf_write)
qed

lemma hash_repr_complete:
  assumes r: "hash_repr c st0 md m" and x: "md_curlen md + length x = 64"
  defines "buf \<equiv> buf_write (md_buf md) (md_curlen md) x"
  shows "hash_repr c st0
     (md\<lparr>md_buf := buf, md_state := c (md_state md) buf, md_length := md_length md + 512, md_curlen := 0\<rparr>)
     (m @ x)"
proof -
  have c: "md_curlen md = length m mod 64" using r by (simp add: hash_repr_def)
  have q: "length (m @ x) div 64 = length m div 64 + 1" and m: "length (m @ x) mod 64 = 0"
    using x c block_complete [of "length m" "length x"] by simp_all
  have le: "64 * (length m div 64 + 1) = length (m @ x)"
    using q m by (metis add.right_neutral mult_div_mod_eq)
  have buf: "buf = drop (64 * (length m div 64)) m @ x"
    using r x unfolding buf_def hash_repr_def buf_write_def by simp metis
  have "blocks_fold c st0 (m @ x) = c (blocks_fold c st0 m) buf"
    unfolding buf using x c by (intro blocks_fold_complete) simp
  moreover have "length buf = 64" using buf x c by (simp add: minus_mult_div_eq_mod)
  moreover have "(word_of_nat (512 * (k + 1)) :: u64) = word_of_nat (512 * k) + 512" for k
    by (simp add: algebra_simps)
  ultimately show ?thesis
    using r unfolding hash_repr_def q m le by simp
qed

lemma hash_vloop_repr:
  "hash_repr c st0 md m \<Longrightarrow> hash_repr c st0 (hash_vloop c md inp) (m @ inp)"
proof (induction c md inp arbitrary: m rule: hash_vloop.induct)
  case (1 c md inp)
  note cur = hash_repr_curlen [OF "1.prems"]
  consider "inp = []" | "inp \<noteq> []" "md_curlen md = 0" "64 \<le> length inp"
    | "inp \<noteq> []" "\<not> (md_curlen md = 0 \<and> 64 \<le> length inp)" by metis
  then show ?case
  proof cases
    case 1
    then show ?thesis using "1.prems" by (simp add: hash_vloop.simps [of c md "[]"])
  next
    case 2
    from "1.prems" 2 have "hash_repr c st0
        (md\<lparr>md_state := c (md_state md) (take 64 inp), md_length := md_length md + 512\<rparr>) (m @ take 64 inp)"
      by (intro hash_repr_block) simp_all
    with "1.IH"(1) [of "m @ take 64 inp"] 2 cur show ?thesis
      by (simp add: hash_vloop.simps [of c md inp])
  next
    case 3
    define n where "n = min (length inp) (64 - md_curlen md)"
    define x where "x = take n inp"
    have x: "length x = n" and n: "md_curlen md + n \<le> 64" using cur by (simp_all add: n_def x_def)
    define md1 where "md1 = md\<lparr>md_buf := buf_write (md_buf md) (md_curlen md) (take n inp),
        md_curlen := md_curlen md + n\<rparr>"
    define md' where "md' = (if md_curlen md1 = 64
        then md1\<lparr>md_state := c (md_state md1) (md_buf md1), md_length := md_length md1 + 8 * 64,
                 md_curlen := 0\<rparr> else md1)"
    have r: "hash_repr c st0 md' (m @ x)"
    proof (cases "md_curlen md + n = 64")
      case True
      then show ?thesis
        using hash_repr_complete [OF "1.prems", of x] x by (simp add: md'_def md1_def x_def)
    next
      case False
      then show ?thesis
        using hash_repr_fill [OF "1.prems", of x] x n by (simp add: md'_def md1_def x_def)
    qed
    have go: "\<not> (inp = [] \<or> 64 < md_curlen md)" using 3 cur by simp
    have "hash_vloop c md inp = hash_vloop c md' (drop n inp)"
      unfolding hash_vloop.simps [of c md inp] if_not_P [OF go] if_not_P [OF 3(2)]
      by (simp only: Let_def md'_def md1_def n_def)
    moreover have "hash_repr c st0 (hash_vloop c md' (drop n inp)) ((m @ x) @ drop n inp)"
      by (rule "1.IH"(2) [OF go 3(2) n_def md1_def md'_def r])
    ultimately show ?thesis by (simp add: x_def)
  qed
qed

text \<open>The buffer after the padding writes, when the length fits and when it does not.\<close>

lemma buf_write_at: "off = length u \<Longrightarrow> buf_write (u @ v) off d = u @ d @ drop (length d) v"
  by (simp add: buf_write_def)

lemma pad_fits:
  assumes "length buf = 64" and "take r buf = t" and "r < 56" and "length s = 8"
  shows "buf_write (buf_write (buf_write buf r [b]) (Suc r) (replicate (56 - Suc r) 0)) 56 s =
    t @ b # replicate (55 - r) 0 @ s"
proof -
  define v where "v = drop r buf"
  have v: "buf = t @ v" using assms(2) by (auto simp: v_def)
  have r: "length t = r" using assms(1-3) by auto
  have 1: "buf_write buf r [b] = (t @ [b]) @ drop 1 v"
    unfolding v using r by (subst buf_write_at) simp_all
  have 2: "buf_write ((t @ [b]) @ drop 1 v) (Suc r) (replicate (56 - Suc r) 0) =
      (t @ b # replicate (55 - r) 0) @ drop (56 - r) v"
    using r assms(3) Suc_diff_le [of r 55] by (subst buf_write_at) simp_all
  have 3: "buf_write ((t @ b # replicate (55 - r) 0) @ drop (56 - r) v) 56 s =
      (t @ b # replicate (55 - r) 0) @ s @ drop 8 (drop (56 - r) v)"
    using r assms(3,4) by (subst buf_write_at) simp_all
  have "length v = 64 - r" using assms(1) v r by simp
  then have "drop 8 (drop (56 - r) v) = []" using assms(3) by simp
  then show ?thesis unfolding 1 2 3 by simp
qed

lemma pad_spill:
  assumes "length buf = 64" and "take r buf = t" and "r < 64"
  shows "buf_write (buf_write buf r [b]) (Suc r) (replicate (64 - Suc r) 0) = t @ b # replicate (63 - r) 0"
proof -
  define v where "v = drop r buf"
  have v: "buf = t @ v" using assms(2) by (auto simp: v_def)
  have r: "length t = r" using assms by auto
  have 1: "buf_write buf r [b] = (t @ [b]) @ drop 1 v"
    unfolding v using r by (subst buf_write_at) simp_all
  have 2: "buf_write ((t @ [b]) @ drop 1 v) (Suc r) (replicate (64 - Suc r) 0) =
      (t @ b # replicate (63 - r) 0) @ drop (64 - r) v"
    using r assms(3) Suc_diff_le [of r 63] by (subst buf_write_at) simp_all
  have "length v = 64 - r" using assms(1) v r by simp
  then show ?thesis unfolding 1 2 by simp
qed

section \<open>Interface: a hash built on a compression function\<close>

locale block_hash =
  fixes compress :: "u32 list \<Rightarrow> buffer \<Rightarrow> u32 list"
    and store64 :: "u64 \<Rightarrow> buffer"
    and st0 :: "u32 list"
  assumes store64_length: "length (store64 x) = 8"
begin

text \<open>
  The padding loop, in both of its branches: the marker byte and the length fit into the
  current block, or a block of padding is compressed first.
\<close>

lemma vdone_pad:
  assumes r: "hash_repr compress st0 md m"
  shows "hash_vdone compress store64 md = Some (blocks_fold compress st0 (hash_pad store64 m))"
proof -
  let ?r = "length m mod 64" and ?t = "drop (64 * (length m div 64)) m"
  define len where "len = (word_of_nat (8 * length m) :: u64)"
  have cur: "md_curlen md = ?r" and buf: "length (md_buf md) = 64"
    and tk: "take ?r (md_buf md) = ?t" and st: "md_state md = blocks_fold compress st0 m"
    using r by (auto simp: hash_repr_def)
  have len: "md_length md + word_of_nat (md_curlen md * 8) = len"
  proof -
    have "8 * length m = 512 * (length m div 64) + ?r * 8"
      using mult_div_mod_eq [of 64 "length m"] by linarith
    then show ?thesis using r by (simp add: len_def hash_repr_def cur)
  qed
  have tl: "length ?t = ?r" by (simp add: minus_mult_div_eq_mod)
  show ?thesis
  proof (cases "?r < 56")
    case True
    then have "119 - ?r = 64 + (55 - ?r)" by simp
    then have n: "(119 - ?r) mod 64 = 55 - ?r" by (simp only: mod_add_self1) simp
    have "blocks_fold compress st0 (m @ 0x80 # replicate (55 - ?r) 0 @ store64 len) =
        compress (blocks_fold compress st0 m) (?t @ 0x80 # replicate (55 - ?r) 0 @ store64 len)"
      using True by (intro blocks_fold_complete) (simp add: store64_length)
    moreover have "buf_write (buf_write (buf_write (md_buf md) ?r [0x80]) (Suc ?r) (replicate (56 - Suc ?r) 0)) 56
        (store64 len) = ?t @ 0x80 # replicate (55 - ?r) 0 @ store64 len"
      using True buf tk by (intro pad_fits) (simp_all add: store64_length)
    ultimately show ?thesis
      using True len cur st by (simp add: hash_vdone_def hash_pad_def n Let_def len_def)
  next
    case False
    let ?p = "0x80 # replicate (63 - ?r) 0"
    have lt: "?r < 64" by simp
    then have n: "(119 - ?r) mod 64 = 119 - ?r" using False by simp
    have mp: "64 dvd length (m @ ?p)"
      using block_complete [of "length m" "length ?p"] lt by (simp add: dvd_eq_mod_eq_0)
    have "blocks_fold compress st0 (m @ ?p) = compress (blocks_fold compress st0 m) (?t @ ?p)"
      using lt by (intro blocks_fold_complete) simp
    then have "blocks_fold compress st0 ((m @ ?p) @ (replicate 56 0 @ store64 len)) =
        compress (compress (blocks_fold compress st0 m) (?t @ ?p)) (replicate 56 0 @ store64 len)"
      using mp by (subst blocks_fold_append) (simp_all add: blocks_fold_one store64_length)
    moreover have "hash_pad store64 m = (m @ ?p) @ (replicate 56 0 @ store64 len)"
      unfolding hash_pad_def n len_def [symmetric]
      using False lt by (simp add: replicate_add [symmetric])
    moreover have "hash_vdone compress store64 md =
        Some (compress (compress (blocks_fold compress st0 m) (?t @ ?p)) (replicate 56 0 @ store64 len))"
    proof -
      have b1: "buf_write (buf_write (md_buf md) ?r [0x80]) (Suc ?r) (replicate (64 - Suc ?r) 0) = ?t @ ?p"
        using buf tk lt by (intro pad_spill) simp_all
      have "length (?t @ ?p) = 64" using lt tl by simp
      then have b2: "buf_write (buf_write (?t @ ?p) 0 (replicate 56 0)) 56 (store64 len) = replicate 56 0 @ store64 len"
        using buf_write_at [of 0 "[]" "?t @ ?p" "replicate 56 0"]
          buf_write_at [of 56 "replicate 56 0" "drop 56 (?t @ ?p)" "store64 len"]
        by (simp add: store64_length del: append_assoc drop_append length_append length_Cons)
      show ?thesis
        using False lt len b1 b2 by (simp add: hash_vdone_def cur st Let_def)
    qed
    ultimately show ?thesis by simp
  qed
qed

text \<open>Hashing a message in one piece, or in any two, gives the iteration over its padding.\<close>

lemma hash_once:
  assumes "length stack_buf = 64"
  shows "Option.bind (hash_vprocess compress
      \<lparr>md_length = 0, md_state = st0, md_curlen = 0, md_buf = stack_buf\<rparr> m) (hash_vdone compress store64) =
    Some (blocks_fold compress st0 (hash_pad store64 m))"
proof -
  let ?md = "\<lparr>md_length = 0, md_state = st0, md_curlen = 0, md_buf = stack_buf\<rparr>"
  have "hash_repr compress st0 ?md []" using assms by (simp add: hash_repr_def blocks_fold_short)
  from hash_vloop_repr [OF this, of m] show ?thesis
    by (simp add: hash_vprocess_def vdone_pad)
qed

lemma hash_twice:
  assumes "length stack_buf = 64"
    and "hash_vprocess compress \<lparr>md_length = 0, md_state = st0, md_curlen = 0, md_buf = stack_buf\<rparr> a = Some md"
  shows "Option.bind (hash_vprocess compress md b) (hash_vdone compress store64) =
    Some (blocks_fold compress st0 (hash_pad store64 (a @ b)))"
proof -
  let ?md = "\<lparr>md_length = 0, md_state = st0, md_curlen = 0, md_buf = stack_buf\<rparr>"
  have "hash_repr compress st0 ?md []" using assms by (simp add: hash_repr_def blocks_fold_short)
  from hash_vloop_repr [OF this, of a] have r: "hash_repr compress st0 md a"
    using assms(2) by (simp add: hash_vprocess_def)
  have "\<not> 64 < md_curlen md" using hash_repr_curlen [OF r] by simp
  then show ?thesis using hash_vloop_repr [OF r, of b] by (simp add: hash_vprocess_def vdone_pad)
qed

end

interpretation sha256: block_hash sha256_vcompress STORE64H sha256_init_state
  by unfold_locales (simp add: STORE64H_def)

interpretation rmd160: block_hash rmd160_vcompress STORE64L rmd160_init_state
  by unfold_locales (simp add: STORE64L_def)

section \<open>CRC-32 against its bit-serial definition\<close>

definition crc_shift :: "u32 \<Rightarrow> u32" where
  "crc_shift c = (if bit c 0 then 0xEDB88320 XOR drop_bit 1 c else drop_bit 1 c)"

definition crc32_bitwise :: "u32 \<Rightarrow> buffer \<Rightarrow> u32" where
  "crc32_bitwise crc buf =
     fold (\<lambda>p crc. (crc_shift ^^ 8) (crc XOR ucast p)) buf (crc XOR NOT 0) XOR NOT 0"

definition crc8 :: "u32 \<Rightarrow> u32" where
  "crc8 c = crc_shift (crc_shift (crc_shift (crc_shift (crc_shift (crc_shift (crc_shift (crc_shift c)))))))"

lemma crc_shift_pow_8: "crc_shift ^^ 8 = crc8"
  by (rule ext) (simp add: crc8_def eval_nat_numeral)

lemma u32_upto_255: "map word_of_int [0..255] =
    ([0, 1, 2, 3, 4, 5, 6, 7, 8, 9, 10, 11, 12, 13, 14, 15, 16, 17, 18, 19, 20, 21, 22, 23, 24,
     25, 26, 27, 28, 29, 30, 31, 32, 33, 34, 35, 36, 37, 38, 39, 40, 41, 42, 43, 44, 45, 46, 47,
     48, 49, 50, 51, 52, 53, 54, 55, 56, 57, 58, 59, 60, 61, 62, 63, 64, 65, 66, 67, 68, 69, 70,
     71, 72, 73, 74, 75, 76, 77, 78, 79, 80, 81, 82, 83, 84, 85, 86, 87, 88, 89, 90, 91, 92, 93,
     94, 95, 96, 97, 98, 99, 100, 101, 102, 103, 104, 105, 106, 107, 108, 109, 110, 111, 112,
     113, 114, 115, 116, 117, 118, 119, 120, 121, 122, 123, 124, 125, 126, 127, 128, 129, 130,
     131, 132, 133, 134, 135, 136, 137, 138, 139, 140, 141, 142, 143, 144, 145, 146, 147, 148,
     149, 150, 151, 152, 153, 154, 155, 156, 157, 158, 159, 160, 161, 162, 163, 164, 165, 166,
     167, 168, 169, 170, 171, 172, 173, 174, 175, 176, 177, 178, 179, 180, 181, 182, 183, 184,
     185, 186, 187, 188, 189, 190, 191, 192, 193, 194, 195, 196, 197, 198, 199, 200, 201, 202,
     203, 204, 205, 206, 207, 208, 209, 210, 211, 212, 213, 214, 215, 216, 217, 218, 219, 220,
     221, 222, 223, 224, 225, 226, 227, 228, 229, 230, 231, 232, 233, 234, 235, 236, 237, 238,
     239, 240, 241, 242, 243, 244, 245, 246, 247, 248, 249, 250, 251, 252, 253, 254, 255] :: u32 list)"
  by (simp add: upto_rec1)

lemma crc32_tab_eq: "crc32_tab = map (crc_shift ^^ 8) (map word_of_int [0..255])"
  unfolding u32_upto_255 crc_shift_pow_8 by (simp add: crc32_tab_def crc8_def crc_shift_def)

lemma crc32_tab_nth: "n < 256 \<Longrightarrow> crc32_tab ! n = (crc_shift ^^ 8) (word_of_nat n)"
  unfolding crc32_tab_eq by (simp del: map_map)

text \<open>Shifting is linear, and the high bits only move.\<close>

lemma crc_shift_xor: "crc_shift (a XOR b) = crc_shift a XOR crc_shift b"
  by (cases "bit a 0"; cases "bit b 0")
    (simp_all add: crc_shift_def bit_xor_iff drop_bit_xor xor.assoc xor.left_commute xor.commute)

lemma crc_shift_pow_xor: "(crc_shift ^^ n) (a XOR b) = (crc_shift ^^ n) a XOR (crc_shift ^^ n) b"
  by (induction n arbitrary: a b) (simp_all add: crc_shift_xor)

lemma crc_shift_pow_high: "n \<le> k \<Longrightarrow> (crc_shift ^^ n) (push_bit k x) = drop_bit n (push_bit k x)"
proof (induction n)
  case 0
  then show ?case by simp
next
  case (Suc n)
  then have "\<not> bit (drop_bit n (push_bit k x)) 0" by (simp add: bit_simps)
  moreover have "drop_bit 1 (drop_bit n (push_bit k x)) = drop_bit (Suc n) (push_bit k x)"
    by (simp add: drop_bit_drop_bit)
  ultimately show ?case using Suc by (simp add: crc_shift_def)
qed

lemma crc_step:
  "crc32_tab ! unat (c AND 0xFF) XOR drop_bit 8 c = (crc_shift ^^ 8) c"
proof -
  have lo: "c AND 0xFF = take_bit 8 c" by (simp add: take_bit_eq_mask mask_eq_exp_minus_1)
  have "c = take_bit 8 c XOR push_bit 8 (drop_bit 8 c)"
    by (rule bit_word_eqI) (auto simp: bit_simps)
  then have "(crc_shift ^^ 8) c = (crc_shift ^^ 8) (take_bit 8 c) XOR (crc_shift ^^ 8) (push_bit 8 (drop_bit 8 c))"
    using crc_shift_pow_xor by metis
  moreover have "(crc_shift ^^ 8) (push_bit 8 (drop_bit 8 c)) = drop_bit 8 c"
    unfolding crc_shift_pow_high [of 8 8, OF order_refl]
    by (rule bit_word_eqI) (auto simp: bit_simps dest: bit_imp_le_length)
  moreover have "crc32_tab ! unat (take_bit 8 c) = (crc_shift ^^ 8) (take_bit 8 c)"
  proof -
    have "unat (take_bit 8 c) < 256"
    proof -
      have "take_bit 8 c \<le> 255" by (rule word_and_le1 [of c "0xFF", unfolded lo])
      then show ?thesis by (simp add: word_le_nat_alt)
    qed
    then show ?thesis by (simp add: crc32_tab_nth)
  qed
  ultimately show ?thesis by (simp add: lo)
qed

lemma crc_step_byte:
  "crc32_tab ! unat ((c XOR ucast (p :: byte)) AND 0xFF) XOR drop_bit 8 c = (crc_shift ^^ 8) (c XOR ucast p)"
proof -
  have "drop_bit 8 (c XOR ucast p) = drop_bit 8 c"
    by (rule bit_word_eqI) (auto simp: bit_simps dest: bit_imp_le_length)
  then show ?thesis using crc_step [of "c XOR ucast p"] by simp
qed

lemma calc_crc32_bitwise: "calc_crc32 crc buf = crc32_bitwise crc buf"
  unfolding calc_crc32_def crc32_bitwise_def crc_step_byte ..

section \<open>SHA-256 rounds against the standard\<close>

text \<open>
  The round as the standard states it, on registers that shift: the unrolled code leaves the
  registers in place and rotates their names instead.
\<close>

fun sha256_round :: "u32 list \<Rightarrow> nat \<Rightarrow> u32 list \<Rightarrow> u32 list" where
  "sha256_round W i [a, b, c, d, e, f, g, h] =
     (let t0 = h + Sigma1 e + Ch e f g + sha256_K ! i + W ! i;
          t1 = Sigma0 a + Maj a b c
      in [t0 + t1, a, b, c, d + t0, e, f, g])"
| "sha256_round W i S = S"

definition sha256_regs :: "nat \<Rightarrow> u32 list \<Rightarrow> u32 list" where
  "sha256_regs i S = map (\<lambda>j. S ! ((j + 64 - i) mod 8)) [0..<8]"

lemma reg_index:
  assumes "i < 64"
  shows "(j + 64 - i) mod 8 = (j + (8 - i mod 8)) mod (8 :: nat)"
    and "(j + 64 - Suc i) mod 8 = (j + (7 - i mod 8)) mod (8 :: nat)"
proof -
  have q: "i div 8 \<le> 7" and r: "i mod 8 < 8" and i: "i = 8 * (i div 8) + i mod 8"
    using assms by (auto simp: less_mult_imp_div_less less_Suc_eq_le [symmetric])
  have "j + 64 - i = (j + (8 - i mod 8)) + 8 * (7 - i div 8)" using q r i by linarith
  then show "(j + 64 - i) mod 8 = (j + (8 - i mod 8)) mod 8" by (simp only: mod_mult_self2)
  have "j + 64 - Suc i = (j + (7 - i mod 8)) + 8 * (7 - i div 8)" using q r i by linarith
  then show "(j + 64 - Suc i) mod 8 = (j + (7 - i mod 8)) mod 8" by (simp only: mod_mult_self2)
qed

lemma length_8: "length S = 8 \<Longrightarrow> \<exists>a b c d e f g h. S = [a, b, c, d, e, f, g, h]"
  by (auto simp: eval_nat_numeral length_Suc_conv)

lemma sha256_RND_round:
  assumes "length S = 8" and "i < 64"
  shows "sha256_regs (Suc i) (sha256_RND W i S) = sha256_round W i (sha256_regs i S)"
proof -
  obtain a b c d e f g h where S: "S = [a, b, c, d, e, f, g, h]" using length_8 [OF assms(1)] by blast
  define r where "r = i mod 8"
  note m = reg_index [OF assms(2), folded r_def]
  have "r < 8" by (simp add: r_def)
  then have "r = 0 \<or> r = 1 \<or> r = 2 \<or> r = 3 \<or> r = 4 \<or> r = 5 \<or> r = 6 \<or> r = 7" by linarith
  moreover have u: "[0..<8] = [0, 1, 2, 3, 4, 5, 6, 7]" by (simp add: upt_rec)
  ultimately show ?thesis
    unfolding sha256_regs_def sha256_RND_def m u S
    by (elim disjE) (simp_all add: Let_def)
qed

lemma length_sha256_RND [simp]: "length (sha256_RND W i S) = length S"
  by (simp add: sha256_RND_def Let_def)

lemma sha256_rounds_regs:
  assumes "length S = 8" and "n \<le> 64"
  shows "length (fold (sha256_RND W) [0..<n] S) = 8 \<and>
    sha256_regs n (fold (sha256_RND W) [0..<n] S) = fold (sha256_round W) [0..<n] S"
  using assms(2)
proof (induction n)
  case 0
  have "sha256_regs 0 S = S"
    using length_8 [OF assms(1)] by (auto simp: sha256_regs_def upt_rec)
  then show ?case using assms(1) by simp
next
  case (Suc n)
  then show ?case by (simp add: sha256_RND_round)
qed

lemma sha256_regs_64: "length S = 8 \<Longrightarrow> sha256_regs 64 S = S"
  using length_8 [of S] by (auto simp: sha256_regs_def upt_rec)

lemma sha256_vcompress_rounds:
  assumes "length st = 8"
  shows "sha256_vcompress st buf = map2 (+) st (fold (sha256_round (sha256_schedule buf)) [0..<64] st)"
proof -
  let ?S = "fold (sha256_RND (sha256_schedule buf)) [0..<64] st"
  have "length ?S = 8" and "?S = fold (sha256_round (sha256_schedule buf)) [0..<64] st"
    using sha256_rounds_regs [OF assms order_refl, of "sha256_schedule buf"] sha256_regs_64 [of ?S] by simp_all
  moreover have "map (\<lambda>i. st ! i + ?S ! i) [0..<8] = map2 (+) st ?S" if "length ?S = 8"
    using assms that by (intro nth_equalityI) simp_all
  ultimately show ?thesis using assms by (simp add: sha256_vcompress_def Let_def)
qed


lemma length_blocks_fold:
  assumes "\<And>st b. length st = n \<Longrightarrow> length (c st b) = n" and "length st = n"
  shows "length (blocks_fold c st bs) = n"
  using assms
proof (induction c st bs rule: blocks_fold.induct)
  case (1 c st bs)
  then show ?case by (simp add: blocks_fold.simps [of c st bs])
qed

lemma blocks_fold_cong:
  assumes "\<And>st b. length st = n \<Longrightarrow> c st b = d st b \<and> length (d st b) = n" and "length st = n"
  shows "blocks_fold c st bs = blocks_fold d st bs"
  using assms
proof (induction c st bs rule: blocks_fold.induct)
  case (1 c st bs)
  then show ?case by (simp add: blocks_fold.simps [of _ st bs])
qed

lemma length_sha256_fold: "length (blocks_fold sha256_vcompress sha256_init_state bs) = 8"
  by (rule length_blocks_fold) (simp_all add: sha256_vcompress_def sha256_init_state_def Let_def)

lemma length_rmd160_fold: "length (blocks_fold rmd160_vcompress rmd160_init_state bs) = 5"
  by (rule length_blocks_fold) (simp_all add: rmd160_vcompress_def rmd160_init_state_def Let_def)

lemma sha256_fold_rounds:
  "blocks_fold sha256_vcompress sha256_init_state bs =
   blocks_fold (\<lambda>st b. map2 (+) st (fold (sha256_round (sha256_schedule b)) [0..<64] st)) sha256_init_state bs"
proof (rule blocks_fold_cong [where n = 8])
  fix st :: "u32 list" and b
  assume n: "length st = 8"
  moreover have "length (sha256_vcompress st b) = 8" by (simp add: sha256_vcompress_def Let_def)
  ultimately show "sha256_vcompress st b = map2 (+) st (fold (sha256_round (sha256_schedule b)) [0..<64] st) \<and>
      length (map2 (+) st (fold (sha256_round (sha256_schedule b)) [0..<64] st)) = 8"
    unfolding sha256_vcompress_rounds [OF n] by simp
qed (simp add: sha256_init_state_def)

text \<open>The digest as a function of the message alone.\<close>

definition sha256_digest :: "buffer \<Rightarrow> buffer" where
  "sha256_digest m = concat (map STORE32H
     (blocks_fold sha256_vcompress sha256_init_state (hash_pad STORE64H m)))"

lemma vcalc_sha256_digest:
  assumes "length stack_buf = 64"
  shows "vcalc_sha256 stack_buf m = Some (sha256_digest m)"
proof -
  let ?st = "blocks_fold sha256_vcompress sha256_init_state (hash_pad STORE64H m)"
  have "vcalc_sha256 stack_buf m = Some (concat (map (\<lambda>i. STORE32H (?st ! i)) [0..<8]))"
    using sha256.hash_once [OF assms, of m]
    by (auto simp: vcalc_sha256_def sha256_vprocess_def sha256_vinit_def sha256_vdone_def bind_eq_Some_conv)
  also have "map (\<lambda>i. STORE32H (?st ! i)) [0..<8] = map STORE32H ?st"
    by (rule nth_equalityI) (simp_all add: length_sha256_fold)
  finally show ?thesis unfolding sha256_digest_def .
qed

lemma length_sha256_digest [simp]: "length (sha256_digest m) = 32"
proof -
  have "map length (map STORE32H xs) = replicate (length xs) 4" for xs
    by (rule nth_equalityI) (simp_all add: STORE32H_def)
  then have "length (concat (map STORE32H xs)) = 4 * length xs" for xs
    by (simp only: length_concat) (simp add: sum_list_replicate)
  then show ?thesis by (simp add: sha256_digest_def length_sha256_fold)
qed

section \<open>Properties\<close>

text \<open>C31 \<open>vcalc_sha256\<close> is SHA-256 as the standard composes it: whatever is on the stack, the digest
  is the big-endian image of the chaining value after folding the padded message, block by block,
  through 64 rounds on shifting registers with the feed-forward addition.\<close>
theorem sha256_standard:
  assumes "length stack_buf = 64"
  shows "vcalc_sha256 stack_buf m = Some (concat (map STORE32H (blocks_fold
      (\<lambda>st b. map2 (+) st (fold (sha256_round (sha256_schedule b)) [0..<64] st))
      sha256_init_state (hash_pad STORE64H m))))"
  unfolding vcalc_sha256_digest [OF assms] sha256_digest_def sha256_fold_rounds ..

theorem sha256_standard_witness:
  "length (replicate 64 (0xAA :: byte)) = 64 \<and>
   vcalc_sha256 (replicate 64 0xAA) [0x61, 0x62, 0x63] = Some (concat (map STORE32H (blocks_fold
      (\<lambda>st b. map2 (+) st (fold (sha256_round (sha256_schedule b)) [0..<64] st))
      sha256_init_state
      ([0x61, 0x62, 0x63, 0x80] @ replicate 52 0 @ [0, 0, 0, 0, 0, 0, 0, 24]))))"
  using sha256_standard [of "replicate 64 0xAA" "[0x61, 0x62, 0x63]"]
  by (simp add: hash_pad_def STORE64H_def)

text \<open>RIPEMD-160 is the Merkle-Damgard iteration of its compression function over the padded
  message, with the length and the digest little-endian.\<close>
theorem rmd160_standard:
  assumes "length stack_buf = 64"
  shows "calc_rmd160 stack_buf m = Some (concat (map STORE32L
      (blocks_fold rmd160_vcompress rmd160_init_state (hash_pad STORE64L m))))"
proof -
  let ?st = "blocks_fold rmd160_vcompress rmd160_init_state (hash_pad STORE64L m)"
  have "calc_rmd160 stack_buf m = Some (concat (map (\<lambda>i. STORE32L (?st ! i)) [0..<5]))"
    using rmd160.hash_once [OF assms, of m]
    by (auto simp: calc_rmd160_def rmd160_vprocess_def rmd160_vinit_def rmd160_vdone_def bind_eq_Some_conv)
  also have "map (\<lambda>i. STORE32L (?st ! i)) [0..<5] = map STORE32L ?st"
    by (rule nth_equalityI) (simp_all add: length_rmd160_fold)
  finally show ?thesis .
qed

theorem rmd160_standard_witness:
  "calc_rmd160 (replicate 64 0xAA) [0x61] = Some (concat (map STORE32L
      (blocks_fold rmd160_vcompress rmd160_init_state
        ([0x61, 0x80] @ replicate 54 0 @ [8, 0, 0, 0, 0, 0, 0, 0]))))"
  using rmd160_standard [of "replicate 64 0xAA" "[0x61]"]
  by (simp add: hash_pad_def STORE64L_def)

text \<open>Streaming: feeding a message to \<open>sha256_vprocess\<close> in two pieces, cut anywhere, and finishing
  gives the digest of the whole message, and the intermediate call never fails.\<close>
theorem sha256_streaming:
  assumes "length stack_buf = 64"
  shows "\<exists>md. sha256_vprocess (sha256_vinit stack_buf) a = Some md \<and>
     Option.bind (sha256_vprocess md b) sha256_vdone = vcalc_sha256 stack_buf (a @ b)"
proof -
  obtain md where md: "sha256_vprocess (sha256_vinit stack_buf) a = Some md"
    by (simp add: sha256_vprocess_def hash_vprocess_def sha256_vinit_def)
  then have "Option.bind (sha256_vprocess md b) (hash_vdone sha256_vcompress STORE64H) =
      Option.bind (sha256_vprocess (sha256_vinit stack_buf) (a @ b)) (hash_vdone sha256_vcompress STORE64H)"
    using sha256.hash_twice [OF assms] sha256.hash_once [OF assms]
    by (simp add: sha256_vprocess_def sha256_vinit_def)
  then have "Option.bind (sha256_vprocess md b) sha256_vdone = vcalc_sha256 stack_buf (a @ b)"
    unfolding vcalc_sha256_def sha256_vdone_def
    by (cases "sha256_vprocess md b"; cases "sha256_vprocess (sha256_vinit stack_buf) (a @ b)") auto
  with md show ?thesis by blast
qed

theorem sha256_streaming_witness:
  "length (replicate 64 (1 :: byte)) = 64 \<and>
   (\<exists>md. sha256_vprocess (sha256_vinit (replicate 64 1)) [2, 3] = Some md \<and>
     Option.bind (sha256_vprocess md (replicate 70 4)) sha256_vdone =
       vcalc_sha256 (replicate 64 1) ([2, 3] @ replicate 70 4))"
  using sha256_streaming [of "replicate 64 1" "[2, 3]" "replicate 70 4"] by simp

text \<open>The table-driven CRC-32 equals the bit-serial division by the reflected polynomial, for
  every starting value and every buffer.\<close>
theorem crc32_bit_serial:
  "calc_crc32 crc buf =
     fold (\<lambda>p c. (crc_shift ^^ 8) (c XOR ucast p)) buf (crc XOR NOT 0) XOR NOT 0"
  by (simp add: calc_crc32_bitwise crc32_bitwise_def)

end
