(* ===== verification/Hush_Structs.thy ===== *)
theory Hush_Structs
  imports Hush_Codec
begin

text \<open>
  The data of the daemon: the structures of \<open>hush_structs.h\<close> as records, the globals of
  \<open>hush_globals.h\<close> that the modelled code reads (\<open>hush_params\<close>, fixed once the daemon has
  started) or writes (\<open>hush_world\<close>), the block tree the C++ side maintains (\<open>chain_view\<close>),
  and the selection of the chain's own \<open>hush_state\<close> (\<open>hush_baseid\<close>, \<open>hush_nameset\<close>,
  \<open>hush_stateptrget\<close>, \<open>hush_stateptr\<close>).

  A \<open>struct hush_state *\<close> is an index into \<open>HUSH_STATES\<close>; the null pointer is \<open>None\<close>. A
  growable array with its counter is a list. The three structure pointers never followed by
  the modelled code (\<open>related\<close>, hash handles) have no counterpart. C code that writes or
  reads outside its object sets the flag \<open>faulted\<close>; what the model says of the state after
  that is not meaningful.
\<close>

section \<open>Structures\<close>

record notarized_checkpoint =
  np_notarized_hash :: uint256
  np_notarized_desttxid :: uint256
  np_MoM :: uint256
  np_MoMoM :: uint256
  np_nHeight :: int
  np_notarized_height :: int
  np_MoMdepth :: int
  np_MoMoMdepth :: int
  np_MoMoMoffset :: int
  np_hushstarti :: int
  np_hushendi :: int

record hush_event =
  ev_len :: u16
  ev_height :: int
  ev_type :: byte
  ev_symbol :: string
  ev_space :: buffer

record hush_kv =
  kv_pubkey :: uint256
  kv_value :: buffer
  kv_height :: int
  kv_flags :: u32
  kv_keylen :: u16
  kv_valuesize :: u16

record pax_transaction =
  pax_txid :: uint256
  pax_puposhis :: u64
  pax_fiatoshis :: u64
  pax_validated :: u64
  pax_marked :: int
  pax_height :: int
  pax_otherheight :: int
  pax_approved :: int
  pax_didstats :: int
  pax_ready :: int
  pax_vout :: u16
  pax_symbol :: string
  pax_source :: buffer
  pax_coinaddr :: string
  pax_rmd160 :: buffer
  pax_type :: byte

record knotaries_entry =
  kn_height :: int
  kn_numnotaries :: int
  kn_Notaries :: "(pubkey33 \<times> byte) list"

record hush_ccdataMoM =
  cm_MoM :: uint256
  cm_MoMdepth :: int
  cm_notarized_height :: int
  cm_height :: int
  cm_txi :: int

record hush_ccdata =
  cc_MoMdata :: hush_ccdataMoM
  cc_CCid :: u32
  cc_len :: u32
  cc_symbol :: string

record hush_ccdatapair =
  cp_notarized_height :: int
  cp_MoMoMoffset :: int

record hush_ccdataMoMoM =
  mm_MoMoM :: uint256
  mm_hushstarti :: int
  mm_hushendi :: int
  mm_MoMoMoffset :: int
  mm_MoMoMdepth :: int
  mm_numpairs :: int
  mm_len :: int
  mm_pairs :: "hush_ccdatapair list"

record hush_ccdata_entry =
  ce_MoM :: uint256
  ce_notarized_height :: int
  ce_hushheight :: int
  ce_txi :: int
  ce_symbol :: string

record hush_state =
  NOTARIZED_HASH :: uint256
  NOTARIZED_DESTTXID :: uint256
  MoM :: uint256
  SAVEDHEIGHT :: int
  CURRENT_HEIGHT :: int
  NOTARIZED_HEIGHT :: int
  MoMdepth :: int
  SAVEDTIMESTAMP :: u32
  st_deposited :: u64
  st_issued :: u64
  st_withdrawn :: u64
  st_approved :: u64
  st_redeemed :: u64
  st_shorted :: u64
  NPOINTS :: "notarized_checkpoint list"
  last_NPOINTSi :: nat
  Hush_events :: "hush_event list"

text \<open>The static array is zero at start.\<close>

definition hush_state0 :: hush_state where
  "hush_state0 =
     \<lparr>NOTARIZED_HASH = 0, NOTARIZED_DESTTXID = 0, MoM = 0, SAVEDHEIGHT = 0, CURRENT_HEIGHT = 0,
      NOTARIZED_HEIGHT = 0, MoMdepth = 0, SAVEDTIMESTAMP = 0, st_deposited = 0, st_issued = 0,
      st_withdrawn = 0, st_approved = 0, st_redeemed = 0, st_shorted = 0,
      NPOINTS = [], last_NPOINTSi = 0, Hush_events = []\<rparr>"

section \<open>Globals\<close>

text \<open>
  Set from the command line before the first block is processed and not changed by the modelled
  code; \<open>NETWORK_ID\<close> is \<open>Params().NetworkIDString()\<close>.
\<close>

record hush_params =
  SMART_CHAIN_SYMBOL :: string
  IS_HUSH_NOTARY :: int
  HUSH_EXTERNAL_NOTARIES :: int
  HUSH_DPOWCONFS :: u32
  NOTARY_PUBKEY33 :: pubkey33
  HUSH_NSPV :: int
  HUSH_REWIND :: int
  NETWORK_ID :: string
  ASSETCHAINS_NOTARY_PAY :: "u64 list"

text \<open>
  What the modelled code takes from elsewhere: third-party arithmetic and services as functions,
  and the contents of stack variables that are read before they are written (\<open>stk_local\<close> gives the
  bytes a local variable of that name starts with).
\<close>

record hush_env =
  env_curve25519 :: "uint256 \<Rightarrow> uint256 \<Rightarrow> uint256"
  env_base58encode :: "buffer \<Rightarrow> string"
  env_verifynotarization :: "string \<Rightarrow> string \<Rightarrow> int \<Rightarrow> int \<Rightarrow> uint256 \<Rightarrow> uint256 \<Rightarrow> int"
  stk_local :: "string \<Rightarrow> nat \<Rightarrow> byte"
  stk_addrtype :: byte
  stk_rmd160 :: buffer
  stk_puposhis :: u64

text \<open>
  Globals and function-local statics that the modelled code writes; a static carries the name
  of its function where two functions use the same name. The files of the data directory are
  part of it: the state file (\<open>None\<close> when there is none), its index, whose entries are 32-bit numbers,
  and the file of signature masks; \<open>state_fp\<close> tells whether the state file is open, positioned at its end.
\<close>

record hush_world =
  HUSH_STATES :: "hush_state list"
  HUSH_LASTMINED :: int
  prevHUSH_LASTMINED :: int
  Pubkeys :: "knotaries_entry list option"
  notarysinit_hwmheight :: int
  hadnotarization :: int
  HUSH_KV :: "(buffer \<times> hush_kv) list"
  PAX :: "(buffer \<times> pax_transaction) list"
  CC_data :: "hush_ccdata list"
  last_rewind :: int
  connectblock_hwmheight :: int
  init_didinit :: bool
  hushstate_file :: "buffer option"
  hushstate_ind :: "u32 list"
  state_fp :: bool
  signedmasks_file :: buffer
  faulted :: bool

definition hush_world0 :: hush_world where
  "hush_world0 =
     \<lparr>HUSH_STATES = replicate 34 hush_state0, HUSH_LASTMINED = 0, prevHUSH_LASTMINED = 0,
      Pubkeys = None, notarysinit_hwmheight = 0, hadnotarization = 0, HUSH_KV = [], PAX = [],
      CC_data = [], last_rewind = 0, connectblock_hwmheight = 0, init_didinit = False,
      hushstate_file = None, hushstate_ind = [], state_fp = False, signedmasks_file = [],
      faulted = False\<rparr>"

section \<open>The block tree\<close>

text \<open>
  \<open>mapBlockIndex\<close> and \<open>chainActive\<close> as data. Entry \<open>i\<close> of \<open>chainActive\<close> is the block at height
  \<open>i\<close>.
\<close>

record block_index =
  bi_hash :: uint256
  bi_height :: int
  bi_nTime :: u32
  bi_hashMerkleRoot :: uint256

record chain_view =
  mapBlockIndex :: "(uint256 \<times> block_index) list"
  chainActive :: "block_index list"
  IsInitialBlockDownload :: bool

definition hush_getblockindex :: "chain_view \<Rightarrow> uint256 \<Rightarrow> block_index option" where
  "hush_getblockindex ch hash = map_of (mapBlockIndex ch) hash"

definition hush_blockindex :: "chain_view \<Rightarrow> uint256 \<Rightarrow> block_index option" where
  "hush_blockindex ch hash = map_of (mapBlockIndex ch) hash"

definition chain_LastTip :: "chain_view \<Rightarrow> block_index option" where
  "chain_LastTip ch = (if chainActive ch = [] then None else Some (last (chainActive ch)))"

definition chain_at :: "chain_view \<Rightarrow> int \<Rightarrow> block_index option" where
  "chain_at ch height =
     (if height < 0 \<or> int (length (chainActive ch)) \<le> height then None
      else Some (chainActive ch ! nat height))"

definition hush_chainactive :: "chain_view \<Rightarrow> int \<Rightarrow> block_index option" where
  "hush_chainactive ch height =
     (case chain_LastTip ch of
        None \<Rightarrow> None
      | Some tip \<Rightarrow> if height \<le> bi_height tip then chain_at ch height else None)"

definition hush_heightstamp :: "chain_view \<Rightarrow> int \<Rightarrow> u32" where
  "hush_heightstamp ch height =
     (if height > 0
      then (case hush_chainactive ch height of None \<Rightarrow> 0 | Some ptr \<Rightarrow> bi_nTime ptr)
      else 0)"

definition hush_blockheight :: "chain_view \<Rightarrow> uint256 \<Rightarrow> int" where
  "hush_blockheight ch hash =
     (case map_of (mapBlockIndex ch) hash of None \<Rightarrow> 0 | Some pindex \<Rightarrow> bi_height pindex)"

definition hush_blocktime :: "chain_view \<Rightarrow> uint256 \<Rightarrow> u32" where
  "hush_blocktime ch hash =
     (case map_of (mapBlockIndex ch) hash of None \<Rightarrow> 0 | Some pindex \<Rightarrow> bi_nTime pindex)"

definition hush_chainactive_timestamp :: "chain_view \<Rightarrow> u32" where
  "hush_chainactive_timestamp ch =
     (case chain_LastTip ch of None \<Rightarrow> 0 | Some tip \<Rightarrow> bi_nTime tip)"

section \<open>The chain's own state\<close>

definition CURRENCIES :: "string list" where
  "CURRENCIES =
     [''USD'', ''EUR'', ''JPY'', ''GBP'', ''AUD'', ''CAD'', ''CHF'', ''NZD'', ''CNY'', ''RUB'',
      ''MXN'', ''BRL'', ''INR'', ''HKD'', ''TRY'', ''ZAR'', ''PLN'', ''NOK'', ''SEK'', ''DKK'',
      ''CZK'', ''HUF'', ''ILS'', ''KRW'', ''MYR'', ''PHP'', ''RON'', ''SGD'', ''THB'', ''BGN'',
      ''IDR'', ''HRK'', ''HUSH'']"

text \<open>\<open>toupper\<close> in the C locale.\<close>

definition toupper :: "char \<Rightarrow> char" where
  "toupper c = (let k = of_char c :: nat in if 97 \<le> k \<and> k \<le> 122 then char_of (k - 32) else c)"

fun find_index :: "('a \<Rightarrow> bool) \<Rightarrow> 'a list \<Rightarrow> int \<Rightarrow> int" where
  "find_index P [] i = -1"
| "find_index P (x # xs) i = (if P x then i else find_index P xs (i + 1))"

text \<open>
  The copy into \<open>base[64]\<close> stops after 64 characters; its terminator is then written to
  \<open>base[64]\<close>, one past the array, and the comparison with the short names fails either way.
\<close>

definition hush_baseid :: "string \<Rightarrow> int" where
  "hush_baseid origbase =
     (let base = map toupper (take 64 origbase) in find_index (\<lambda>c. c = base) CURRENCIES 0)"

text \<open>The pair \<open>(symbol, dest)\<close> written by \<open>hush_nameset\<close>.\<close>

definition hush_nameset :: "string \<Rightarrow> string \<times> string" where
  "hush_nameset source = (if source = [] then (''HUSH3'', ''BTC'') else (source, ''HUSH3''))"

definition hush_stateptrget :: "string \<Rightarrow> nat" where
  "hush_stateptrget base =
     (if base = [] then 33
      else let baseid = hush_baseid base in
        if baseid \<ge> 0 then nat (baseid + 1) else 0)"

definition hush_stateptr :: "hush_params \<Rightarrow> nat" where
  "hush_stateptr G = hush_stateptrget (fst (hush_nameset (SMART_CHAIN_SYMBOL G)))"

definition chain_symbol :: "hush_params \<Rightarrow> string" where
  "chain_symbol G = fst (hush_nameset (SMART_CHAIN_SYMBOL G))"

definition chain_dest :: "hush_params \<Rightarrow> string" where
  "chain_dest G = snd (hush_nameset (SMART_CHAIN_SYMBOL G))"

text \<open>Reading and writing through a state pointer.\<close>

definition st_get :: "hush_world \<Rightarrow> nat \<Rightarrow> hush_state" where
  "st_get w sp = HUSH_STATES w ! sp"

definition st_upd :: "nat \<Rightarrow> (hush_state \<Rightarrow> hush_state) \<Rightarrow> hush_world \<Rightarrow> hush_world" where
  "st_upd sp f w = w\<lparr>HUSH_STATES := (HUSH_STATES w)[sp := f (HUSH_STATES w ! sp)]\<rparr>"

definition states_ok :: "hush_world \<Rightarrow> bool" where
  "states_ok w \<longleftrightarrow> length (HUSH_STATES w) = 34"

lemma states_ok_world0 [simp]: "states_ok hush_world0"
  by (simp add: states_ok_def hush_world0_def)

lemma states_ok_st_upd [simp]: "states_ok (st_upd sp f w) = states_ok w"
  by (simp add: states_ok_def st_upd_def)

lemma st_get_upd [simp]: "states_ok w \<Longrightarrow> sp < 34 \<Longrightarrow> st_get (st_upd sp f w) sp = f (st_get w sp)"
  by (simp add: states_ok_def st_get_def st_upd_def)

lemma st_get_upd_other: "sp \<noteq> sp' \<Longrightarrow> st_get (st_upd sp f w) sp' = st_get w sp'"
  by (simp add: st_get_def st_upd_def)

lemma st_upd_upd [simp]: "st_upd sp f (st_upd sp g w) = st_upd sp (f \<circ> g) w"
  by (cases "sp < length (HUSH_STATES w)") (simp_all add: st_upd_def list_update_beyond)

lemma find_index_less: "0 \<le> i \<Longrightarrow> find_index P xs i < i + int (length xs) \<or> xs = []"
proof (induction xs arbitrary: i)
  case (Cons x xs)
  from Cons.IH [of "i + 1"] Cons.prems show ?case by (cases xs) auto
qed simp

lemma find_index_ge: "0 \<le> i \<Longrightarrow> - 1 \<le> find_index P xs i"
  by (induction xs arbitrary: i) (auto intro: order_trans [of "-1" 0])

lemma hush_baseid_range: "-1 \<le> hush_baseid s \<and> hush_baseid s \<le> 32"
proof -
  define b where "b = map toupper (take 64 s)"
  have "find_index (\<lambda>c. c = b) CURRENCIES 0 < 0 + int (length CURRENCIES) \<or> CURRENCIES = []"
    by (rule find_index_less) simp
  then have "hush_baseid s < 33" by (simp add: hush_baseid_def b_def Let_def CURRENCIES_def)
  moreover have "-1 \<le> hush_baseid s"
    using find_index_ge [of 0 "\<lambda>c. c = b" CURRENCIES] by (simp add: hush_baseid_def b_def Let_def)
  ultimately show ?thesis by simp
qed

text \<open>Every name selects an element of the array.\<close>

lemma hush_stateptrget_less [simp]: "hush_stateptrget s < 34"
  using hush_baseid_range [of s] by (auto simp: hush_stateptrget_def Let_def)

lemma hush_stateptr_less [simp]: "hush_stateptr G < 34"
  by (simp add: hush_stateptr_def)

lemma chain_symbol_ne [simp]: "chain_symbol G \<noteq> []"
  by (simp add: chain_symbol_def hush_nameset_def)

text \<open>What the search loops return: the first match, or -1.\<close>

lemma find_index_none: "0 \<le> i \<Longrightarrow> find_index P xs i = -1 \<longleftrightarrow> (\<forall>x\<in>set xs. \<not> P x)"
  by (induction xs arbitrary: i) auto

lemma find_index_first:
  assumes "j < length xs" and "P (xs ! j)" and "\<And>k. k < j \<Longrightarrow> \<not> P (xs ! k)"
  shows "find_index P xs i = i + int j"
  using assms
proof (induction xs arbitrary: i j)
  case (Cons x xs)
  show ?case
  proof (cases j)
    case 0
    then show ?thesis using Cons.prems by simp
  next
    case (Suc m)
    then have "\<not> P x" using Cons.prems(3) [of 0] by simp
    moreover have "find_index P xs (i + 1) = i + 1 + int m"
    proof (rule Cons.IH)
      show "m < length xs" and "P (xs ! m)" using Cons.prems Suc by simp_all
      show "\<not> P (xs ! k)" if "k < m" for k
        using Cons.prems(3) [of "Suc k"] Suc that by simp
    qed
    ultimately show ?thesis using Suc by simp
  qed
qed simp

lemma find_index_hit:
  assumes "0 \<le> i" and "0 \<le> find_index P xs i"
  obtains j where "j < length xs" and "P (xs ! j)" and "find_index P xs i = i + int j"
proof -
  have "\<exists>j<length xs. P (xs ! j) \<and> find_index P xs i = i + int j"
    using assms
  proof (induction xs arbitrary: i)
    case (Cons x xs)
    show ?case
    proof (cases "P x")
      case True
      then show ?thesis by (intro exI [of _ 0]) simp
    next
      case False
      then obtain j where "j < length xs" "P (xs ! j)" "find_index P xs (i + 1) = i + 1 + int j"
        using Cons.IH [of "i + 1"] Cons.prems by auto
      then show ?thesis using False by (intro exI [of _ "Suc j"]) simp
    qed
  qed simp
  then show ?thesis using that by blast
qed

lemma find_index_distinct:
  "distinct xs \<Longrightarrow> j < length xs \<Longrightarrow> find_index (\<lambda>k. k = xs ! j) xs 0 = int j"
  by (subst find_index_first [of j]) (auto simp: nth_eq_iff_index_eq)

end
