(* ===== verification/Hush_Notary.thy ===== *)
theory Hush_Notary
  imports Hush_Structs Hush_Notaries_List
begin

text \<open>
  Notary sets and notarised checkpoints, \<open>src/src/hush_notary.h\<close>: the season of a block, the
  keys of a season, the height-indexed table of ratified notary sets (\<open>Pubkeys\<close>), the choice of
  the special notary of a block, and the checkpoint array \<open>NPOINTS\<close> with its three searches and
  its append.
\<close>

section \<open>Seasons\<close>

definition HUSH_SEASON_HEIGHTS :: "int list" where
  "HUSH_SEASON_HEIGHTS = [1, 2, 166250, 245055, 340000, 340420, 1605555]"

text \<open>The products \<open>nHushHardforkTimestamp2*5\<close> and so on are computed in \<open>uint32_t\<close>.\<close>

definition nHushHardforkTimestamp2 :: u32 where
  "nHushHardforkTimestamp2 = 1594425600"

definition HUSH_SEASON_TIMESTAMPS :: "u32 list" where
  "HUSH_SEASON_TIMESTAMPS =
     [1525132800, 1563148800, 1580303652, nHushHardforkTimestamp2, nHushHardforkTimestamp2 * 5,
      nHushHardforkTimestamp2 * 6, nHushHardforkTimestamp2 * 7]"

text \<open>The loop \<open>for (i=1; i<NUM_HUSH_SEASONS; i++)\<close>, with \<open>prev\<close> the entry at \<open>i-1\<close>.\<close>

fun season_loop :: "'a::linorder \<Rightarrow> 'a \<Rightarrow> 'a list \<Rightarrow> int \<Rightarrow> int" where
  "season_loop x prev [] i = 0"
| "season_loop x prev (t # ts) i =
     (if x \<le> t \<and> x > prev then i + 1 else season_loop x t ts (i + 1))"

text \<open>
  \<open>height > nHushHardforkHeight3\<close> compares an \<open>int32_t\<close> with a \<open>uint32_t\<close>, so a negative height
  counts as large.
\<close>

definition gethushseason :: "hush_params \<Rightarrow> int \<Rightarrow> int" where
  "gethushseason G height =
     (if take 4 (SMART_CHAIN_SYMBOL G) = ''TUSH'' then 7
      else if height < 0 \<or> 340420 < height then 7
      else if height \<le> hd HUSH_SEASON_HEIGHTS then 1
      else season_loop height (hd HUSH_SEASON_HEIGHTS) (tl HUSH_SEASON_HEIGHTS) 1)"

definition getacseason :: "u32 \<Rightarrow> int" where
  "getacseason timestamp =
     (if timestamp \<le> hd HUSH_SEASON_TIMESTAMPS then 1
      else season_loop timestamp (hd HUSH_SEASON_TIMESTAMPS) (tl HUSH_SEASON_TIMESTAMPS) 1)"

section \<open>The keys of a block's season\<close>

text \<open>
  The decoded keys are cached in \<open>hush_pubkeys\<close> on first use; the cache holds what is computed
  here. Decoding is independent of the memory after the literal (\<open>hush_pubkeys_junk\<close>).
\<close>

definition decode_key :: "string \<Rightarrow> pubkey33" where
  "decode_key s = (case decode_hex 33 s (\<lambda>_. nul) of Some (bs, _) \<Rightarrow> bs | None \<Rightarrow> [])"

definition hush_pubkeys :: "nat \<Rightarrow> pubkey33 list" where
  "hush_pubkeys season = map (\<lambda>e. decode_key (snd e)) (notaries_list ! (season - 1))"

text \<open>\<open>None\<close> is the return value -1.\<close>

definition hush_notaries :: "hush_params \<Rightarrow> chain_view \<Rightarrow> int \<Rightarrow> u32 \<Rightarrow> pubkey33 list option" where
  "hush_notaries G ch height timestamp =
     (let timestamp = (if timestamp = 0 \<and> SMART_CHAIN_SYMBOL G \<noteq> [] then hush_heightstamp ch height
                       else if SMART_CHAIN_SYMBOL G = [] then 0 else timestamp);
          ishush3 = (take 5 (SMART_CHAIN_SYMBOL G) = ''HUSH3'');
          istush = (take 4 (SMART_CHAIN_SYMBOL G) = ''TUSH'');
          hush_season = (if ishush3 \<or> istush then gethushseason G height else getacseason timestamp)
      in if hush_season \<noteq> 0 then Some (hush_pubkeys (nat hush_season)) else None)"

text \<open>The returned index and \<open>*numnotariesp\<close>.\<close>

definition hush_findnotary ::
    "hush_params \<Rightarrow> chain_view \<Rightarrow> pubkey33 \<Rightarrow> int \<Rightarrow> u32 \<Rightarrow> int \<times> int" where
  "hush_findnotary G ch pubkey33 height timestamp =
     (case hush_notaries G ch height timestamp of
        None \<Rightarrow> (-1, -1)
      | Some pubkeys \<Rightarrow> (find_index (\<lambda>k. k = pubkey33) pubkeys 0, int (length pubkeys)))"

section \<open>Ratified notary sets\<close>

definition HUSH_DPOW_GAP :: int where
  "HUSH_DPOW_GAP = 2000"

definition HUSH_MAXBLOCKS :: int where
  "HUSH_MAXBLOCKS = 250000"

definition PUBKEYS_SLOTS :: nat where
  "PUBKEYS_SLOTS = 125"

text \<open>The fill loop with its break; the list of indices is \<open>htind, ..., PUBKEYS_SLOTS-1\<close>.\<close>

fun notarysinit_loop ::
    "knotaries_entry \<Rightarrow> int \<Rightarrow> int \<Rightarrow> nat list \<Rightarrow> knotaries_entry list \<Rightarrow> knotaries_entry list" where
  "notarysinit_loop N origheight hwm [] P = P"
| "notarysinit_loop N origheight hwm (i # is) P =
     (if kn_height (P ! i) \<noteq> 0 \<and> origheight < hwm then P
      else notarysinit_loop N origheight hwm is (P[i := N\<lparr>kn_height := int i * HUSH_DPOW_GAP\<rparr>]))"

definition notarysinit_htind :: "int \<Rightarrow> nat" where
  "notarysinit_htind origheight =
     (if origheight > 0
      then let height = (origheight + HUSH_DPOW_GAP div 2) div HUSH_DPOW_GAP;
               height = (height + 1) * HUSH_DPOW_GAP;
               htind = height div HUSH_DPOW_GAP
           in nat (if htind \<ge> HUSH_MAXBLOCKS div HUSH_DPOW_GAP
                   then HUSH_MAXBLOCKS div HUSH_DPOW_GAP - 1 else htind)
      else 0)"

definition hush_notarysinit :: "int \<Rightarrow> pubkey33 list \<Rightarrow> hush_world \<Rightarrow> hush_world" where
  "hush_notarysinit origheight pubkeys w =
     (let P = (case Pubkeys w of
                 None \<Rightarrow> replicate (1 + PUBKEYS_SLOTS) \<lparr>kn_height = 0, kn_numnotaries = 0, kn_Notaries = []\<rparr>
               | Some P \<Rightarrow> P);
          N = \<lparr>kn_height = 0, kn_numnotaries = int (length pubkeys),
               kn_Notaries = zip pubkeys (map word_of_nat [0..<length pubkeys])\<rparr>;
          hwm = notarysinit_hwmheight w;
          P = notarysinit_loop N origheight hwm [notarysinit_htind origheight..<PUBKEYS_SLOTS] P
      in w\<lparr>Pubkeys := Some P,
           notarysinit_hwmheight := (if origheight > hwm then origheight else hwm)\<rparr>)"

text \<open>
  \<open>hush_chosennotary\<close>: the value returned and \<open>*notaryidp\<close>. The hash table returns the entry
  added last for a key. The argument \<open>init\<close> is \<open>hush_init(0)\<close>, which the function calls when
  \<open>Pubkeys\<close> has not been allocated.
\<close>

definition kn_find :: "pubkey33 \<Rightarrow> knotaries_entry \<Rightarrow> byte option" where
  "kn_find pubkey33 e = map_of (rev (kn_Notaries e)) pubkey33"

definition hush_chosennotary ::
    "(hush_world \<Rightarrow> hush_world) \<Rightarrow> hush_params \<Rightarrow> chain_view \<Rightarrow> int \<Rightarrow> pubkey33 \<Rightarrow> u32 \<Rightarrow> hush_world
      \<Rightarrow> (int \<times> int) \<times> hush_world" where
  "hush_chosennotary init G ch height pubkey33 timestamp w =
     (if height < 0 then ((-1, -1), w)
      else
        let (nid, numnotaries) =
              (if height \<ge> 180000 \<or> SMART_CHAIN_SYMBOL G \<noteq> []
               then hush_findnotary G ch pubkey33 height timestamp else (-1, 0))
        in if nid \<ge> 0 \<and> numnotaries \<noteq> 0
           then ((if height mod numnotaries = nid then 1 else 0, nid), w)
           else if height \<ge> 250000 then ((-1, nid), w)
           else
             let w = (if Pubkeys w = None then init w else w);
                 htind = height div HUSH_DPOW_GAP;
                 htind = (if htind \<ge> HUSH_MAXBLOCKS div HUSH_DPOW_GAP
                          then HUSH_MAXBLOCKS div HUSH_DPOW_GAP - 1 else htind)
             in case Pubkeys w of
                  None \<Rightarrow> ((-1, nid), w\<lparr>faulted := True\<rparr>)
                | Some P \<Rightarrow>
                    (case kn_find pubkey33 (P ! nat htind) of
                       None \<Rightarrow> ((-1, nid), w)
                     | Some k \<Rightarrow>
                         if kn_numnotaries (P ! nat htind) > 0
                         then ((if height mod kn_numnotaries (P ! nat htind) = uint k then 1 else 0, uint k), w)
                         else ((-1, nid), w)))"

section \<open>Notarised checkpoints\<close>

text \<open>The condition under which a checkpoint's MoM covers a height.\<close>

definition np_covers :: "int \<Rightarrow> notarized_checkpoint \<Rightarrow> bool" where
  "np_covers height np \<longleftrightarrow>
     np_MoMdepth np \<noteq> 0 \<and> height > np_notarized_height np - (np_MoMdepth np AND 0xffff) \<and>
     height \<le> np_notarized_height np"

text \<open>The loop from \<open>NUM_NPOINTS-1\<close> down to 0: checkpoint and index.\<close>

fun npptr_scan :: "int \<Rightarrow> notarized_checkpoint list \<Rightarrow> nat \<Rightarrow> (notarized_checkpoint \<times> nat) option" where
  "npptr_scan height pts 0 = None"
| "npptr_scan height pts (Suc i) =
     (if np_covers height (pts ! i) then Some (pts ! i, i) else npptr_scan height pts i)"

definition hush_npptr_for_height :: "hush_params \<Rightarrow> hush_world \<Rightarrow> int \<Rightarrow> (notarized_checkpoint \<times> nat) option" where
  "hush_npptr_for_height G w height =
     (let pts = NPOINTS (st_get w (hush_stateptr G)) in npptr_scan height pts (length pts))"

definition hush_npptr :: "hush_params \<Rightarrow> hush_world \<Rightarrow> int \<Rightarrow> notarized_checkpoint option" where
  "hush_npptr G w height = map_option fst (hush_npptr_for_height G w height)"

definition hush_npptr_at :: "hush_params \<Rightarrow> hush_world \<Rightarrow> nat \<Rightarrow> notarized_checkpoint option" where
  "hush_npptr_at G w idx =
     (let pts = NPOINTS (st_get w (hush_stateptr G)) in if idx < length pts then Some (pts ! idx) else None)"

fun prevMoM_scan :: "notarized_checkpoint list \<Rightarrow> nat \<Rightarrow> int" where
  "prevMoM_scan pts 0 = 0"
| "prevMoM_scan pts (Suc i) =
     (if np_MoM (pts ! i) \<noteq> 0 then np_notarized_height (pts ! i) else prevMoM_scan pts i)"

definition hush_prevMoMheight :: "hush_params \<Rightarrow> hush_world \<Rightarrow> int" where
  "hush_prevMoMheight G w =
     (let pts = NPOINTS (st_get w (hush_stateptr G)) in prevMoM_scan pts (length pts))"

text \<open>The height returned, \<open>*prevMoMheightp\<close>, \<open>*hashp\<close> and \<open>*txidp\<close>.\<close>

definition hush_notarized_height ::
    "hush_params \<Rightarrow> chain_view \<Rightarrow> hush_world \<Rightarrow> (int \<times> int \<times> uint256 \<times> uint256) \<times> hush_world" where
  "hush_notarized_height G ch w =
     (let sp = hush_stateptr G; st = st_get w sp in
      if (case hush_blockindex ch (NOTARIZED_HASH st) of None \<Rightarrow> True | Some pindex \<Rightarrow> bi_height pindex < 0)
      then ((0, 0, 0, 0),
            st_upd sp (\<lambda>st. st\<lparr>NOTARIZED_HASH := 0, NOTARIZED_DESTTXID := 0, NOTARIZED_HEIGHT := 0\<rparr>) w)
      else ((NOTARIZED_HEIGHT st, hush_prevMoMheight G w, NOTARIZED_HASH st, NOTARIZED_DESTTXID st), w))"

text \<open>The notarised block is not in the block index, so that a query of the notarised height forgets the notarisation.\<close>

definition orphaned :: "hush_params \<Rightarrow> chain_view \<Rightarrow> hush_world \<Rightarrow> bool" where
  "orphaned G ch w \<longleftrightarrow>
     (case hush_blockindex ch (NOTARIZED_HASH (st_get w (hush_stateptr G))) of None \<Rightarrow> True | Some pindex \<Rightarrow> bi_height pindex < 0)"

lemma notarized_query:
  "snd (hush_notarized_height G ch w) =
     (if orphaned G ch w
      then st_upd (hush_stateptr G) (\<lambda>st. st\<lparr>NOTARIZED_HASH := 0, NOTARIZED_DESTTXID := 0, NOTARIZED_HEIGHT := 0\<rparr>) w else w)"
  by (simp add: hush_notarized_height_def orphaned_def Let_def split: option.splits)

definition hush_dpowconfs :: "hush_params \<Rightarrow> int \<Rightarrow> int \<Rightarrow> hush_world \<Rightarrow> int \<times> hush_world" where
  "hush_dpowconfs G txheight numconfs w =
     (if HUSH_DPOWCONFS G \<noteq> 0 \<and> txheight > 0 \<and> numconfs > 0
      then let nht = NOTARIZED_HEIGHT (st_get w (hush_stateptr G)) in
           if nht > 0
           then (if txheight < nht then numconfs else 1, w\<lparr>hadnotarization := 1\<rparr>)
           else if hadnotarization w \<noteq> 0 then (1, w) else (numconfs, w)
      else (numconfs, w))"

record MoMdata_result =
  md_depth :: int
  md_notarized_ht :: int
  md_MoM :: uint256
  md_hushtxid :: uint256
  md_MoMoM :: uint256
  md_MoMoMoffset :: int
  md_MoMoMdepth :: int
  md_hushstarti :: int
  md_hushendi :: int

definition hush_MoMdata :: "hush_params \<Rightarrow> hush_world \<Rightarrow> int \<Rightarrow> MoMdata_result" where
  "hush_MoMdata G w height =
     (case hush_npptr G w height of
        Some np \<Rightarrow>
          \<lparr>md_depth = np_MoMdepth np AND 0xffff, md_notarized_ht = np_notarized_height np,
           md_MoM = np_MoM np, md_hushtxid = np_notarized_desttxid np, md_MoMoM = np_MoMoM np,
           md_MoMoMoffset = np_MoMoMoffset np, md_MoMoMdepth = np_MoMoMdepth np,
           md_hushstarti = np_hushstarti np, md_hushendi = np_hushendi np\<rparr>
      | None \<Rightarrow>
          \<lparr>md_depth = 0, md_notarized_ht = 0, md_MoM = 0, md_hushtxid = 0, md_MoMoM = 0,
           md_MoMoMoffset = 0, md_MoMoMdepth = 0, md_hushstarti = 0, md_hushendi = 0\<rparr>)"

text \<open>\<open>hush_MoM\<close> of \<open>hush_bitcoind.h\<close>, which filters the answer.\<close>

definition hush_MoM :: "hush_params \<Rightarrow> hush_world \<Rightarrow> int \<Rightarrow> MoMdata_result" where
  "hush_MoM G w nHeight =
     (let r = hush_MoMdata G w nHeight in
      if md_depth r \<noteq> 0 \<and> md_notarized_ht r > 0 \<and> nHeight > md_notarized_ht r - md_depth r \<and>
         nHeight \<le> md_notarized_ht r
      then r
      else r\<lparr>md_notarized_ht := 0, md_MoM := 0, md_hushtxid := 0\<rparr>)"

text \<open>
  The two loops of \<open>hush_notarizeddata\<close> from index \<open>i\<close>: whether the loop broke at a checkpoint
  that is too high, the checkpoint before it and the new \<open>last_NPOINTSi\<close>.
\<close>

fun npoints_scan ::
    "int \<Rightarrow> notarized_checkpoint list \<Rightarrow> nat \<Rightarrow> notarized_checkpoint option \<Rightarrow> nat
      \<Rightarrow> bool \<times> notarized_checkpoint option \<times> nat" where
  "npoints_scan nHeight [] i np lst = (False, np, lst)"
| "npoints_scan nHeight (p # ps) i np lst =
     (if np_nHeight p \<ge> nHeight then (True, np, lst)
      else npoints_scan nHeight ps (i + 1) (Some p) i)"

definition notarizeddata_find :: "int \<Rightarrow> hush_state \<Rightarrow> notarized_checkpoint option \<times> nat" where
  "notarizeddata_find nHeight st =
     (let pts = NPOINTS st; l = last_NPOINTSi st;
          (flag, np, l) =
            (if l < length pts \<and> l > 0 \<and> np_nHeight (pts ! (l - 1)) < nHeight
             then npoints_scan nHeight (drop l pts) l (Some (pts ! (l - 1))) l
             else (False, None, l))
      in if flag then (np, l)
         else let (_, np, l) = npoints_scan nHeight pts 0 None l in (np, l))"

text \<open>The height returned, \<open>*notarized_hashp\<close> and \<open>*notarized_desttxidp\<close>.\<close>

definition hush_notarizeddata ::
    "hush_params \<Rightarrow> int \<Rightarrow> hush_world \<Rightarrow> (int \<times> uint256 \<times> uint256) \<times> hush_world" where
  "hush_notarizeddata G nHeight w =
     (let sp = hush_stateptr G;
          (np, l) = notarizeddata_find nHeight (st_get w sp);
          w = st_upd sp (\<lambda>st. st\<lparr>last_NPOINTSi := l\<rparr>) w
      in case np of
           Some np \<Rightarrow> ((np_notarized_height np, np_notarized_hash np, np_notarized_desttxid np), w)
         | None \<Rightarrow> ((0, 0, 0), w))"

text \<open>A checkpoint as \<open>hush_notarized_update\<close> fills it after the \<open>memset\<close>.\<close>

definition checkpoint_of ::
    "int \<Rightarrow> int \<Rightarrow> uint256 \<Rightarrow> uint256 \<Rightarrow> uint256 \<Rightarrow> int \<Rightarrow> notarized_checkpoint" where
  "checkpoint_of nHeight notarized_height notarized_hash notarized_desttxid mom momdepth =
     \<lparr>np_notarized_hash = notarized_hash, np_notarized_desttxid = notarized_desttxid, np_MoM = mom,
      np_MoMoM = 0, np_nHeight = nHeight, np_notarized_height = notarized_height,
      np_MoMdepth = momdepth, np_MoMoMdepth = 0, np_MoMoMoffset = 0, np_hushstarti = 0,
      np_hushendi = 0\<rparr>"

definition hush_notarized_update ::
    "int \<Rightarrow> int \<Rightarrow> uint256 \<Rightarrow> uint256 \<Rightarrow> uint256 \<Rightarrow> int \<Rightarrow> hush_state \<Rightarrow> hush_state" where
  "hush_notarized_update nHeight notarized_height notarized_hash notarized_desttxid mom momdepth st =
     (if notarized_height \<ge> nHeight then st
      else st\<lparr>NPOINTS := NPOINTS st @
                [checkpoint_of nHeight notarized_height notarized_hash notarized_desttxid mom momdepth],
              NOTARIZED_HEIGHT := notarized_height, NOTARIZED_HASH := notarized_hash,
              NOTARIZED_DESTTXID := notarized_desttxid, MoM := mom, MoMdepth := momdepth\<rparr>)"

section \<open>Season intervals\<close>

lemma gethushseason_intervals:
  assumes "take 4 (SMART_CHAIN_SYMBOL G) \<noteq> ''TUSH''"
  shows "gethushseason G h =
     (if h < 0 \<or> 340420 < h then 7 else if h \<le> 1 then 1 else if h \<le> 2 then 2
      else if h \<le> 166250 then 3 else if h \<le> 245055 then 4 else if h \<le> 340000 then 5 else 6)"
  using assms by (auto simp: gethushseason_def HUSH_SEASON_HEIGHTS_def)

lemma gethushseason_range: "gethushseason G h \<in> {1..7}"
proof (cases "take 4 (SMART_CHAIN_SYMBOL G) = ''TUSH''")
  case True
  then show ?thesis by (simp add: gethushseason_def)
next
  case False
  then show ?thesis by (simp add: gethushseason_intervals)
qed

lemma season_timestamps:
  "HUSH_SEASON_TIMESTAMPS =
     [1525132800, 1563148800, 1580303652, 1594425600, 3677160704, 976619008, 2571044608]"
  by (simp add: HUSH_SEASON_TIMESTAMPS_def nHushHardforkTimestamp2_def)

lemma getacseason_intervals:
  "getacseason t =
     (if t \<le> 1525132800 then 1 else if t \<le> 1563148800 then 2 else if t \<le> 1580303652 then 3
      else if t \<le> 1594425600 then 4 else if t \<le> 3677160704 then 5 else 0)"
proof -
  have "t \<le> 976619008 \<Longrightarrow> t \<le> 3677160704" "t \<le> 2571044608 \<Longrightarrow> t \<le> 3677160704"
    by (auto elim: order_trans)
  then show ?thesis by (auto simp: getacseason_def season_timestamps)
qed

section \<open>Decoded keys\<close>

lemma decode_hex_key:
  assumes "hex_key_ok s"
  shows "decode_hex 33 s junk = Some (map (\<lambda>i. decode_hex1 (s ! (i * 2)) (s ! (i * 2 + 1))) [0..<33], 33)"
  using assms by (intro decode_hex_digits) (auto simp: hex_key_ok_def)

lemma decode_key_junk: "hex_key_ok s \<Longrightarrow> decode_hex 33 s junk = Some (decode_key s, 33)"
  by (simp only: decode_key_def decode_hex_key) simp

lemma length_decode_key: "hex_key_ok s \<Longrightarrow> length (decode_key s) = 33"
  by (simp add: decode_key_def decode_hex_key)

lemma nth_decode_key:
  "hex_key_ok s \<Longrightarrow> i < 33 \<Longrightarrow> decode_key s ! i = decode_hex1 (s ! (i * 2)) (s ! (i * 2 + 1))"
  by (simp add: decode_key_def decode_hex_key)

definition is_lowhex :: "char \<Rightarrow> bool" where
  "is_lowhex c \<longleftrightarrow> c \<in> set ''0123456789abcdef''"

lemma lowhex_hexdigit: "is_lowhex c \<Longrightarrow> is_hexdigit c"
proof -
  have "list_all is_hexdigit ''0123456789abcdef''" by code_simp
  then show "is_lowhex c \<Longrightarrow> is_hexdigit c" by (simp only: is_lowhex_def list_all_iff)
qed

lemma lowhex_inj: "is_lowhex a \<Longrightarrow> is_lowhex b \<Longrightarrow> unhex0 a = unhex0 b \<Longrightarrow> a = b"
proof -
  have "list_all (\<lambda>a. list_all (\<lambda>b. unhex0 a = unhex0 b \<longrightarrow> a = b) ''0123456789abcdef'') ''0123456789abcdef''"
    by code_simp
  then show "is_lowhex a \<Longrightarrow> is_lowhex b \<Longrightarrow> unhex0 a = unhex0 b \<Longrightarrow> a = b"
    unfolding is_lowhex_def list_all_iff by blast
qed

lemma decode_hex1_value:
  assumes "is_hexdigit a" and "is_hexdigit b"
  shows "uint (decode_hex1 a b) = 16 * unhex0 a + unhex0 b"
proof -
  have r: "0 \<le> unhex0 a" "unhex0 a < 16" "0 \<le> unhex0 b" "unhex0 b < 16"
    using assms unhex0_range [of a] unhex0_range [of b] by (auto simp: is_hexdigit_def)
  have "push_bit 4 (unhex0 a) OR unhex0 b = push_bit 4 (unhex0 a) + unhex0 b"
  proof (rule disjunctive_add [symmetric])
    fix n
    have "unhex0 b = take_bit 4 (unhex0 b)" using r by (simp add: take_bit_int_eq_self)
    then have "bit (unhex0 b) n \<Longrightarrow> n < 4" by (metis bit_take_bit_iff)
    then show "\<not> bit (push_bit 4 (unhex0 a)) n \<or> \<not> bit (unhex0 b) n"
      by (auto simp: bit_simps)
  qed
  then have "decode_hex1 a b = word_of_int (16 * unhex0 a + unhex0 b)"
    unfolding decode_hex1_def unhex_def by (simp only: push_bit_eq_mult) (simp add: mult.commute)
  moreover have "(16 * unhex0 a + unhex0 b) mod 256 = 16 * unhex0 a + unhex0 b" using r by simp
  ultimately show ?thesis by (simp only: uint_word_of_int) simp
qed

lemma nibbles_eq:
  "16 * x + y = 16 * u + v \<Longrightarrow> 0 \<le> y \<Longrightarrow> y < 16 \<Longrightarrow> 0 \<le> v \<Longrightarrow> v < 16 \<Longrightarrow> x = u \<and> y = (v :: int)"
  by presburger

lemma decode_hex1_inj:
  assumes "is_lowhex a" "is_lowhex b" "is_lowhex c" "is_lowhex d" and "decode_hex1 a b = decode_hex1 c d"
  shows "a = c \<and> b = d"
proof -
  have h: "is_hexdigit a" "is_hexdigit b" "is_hexdigit c" "is_hexdigit d"
    using assms lowhex_hexdigit by auto
  then have "16 * unhex0 a + unhex0 b = 16 * unhex0 c + unhex0 d"
    using assms(5) decode_hex1_value by metis
  moreover have "unhex0 b < 16" "unhex0 d < 16" "0 \<le> unhex0 b" "0 \<le> unhex0 d"
    using h unhex0_range by (auto simp: is_hexdigit_def)
  ultimately have "unhex0 a = unhex0 c \<and> unhex0 b = unhex0 d" by (intro nibbles_eq)
  then show ?thesis using assms lowhex_inj by blast
qed

lemma decode_key_inj:
  assumes "hex_key_ok s" and "list_all is_lowhex s" and "hex_key_ok t" and "list_all is_lowhex t"
    and eq: "decode_key s = decode_key t"
  shows "s = t"
proof (rule nth_equalityI)
  show "length s = length t" using assms by (simp add: hex_key_ok_def)
  fix i
  assume i: "i < length s"
  then have "i div 2 < 33" using assms(1) by (simp add: hex_key_ok_def)
  moreover have len: "length s = 66" "length t = 66" using assms by (simp_all add: hex_key_ok_def)
  ultimately have "s ! (i div 2 * 2) = t ! (i div 2 * 2) \<and> s ! (i div 2 * 2 + 1) = t ! (i div 2 * 2 + 1)"
    using assms nth_decode_key [of s "i div 2"] nth_decode_key [of t "i div 2"]
    by (intro decode_hex1_inj) (auto simp: list_all_length)
  moreover have "i = i div 2 * 2 \<or> i = i div 2 * 2 + 1" by presburger
  ultimately show "s ! i = t ! i" by metis
qed

lemma season6_lowhex: "list_all (\<lambda>e. list_all is_lowhex (snd e)) notaries_season6"
  by code_simp

lemma season6_keys_distinct: "distinct (map (\<lambda>e. decode_key (snd e)) notaries_season6)"
proof -
  have "inj_on decode_key (set (map snd notaries_season6))"
    using season6_keys_ok season6_lowhex
    by (intro inj_onI decode_key_inj) (auto simp: list_all_iff)
  then have "distinct (map decode_key (map snd notaries_season6))"
    using season6_distinct unfolding distinct_map [of decode_key] by blast
  then show ?thesis by (simp add: comp_def)
qed

lemma hush_pubkeys_late: "s = 6 \<or> s = 7 \<Longrightarrow> hush_pubkeys s = map (\<lambda>e. decode_key (snd e)) notaries_season6"
  by (auto simp: hush_pubkeys_def notaries_list_def notaries_season7_def)

lemma unused_key_ok: "hex_key_ok (replicate 66 CHR ''0'')"
proof -
  have "is_hexdigit CHR ''0''" by code_simp
  then show ?thesis by (simp add: hex_key_ok_def list_all_iff)
qed

lemma notaries_list_ok:
  "es \<in> set notaries_list \<Longrightarrow> length es = 64 \<and> list_all (\<lambda>e. hex_key_ok (snd e)) es"
  using season6_keys_ok season6_length unused_key_ok
  by (auto simp: notaries_list_def notaries_season1_def notaries_season2_def notaries_season3_def
      notaries_season4_def notaries_season5_def notaries_season7_def notaries_unused_def list_all_iff)

lemma hush_pubkeys_shape:
  assumes "1 \<le> s" and "s \<le> 7"
  shows "length (hush_pubkeys s) = 64 \<and> (\<forall>k\<in>set (hush_pubkeys s). length k = 33)"
proof -
  have "s - 1 < length notaries_list" using assms by (simp add: notaries_list_def)
  then have "notaries_list ! (s - 1) \<in> set notaries_list" by simp
  from notaries_list_ok [OF this] show ?thesis
    by (auto simp: hush_pubkeys_def list_all_iff length_decode_key)
qed

section \<open>Checkpoint searches\<close>

definition notarized_at :: "int \<Rightarrow> notarized_checkpoint list \<Rightarrow> notarized_checkpoint option" where
  "notarized_at h pts =
     (let ps = filter (\<lambda>p. np_nHeight p < h) pts in if ps = [] then None else Some (last ps))"

lemma npoints_scan_takeWhile:
  "npoints_scan h ps i np lst =
     (let tw = takeWhile (\<lambda>p. np_nHeight p < h) ps in
      (tw \<noteq> ps, if tw = [] then np else Some (last tw), if tw = [] then lst else i + length tw - 1))"
proof (induction ps arbitrary: i np lst)
  case (Cons p ps)
  show ?case
  proof (cases "np_nHeight p < h")
    case True
    then show ?thesis by (simp add: Cons.IH Let_def)
  next
    case False
    then show ?thesis by simp
  qed
qed simp

lemma sorted_takeWhile_filter:
  fixes f :: "'a \<Rightarrow> 'b::linorder"
  assumes "sorted (map f xs)"
  shows "takeWhile (\<lambda>x. f x < h) xs = filter (\<lambda>x. f x < h) xs"
  using assms
proof (induction xs)
  case (Cons x xs)
  show ?case
  proof (cases "f x < h")
    case True
    then show ?thesis using Cons by simp
  next
    case False
    then have "\<forall>y\<in>set xs. \<not> f y < h" using Cons.prems by auto
    then show ?thesis using False by (simp add: filter_empty_conv)
  qed
qed simp

lemma sorted_drop_map: "sorted (map f xs) \<Longrightarrow> sorted (map f (drop n xs))"
  by (simp add: drop_map [symmetric] sorted_wrt_drop)

lemma filter_upto_cached:
  assumes "sorted (map np_nHeight pts)" and "0 < l" and "l < length pts"
    and "np_nHeight (pts ! (l - 1)) < h"
  shows "filter (\<lambda>p. np_nHeight p < h) pts = take l pts @ filter (\<lambda>p. np_nHeight p < h) (drop l pts)"
proof -
  have "np_nHeight p < h" if p: "p \<in> set (take l pts)" for p
  proof -
    obtain k where k: "k < l" "k < length pts" "p = pts ! k"
      using p by (auto simp: in_set_conv_nth)
    then have "np_nHeight (pts ! k) \<le> np_nHeight (pts ! (l - 1))"
      using assms(1-3) sorted_nth_mono [of "map np_nHeight pts" k "l - 1"] by simp
    then show ?thesis using assms(4) k by simp
  qed
  then have "filter (\<lambda>p. np_nHeight p < h) (take l pts) = take l pts" by (simp add: filter_id_conv)
  moreover have "filter (\<lambda>p. np_nHeight p < h) pts =
      filter (\<lambda>p. np_nHeight p < h) (take l pts) @ filter (\<lambda>p. np_nHeight p < h) (drop l pts)"
    by (simp only: filter_append [symmetric] append_take_drop_id)
  ultimately show ?thesis by simp
qed

text \<open>With heights in order, the cached position changes nothing.\<close>

lemma notarizeddata_find_sorted:
  assumes "sorted (map np_nHeight (NPOINTS st))"
  shows "fst (notarizeddata_find h st) = notarized_at h (NPOINTS st)"
proof -
  let ?pts = "NPOINTS st" and ?l = "last_NPOINTSi st"
  let ?F = "filter (\<lambda>p. np_nHeight p < h)"
  have all: "takeWhile (\<lambda>p. np_nHeight p < h) ?pts = ?F ?pts"
    using assms by (rule sorted_takeWhile_filter)
  have tail: "takeWhile (\<lambda>p. np_nHeight p < h) (drop ?l ?pts) = ?F (drop ?l ?pts)"
    using assms by (intro sorted_takeWhile_filter sorted_drop_map)
  show ?thesis
  proof (cases "?l < length ?pts \<and> ?l > 0 \<and> np_nHeight (?pts ! (?l - 1)) < h")
    case True
    then have split: "?F ?pts = take ?l ?pts @ ?F (drop ?l ?pts)"
      using assms by (intro filter_upto_cached) auto
    have ne: "take ?l ?pts \<noteq> []" using True by auto
    moreover have "last (take ?l ?pts) = ?pts ! (?l - 1)"
      using True by (simp add: last_conv_nth [OF ne] min_absorb2)
    ultimately show ?thesis
      using True by (simp add: notarizeddata_find_def npoints_scan_takeWhile all tail split notarized_at_def Let_def)
  next
    case False
    then have "(if ?l < length ?pts \<and> ?l > 0 \<and> np_nHeight (?pts ! (?l - 1)) < h
        then npoints_scan h (drop ?l ?pts) ?l (Some (?pts ! (?l - 1))) ?l else (False, None, ?l)) = (False, None, ?l)"
      by (rule if_not_P)
    then show ?thesis
      by (simp only: notarizeddata_find_def Let_def prod.case npoints_scan_takeWhile all notarized_at_def) simp
  qed
qed

lemma hush_notarizeddata_sorted:
  assumes "sorted (map np_nHeight (NPOINTS (st_get w (hush_stateptr G))))"
  shows "fst (hush_notarizeddata G h w) =
     (case notarized_at h (NPOINTS (st_get w (hush_stateptr G))) of
        None \<Rightarrow> (0, 0, 0)
      | Some np \<Rightarrow> (np_notarized_height np, np_notarized_hash np, np_notarized_desttxid np))"
  using notarizeddata_find_sorted [OF assms, of h]
  by (auto simp: hush_notarizeddata_def Let_def split: prod.splits option.splits)

text \<open>The backward search finds the newest covering checkpoint.\<close>

lemma npptr_scan_Some:
  "npptr_scan h pts n = Some (np, i) \<longleftrightarrow>
     i < n \<and> np = pts ! i \<and> np_covers h np \<and> (\<forall>j. i < j \<and> j < n \<longrightarrow> \<not> np_covers h (pts ! j))"
  by (induction n) (auto simp: less_Suc_eq)

lemma npptr_scan_None: "npptr_scan h pts n = None \<longleftrightarrow> (\<forall>j<n. \<not> np_covers h (pts ! j))"
  by (induction n) (auto simp: less_Suc_eq)

lemma npptr_scan_newest:
  "npptr_scan h pts n = None \<and> (\<forall>j<n. \<not> np_covers h (pts ! j)) \<or>
   (\<exists>i<n. npptr_scan h pts n = Some (pts ! i, i) \<and> np_covers h (pts ! i) \<and>
      (\<forall>j. i < j \<and> j < n \<longrightarrow> \<not> np_covers h (pts ! j)))"
  by (cases "npptr_scan h pts n") (auto simp: npptr_scan_Some npptr_scan_None)

section \<open>Checkpoint invariant\<close>

definition npoint_ok :: "notarized_checkpoint \<Rightarrow> bool" where
  "npoint_ok np \<longleftrightarrow> np_notarized_height np < np_nHeight np"

definition npoints_ok :: "hush_state \<Rightarrow> bool" where
  "npoints_ok st \<longleftrightarrow> list_all npoint_ok (NPOINTS st)"

lemma npoints_ok_update:
  "npoints_ok st \<Longrightarrow> npoints_ok (hush_notarized_update nh n hs tx m d st)"
  by (simp add: npoints_ok_def hush_notarized_update_def npoint_ok_def checkpoint_of_def)

lemma notarized_at_append:
  "np_nHeight p < h \<Longrightarrow> notarized_at h (pts @ [p]) = Some p"
  "\<not> np_nHeight p < h \<Longrightarrow> notarized_at h (pts @ [p]) = notarized_at h pts"
  by (simp_all add: notarized_at_def Let_def)

section \<open>Ratified sets\<close>

lemma length_notarysinit_loop [simp]: "length (notarysinit_loop N o' hwm is P) = length P"
  by (induction "is" arbitrary: P) auto

lemma notarysinit_loop_fill:
  assumes "\<not> o' < hwm" and "distinct is" and "set is \<subseteq> {..<length P}" and "i < length P"
  shows "notarysinit_loop N o' hwm is P ! i =
     (if i \<in> set is then N\<lparr>kn_height := int i * HUSH_DPOW_GAP\<rparr> else P ! i)"
  using assms by (induction "is" arbitrary: P) (auto simp: nth_list_update)

lemma notarysinit_htind_less: "notarysinit_htind h < PUBKEYS_SLOTS"
  by (auto simp: notarysinit_htind_def PUBKEYS_SLOTS_def HUSH_MAXBLOCKS_def HUSH_DPOW_GAP_def Let_def)

lemma notarysinit_htind_pos:
  "0 < h \<Longrightarrow> h < 247000 \<Longrightarrow> notarysinit_htind h = nat ((h + 1000) div 2000 + 1)"
  by (auto simp: notarysinit_htind_def HUSH_MAXBLOCKS_def HUSH_DPOW_GAP_def Let_def)

definition pubkeys_table :: "hush_world \<Rightarrow> knotaries_entry list" where
  "pubkeys_table w =
     (case Pubkeys w of
        None \<Rightarrow> replicate (1 + PUBKEYS_SLOTS) \<lparr>kn_height = 0, kn_numnotaries = 0, kn_Notaries = []\<rparr>
      | Some P \<Rightarrow> P)"

lemma hush_notarysinit_slot:
  assumes "notarysinit_hwmheight w \<le> h" and "length (pubkeys_table w) = 1 + PUBKEYS_SLOTS"
    and "i < PUBKEYS_SLOTS"
  shows "pubkeys_table (hush_notarysinit h pks w) ! i =
     (if notarysinit_htind h \<le> i
      then \<lparr>kn_height = int i * HUSH_DPOW_GAP, kn_numnotaries = int (length pks),
            kn_Notaries = zip pks (map word_of_nat [0..<length pks])\<rparr>
      else pubkeys_table w ! i)"
  using assms
  by (simp add: hush_notarysinit_def Let_def pubkeys_table_def [symmetric] notarysinit_loop_fill
      subset_iff)
    (simp add: pubkeys_table_def notarysinit_loop_fill subset_iff)

section \<open>Properties\<close>

definition hush3_params :: hush_params where
  "hush3_params =
     \<lparr>SMART_CHAIN_SYMBOL = ''HUSH3'', IS_HUSH_NOTARY = 0, HUSH_EXTERNAL_NOTARIES = 0,
      HUSH_DPOWCONFS = 1, NOTARY_PUBKEY33 = replicate 33 0, HUSH_NSPV = 0, HUSH_REWIND = 0,
      NETWORK_ID = ''main'', ASSETCHAINS_NOTARY_PAY = [0]\<rparr>"

definition empty_chain :: chain_view where
  "empty_chain = \<lparr>mapBlockIndex = [], chainActive = [], IsInitialBlockDownload = False\<rparr>"

lemma hush_notaries_late:
  assumes "take 5 (SMART_CHAIN_SYMBOL G) = ''HUSH3''" and "340000 < h"
  shows "hush_notaries G ch h t = Some (hush_pubkeys 7)"
proof -
  have "take 4 (take 5 (SMART_CHAIN_SYMBOL G)) = ''HUSH''" using assms(1) by simp
  then have "take 4 (SMART_CHAIN_SYMBOL G) \<noteq> ''TUSH''" by simp
  then have "gethushseason G h = 6 \<or> gethushseason G h = 7"
    using assms(2) by (simp add: gethushseason_intervals)
  then show ?thesis
    using assms(1) by (auto simp: hush_notaries_def Let_def hush_pubkeys_late)
qed

lemma distinct_hush_pubkeys_7: "distinct (hush_pubkeys 7)"
  using season6_keys_distinct by (simp add: hush_pubkeys_late)

text \<open>On HUSH3 and TUSH the notary set exists for every height, negative ones included, and has 64
  keys of 33 bytes.\<close>
theorem notaries_total:
  assumes "take 5 (SMART_CHAIN_SYMBOL G) = ''HUSH3'' \<or> take 4 (SMART_CHAIN_SYMBOL G) = ''TUSH''"
  shows "\<exists>ks. hush_notaries G ch height timestamp = Some ks \<and> length ks = 64 \<and> (\<forall>k\<in>set ks. length k = 33)"
proof -
  have "hush_notaries G ch height timestamp = Some (hush_pubkeys (nat (gethushseason G height)))"
    using assms gethushseason_range [of G height] by (auto simp: hush_notaries_def Let_def)
  then show ?thesis
    using hush_pubkeys_shape [of "nat (gethushseason G height)"] gethushseason_range [of G height] by auto
qed

theorem notaries_total_witness:
  "take 5 (SMART_CHAIN_SYMBOL hush3_params) = ''HUSH3'' \<and>
   (\<exists>ks. hush_notaries hush3_params empty_chain 400000 0 = Some ks \<and> length ks = 64 \<and>
      (\<forall>k\<in>set ks. length k = 33))"
proof -
  have "take 5 (SMART_CHAIN_SYMBOL hush3_params) = ''HUSH3''" by (simp add: hush3_params_def)
  then show ?thesis using notaries_total [of hush3_params empty_chain 400000 0] by blast
qed

text \<open>\<open>hush_findnotary\<close> inverts the key list: from height 340001 on, where the hard-coded HUSH3 keys
  are in force, the keys are distinct, the \<open>i\<close>-th key is found at \<open>i\<close>, and any other key is rejected.\<close>
theorem findnotary_inverts:
  assumes "take 5 (SMART_CHAIN_SYMBOL G) = ''HUSH3''" and "340000 < height"
  shows "\<exists>ks. hush_notaries G ch height timestamp = Some ks \<and> distinct ks \<and> length ks = 64 \<and>
     (\<forall>i<64. hush_findnotary G ch (ks ! i) height timestamp = (int i, 64)) \<and>
     (\<forall>pk. pk \<notin> set ks \<longrightarrow> hush_findnotary G ch pk height timestamp = (-1, 64))"
proof -
  note ks = hush_notaries_late [OF assms, of ch timestamp]
  have len: "length (hush_pubkeys 7) = 64" using hush_pubkeys_shape [of 7] by simp
  have "find_index (\<lambda>k. k = hush_pubkeys 7 ! i) (hush_pubkeys 7) 0 = int i" if "i < 64" for i
    using that len distinct_hush_pubkeys_7 by (intro find_index_distinct) simp_all
  moreover have "find_index (\<lambda>k. k = pk) (hush_pubkeys 7) 0 = -1" if "pk \<notin> set (hush_pubkeys 7)" for pk
    using that by (subst find_index_none) auto
  ultimately show ?thesis
    using ks len distinct_hush_pubkeys_7 by (simp add: hush_findnotary_def)
qed

theorem findnotary_inverts_witness:
  "\<exists>ks. hush_notaries hush3_params empty_chain 340001 0 = Some ks \<and>
     hush_findnotary hush3_params empty_chain (ks ! 63) 340001 0 = (63, 64) \<and>
     hush_findnotary hush3_params empty_chain [] 340001 0 = (-1, 64)"
proof -
  have sym: "take 5 (SMART_CHAIN_SYMBOL hush3_params) = ''HUSH3''" by (simp add: hush3_params_def)
  from findnotary_inverts [OF sym, of 340001 empty_chain 0]
  obtain ks where ks: "hush_notaries hush3_params empty_chain 340001 0 = Some ks"
    and f: "\<forall>i<64. hush_findnotary hush3_params empty_chain (ks ! i) 340001 0 = (int i, 64)"
    and n: "\<forall>pk. pk \<notin> set ks \<longrightarrow> hush_findnotary hush3_params empty_chain pk 340001 0 = (-1, 64)"
    by auto
  have "[] \<notin> set ks"
    using ks hush_notaries_late [OF sym, of 340001 empty_chain 0] hush_pubkeys_shape [of 7] by auto
  moreover have "hush_findnotary hush3_params empty_chain (ks ! 63) 340001 0 = (63, 64)"
    using f [rule_format, of 63] by simp
  ultimately show ?thesis using ks n by blast
qed

text \<open>Exactly one notary is special for each block: from height 340001 on, \<open>hush_chosennotary\<close>
  answers 1 for the key at position \<open>height mod 64\<close>, 0 for the other 63, and leaves the state alone.\<close>
theorem special_notary_unique:
  assumes "take 5 (SMART_CHAIN_SYMBOL G) = ''HUSH3''" and "340000 < height" and "i < 64"
  shows "hush_chosennotary init G ch height (hush_pubkeys 7 ! i) timestamp w =
     ((if height mod 64 = int i then 1 else 0, int i), w)"
proof -
  have len: "length (hush_pubkeys 7) = 64" using hush_pubkeys_shape [of 7] by simp
  have "find_index (\<lambda>k. k = hush_pubkeys 7 ! i) (hush_pubkeys 7) 0 = int i"
    using assms(3) len distinct_hush_pubkeys_7 by (intro find_index_distinct) simp_all
  then have "hush_findnotary G ch (hush_pubkeys 7 ! i) height timestamp = (int i, 64)"
    by (simp add: hush_findnotary_def hush_notaries_late [OF assms(1,2)] len)
  then show ?thesis using assms(2) by (simp add: hush_chosennotary_def)
qed

theorem special_notary_unique_witness:
  "hush_chosennotary id hush3_params empty_chain 500000 (hush_pubkeys 7 ! 32) 0 hush_world0 = ((1, 32), hush_world0) \<and>
   hush_chosennotary id hush3_params empty_chain 500000 (hush_pubkeys 7 ! 33) 0 hush_world0 = ((0, 33), hush_world0)"
  using special_notary_unique [of hush3_params 500000 32 id empty_chain 0 hush_world0]
    special_notary_unique [of hush3_params 500000 33 id empty_chain 0 hush_world0]
  by (simp add: hush3_params_def)

text \<open>On the other chains seasons go by timestamp, and the products that define the last three
  boundaries wrap around in 32 bits: season 5 lasts until 3677160704, seasons 6 and 7 are never
  entered, and after that no season applies.\<close>
theorem acseason_wraps:
  "getacseason t \<noteq> 6 \<and> getacseason t \<noteq> 7 \<and> (getacseason t = 0 \<longleftrightarrow> 3677160704 < t)"
proof -
  have "t \<le> 3677160704" if "t \<le> 1525132800 \<or> t \<le> 1563148800 \<or> t \<le> 1580303652 \<or> t \<le> 1594425600"
    using that by (auto elim: order_trans)
  then show ?thesis by (auto simp: getacseason_intervals)
qed

text \<open>C30 The cached position in \<open>hush_notarizeddata\<close> is invisible while checkpoints are in height order:
  the answer is the newest checkpoint recorded below the given height, and zeros when there is none.\<close>
theorem notarizeddata_cache_transparent:
  assumes "sorted (map np_nHeight (NPOINTS (st_get w (hush_stateptr G))))"
  shows "fst (hush_notarizeddata G nHeight w) =
     (case notarized_at nHeight (NPOINTS (st_get w (hush_stateptr G))) of
        None \<Rightarrow> (0, 0, 0)
      | Some np \<Rightarrow> (np_notarized_height np, np_notarized_hash np, np_notarized_desttxid np))"
  by (rule hush_notarizeddata_sorted [OF assms])

definition npoints_example :: "int list \<Rightarrow> hush_state" where
  "npoints_example hs = fold (\<lambda>h. hush_notarized_update h (h - 1) (word_of_int h) 7 0 0) hs hush_state0"

theorem notarizeddata_cache_transparent_witness:
  "fst (hush_notarizeddata hush3_params 108
     (st_upd 0 (\<lambda>_. (npoints_example [100, 105, 120])\<lparr>last_NPOINTSi := 1\<rparr>) hush_world0)) = (104, 105, 7)"
proof -
  let ?w = "st_upd 0 (\<lambda>_. (npoints_example [100, 105, 120])\<lparr>last_NPOINTSi := 1\<rparr>) hush_world0"
  have sp: "hush_stateptr hush3_params = 0" by code_simp
  have pts: "NPOINTS (st_get ?w 0) = NPOINTS (npoints_example [100, 105, 120])" by simp
  show ?thesis
    using notarizeddata_cache_transparent [of ?w hush3_params 108] unfolding sp pts
    by (simp add: npoints_example_def hush_notarized_update_def hush_state0_def checkpoint_of_def
        notarized_at_def)
qed

text \<open>After a reorganisation the order can break, because checkpoints are only ever appended, and
  then the answer depends on the cached position: with checkpoints recorded at heights 100, 110, 105
  and 120, a fresh node and a node that was once asked for height 121 answer differently for 108.\<close>
theorem notarizeddata_cache_visible:
  "let st = npoints_example [100, 110, 105, 120] in
   map_option np_nHeight (fst (notarizeddata_find 108 st)) = Some 100 \<and>
   map_option np_nHeight
     (fst (notarizeddata_find 108 (st\<lparr>last_NPOINTSi := snd (notarizeddata_find 121 st)\<rparr>))) = Some 105"
  by (simp add: npoints_example_def hush_notarized_update_def hush_state0_def checkpoint_of_def
      notarizeddata_find_def)

text \<open>\<open>hush_MoMdata\<close> answers with the newest checkpoint whose MoM range, the \<open>depth\<close> heights ending
  at its notarised height, contains the given height, and with zeros when no checkpoint covers it.\<close>
theorem MoMdata_newest_cover:
  "let pts = NPOINTS (st_get w (hush_stateptr G)); r = hush_MoMdata G w height in
   (\<exists>i<length pts. np_covers height (pts ! i) \<and> (\<forall>j. i < j \<and> j < length pts \<longrightarrow> \<not> np_covers height (pts ! j)) \<and>
      md_MoM r = np_MoM (pts ! i) \<and> md_notarized_ht r = np_notarized_height (pts ! i) \<and>
      md_hushtxid r = np_notarized_desttxid (pts ! i) \<and>
      0 < md_depth r \<and> md_notarized_ht r - md_depth r < height \<and> height \<le> md_notarized_ht r) \<or>
   ((\<forall>i<length pts. \<not> np_covers height (pts ! i)) \<and> md_depth r = 0 \<and> md_MoM r = 0 \<and> md_notarized_ht r = 0)"
proof -
  let ?pts = "NPOINTS (st_get w (hush_stateptr G))"
  have pos: "0 < np_MoMdepth np AND 0xffff" if "np_covers height np" for np
    using that by (auto simp: np_covers_def)
  show ?thesis
    using npptr_scan_newest [of height ?pts "length ?pts"] pos
    by (auto simp: Let_def hush_MoMdata_def hush_npptr_def hush_npptr_for_height_def np_covers_def)
qed

theorem MoMdata_newest_cover_witness:
  "md_MoM (hush_MoMdata hush3_params
     (st_upd 0 (hush_notarized_update 120 110 5 7 9 20 \<circ> hush_notarized_update 100 95 4 6 8 50) hush_world0) 92) = 9"
proof -
  let ?w = "st_upd 0 (hush_notarized_update 120 110 5 7 9 20 \<circ> hush_notarized_update 100 95 4 6 8 50) hush_world0"
  have sp: "hush_stateptr hush3_params = 0" by code_simp
  have pts: "NPOINTS (st_get ?w 0) = [checkpoint_of 100 95 4 6 8 50, checkpoint_of 120 110 5 7 9 20]"
    by (simp add: hush_notarized_update_def st_get_def hush_world0_def hush_state0_def st_upd_def)
  let ?pts = "[checkpoint_of 100 95 4 6 8 50, checkpoint_of 120 110 5 7 9 20]"
  have c: "np_covers 92 (?pts ! 1)" by (simp add: np_covers_def checkpoint_of_def)
  from MoMdata_newest_cover [of ?w hush3_params 92] c
  obtain i where i: "i < length ?pts" "\<forall>j. i < j \<and> j < length ?pts \<longrightarrow> \<not> np_covers 92 (?pts ! j)"
    "md_MoM (hush_MoMdata hush3_params ?w 92) = np_MoM (?pts ! i)"
    unfolding sp pts Let_def by (metis (no_types, lifting) One_nat_def length_Cons lessI list.size(3))
  have "\<not> i < 1" using i(2) c by (metis One_nat_def length_Cons lessI list.size(3))
  then have "i = 1" using i(1) by simp
  then show ?thesis using i(3) by (simp add: checkpoint_of_def)
qed

text \<open>A set ratified at height \<open>h\<close> takes effect at the next gap boundary: it is what the table holds
  for every block from \<open>((h + 1000) div 2000 + 1) * 2000\<close> on, and earlier blocks keep the set they had.\<close>
theorem ratified_set_activation:
  assumes "notarysinit_hwmheight w \<le> h" and "length (pubkeys_table w) = 1 + PUBKEYS_SLOTS"
    and "0 < h" and "h < 247000" and "0 \<le> b" and "b < 250000"
  shows "kn_Notaries (pubkeys_table (hush_notarysinit h pks w) ! nat (b div 2000)) =
     (if ((h + 1000) div 2000 + 1) * 2000 \<le> b
      then zip pks (map word_of_nat [0..<length pks])
      else kn_Notaries (pubkeys_table w ! nat (b div 2000)))"
proof -
  have "nat (b div 2000) < PUBKEYS_SLOTS" using assms(5,6) by (simp add: PUBKEYS_SLOTS_def)
  moreover have "notarysinit_htind h \<le> nat (b div 2000) \<longleftrightarrow> ((h + 1000) div 2000 + 1) * 2000 \<le> b"
  proof -
    have "q \<le> b div 2000 \<longleftrightarrow> q * 2000 \<le> b" for q
      using zdiv_mono1 [of "q * 2000" b 2000] mult_div_mod_eq [of 2000 b] pos_mod_sign [of 2000 b] by auto
    moreover have "nat ((h + 1000) div 2000 + 1) \<le> nat (b div 2000) \<longleftrightarrow> (h + 1000) div 2000 + 1 \<le> b div 2000"
      using assms(5) by (intro nat_le_eq_zle) (simp add: pos_imp_zdiv_nonneg_iff)
    ultimately show ?thesis unfolding notarysinit_htind_pos [OF assms(3,4)] by blast
  qed
  ultimately show ?thesis using hush_notarysinit_slot [OF assms(1,2)] by simp
qed

theorem ratified_set_activation_witness:
  "kn_Notaries (pubkeys_table (hush_notarysinit 5000 [[1], [2]] hush_world0) ! nat (8000 div 2000)) = [([1], 0), ([2], 1)] \<and>
   kn_Notaries (pubkeys_table (hush_notarysinit 5000 [[1], [2]] hush_world0) ! nat (7999 div 2000)) = []"
  using ratified_set_activation [of hush_world0 5000 8000 "[[1], [2]]"]
    ratified_set_activation [of hush_world0 5000 7999 "[[1], [2]]"]
  by (simp add: hush_world0_def pubkeys_table_def PUBKEYS_SLOTS_def)

end
