(* ===== verification/Hush_KV.thy ===== *)
theory Hush_KV
  imports Hush_Structs Hush_Digest
begin

text \<open>
  The on-chain key-value store: \<open>src/src/hush_kv.h\<close> and the signature scheme it relies on, from
  \<open>hush_curve25519.h\<close>. The scalar multiplication \<open>curve25519\<close> (third-party code) is a parameter
  \<open>curve\<close>; \<open>vcalc_sha256\<close> is the digest of \<open>Hush_Digest\<close>, which does not depend on the stack.
\<close>

section \<open>Signatures\<close>

definition curve25519_basepoint9 :: uint256 where
  "curve25519_basepoint9 = 9"

definition sha256_bits :: "buffer \<Rightarrow> uint256" where
  "sha256_bits m = le_word (sha256_digest m)"

definition curve25519_shared :: "(uint256 \<Rightarrow> uint256 \<Rightarrow> uint256) \<Rightarrow> uint256 \<Rightarrow> uint256 \<Rightarrow> uint256" where
  "curve25519_shared curve privkey otherpub = sha256_bits (le_bytes 32 (curve privkey otherpub))"

definition hush_kvsig :: "(uint256 \<Rightarrow> uint256 \<Rightarrow> uint256) \<Rightarrow> buffer \<Rightarrow> uint256 \<Rightarrow> uint256" where
  "hush_kvsig curve buf privkey =
     (let otherpub = curve (sha256_bits buf) curve25519_basepoint9 in curve25519_shared curve privkey otherpub)"

definition hush_kvsigverify :: "(uint256 \<Rightarrow> uint256 \<Rightarrow> uint256) \<Rightarrow> buffer \<Rightarrow> uint256 \<Rightarrow> uint256 \<Rightarrow> int" where
  "hush_kvsigverify curve buf pubkey sig =
     (if pubkey \<noteq> 0
      then let checksig = curve25519_shared curve (sha256_bits buf) pubkey in
           if checksig \<noteq> sig then -1 else 0
      else 0)"

section \<open>Durations and fees\<close>

definition HUSH_KVPROTECTED :: u32 where
  "HUSH_KVPROTECTED = 1"

definition HUSH_KVDURATION :: int where
  "HUSH_KVDURATION = 1440"

text \<open>\<open>None\<close> stands for the null pointer; the result is -1, or the sign of \<open>memcmp\<close>.\<close>

fun memcmp :: "buffer \<Rightarrow> buffer \<Rightarrow> int" where
  "memcmp (a # as) (b # bs) = (if a < b then -1 else if b < a then 1 else memcmp as bs)"
| "memcmp _ _ = 0"

definition hush_kvcmp :: "buffer option \<Rightarrow> buffer option \<Rightarrow> int" where
  "hush_kvcmp refvalue value =
     (case (refvalue, value) of
        (None, None) \<Rightarrow> 0
      | (Some r, Some v) \<Rightarrow> if length r \<noteq> length v then -1 else memcmp r v
      | _ \<Rightarrow> -1)"

definition hush_kvnumdays :: "u32 \<Rightarrow> int" where
  "hush_kvnumdays flags =
     (let numdays = uint (drop_bit 2 flags AND 0x3ff) + 1 in if numdays > 365 then 365 else numdays)"

definition hush_kvduration :: "u32 \<Rightarrow> int" where
  "hush_kvduration flags = hush_kvnumdays flags * HUSH_KVDURATION"

text \<open>
  The product is computed in \<open>int32_t\<close> and stored in \<open>uint64_t\<close>. \<open>None\<close> is the division by
  zero for an empty key, which stops the process.
\<close>

definition hush_kvfee :: "u32 \<Rightarrow> int \<Rightarrow> int \<Rightarrow> u64 option" where
  "hush_kvfee flags opretlen keylen =
     (let k = (if keylen > 32 then 32 else keylen) in
      if k = 0 then None
      else let numdays = hush_kvnumdays flags;
               fee = word_of_int (wrap32 (numdays * c_div (wrap32 (opretlen * opretlen)) k)) :: u64
           in Some (if fee < 100000 then 100000 else fee))"

section \<open>Lookup\<close>

record kvsearch_result =
  ks_retval :: int
  ks_pubkey :: uint256
  ks_flags :: u32
  ks_height :: int
  ks_value :: buffer

text \<open>Looking a key up deletes its entry when it has expired.\<close>

definition hush_kvsearch ::
    "int \<Rightarrow> buffer \<Rightarrow> (buffer \<times> hush_kv) list \<Rightarrow> kvsearch_result \<times> (buffer \<times> hush_kv) list" where
  "hush_kvsearch current_height key kv =
     (let none = \<lparr>ks_retval = -1, ks_pubkey = 0, ks_flags = 0, ks_height = -1, ks_value = []\<rparr> in
      case hash_find key kv of
        None \<Rightarrow> (none, kv)
      | Some ptr \<Rightarrow>
          if current_height > wrap32 (kv_height ptr + hush_kvduration (kv_flags ptr))
          then (none, hash_delete key kv)
          else (\<lparr>ks_retval = uint (kv_valuesize ptr), ks_pubkey = kv_pubkey ptr, ks_flags = kv_flags ptr,
                 ks_height = kv_height ptr, ks_value = kv_value ptr\<rparr>, kv))"

section \<open>Update\<close>

text \<open>
  Whether the value reads \<open>transfer:\<close> followed by exactly 64 hexadecimal digits: the count stops at
  the first other character, which may lie behind the value.
\<close>

definition kv_transferpub :: "bmem \<Rightarrow> nat \<Rightarrow> uint256 option" where
  "kv_transferpub opretbuf off =
     (let s = map (\<lambda>b. char_of (unat b)) (bslice opretbuf (off + 9) 65) in
      if map (\<lambda>b. char_of (unat b)) (bslice opretbuf off 9) = ''transfer:'' \<and> is_hexstr s 0 = 64
      then Some (le_word (rev (map (\<lambda>i. decode_hex1 (s ! (i * 2)) (s ! (i * 2 + 1))) [0..<32])))
      else None)"

text \<open>
  The part of \<open>hush_kvupdate\<close> after the signature check, with \<open>flags\<close> the variable as
  \<open>hush_kvsearch\<close> left it.
\<close>

definition kv_store ::
    "buffer \<Rightarrow> buffer \<Rightarrow> uint256 \<Rightarrow> uint256 option \<Rightarrow> int \<Rightarrow> u32 \<Rightarrow> (buffer \<times> hush_kv) list
      \<Rightarrow> (buffer \<times> hush_kv) list" where
  "kv_store key val pubkey transfer height flags kv =
     (case hash_find key kv of
        Some ptr \<Rightarrow>
          let pubkey = (case transfer of Some p \<Rightarrow> p | None \<Rightarrow> pubkey);
              ptr = (if kv_flags ptr AND HUSH_KVPROTECTED = 0
                     then ptr\<lparr>kv_value := val, kv_valuesize := word_of_nat (length val)\<rparr> else ptr)
          in hash_set key (ptr\<lparr>kv_pubkey := pubkey, kv_height := height, kv_flags := flags\<rparr>) kv
      | None \<Rightarrow>
          hash_add key \<lparr>kv_pubkey = pubkey, kv_value = val, kv_height = height, kv_flags = flags,
            kv_keylen = word_of_nat (length key), kv_valuesize = word_of_nat (length val)\<rparr> kv)"

definition hush_kvupdate ::
    "(uint256 \<Rightarrow> uint256 \<Rightarrow> uint256) \<Rightarrow> hush_params \<Rightarrow> bmem \<Rightarrow> int \<Rightarrow> u64 \<Rightarrow> hush_world \<Rightarrow> hush_world" where
  "hush_kvupdate curve G opretbuf opretlen value w =
     (if SMART_CHAIN_SYMBOL G = [] then w
      else
        let keylen = unat (le_word (bslice opretbuf 1 2) :: u16);
            valuesize = unat (le_word (bslice opretbuf 3 2) :: u16);
            height = rd_i32 (bslice opretbuf 5 4);
            flags = le_word (bslice opretbuf 9 4) :: u32
        in if int keylen + 13 > opretlen then w
           else case hush_kvfee flags opretlen (int keylen) of
             None \<Rightarrow> w\<lparr>faulted := True\<rparr>
           | Some fee \<Rightarrow>
               let coresize = 13 + keylen + valuesize in
               if value \<ge> fee \<and>
                  (opretlen = int coresize \<or> opretlen = int coresize + 32 \<or> opretlen = int coresize + 64)
               then
                 let pubkey = (if opretlen \<ge> int coresize + 32 then le_word (bslice opretbuf coresize 32) else 0);
                     sig = (if opretlen = int coresize + 64 then le_word (bslice opretbuf (coresize + 32) 32) else 0);
                     key = bslice opretbuf 13 keylen;
                     (ref, kv) = hush_kvsearch height key (HUSH_KV w)
                 in if ks_retval ref \<ge> 0 \<and> ks_pubkey ref \<noteq> 0 \<and>
                       hush_kvsigverify curve (key @ ks_value ref) (ks_pubkey ref) sig < 0
                    then w\<lparr>HUSH_KV := kv\<rparr>
                    else w\<lparr>HUSH_KV := kv_store key (bslice opretbuf (13 + keylen) valuesize) pubkey
                             (kv_transferpub opretbuf (13 + keylen)) height (ks_flags ref) kv\<rparr>
               else w)"

section \<open>The wire format\<close>

text \<open>
  The payload of a \<open>K\<close> opreturn: tag, key length, value length, height, flags, key, value and
  optionally a new owner key and a signature.
\<close>

definition kv_opret :: "buffer \<Rightarrow> buffer \<Rightarrow> int \<Rightarrow> u32 \<Rightarrow> buffer \<Rightarrow> buffer" where
  "kv_opret key val height flags ext =
     0x4b # le_bytes 2 (word_of_nat (length key) :: u16) @ le_bytes 2 (word_of_nat (length val) :: u16) @
     le_i32 height @ le_bytes 4 flags @ key @ val @ ext"

lemma length_kv_opret [simp]: "length (kv_opret key val height flags ext) = 13 + length key + length val + length ext"
  by (simp add: kv_opret_def)

lemma le_word_le_bytes_2 [simp]: "le_word (le_bytes 2 x) = (x :: u16)"
  by (simp add: le_word_le_bytes_full)

lemma le_word_le_bytes_4 [simp]: "le_word (le_bytes 4 x) = (x :: u32)"
  by (simp add: le_word_le_bytes_full)

lemma bslice_at:
  "length pre = off \<Longrightarrow> length x = n \<Longrightarrow> bslice (bmem_of (pre @ x @ post) junk) off n = x"
  by (subst bslice_bmem_of) simp_all

lemma kv_opret_fields:
  fixes key val ext height flags junk
  defines "m \<equiv> bmem_of (kv_opret key val height flags ext) junk"
  shows "bslice m 1 2 = le_bytes 2 (word_of_nat (length key) :: u16)"
    and "bslice m 3 2 = le_bytes 2 (word_of_nat (length val) :: u16)"
    and "bslice m 5 4 = le_i32 height"
    and "bslice m 9 4 = le_bytes 4 flags"
    and "bslice m 13 (length key) = key"
    and "bslice m (13 + length key) (length val) = val"
    and "k + n \<le> length ext \<Longrightarrow> bslice m (13 + length key + length val + k) n = take n (drop k ext)"
proof -
  let ?kl = "le_bytes 2 (word_of_nat (length key) :: u16)"
  let ?vl = "le_bytes 2 (word_of_nat (length val) :: u16)"
  let ?h = "le_i32 height" and ?f = "le_bytes 4 flags"
  show "bslice m 1 2 = ?kl"
    using bslice_at [of "[0x4b]" 1 ?kl 2 "?vl @ ?h @ ?f @ key @ val @ ext" junk]
    by (simp add: m_def kv_opret_def)
  show "bslice m 3 2 = ?vl"
    using bslice_at [of "0x4b # ?kl" 3 ?vl 2 "?h @ ?f @ key @ val @ ext" junk]
    by (simp add: m_def kv_opret_def)
  show "bslice m 5 4 = ?h"
    using bslice_at [of "0x4b # ?kl @ ?vl" 5 ?h 4 "?f @ key @ val @ ext" junk]
    by (simp add: m_def kv_opret_def)
  show "bslice m 9 4 = ?f"
    using bslice_at [of "0x4b # ?kl @ ?vl @ ?h" 9 ?f 4 "key @ val @ ext" junk]
    by (simp add: m_def kv_opret_def)
  show "bslice m 13 (length key) = key"
    using bslice_at [of "0x4b # ?kl @ ?vl @ ?h @ ?f" 13 key "length key" "val @ ext" junk]
    by (simp add: m_def kv_opret_def)
  show "bslice m (13 + length key) (length val) = val"
    using bslice_at [of "0x4b # ?kl @ ?vl @ ?h @ ?f @ key" "13 + length key" val "length val" ext junk]
    by (simp add: m_def kv_opret_def)
  show "bslice m (13 + length key + length val + k) n = take n (drop k ext)" if le: "k + n \<le> length ext"
  proof -
    have split: "take k ext @ take n (drop k ext) @ drop n (drop k ext) = ext"
      by (simp only: append_take_drop_id)
    have "bslice (bmem_of ((0x4b # ?kl @ ?vl @ ?h @ ?f @ key @ val @ take k ext) @ take n (drop k ext) @
        drop n (drop k ext)) junk) (13 + length key + length val + k) n = take n (drop k ext)"
      using le by (intro bslice_at) simp_all
    moreover have "(0x4b # ?kl @ ?vl @ ?h @ ?f @ key @ val @ take k ext) @ take n (drop k ext) @ drop n (drop k ext) =
        kv_opret key val height flags ext"
      using split by (simp add: kv_opret_def)
    ultimately show ?thesis unfolding m_def by simp
  qed
qed

definition kv_fits :: "buffer \<Rightarrow> buffer \<Rightarrow> bool" where
  "kv_fits key val \<longleftrightarrow> key \<noteq> [] \<and> length key < 65536 \<and> length val < 65536"

lemma hush_kvfee_Some: "0 < keylen \<Longrightarrow> \<exists>fee. hush_kvfee flags opretlen keylen = Some fee \<and> 100000 \<le> fee"
  by (auto simp: hush_kvfee_def Let_def)

text \<open>What an update does with a well-formed payload, whatever lies behind it in memory.\<close>

lemma hush_kvupdate_opret:
  fixes junk key val height flags ext
  defines "buf \<equiv> kv_opret key val height flags ext"
  assumes fits: "kv_fits key val" and "is_i32 height" and sym: "SMART_CHAIN_SYMBOL G \<noteq> []"
    and ext: "length ext = 0 \<or> length ext = 32 \<or> length ext = 64"
    and fee: "hush_kvfee flags (int (length buf)) (int (length key)) = Some fee" and "fee \<le> value"
    and s: "hush_kvsearch height key (HUSH_KV w) = (ref, kv)"
  shows "hush_kvupdate curve G (bmem_of buf junk) (int (length buf)) value w =
     (if ks_retval ref \<ge> 0 \<and> ks_pubkey ref \<noteq> 0 \<and>
         hush_kvsigverify curve (key @ ks_value ref) (ks_pubkey ref)
           (if length ext = 64 then le_word (drop 32 ext) else 0) < 0
      then w\<lparr>HUSH_KV := kv\<rparr>
      else w\<lparr>HUSH_KV := kv_store key val (if 32 \<le> length ext then le_word (take 32 ext) else 0)
               (kv_transferpub (bmem_of buf junk) (13 + length key)) height (ks_flags ref) kv\<rparr>)"
proof -
  note f = kv_opret_fields [where key = key and val = val and height = height and flags = flags and ext = ext
      and junk = junk, folded buf_def]
  have kl: "unat (word_of_nat (length key) :: u16) = length key" "unat (word_of_nat (length val) :: u16) = length val"
    using fits by (simp_all add: kv_fits_def unat_of_nat)
  have len: "length buf = 13 + length key + length val + length ext" by (simp add: buf_def)
  let ?m = "bmem_of buf junk" and ?n = "int (length buf)"
  let ?core = "13 + length key + length val"
  have pub: "(if int ?core + 32 \<le> ?n then le_word (bslice ?m ?core 32) else 0) =
      (if 32 \<le> length ext then le_word (take 32 ext) else (0 :: uint256))"
    using f(7) [of 0 32] by (simp add: len)
  have sig: "(if ?n = int ?core + 64 then le_word (bslice ?m (?core + 32) 32) else 0) =
      (if length ext = 64 then le_word (drop 32 ext) else (0 :: uint256))"
    using f(7) [of 32 32] by (auto simp: len)
  have h: "rd_i32 (le_i32 height) = height" using assms(3) by simp
  have c1: "(?n < int (length key) + 13) = False" by (simp add: len)
  have c2: "(fee \<le> value \<and> (?n = int ?core \<or> ?n = int ?core + 32 \<or> ?n = int ?core + 64)) = True"
    using ext \<open>fee \<le> value\<close> by (auto simp: len)
  have c3: "(SMART_CHAIN_SYMBOL G = []) = False" using sym by simp
  show ?thesis
    unfolding hush_kvupdate_def Let_def f(1-4) le_word_le_bytes_2 le_word_le_bytes_4 kl h f(5,6)
    by (simp only: c1 c2 c3 fee s pub sig if_True if_False option.case prod.case)
qed

section \<open>Table invariant\<close>

text \<open>Keys are distinct, and every entry's recorded size is the size of its value.\<close>

definition kv_ok :: "(buffer \<times> hush_kv) list \<Rightarrow> bool" where
  "kv_ok kv \<longleftrightarrow> hash_ok kv \<and> (\<forall>key e. hash_find key kv = Some e \<longrightarrow> length (kv_value e) = unat (kv_valuesize e))"

lemma kv_ok_Nil [simp]: "kv_ok []"
  by (simp add: kv_ok_def hash_ok_def hash_find_def)

lemma hush_kvsearch_find:
  assumes "hush_kvsearch h key kv = (ref, kv')"
  shows "hash_find key' kv' = (if key' = key \<and> ks_retval ref < 0 then None else hash_find key' kv)"
    and "hash_ok kv \<Longrightarrow> hash_ok kv'"
    and "ks_retval ref < 0 \<Longrightarrow> ks_flags ref = 0 \<and> ks_pubkey ref = 0"
    and "0 \<le> ks_retval ref \<Longrightarrow> \<exists>e. hash_find key kv = Some e \<and> ks_flags ref = kv_flags e \<and>
           ks_pubkey ref = kv_pubkey e \<and> ks_value ref = kv_value e"
  using assms
  by (auto simp: hush_kvsearch_def Let_def uthash.find_del uthash.ok_del split: option.splits if_splits)

lemma kv_store_find:
  "hash_find key' (kv_store key val pk tr h fl kv) =
     (if key' = key
      then Some (case hash_find key kv of
          Some e \<Rightarrow> (if kv_flags e AND HUSH_KVPROTECTED = 0
                     then e\<lparr>kv_value := val, kv_valuesize := word_of_nat (length val)\<rparr> else e)
                   \<lparr>kv_pubkey := (case tr of Some p \<Rightarrow> p | None \<Rightarrow> pk), kv_height := h, kv_flags := fl\<rparr>
        | None \<Rightarrow> \<lparr>kv_pubkey = pk, kv_value = val, kv_height = h, kv_flags = fl,
            kv_keylen = word_of_nat (length key), kv_valuesize = word_of_nat (length val)\<rparr>)
      else hash_find key' kv)"
  by (auto simp: kv_store_def Let_def uthash.find_add uthash.find_upd split: option.splits)

lemma kv_store_ok:
  assumes "kv_ok kv" and "length val < 65536"
  shows "kv_ok (kv_store key val pk tr h fl kv)"
proof -
  have "hash_ok (kv_store key val pk tr h fl kv)"
    using assms(1) by (auto simp: kv_ok_def kv_store_def Let_def uthash.ok_upd uthash.ok_add split: option.splits)
  moreover have "length (kv_value e) = unat (kv_valuesize e)"
    if "hash_find key' (kv_store key val pk tr h fl kv) = Some e" for key' e
    using that assms unfolding kv_store_find
    by (auto simp: kv_ok_def unat_of_nat split: if_splits option.splits)
  ultimately show ?thesis by (simp add: kv_ok_def)
qed

text \<open>
  Every successful path of an update is a lookup followed by a store; case analysis on it.
\<close>

lemma hush_kvupdate_cases:
  obtains (same) "HUSH_KV (hush_kvupdate curve G m n value w) = HUSH_KV w"
  | (looked) h key where "HUSH_KV (hush_kvupdate curve G m n value w) = snd (hush_kvsearch h key (HUSH_KV w))"
  | (stored) h key val pk tr where "length val < 65536"
      and "key = bslice m 13 (unat (le_word (bslice m 1 2) :: u16))"
      and "HUSH_KV (hush_kvupdate curve G m n value w) =
        kv_store key val pk tr h (ks_flags (fst (hush_kvsearch h key (HUSH_KV w)))) (snd (hush_kvsearch h key (HUSH_KV w)))"
proof -
  define key where "key = bslice m 13 (unat (le_word (bslice m 1 2) :: u16))"
  define val where "val = bslice m (13 + unat (le_word (bslice m 1 2) :: u16)) (unat (le_word (bslice m 3 2) :: u16))"
  define h where "h = rd_i32 (bslice m 5 4)"
  obtain ref kv where s: "hush_kvsearch h key (HUSH_KV w) = (ref, kv)" by fastforce
  have v: "length val < 65536"
    using unsigned_less [of "le_word (bslice m 3 2) :: u16"] by (simp add: val_def)
  have "HUSH_KV (hush_kvupdate curve G m n value w) = HUSH_KV w \<or>
      HUSH_KV (hush_kvupdate curve G m n value w) = kv \<or>
      (\<exists>pk tr. HUSH_KV (hush_kvupdate curve G m n value w) = kv_store key val pk tr h (ks_flags ref) kv)"
    unfolding hush_kvupdate_def Let_def h_def [symmetric] key_def [symmetric] val_def [symmetric] s prod.case
    by (auto split: option.splits)
  with s v key_def that show ?thesis by (metis fst_conv snd_conv)
qed

section \<open>What an update reads\<close>

text \<open>
  The test for \<open>transfer:\<close> stays inside the payload of \<open>n\<close> bytes: it is not reached, or the payload covers
  the whole pattern, or one of the characters inside it already differs.
\<close>

definition transfer_inside :: "bmem \<Rightarrow> nat \<Rightarrow> bool" where
  "transfer_inside m n \<longleftrightarrow>
     (let off = 13 + unat (le_word (bslice m 1 2) :: u16) in
      m 0 \<noteq> 0x4b \<or> n < off \<or> off + 74 \<le> n \<or> (\<exists>i<9. off + i < n \<and> char_of (unat (m (off + i))) \<noteq> ''transfer:'' ! i))"

lemma bslice_cong: "(\<And>i. i < n \<Longrightarrow> m (off + i) = m' (off + i)) \<Longrightarrow> bslice m off n = bslice m' off n"
  by (simp add: bslice_def)

lemma transfer_inside_cong:
  assumes "0 < n" and "\<And>i. i < n \<Longrightarrow> m i = m' i" and "transfer_inside m n"
  shows "transfer_inside m' n"
proof (cases "n < 13")
  case True
  then show ?thesis by (simp add: transfer_inside_def)
next
  case False
  then have "bslice m 1 2 = bslice m' 1 2" using assms(2) by (intro bslice_cong) auto
  then show ?thesis using assms by (force simp: transfer_inside_def Let_def)
qed

lemma kv_transferpub_differs:
  assumes "i < 9" and "char_of (unat (m (off + i))) \<noteq> ''transfer:'' ! i"
  shows "kv_transferpub m off = None"
proof -
  have "map (\<lambda>b. char_of (unat b)) (bslice m off 9) ! i \<noteq> ''transfer:'' ! i"
    using assms by (simp add: bslice_def)
  then have "map (\<lambda>b. char_of (unat b)) (bslice m off 9) \<noteq> ''transfer:''" by metis
  then show ?thesis by (simp add: kv_transferpub_def Let_def)
qed

lemma hush_kvupdate_local:
  assumes same: "\<And>i. i < n \<Longrightarrow> m i = m' i" and tr: "transfer_inside m n" and K: "m 0 = 0x4b"
  shows "hush_kvupdate curve G m (int n) val w = hush_kvupdate curve G m' (int n) val w"
proof (cases "n < 13")
  case True
  then show ?thesis by (simp add: hush_kvupdate_def Let_def)
next
  case False
  have sl: "bslice m off k = bslice m' off k" if "off + k \<le> n" for off k
    by (rule bslice_cong) (use same that in auto)
  have hdr: "bslice m' 1 2 = bslice m 1 2" "bslice m' 3 2 = bslice m 3 2" "bslice m' 5 4 = bslice m 5 4"
    "bslice m' 9 4 = bslice m 9 4"
    using False by (auto simp: sl)
  define keylen where "keylen = unat (le_word (bslice m 1 2) :: u16)"
  define valuesize where "valuesize = unat (le_word (bslice m 3 2) :: u16)"
  have tp: "kv_transferpub m (13 + keylen) = kv_transferpub m' (13 + keylen)" if le: "13 + keylen \<le> n"
  proof (cases "13 + keylen + 74 \<le> n")
    case True
    then have "bslice m (13 + keylen) 9 = bslice m' (13 + keylen) 9"
      "bslice m (13 + keylen + 9) 65 = bslice m' (13 + keylen + 9) 65" by (simp_all add: sl)
    then show ?thesis by (simp only: kv_transferpub_def)
  next
    case False
    then obtain i where i: "i < 9" "13 + keylen + i < n" "char_of (unat (m (13 + keylen + i))) \<noteq> ''transfer:'' ! i"
      using tr K le by (auto simp: transfer_inside_def keylen_def Let_def)
    have mi: "m (13 + keylen + i) = m' (13 + keylen + i)" using i(2) by (rule same)
    have "kv_transferpub m (13 + keylen) = None" using i(1,3) by (rule kv_transferpub_differs)
    moreover have "kv_transferpub m' (13 + keylen) = None"
      using i(1) i(3) [unfolded mi] by (rule kv_transferpub_differs)
    ultimately show ?thesis by simp
  qed
  show ?thesis
  proof (cases "13 + keylen \<le> n \<and> 13 + keylen + valuesize \<le> n")
    case True
    then have core: "bslice m' 13 keylen = bslice m 13 keylen"
      "bslice m' (13 + keylen) valuesize = bslice m (13 + keylen) valuesize"
      "kv_transferpub m' (13 + keylen) = kv_transferpub m (13 + keylen)"
      using tp by (simp_all add: sl)
    let ?c = "13 + keylen + valuesize"
    have ext: "(if int ?c + 32 \<le> int n then le_word (bslice m' ?c 32) else 0 :: uint256) =
        (if int ?c + 32 \<le> int n then le_word (bslice m ?c 32) else 0)"
      "(if int n = int ?c + 64 then le_word (bslice m' (?c + 32) 32) else 0 :: uint256) =
        (if int n = int ?c + 64 then le_word (bslice m (?c + 32) 32) else 0)"
      by (simp_all add: sl)
    show ?thesis
      unfolding hush_kvupdate_def Let_def hdr keylen_def [symmetric] valuesize_def [symmetric] core ext by (rule refl)
  next
    case False
    then have "\<not> (int n = int (13 + keylen + valuesize) \<or> int n = int (13 + keylen + valuesize) + 32 \<or>
        int n = int (13 + keylen + valuesize) + 64)" by linarith
    then show ?thesis
      unfolding hush_kvupdate_def Let_def hdr keylen_def [symmetric] valuesize_def [symmetric]
      by (simp cong: if_cong option.case_cong)
  qed
qed

section \<open>Properties\<close>

lemma kvnumdays_0 [simp]: "hush_kvnumdays 0 = 1"
  by (simp add: hush_kvnumdays_def)

lemma kv_transferpub_none:
  assumes "m off \<noteq> 0x74"
  shows "kv_transferpub m off = None"
proof -
  have "char_of (unat (m off)) \<noteq> CHR ''t''"
  proof
    assume "char_of (unat (m off)) = CHR ''t''"
    then have "(of_char (char_of (unat (m off))) :: nat) = of_char CHR ''t''" by simp
    moreover have "unat (m off) < 256" using unsigned_less [of "m off"] by simp
    then have "(of_char (char_of (unat (m off))) :: nat) = unat (m off)" by simp
    moreover have "(of_char CHR ''t'' :: nat) = 0x74" by code_simp
    ultimately have "unat (m off) = 0x74" by simp
    then have "m off = 0x74" by (simp add: word_unat_eq_iff)
    with assms show False ..
  qed
  then show ?thesis by (auto simp: kv_transferpub_def Let_def bslice_def upt_rec [of _ 9])
qed

text \<open>C32 Setting and getting: an update of a key that has no live entry, with enough fee, makes the key
  readable with exactly its value, owner and height until 1440 blocks after the height it names, and
  absent (and deleted) from then on; all other keys are untouched. This holds for every \<open>flags\<close> of the update: the
  number of days they ask for, which the fee is computed from, is not what the entry gets. It is stored with flags 0
  and expires after one day, because \<open>hush_kvsearch\<close> overwrites \<open>flags\<close> before the entry is stored, against the help of
  the calls: by \<open>kvupdate\<close> a key lives the days it was paid for, by \<open>kvsearch\<close> its flags tell whether it has a password.\<close>
theorem kv_put_get:
  fixes owner :: uint256
  assumes "SMART_CHAIN_SYMBOL G \<noteq> []" and "kv_fits key val" and "is_i32 height"
    and "ext = (if owner = 0 then [] else le_bytes 32 owner)"
    and "buf = kv_opret key val height flags ext"
    and "hush_kvfee flags (int (length buf)) (int (length key)) = Some fee" and "fee \<le> value"
    and "ks_retval (fst (hush_kvsearch height key (HUSH_KV w))) < 0"
    and "w' = hush_kvupdate curve G (bmem_of buf junk) (int (length buf)) value w"
  shows "hush_kvsearch c key (HUSH_KV w') =
     (if c \<le> wrap32 (height + 1440)
      then (\<lparr>ks_retval = int (length val), ks_pubkey = owner, ks_flags = 0, ks_height = height, ks_value = val\<rparr>,
            HUSH_KV w')
      else (\<lparr>ks_retval = -1, ks_pubkey = 0, ks_flags = 0, ks_height = -1, ks_value = []\<rparr>,
            hash_delete key (HUSH_KV w'))) \<and>
     (\<forall>k. k \<noteq> key \<longrightarrow> hash_find k (HUSH_KV w') = hash_find k (HUSH_KV w))"
proof -
  obtain ref kv where s: "hush_kvsearch height key (HUSH_KV w) = (ref, kv)" by fastforce
  have neg: "ks_retval ref < 0" using assms(8) s by simp
  note found = hush_kvsearch_find [OF s]
  have ext: "length ext = 0 \<or> length ext = 32 \<or> length ext = 64" using assms(4) by simp
  have own: "(if 32 \<le> length ext then le_word (take 32 ext) else 0) = owner" using assms(4) by simp
  let ?tr = "kv_transferpub (bmem_of buf junk) (13 + length key)"
  have "w' = w\<lparr>HUSH_KV := kv_store key val owner ?tr height (ks_flags ref) kv\<rparr>"
    using hush_kvupdate_opret [OF assms(2,3,1) ext assms(6) [unfolded assms(5)] assms(7) s, of curve junk] neg own
    unfolding assms(9) assms(5) by simp
  then have kv': "HUSH_KV w' = kv_store key val owner ?tr height 0 kv"
    using found(3) [OF neg] by simp
  have new: "hash_find key kv = None" using found(1) [of key] neg by simp
  have len: "uint (word_of_nat (length val) :: u16) = int (length val)"
    using assms(2) by (simp add: kv_fits_def uint_nat unat_of_nat)
  have "\<forall>k. k \<noteq> key \<longrightarrow> hash_find k (HUSH_KV w') = hash_find k (HUSH_KV w)"
    unfolding kv' kv_store_find using found(1) by simp
  moreover have "hash_find key (HUSH_KV w') = Some \<lparr>kv_pubkey = owner, kv_value = val, kv_height = height,
      kv_flags = 0, kv_keylen = word_of_nat (length key), kv_valuesize = word_of_nat (length val)\<rparr>"
    unfolding kv' kv_store_find using new by simp
  ultimately show ?thesis
    by (simp add: hush_kvsearch_def Let_def len hush_kvduration_def HUSH_KVDURATION_def)
qed

definition hsc_params :: hush_params where
  "hsc_params =
     \<lparr>SMART_CHAIN_SYMBOL = ''ZDEEX'', IS_HUSH_NOTARY = 0, HUSH_EXTERNAL_NOTARIES = 0,
      HUSH_DPOWCONFS = 1, NOTARY_PUBKEY33 = replicate 33 0, HUSH_NSPV = 0, HUSH_REWIND = 0,
      NETWORK_ID = ''main'', ASSETCHAINS_NOTARY_PAY = [0]\<rparr>"

theorem kv_put_get_witness:
  "fst (hush_kvsearch 2000 [107] (HUSH_KV (hush_kvupdate (\<lambda>_ _. 0) hsc_params
      (bmem_of (kv_opret [107] [118, 119] 1000 8 []) (\<lambda>_. 0)) 16 100000 hush_world0)))
   = \<lparr>ks_retval = 2, ks_pubkey = 0, ks_flags = 0, ks_height = 1000, ks_value = [118, 119]\<rparr> \<and>
   ks_retval (fst (hush_kvsearch 3000 [107] (HUSH_KV (hush_kvupdate (\<lambda>_ _. 0) hsc_params
      (bmem_of (kv_opret [107] [118, 119] 1000 8 []) (\<lambda>_. 0)) 16 100000 hush_world0)))) = -1 \<and>
   1000 + hush_kvduration 8 = 5320"
proof -
  have fee: "hush_kvfee 8 16 1 = Some 100000" and days: "hush_kvduration 8 = 4320" by code_simp+
  have fits: "kv_fits [107] [118, 119]" by (simp add: kv_fits_def)
  have "wrap32 (1000 + 1440) = 2440" by (simp add: is_i32_def)
  then show ?thesis
    using kv_put_get [of hsc_params "[107]" "[118, 119]" 1000 "[]" 0 "kv_opret [107] [118, 119] 1000 8 []" 8 100000
        100000 hush_world0 _ "\<lambda>_ _. 0" "\<lambda>_. 0" 2000] kv_put_get [of hsc_params "[107]" "[118, 119]" 1000 "[]" 0 "kv_opret [107] [118, 119] 1000 8 []" 8 100000
        100000 hush_world0 _ "\<lambda>_ _. 0" "\<lambda>_. 0" 3000] fee fits days
    by (simp add: hsc_params_def is_i32_def hush_world0_def hush_kvsearch_def hash_find_def Let_def)
qed

text \<open>The flags a user pays for are never stored: \<open>hush_kvsearch\<close> overwrites the variable, so from an
  empty table every entry has flags 0 after any sequence of updates. No entry is ever protected, and
  every entry lives one day whatever duration its fee was computed for.\<close>
theorem kv_flags_dropped:
  "list_all (\<lambda>(k, e). kv_flags e = 0 \<and> hush_kvduration (kv_flags e) = 1440)
     (HUSH_KV (fold (\<lambda>(m, n, value). hush_kvupdate curve G m n value) updates hush_world0))"
proof -
  let ?Z = "list_all (\<lambda>(k, e). kv_flags e = 0)"
  have look: "?Z (snd (hush_kvsearch h key kv)) \<and> ks_flags (fst (hush_kvsearch h key kv)) = 0" if z: "?Z kv" for h key kv
  proof -
    have "kv_flags e = 0" if "hash_find key kv = Some e" for e
      using z that by (auto simp: list_all_iff hash_find_def dest: map_of_SomeD)
    then show ?thesis
      using z by (auto simp: hush_kvsearch_def Let_def hash_delete_def list_all_iff split: option.splits)
  qed
  have store: "?Z (kv_store key val pk tr h 0 kv)" if "?Z kv" for key val pk tr h kv
    using that by (auto simp: kv_store_def Let_def hash_set_def hash_add_def list_all_iff split: option.splits)
  have step: "?Z (HUSH_KV (hush_kvupdate curve G m n v w))" if z: "?Z (HUSH_KV w)" for m n v w
    by (cases rule: hush_kvupdate_cases [of curve G m n v w]) (use z look store in auto)
  have "?Z (HUSH_KV (fold (\<lambda>(m, n, value). hush_kvupdate curve G m n value) updates w))" if "?Z (HUSH_KV w)" for w
    using that
  proof (induction updates arbitrary: w)
    case (Cons u us)
    have "?Z (HUSH_KV (hush_kvupdate curve G (fst u) (fst (snd u)) (snd (snd u)) w))"
      by (rule step [OF Cons.prems])
    from Cons.IH [OF this] show ?case by (simp add: case_prod_unfold)
  qed simp
  then have "?Z (HUSH_KV (fold (\<lambda>(m, n, value). hush_kvupdate curve G m n value) updates hush_world0))"
    by (simp add: hush_world0_def)
  then show ?thesis
    by (auto simp: list_all_iff hush_kvduration_def HUSH_KVDURATION_def)
qed

text \<open>C40 Owned keys can be taken over without the owner's secret: the value that \<open>hush_kvsigverify\<close>
  compares the signature with is computed from the message and the public key alone, so anyone can put
  it into the payload, and the update then replaces value and owner.\<close>
theorem kv_takeover:
  assumes "SMART_CHAIN_SYMBOL G \<noteq> []" and "kv_fits key val" and "is_i32 height"
    and "hash_find key (HUSH_KV w) = Some e" and "kv_pubkey e \<noteq> 0" and "kv_flags e = 0"
    and "height \<le> wrap32 (kv_height e + 1440)"
    and "val \<noteq> []" and "hd val \<noteq> 0x74"
    and "ext = le_bytes 32 thief @ le_bytes 32 (curve25519_shared curve (sha256_bits (key @ kv_value e)) (kv_pubkey e))"
    and "buf = kv_opret key val height flags ext"
    and "hush_kvfee flags (int (length buf)) (int (length key)) = Some fee" and "fee \<le> value"
  shows "\<exists>e'. hash_find key (HUSH_KV (hush_kvupdate curve G (bmem_of buf junk) (int (length buf)) value w)) = Some e' \<and>
     kv_pubkey e' = thief \<and> kv_value e' = val"
proof -
  have s: "hush_kvsearch height key (HUSH_KV w) =
      (\<lparr>ks_retval = uint (kv_valuesize e), ks_pubkey = kv_pubkey e, ks_flags = kv_flags e,
        ks_height = kv_height e, ks_value = kv_value e\<rparr>, HUSH_KV w)"
    using assms(4,6,7) by (simp add: hush_kvsearch_def Let_def hush_kvduration_def HUSH_KVDURATION_def)
  have ext: "length ext = 0 \<or> length ext = 32 \<or> length ext = 64" using assms(10) by simp
  have len: "length ext = 64" using assms(10) by simp
  have pub: "le_word (take 32 ext) = thief" using assms(10) by simp
  have sig: "le_word (drop 32 ext) = curve25519_shared curve (sha256_bits (key @ kv_value e)) (kv_pubkey e)"
    using assms(10) by simp
  have "bmem_of buf junk (13 + length key) = hd val"
    using kv_opret_fields(6) [of key val height flags ext junk] assms(8,11)
    by (cases val) (auto simp: bslice_def upt_rec)
  then have tr: "kv_transferpub (bmem_of buf junk) (13 + length key) = None"
    using assms(9) by (intro kv_transferpub_none) simp
  have "hush_kvupdate curve G (bmem_of buf junk) (int (length buf)) value w =
      w\<lparr>HUSH_KV := kv_store key val thief None height (kv_flags e) (HUSH_KV w)\<rparr>"
    using hush_kvupdate_opret [OF assms(2,3,1) ext assms(12) [unfolded assms(11)] assms(13) s, of curve junk] tr
    unfolding assms(11) by (simp add: len pub sig hush_kvsigverify_def)
  then show ?thesis using assms(4,6) by (simp add: kv_store_find HUSH_KVPROTECTED_def)
qed

theorem kv_takeover_witness:
  "\<exists>e'. hash_find [107] (HUSH_KV (hush_kvupdate (\<lambda>a b. a * b) hsc_params
      (bmem_of (kv_opret [107] [120] 1001 0 (le_bytes 32 (66 :: uint256) @
         le_bytes 32 (curve25519_shared (\<lambda>a b. a * b) (sha256_bits [107, 118]) 55))) (\<lambda>_. 0)) 79 1000000
      (hush_world0\<lparr>HUSH_KV := [([107], \<lparr>kv_pubkey = 55, kv_value = [118], kv_height = 1000, kv_flags = 0,
         kv_keylen = 1, kv_valuesize = 1\<rparr>)]\<rparr>))) = Some e' \<and> kv_pubkey e' = 66 \<and> kv_value e' = [120]"
proof -
  let ?e = "\<lparr>kv_pubkey = 55, kv_value = [118], kv_height = 1000, kv_flags = 0, kv_keylen = 1, kv_valuesize = 1\<rparr>"
  let ?w = "hush_world0\<lparr>HUSH_KV := [([107], ?e)]\<rparr>"
  have fee: "hush_kvfee 0 79 1 = Some 100000" by (simp add: hush_kvfee_def is_i32_def)
  have fits: "kv_fits [107] [120]" by (simp add: kv_fits_def)
  have h: "1001 \<le> wrap32 (1000 + 1440)" by (simp add: is_i32_def)
  show ?thesis
    using kv_takeover [of hsc_params "[107]" "[120]" 1001 ?w ?e _ 66 "\<lambda>a b. a * b" _ 0 100000 1000000 "\<lambda>_. 0",
        OF _ fits _ _ _ _ _ _ _ refl refl] fee h
    by (simp add: hsc_params_def is_i32_def hash_find_def)
qed

text \<open>A key length of zero stops the node: any payload of at least 13 bytes whose key length field is
  zero reaches the division by \<open>keylen\<close> in the fee computation, before any fee is checked.\<close>
theorem kv_empty_key_crash:
  assumes "SMART_CHAIN_SYMBOL G \<noteq> []" and "13 \<le> opretlen" and "opretbuf 1 = 0" and "opretbuf 2 = 0"
  shows "faulted (hush_kvupdate curve G opretbuf opretlen value w)"
proof -
  have "bslice opretbuf 1 2 = [0, 0]" using assms(3,4) by (simp add: bslice_def upt_rec numeral_2_eq_2)
  then have "unat (le_word (bslice opretbuf 1 2) :: u16) = 0" by simp
  then show ?thesis using assms(1,2) by (simp add: hush_kvupdate_def hush_kvfee_def Let_def)
qed

theorem kv_empty_key_crash_witness:
  "faulted (hush_kvupdate (\<lambda>_ _. 0) hsc_params (bmem_of (0x4b # replicate 12 0) (\<lambda>_. 0)) 13 0 hush_world0)"
  using kv_empty_key_crash [of hsc_params 13 "bmem_of (0x4b # replicate 12 0) (\<lambda>_. 0)"]
  by (simp add: hsc_params_def bmem_of_def)

text \<open>The fee: for a non-empty key, while the product fits in 31 bits, it is days times squared length
  over the key length (at most 32), and at least 100000; past that the 32-bit product wraps, and a
  3431-byte payload under a one-byte key for a year costs 1725469 instead of 4296692765.\<close>
theorem kv_fee_value:
  assumes "0 < keylen" and "0 \<le> opretlen" and "opretlen * opretlen < 2 ^ 31"
    and "hush_kvnumdays flags * (opretlen * opretlen div min 32 keylen) < 2 ^ 31"
  shows "hush_kvfee flags opretlen keylen =
     Some (word_of_int (max 100000 (hush_kvnumdays flags * (opretlen * opretlen div min 32 keylen)))) \<and>
     hush_kvfee 1456 3431 1 = Some 1725469 \<and> hush_kvnumdays 1456 * (3431 * 3431 div min 32 1) = 4296692765"
proof -
  let ?k = "min 32 keylen" and ?d = "hush_kvnumdays flags"
  have k: "(if keylen > 32 then 32 else keylen) = ?k" "0 < ?k" using assms(1) by auto
  have d: "1 \<le> ?d" by (auto simp: hush_kvnumdays_def Let_def)
  have q: "0 \<le> opretlen * opretlen div ?k" using k(2) assms(2) by (simp add: pos_imp_zdiv_nonneg_iff)
  then have p: "0 \<le> ?d * (opretlen * opretlen div ?k)" using d by simp
  have 1: "wrap32 (opretlen * opretlen) = opretlen * opretlen"
  proof (rule wrap32_id)
    have "0 \<le> opretlen * opretlen" by simp
    then show "is_i32 (opretlen * opretlen)" unfolding is_i32_def using assms(3) by linarith
  qed
  have 2: "wrap32 (?d * (opretlen * opretlen div ?k)) = ?d * (opretlen * opretlen div ?k)"
    using assms(4) p by (intro wrap32_id) (simp add: is_i32_def)
  have 3: "(word_of_int x :: u64) < 100000 \<longleftrightarrow> x < 100000" if "0 \<le> x" "x < 2 ^ 31" for x
    using that by (simp add: word_less_def uint_word_of_int)
  have main: "hush_kvfee flags opretlen keylen =
      Some (word_of_int (max 100000 (?d * (opretlen * opretlen div ?k))))"
    using k p assms(2) 3 [OF p assms(4)] unfolding hush_kvfee_def Let_def k(1) 
    by (simp add: 1 2 max_def)
  have "wrap32 (365 * 11771761) = 1725469" by (simp add: wrap32_def)
  then have "hush_kvfee 1456 3431 1 = Some 1725469"
    by (simp add: hush_kvfee_def hush_kvnumdays_def is_i32_def)
  then show ?thesis using main by (simp add: hush_kvnumdays_def)
qed

theorem kv_fee_value_witness:
  "hush_kvnumdays 0 * (800 * 800 div min 32 5) = 128000 \<and> hush_kvfee 0 800 5 = Some 128000"
  using kv_fee_value [of 5 800 0] by simp

text \<open>Any update keeps the table well-formed (distinct keys, recorded sizes equal to value sizes) and
  touches no key other than the one in its payload.\<close>
theorem kv_update_frame:
  assumes "kv_ok (HUSH_KV w)"
  shows "kv_ok (HUSH_KV (hush_kvupdate curve G opretbuf opretlen value w)) \<and>
     (\<exists>key. \<forall>k. k \<noteq> key \<longrightarrow>
        hash_find k (HUSH_KV (hush_kvupdate curve G opretbuf opretlen value w)) = hash_find k (HUSH_KV w))"
proof -
  have look: "kv_ok (snd (hush_kvsearch h key kv)) \<and>
      (\<forall>k. k \<noteq> key \<longrightarrow> hash_find k (snd (hush_kvsearch h key kv)) = hash_find k kv)" if "kv_ok kv" for h key kv
  proof -
    obtain ref kv' where s: "hush_kvsearch h key kv = (ref, kv')" by fastforce
    then show ?thesis
      using hush_kvsearch_find [OF s] that by (auto simp: kv_ok_def split: if_splits)
  qed
  show ?thesis
  proof (cases rule: hush_kvupdate_cases [of curve G opretbuf opretlen "value" w])
    case same
    then show ?thesis using assms by auto
  next
    case (looked h key)
    then show ?thesis using look [OF assms, of h key] by auto
  next
    case (stored h key val pk tr)
    then show ?thesis
      using look [OF assms, of h key] kv_store_ok by (auto simp: kv_store_find intro!: exI [of _ key])
  qed
qed

theorem kv_update_frame_witness:
  "kv_ok [] \<and> kv_ok (HUSH_KV (hush_kvupdate (\<lambda>_ _. 0) hsc_params
      (bmem_of (kv_opret [107] [118, 119] 1000 0 []) (\<lambda>_. 0)) 16 100000 hush_world0))"
  using kv_update_frame [of hush_world0 "\<lambda>_ _. 0" hsc_params "bmem_of (kv_opret [107] [118, 119] 1000 0 []) (\<lambda>_. 0)" 16 100000]
  by (simp add: hush_world0_def)

end
