(* ===== verification/Hush_Pax.thy ===== *)
theory Hush_Pax
  imports Hush_KV
begin

text \<open>
  The asset gateway of \<open>src/src/hush_gateway.h\<close>: the table \<open>PAX\<close> of transactions keyed by
  txid, output and type, the approval record codec (\<open>hush_rwapproval\<close>), the comparison of values
  (\<open>hush_paxcmp\<close>), the running total (\<open>hush_paxtotal\<close>), and the interpretation of opreturns
  (\<open>hush_opreturn\<close>), which also routes \<open>K\<close> payloads to the key-value store. The functions of
  \<open>hush_pax.h\<close> are stubs in this code base: prices and fiat destinations are 0, a parsed \<open>PAX\<close>
  public key leaves its outputs unwritten, no opreturn lists issued transactions, and
  \<open>HUSH_PAX\<close> is never set.
\<close>

section \<open>Addresses\<close>

text \<open>\<open>bitcoin_address\<close> over a base-58 encoder, with the 20-byte form of its argument.\<close>

definition bitcoin_address :: "hush_env \<Rightarrow> byte \<Rightarrow> buffer \<Rightarrow> string" where
  "bitcoin_address E addrtype pubkey_or_rmd160 =
     (let rmd = (if length pubkey_or_rmd160 \<noteq> 20
                 then (case calc_rmd160_sha256 (replicate 64 0) pubkey_or_rmd160 of Some r \<Rightarrow> r | None \<Rightarrow> [])
                 else pubkey_or_rmd160);
          data = addrtype # rmd;
          hash = (case bits256_doublesha256 (replicate 64 0) data of Some h \<Rightarrow> h | None \<Rightarrow> [])
      in env_base58encode E (data @ map (\<lambda>i. hash ! (31 - i)) [0..<4]))"

definition hush_is_issuer :: "hush_params \<Rightarrow> int" where
  "hush_is_issuer G =
     (if SMART_CHAIN_SYMBOL G \<noteq> [] \<and> hush_baseid (SMART_CHAIN_SYMBOL G) \<ge> 0 then 1 else 0)"

section \<open>The table\<close>

definition pax_keyset :: "uint256 \<Rightarrow> u16 \<Rightarrow> byte \<Rightarrow> buffer" where
  "pax_keyset txid vout type = le_bytes 32 txid @ le_bytes 2 vout @ [type]"

text \<open>\<open>strcpy\<close> into a \<open>char\<close> array: what lies behind the terminator stays.\<close>

definition strcpy :: "buffer \<Rightarrow> string \<Rightarrow> buffer" where
  "strcpy dest src = bytes_of src @ 0 # drop (length src + 1) dest"

definition pax_blank :: "uint256 \<Rightarrow> u16 \<Rightarrow> byte \<Rightarrow> pax_transaction" where
  "pax_blank txid vout type =
     \<lparr>pax_txid = txid, pax_puposhis = 0, pax_fiatoshis = 0, pax_validated = 0, pax_marked = 0, pax_height = 0,
      pax_otherheight = 0, pax_approved = 0, pax_didstats = 0, pax_ready = 0, pax_vout = vout,
      pax_symbol = [], pax_source = replicate 65 0, pax_coinaddr = [], pax_rmd160 = replicate 20 0,
      pax_type = type\<rparr>"

type_synonym pax_table = "(buffer \<times> pax_transaction) list"

definition hush_paxfind :: "pax_table \<Rightarrow> uint256 \<Rightarrow> u16 \<Rightarrow> byte \<Rightarrow> pax_transaction option" where
  "hush_paxfind T txid vout type = hash_find (pax_keyset txid vout type) T"

fun hush_paxfinds_loop :: "pax_table \<Rightarrow> uint256 \<Rightarrow> u16 \<Rightarrow> byte list \<Rightarrow> pax_transaction option" where
  "hush_paxfinds_loop T txid vout [] = None"
| "hush_paxfinds_loop T txid vout (t # ts) =
     (case hush_paxfind T txid vout t of Some pax \<Rightarrow> Some pax | None \<Rightarrow> hush_paxfinds_loop T txid vout ts)"

definition hush_paxfinds :: "pax_table \<Rightarrow> uint256 \<Rightarrow> u16 \<Rightarrow> pax_transaction option" where
  "hush_paxfinds T txid vout = hush_paxfinds_loop T txid vout (bytes_of ''IDXAW'')"

text \<open>Find or create, then write through the pointer.\<close>

definition pax_update :: "uint256 \<Rightarrow> u16 \<Rightarrow> byte \<Rightarrow> (pax_transaction \<Rightarrow> pax_transaction) \<Rightarrow> pax_table \<Rightarrow> pax_table" where
  "pax_update txid vout type f T =
     (let k = pax_keyset txid vout type in
      case hash_find k T of
        None \<Rightarrow> hash_add k (f (pax_blank txid vout type)) T
      | Some pax \<Rightarrow> hash_set k (f pax) T)"

definition hush_paxmark :: "uint256 \<Rightarrow> u16 \<Rightarrow> byte \<Rightarrow> int \<Rightarrow> pax_table \<Rightarrow> pax_table" where
  "hush_paxmark txid vout type mark = pax_update txid vout type (\<lambda>pax. pax\<lparr>pax_marked := mark\<rparr>)"

text \<open>\<open>hush_paxdelete\<close> returns at once.\<close>

definition hush_paxdelete :: "pax_table \<Rightarrow> pax_table" where
  "hush_paxdelete T = T"

definition hush_gateway_deposit ::
    "string option \<Rightarrow> u64 \<Rightarrow> string option \<Rightarrow> u64 \<Rightarrow> buffer option \<Rightarrow> uint256 \<Rightarrow> u16 \<Rightarrow> byte \<Rightarrow> int \<Rightarrow> int
      \<Rightarrow> string option \<Rightarrow> pax_table \<Rightarrow> pax_table" where
  "hush_gateway_deposit coinaddr value symbol fiatoshis rmd160 txid vout type height otherheight source =
     pax_update txid vout type
       (\<lambda>pax. case coinaddr of
          Some addr \<Rightarrow>
            (let pax = pax\<lparr>pax_coinaddr := addr\<rparr>;
                 pax = (if value \<noteq> 0 then pax\<lparr>pax_puposhis := value\<rparr> else pax);
                 pax = (case symbol of Some s \<Rightarrow> pax\<lparr>pax_symbol := s\<rparr> | None \<Rightarrow> pax);
                 pax = (case source of Some s \<Rightarrow> pax\<lparr>pax_source := strcpy (pax_source pax) s\<rparr> | None \<Rightarrow> pax);
                 pax = (if fiatoshis \<noteq> 0 then pax\<lparr>pax_fiatoshis := fiatoshis\<rparr> else pax);
                 pax = (case rmd160 of Some r \<Rightarrow> pax\<lparr>pax_rmd160 := r\<rparr> | None \<Rightarrow> pax);
                 pax = (if height \<noteq> 0 then pax\<lparr>pax_height := height\<rparr> else pax)
             in if otherheight \<noteq> 0 then pax\<lparr>pax_otherheight := otherheight\<rparr> else pax)
        | None \<Rightarrow> pax\<lparr>pax_marked := height\<rparr>)"

section \<open>Approval records\<close>

text \<open>\<open>hush_rwapproval\<close> with \<open>rwflag = 1\<close>: the bytes appended to \<open>opretbuf\<close>.\<close>

definition rwapproval_write :: "pax_transaction \<Rightarrow> buffer" where
  "rwapproval_write pax =
     le_bytes 32 (pax_txid pax) @
     [ucast (pax_vout pax AND 0xff), ucast (drop_bit 8 (pax_vout pax) AND 0xff)] @
     le_bytes 8 (pax_puposhis pax) @ le_bytes 8 (pax_fiatoshis pax) @
     le_i32 (pax_height pax) @ le_i32 (pax_otherheight pax) @
     take 20 (pax_rmd160 pax) @ take 4 (pax_source pax)"

text \<open>And with \<open>rwflag = 0\<close>: the structure updated from the first 82 bytes.\<close>

definition rwapproval_read :: "buffer \<Rightarrow> pax_transaction \<Rightarrow> pax_transaction" where
  "rwapproval_read buf pax =
     pax\<lparr>pax_txid := le_word (take 32 buf),
         pax_vout := ucast (buf ! 32) + push_bit 8 (ucast (buf ! 33)),
         pax_puposhis := le_word (take 8 (drop 34 buf)),
         pax_fiatoshis := le_word (take 8 (drop 42 buf)),
         pax_height := rd_i32 (drop 50 buf),
         pax_otherheight := rd_i32 (drop 54 buf),
         pax_rmd160 := take 20 (drop 58 buf),
         pax_source := take 4 (drop 78 buf) @ drop 4 (pax_source pax)\<rparr>"

definition hush_rwapproval :: "int \<Rightarrow> buffer \<Rightarrow> pax_transaction \<Rightarrow> buffer \<times> pax_transaction \<times> nat" where
  "hush_rwapproval rwflag opretbuf pax =
     (if rwflag = 1 then (rwapproval_write pax @ drop 82 opretbuf, pax, 82)
      else (opretbuf, rwapproval_read opretbuf pax, 82))"

section \<open>Comparison and totals\<close>

text \<open>The quotient is a \<open>uint64_t\<close> truncated to \<open>int32_t\<close>.\<close>

definition hush_paxcmp :: "u64 \<Rightarrow> u64 \<Rightarrow> u64 \<Rightarrow> int" where
  "hush_paxcmp value checkvalue seed =
     (if seed = 0 \<and> checkvalue \<noteq> 0
      then let ratio = sint (ucast (push_bit 6 value div checkvalue) :: u32) in
           if 60 \<le> ratio \<and> ratio \<le> 67 then 0 else -1
      else if checkvalue \<noteq> 0
      then let ratio = sint (ucast (push_bit 10 value div checkvalue) :: u32) in
           if 1023 \<le> ratio \<and> ratio \<le> 1025 then 0 else if value \<noteq> checkvalue then 1 else 0
      else if value \<noteq> checkvalue then 1 else 0)"

text \<open>One step of the first loop of \<open>hush_paxtotal\<close>: an issued transaction whose deposit is known.\<close>

definition pax_str :: "pax_transaction \<Rightarrow> string" where
  "pax_str pax =
     (if pax_type pax \<in> set (bytes_of ''ADX'') then pax_symbol pax else cstr (pax_source pax))"

definition paxtotal_step :: "buffer \<Rightarrow> hush_world \<Rightarrow> hush_world" where
  "paxtotal_step k w =
     (case hash_find k (PAX w) of
        None \<Rightarrow> w
      | Some pax \<Rightarrow>
          if pax_marked pax \<noteq> 0 \<or> pax_didstats pax \<noteq> 0 then w
          else if pax_type pax = 0x49
          then (case hush_paxfind (PAX w) (pax_txid pax) (pax_vout pax) 0x44 of
                  None \<Rightarrow> w
                | Some pax2 \<Rightarrow>
                    if pax_fiatoshis pax2 = 0 then w
                    else
                      let pax' = pax\<lparr>pax_puposhis := pax_puposhis pax2, pax_fiatoshis := pax_fiatoshis pax2,
                                     pax_didstats := 1, pax_marked := pax_height pax\<rparr>;
                          T = hash_set (pax_keyset (pax_txid pax) (pax_vout pax) 0x44)
                                (pax2\<lparr>pax_marked := pax_height pax\<rparr>) (PAX w)
                      in st_upd (hush_stateptrget (pax_str pax))
                           (\<lambda>st. st\<lparr>st_issued := st_issued st + pax_fiatoshis pax2\<rparr>)
                           (w\<lparr>PAX := hash_set k pax' T\<rparr>))
          else w)"

text \<open>One step of the second loop: the total and the ready flag.\<close>

definition paxready_step :: "hush_params \<Rightarrow> buffer \<Rightarrow> pax_table \<times> u64 \<Rightarrow> pax_table \<times> u64" where
  "paxready_step G k = (\<lambda>(T, total).
     case hash_find k T of
       None \<Rightarrow> (T, total)
     | Some pax \<Rightarrow>
         let mine = (pax_marked pax = 0 \<and> (chain_symbol G = pax_symbol pax \<or> pax_type pax = 0x41));
             ready = (mine \<and> pax_validated pax \<noteq> 0 \<and>
                      (if hush_is_issuer G \<noteq> 0 then pax_type pax = 0x44
                       else pax_approved pax \<noteq> 0 \<and> pax_type pax = 0x41));
             amount = (if hush_is_issuer G \<noteq> 0 then pax_fiatoshis pax else pax_puposhis pax)
         in (hash_set k (pax\<lparr>pax_ready := (if ready then 1 else 0)\<rparr>) T, if ready then total + amount else total))"

definition hush_paxtotal :: "hush_params \<Rightarrow> int \<Rightarrow> int \<Rightarrow> hush_world \<Rightarrow> u64 \<times> hush_world" where
  "hush_paxtotal G passport_initdone isrealtime w =
     (if passport_initdone = 0 \<or> isrealtime = 0 then (0, w)
      else
        let w = fold paxtotal_step (map fst (PAX w)) w;
            (T, total) = fold (paxready_step G) (map fst (PAX w)) (PAX w, 0)
        in (total, w\<lparr>PAX := T\<rparr>))"

definition hush_checkvout :: "int \<Rightarrow> int \<Rightarrow> int \<Rightarrow> bool" where
  "hush_checkvout vout k indallvouts =
     (if k < indallvouts then vout = 1
      else if k = indallvouts \<or> k = indallvouts + 1 then True
      else vout = 0)"

section \<open>Opreturns\<close>

text \<open>
  \<open>hush_opreturn\<close>: the type string returned and the world. The payload is in memory
  \<open>opretbuf\<close>; a read before its start (a trailing symbol of a payload shorter than four bytes) sets
  \<open>faulted\<close>. With the stubs, a deposit is recognised but never matches the chain's symbol, and issue,
  approve and redeem payloads list nothing; approve and redeem also require the unnamed chain, which
  has returned before.
\<close>

definition tail_symbol_is :: "bmem \<Rightarrow> int \<Rightarrow> string \<Rightarrow> bool" where
  "tail_symbol_is opretbuf opretlen s \<longleftrightarrow>
     bslice opretbuf (nat (opretlen - 4)) (length s + 1) = bytes_of s @ [0]"

definition pax_withdraw ::
    "hush_env \<Rightarrow> int \<Rightarrow> u64 \<Rightarrow> bmem \<Rightarrow> uint256 \<Rightarrow> u16 \<Rightarrow> string \<Rightarrow> hush_world \<Rightarrow> hush_world" where
  "pax_withdraw E height value opretbuf txid vout source w =
     (let hushheight = rd_i32 (bslice opretbuf 34 4);
          coinaddr = bitcoin_address E (stk_addrtype E) (stk_rmd160 E);
          w = (if value \<noteq> 0 \<and>
                  (case hush_paxfind (PAX w) txid vout 0x57 of None \<Rightarrow> True | Some pax \<Rightarrow> pax_didstats pax = 0)
               then st_upd (hush_stateptrget []) (\<lambda>st. st\<lparr>st_withdrawn := st_withdrawn st + value\<rparr>) w else w);
          T = hush_gateway_deposit (Some coinaddr) 0 (Some ''HUSH3'') value (Some (stk_rmd160 E)) txid vout 0x57
                hushheight height (Some source) (PAX w);
          T = pax_update txid vout 0x57
                (\<lambda>pax. pax\<lparr>pax_type := 0x57, pax_source := strcpy (pax_source pax) [],
                           pax_symbol := ''HUSH3'', pax_height := hushheight, pax_otherheight := height,
                           pax_puposhis := stk_puposhis E\<rparr>) T
      in w\<lparr>PAX := T\<rparr>)"

definition hush_opreturn ::
    "hush_env \<Rightarrow> hush_params \<Rightarrow> int \<Rightarrow> u64 \<Rightarrow> bmem \<Rightarrow> int \<Rightarrow> uint256 \<Rightarrow> u16 \<Rightarrow> string \<Rightarrow> hush_world
      \<Rightarrow> string \<times> hush_world" where
  "hush_opreturn E G height value opretbuf opretlen txid vout source w =
     (let sym = SMART_CHAIN_SYMBOL G; tag = opretbuf 0 in
      if sym \<noteq> [] \<and> hush_baseid sym < 0 \<and> tag \<noteq> 0x4b then (''assetchain'', w)
      else if tag = 0x4b \<and> opretlen \<noteq> 40
      then (''kv'', hush_kvupdate (env_curve25519 E) G opretbuf opretlen value w)
      else if sym = [] then (''nopax'', w)
      else if tag = 0x44 then (if opretlen = 38 then (''deposit'', w) else (''unknown'', w))
      else if tag = 0x49 then (''unknown'', if opretlen < 4 then w\<lparr>faulted := True\<rparr> else w)
      else if height < 236000 \<and> tag = 0x57
      then if opretlen < 4 then (''unknown'', w\<lparr>faulted := True\<rparr>)
           else if bslice opretbuf (nat (opretlen - 4)) 3 \<noteq> take 3 (bytes_of sym @ [0]) then (''unknown'', w)
           else if hush_baseid sym \<ge> 0 \<and> tail_symbol_is opretbuf opretlen sym then (''unknown'', w)
           else (''withdraw'', pax_withdraw E height value opretbuf txid vout source w)
      else (''unknown'', w))"

section \<open>Keys\<close>

lemma le_bytes_inj: "LENGTH('a) \<le> 8 * n \<Longrightarrow> le_bytes n x = le_bytes n y \<Longrightarrow> x = (y :: 'a::len word)"
  by (metis le_word_le_bytes_full)

lemma pax_keyset_inj: "pax_keyset t v ty = pax_keyset t' v' ty' \<longleftrightarrow> t = t' \<and> v = v' \<and> ty = ty'"
proof
  assume "pax_keyset t v ty = pax_keyset t' v' ty'"
  then have "le_bytes 32 t = le_bytes 32 t'" and "le_bytes 2 v = le_bytes 2 v'" and "ty = ty'"
    by (auto simp: pax_keyset_def)
  then show "t = t' \<and> v = v' \<and> ty = ty'" by (auto dest: le_bytes_inj [rotated])
qed simp

lemma pax_update_find:
  "hush_paxfind (pax_update t v ty f T) t' v' ty' =
     (if (t', v', ty') = (t, v, ty)
      then Some (f (case hush_paxfind T t v ty of Some pax \<Rightarrow> pax | None \<Rightarrow> pax_blank t v ty))
      else hush_paxfind T t' v' ty')"
  by (auto simp: pax_update_def hush_paxfind_def Let_def uthash.find_add uthash.find_upd pax_keyset_inj
      split: option.splits)

lemma pax_update_ok: "hash_ok T \<Longrightarrow> hash_ok (pax_update t v ty f T)"
  by (auto simp: pax_update_def Let_def uthash.ok_add uthash.ok_upd split: option.splits)

section \<open>The approval codec\<close>

text \<open>The fields that travel; a structure with nothing else set.\<close>

definition approval_wf :: "pax_transaction \<Rightarrow> bool" where
  "approval_wf pax \<longleftrightarrow>
     is_i32 (pax_height pax) \<and> is_i32 (pax_otherheight pax) \<and> length (pax_rmd160 pax) = 20 \<and>
     pax_source pax = take 4 (pax_source pax) @ replicate 61 0 \<and> length (pax_source pax) = 65 \<and>
     pax_validated pax = 0 \<and> pax_marked pax = 0 \<and> pax_approved pax = 0 \<and> pax_didstats pax = 0 \<and>
     pax_ready pax = 0 \<and> pax_symbol pax = [] \<and> pax_coinaddr pax = [] \<and> pax_type pax = 0"

definition approval_dec :: "buffer \<Rightarrow> (pax_transaction \<times> buffer) option" where
  "approval_dec bs =
     (if length bs < 82 then None else Some (rwapproval_read bs (pax_blank 0 0 0), drop 82 bs))"

lemma length_rwapproval_write:
  "length (pax_rmd160 pax) = 20 \<Longrightarrow> 4 \<le> length (pax_source pax) \<Longrightarrow> length (rwapproval_write pax) = 82"
  by (simp add: rwapproval_write_def)

lemma vout_bytes: "ucast (ucast (v AND 0xff) :: byte) + push_bit 8 (ucast (ucast (drop_bit 8 v AND 0xff) :: byte)) = (v :: u16)"
proof -
  have m: "w AND 0xff = take_bit 8 w" for w :: u16 by (simp add: take_bit_eq_mask mask_eq_exp_minus_1)
  have "ucast (ucast (v AND 0xff) :: byte) + push_bit 8 (ucast (ucast (drop_bit 8 v AND 0xff) :: byte)) =
      ucast (ucast (v AND 0xff) :: byte) OR push_bit 8 (ucast (ucast (drop_bit 8 v AND 0xff) :: byte) :: u16)"
    by (rule disjunctive_add) (auto simp: m bit_simps)
  also have "\<dots> = v" by (rule bit_word_eqI) (auto simp: m bit_simps)
  finally show ?thesis .
qed

lemma rwapproval_read_write:
  assumes "length (pax_rmd160 pax) = 20" and "4 \<le> length (pax_source pax)"
    and "is_i32 (pax_height pax)" and "is_i32 (pax_otherheight pax)"
  shows "rwapproval_read (rwapproval_write pax @ r) old =
     old\<lparr>pax_txid := pax_txid pax, pax_vout := pax_vout pax, pax_puposhis := pax_puposhis pax,
         pax_fiatoshis := pax_fiatoshis pax, pax_height := pax_height pax, pax_otherheight := pax_otherheight pax,
         pax_rmd160 := pax_rmd160 pax, pax_source := take 4 (pax_source pax) @ drop 4 (pax_source old)\<rparr>"
proof -
  let ?b = "rwapproval_write pax @ r"
  have 1: "take 32 ?b = le_bytes 32 (pax_txid pax)" by (simp add: rwapproval_write_def)
  have 2: "?b ! 32 = ucast (pax_vout pax AND 0xff)" "?b ! 33 = ucast (drop_bit 8 (pax_vout pax) AND 0xff)"
    by (simp_all add: rwapproval_write_def nth_append)
  have 3: "take 8 (drop 34 ?b) = le_bytes 8 (pax_puposhis pax)" "take 8 (drop 42 ?b) = le_bytes 8 (pax_fiatoshis pax)"
    by (simp_all add: rwapproval_write_def)
  have 4: "rd_i32 (drop 50 ?b) = pax_height pax" "rd_i32 (drop 54 ?b) = pax_otherheight pax"
    using assms(3,4) by (simp_all add: rwapproval_write_def)
  have 5: "take 20 (drop 58 ?b) = pax_rmd160 pax" "take 4 (drop 78 ?b) = take 4 (pax_source pax)"
    using assms(1,2) by (simp_all add: rwapproval_write_def)
  show ?thesis unfolding rwapproval_read_def 1 2 3 4 5 vout_bytes by simp
qed

interpretation approval: prefix_codec rwapproval_write approval_dec approval_wf
proof
  fix pax :: pax_transaction and r
  assume wf: "approval_wf pax"
  then have len: "length (rwapproval_write pax) = 82"
    by (intro length_rwapproval_write) (auto simp: approval_wf_def)
  have "rwapproval_read (rwapproval_write pax @ r) (pax_blank 0 0 0) = pax"
    using wf by (subst rwapproval_read_write) (auto simp: approval_wf_def pax_blank_def)
  then show "approval_dec (rwapproval_write pax @ r) = Some (pax, r)"
    using len by (simp add: approval_dec_def)
qed

section \<open>Properties\<close>

text \<open>Approval records survive the wire: a sequence of records written one after the other with
  \<open>hush_rwapproval\<close> is read back record by record.\<close>
theorem approval_roundtrip:
  assumes "list_all approval_wf paxes"
  shows "decode_seq (length paxes) approval_dec (concat (map rwapproval_write paxes)) = Some paxes"
  using assms by (rule approval.decode_seq_concat)

definition approval_example :: "uint256 \<Rightarrow> pax_transaction" where
  "approval_example t =
     (pax_blank t 513 0)\<lparr>pax_puposhis := 7, pax_height := 12, pax_source := bytes_of ''EUR'' @ replicate 62 0\<rparr>"

theorem approval_roundtrip_witness:
  "decode_seq 2 approval_dec (rwapproval_write (approval_example 5) @ rwapproval_write (approval_example 6)) =
     Some [approval_example 5, approval_example 6]"
proof -
  have "approval_wf (approval_example t)" for t
    by (simp add: approval_wf_def approval_example_def pax_blank_def is_i32_def bytes_of_def numeral_eq_Suc)
  then show ?thesis
    using approval_roundtrip [of "[approval_example 5, approval_example 6]"] by (simp add: numeral_2_eq_2)
qed

text \<open>On a chain whose name is not a currency an opreturn can change the key-value store only, and
  only a \<open>K\<close> payload does.\<close>
theorem opreturn_only_kv:
  assumes "SMART_CHAIN_SYMBOL G \<noteq> []" and "hush_baseid (SMART_CHAIN_SYMBOL G) < 0"
    and "hush_opreturn E G height value opretbuf opretlen txid vout source w = (typestr, w')"
  shows "PAX w' = PAX w \<and> HUSH_STATES w' = HUSH_STATES w \<and> (opretbuf 0 \<noteq> 0x4b \<longrightarrow> w' = w)"
proof -
  have "PAX (hush_kvupdate c G m n v w) = PAX w \<and> HUSH_STATES (hush_kvupdate c G m n v w) = HUSH_STATES w" for c m n v
    by (auto simp: hush_kvupdate_def Let_def split: option.splits prod.splits)
  then show ?thesis
    using assms by (auto simp: hush_opreturn_def Let_def split: if_splits)
qed

theorem opreturn_only_kv_witness:
  "\<forall>E. \<exists>typestr w'. hush_opreturn E hsc_params 100 0 (\<lambda>_. 0x44) 38 0 0 [] hush_world0 = (typestr, w') \<and> w' = hush_world0"
proof
  fix E
  have b: "hush_baseid (SMART_CHAIN_SYMBOL hsc_params) < 0" by code_simp
  obtain t w' where r: "hush_opreturn E hsc_params 100 0 (\<lambda>_. 0x44) 38 0 0 [] hush_world0 = (t, w')" by fastforce
  then show "\<exists>typestr w'. hush_opreturn E hsc_params 100 0 (\<lambda>_. 0x44) 38 0 0 [] hush_world0 = (typestr, w') \<and> w' = hush_world0"
    using opreturn_only_kv [OF _ b r] by (simp add: hsc_params_def)
qed

end
