(* ===== verification/Hush_Events.thy ===== *)
theory Hush_Events
  imports Hush_Pax Hush_Notary
begin

text \<open>
  The event log of a chain, \<open>src/src/hush_events.h\<close>: every record that goes into the state file also
  becomes a \<open>struct hush_event\<close> at the end of \<open>Hush_events\<close>, with a side effect on the state; a
  reorganisation pops events from the end. A state pointer comes from \<open>hush_stateptr\<close>, which is never
  null (\<open>hush_stateptr_less\<close>), so the null tests are omitted.
\<close>

section \<open>Adding events\<close>

definition HUSH_EVENT_RATIFY :: byte where "HUSH_EVENT_RATIFY = 0x50"
definition HUSH_EVENT_NOTARIZED :: byte where "HUSH_EVENT_NOTARIZED = 0x4e"
definition HUSH_EVENT_HUSHHEIGHT :: byte where "HUSH_EVENT_HUSHHEIGHT = 0x4b"
definition HUSH_EVENT_REWIND :: byte where "HUSH_EVENT_REWIND = 0x42"
definition HUSH_EVENT_PRICEFEED :: byte where "HUSH_EVENT_PRICEFEED = 0x56"
definition HUSH_EVENT_OPRETURN :: byte where "HUSH_EVENT_OPRETURN = 0x52"

lemmas event_types = HUSH_EVENT_RATIFY_def HUSH_EVENT_NOTARIZED_def HUSH_EVENT_HUSHHEIGHT_def
  HUSH_EVENT_REWIND_def HUSH_EVENT_PRICEFEED_def HUSH_EVENT_OPRETURN_def

text \<open>
  \<open>sizeof(struct hush_event)\<close> is 88 and its payload starts at offset 83. The allocation size is
  computed in 16 bits; when it wraps, the payload is written past the allocation.
\<close>

definition SIZEOF_EVENT :: nat where "SIZEOF_EVENT = 88"
definition OFFSETOF_SPACE :: nat where "OFFSETOF_SPACE = 83"

definition hush_eventadd ::
    "hush_params \<Rightarrow> nat \<Rightarrow> int \<Rightarrow> string \<Rightarrow> byte \<Rightarrow> buffer \<Rightarrow> hush_world \<Rightarrow> hush_world" where
  "hush_eventadd G sp height symbol type data w =
     (let len = word_of_nat (SIZEOF_EVENT + length data) :: u16 in
      if SMART_CHAIN_SYMBOL G = [] then w
      else
        let w = (if unat len < OFFSETOF_SPACE + length data then w\<lparr>faulted := True\<rparr> else w)
        in st_upd sp (\<lambda>st. st\<lparr>Hush_events := Hush_events st @
             [\<lparr>ev_len = len, ev_height = height, ev_type = type, ev_symbol = symbol, ev_space = data\<rparr>]\<rparr>) w)"

text \<open>\<open>struct hush_event_notarized\<close>: three hashes, two heights and a 16-byte name.\<close>

definition notarized_bytes :: "uint256 \<Rightarrow> uint256 \<Rightarrow> uint256 \<Rightarrow> int \<Rightarrow> int \<Rightarrow> string \<Rightarrow> buffer" where
  "notarized_bytes blockhash desttxid mom notarizedheight momdepth dest =
     le_bytes 32 blockhash @ le_bytes 32 desttxid @ le_bytes 32 mom @ le_i32 notarizedheight @ le_i32 momdepth @
     take 15 (bytes_of dest @ replicate 16 0) @ [0]"

definition hush_eventadd_notarized ::
    "hush_env \<Rightarrow> hush_params \<Rightarrow> nat \<Rightarrow> string \<Rightarrow> int \<Rightarrow> string \<Rightarrow> uint256 \<Rightarrow> uint256 \<Rightarrow> int \<Rightarrow> uint256 \<Rightarrow> int
      \<Rightarrow> hush_world \<Rightarrow> hush_world" where
  "hush_eventadd_notarized E G sp symbol height dest notarized_hash notarized_desttxid notarizedheight mom momdepth w =
     (let coin = (if SMART_CHAIN_SYMBOL G = [] then ''HUSH3'' else SMART_CHAIN_SYMBOL G) in
      if IS_HUSH_NOTARY G \<noteq> 0 \<and>
         env_verifynotarization E symbol dest height notarizedheight notarized_hash notarized_desttxid < 0
      then w
      else if symbol = coin
      then st_upd sp (hush_notarized_update height notarizedheight notarized_hash notarized_desttxid mom momdepth)
             (hush_eventadd G sp height symbol HUSH_EVENT_NOTARIZED
               (notarized_bytes notarized_hash notarized_desttxid mom notarizedheight momdepth dest) w)
      else w)"

text \<open>A count above 64 would overrun the local structure.\<close>

definition hush_eventadd_pubkeys ::
    "hush_params \<Rightarrow> nat \<Rightarrow> string \<Rightarrow> int \<Rightarrow> pubkey33 list \<Rightarrow> hush_world \<Rightarrow> hush_world" where
  "hush_eventadd_pubkeys G sp symbol height pubkeys w =
     (let w = (if length pubkeys > 64 then w\<lparr>faulted := True\<rparr> else w)
      in hush_notarysinit height pubkeys
           (hush_eventadd G sp height symbol HUSH_EVENT_RATIFY (word_of_nat (length pubkeys) # concat pubkeys) w))"

text \<open>
  The structure aligns its prices at offset 4, so the \<open>1 + 4 * 35\<close> bytes stored end inside the last
  price. \<open>hush_pvals\<close> does nothing.
\<close>

definition hush_eventadd_pricefeed ::
    "hush_params \<Rightarrow> nat \<Rightarrow> string \<Rightarrow> int \<Rightarrow> u32 list \<Rightarrow> hush_world \<Rightarrow> hush_world" where
  "hush_eventadd_pricefeed G sp symbol height prices w =
     (if length prices = 35
      then hush_eventadd G sp height symbol HUSH_EVENT_PRICEFEED
             (take 141 ([35, 0, 0, 0] @ concat (map (le_bytes 4) prices))) w
      else w)"

text \<open>
  The 48 bytes of \<open>struct hush_event_opreturn\<close> are copied before \<open>oplen\<close> is set, with whatever the
  stack holds there and in the padding; the stored length is \<open>opretlen + 48\<close> in 16 bits.
\<close>

definition opreturn_header :: "hush_env \<Rightarrow> uint256 \<Rightarrow> u64 \<Rightarrow> u16 \<Rightarrow> buffer" where
  "opreturn_header E txid value vout =
     le_bytes 32 txid @ le_bytes 8 value @ le_bytes 2 vout @ bslice (stk_local E ''O'') 42 6"

definition hush_eventadd_opreturn ::
    "hush_env \<Rightarrow> hush_params \<Rightarrow> nat \<Rightarrow> string \<Rightarrow> int \<Rightarrow> uint256 \<Rightarrow> u64 \<Rightarrow> u16 \<Rightarrow> bmem \<Rightarrow> u16 \<Rightarrow> hush_world
      \<Rightarrow> hush_world" where
  "hush_eventadd_opreturn E G sp symbol height txid value vout buf opretlen w =
     (if SMART_CHAIN_SYMBOL G \<noteq> []
      then
        let opret = opreturn_header E txid value vout @ bslice buf 0 (unat opretlen) @ replicate 16 0;
            oplen = unat (opretlen + 48)
        in snd (hush_opreturn E G height value buf (int (unat opretlen)) txid vout symbol
                 (hush_eventadd G sp height symbol HUSH_EVENT_OPRETURN (take oplen opret) w))
      else w)"

section \<open>Undoing events\<close>

text \<open>Only a height event has an effect to undo.\<close>

definition hush_event_undo :: "hush_event \<Rightarrow> int \<Rightarrow> int" where
  "hush_event_undo ep savedheight =
     (if ev_type ep = HUSH_EVENT_HUSHHEIGHT \<and> ev_height ep \<le> savedheight then ev_height ep else savedheight)"

text \<open>The loop over the events from the last one, with \<open>SAVEDHEIGHT\<close>.\<close>

fun rewind_loop :: "int \<Rightarrow> hush_event list \<Rightarrow> int \<Rightarrow> hush_event list \<times> int" where
  "rewind_loop height [] saved = ([], saved)"
| "rewind_loop height (ep # eps) saved =
     (if ev_height ep < height then (ep # eps, saved)
      else rewind_loop height eps (hush_event_undo ep saved))"

definition rewind_state :: "int \<Rightarrow> hush_state \<Rightarrow> hush_state" where
  "rewind_state height st =
     (let (eps, saved) = rewind_loop height (rev (Hush_events st)) (SAVEDHEIGHT st)
      in st\<lparr>Hush_events := rev eps, SAVEDHEIGHT := saved\<rparr>)"

definition hush_event_rewind :: "hush_params \<Rightarrow> nat \<Rightarrow> int \<Rightarrow> hush_world \<Rightarrow> hush_world" where
  "hush_event_rewind G sp height w =
     (let w = (if SMART_CHAIN_SYMBOL G = [] \<and> height \<le> HUSH_LASTMINED w \<and> prevHUSH_LASTMINED w \<noteq> 0
               then w\<lparr>HUSH_LASTMINED := prevHUSH_LASTMINED w, prevHUSH_LASTMINED := 0\<rparr> else w)
      in st_upd sp (rewind_state height) w)"

section \<open>Heights\<close>

definition hush_sethushheight :: "int \<Rightarrow> u32 \<Rightarrow> hush_state \<Rightarrow> hush_state" where
  "hush_sethushheight hushheight timestamp st =
     (let st = (if hushheight > SAVEDHEIGHT st
                then st\<lparr>SAVEDHEIGHT := hushheight, SAVEDTIMESTAMP := timestamp\<rparr> else st)
      in if hushheight > CURRENT_HEIGHT st then st\<lparr>CURRENT_HEIGHT := hushheight\<rparr> else st)"

definition hush_eventadd_hushheight ::
    "hush_params \<Rightarrow> nat \<Rightarrow> string \<Rightarrow> int \<Rightarrow> int \<Rightarrow> u32 \<Rightarrow> hush_world \<Rightarrow> hush_world" where
  "hush_eventadd_hushheight G sp symbol height hushheight timestamp w =
     (if hushheight > 0
      then st_upd sp (hush_sethushheight hushheight timestamp)
             (hush_eventadd G sp height symbol HUSH_EVENT_HUSHHEIGHT (le_i32 hushheight @ le_bytes 4 timestamp) w)
      else hush_event_rewind G sp height
             (hush_eventadd G sp height symbol HUSH_EVENT_REWIND (le_i32 height) w))"

section \<open>The log as a stack\<close>

lemma undo_min:
  "hush_event_undo ep s = (if ev_type ep = HUSH_EVENT_HUSHHEIGHT then min (ev_height ep) s else s)"
  by (auto simp: hush_event_undo_def)

lemma rewind_loop_dropWhile: "fst (rewind_loop h eps s) = dropWhile (\<lambda>e. h \<le> ev_height e) eps"
  by (induction eps arbitrary: s) auto

lemma rewind_loop_saved:
  "snd (rewind_loop h eps s) = fold hush_event_undo (takeWhile (\<lambda>e. h \<le> ev_height e) eps) s"
  by (induction eps arbitrary: s) auto

lemma rewind_state_events: "Hush_events (rewind_state h st) = rev (dropWhile (\<lambda>e. h \<le> ev_height e) (rev (Hush_events st)))"
  by (simp add: rewind_state_def rewind_loop_dropWhile [symmetric, of h _ "SAVEDHEIGHT st"] case_prod_unfold Let_def)

lemma rewind_append:
  assumes "list_all (\<lambda>e. ev_height e < h) es" and "list_all (\<lambda>e. h \<le> ev_height e) es'"
  shows "rev (dropWhile (\<lambda>e. h \<le> ev_height e) (rev (es @ es'))) = es"
proof -
  have "dropWhile (\<lambda>e. h \<le> ev_height e) (rev es' @ rev es) = dropWhile (\<lambda>e. h \<le> ev_height e) (rev es)"
    using assms(2) by (intro dropWhile_append2) (simp add: list_all_iff)
  moreover have "dropWhile (\<lambda>e. h \<le> ev_height e) (rev es) = rev es"
    using assms(1) by (cases es rule: rev_cases) (auto simp: not_le)
  ultimately show ?thesis by simp
qed

lemma rewind_sorted:
  assumes "sorted (map ev_height es)"
  shows "rev (dropWhile (\<lambda>e. h \<le> ev_height e) (rev es)) = filter (\<lambda>e. ev_height e < h) es"
proof -
  have tw: "takeWhile (\<lambda>e. ev_height e < h) es = filter (\<lambda>e. ev_height e < h) es"
    using assms by (rule sorted_takeWhile_filter)
  have "es = takeWhile (\<lambda>e. ev_height e < h) es @ dropWhile (\<lambda>e. ev_height e < h) es" by simp
  moreover have "list_all (\<lambda>e. h \<le> ev_height e) (dropWhile (\<lambda>e. ev_height e < h) es)"
  proof -
    let ?d = "dropWhile (\<lambda>e. ev_height e < h) es"
    have s: "sorted (map ev_height ?d)"
      using assms by (simp add: dropWhile_eq_drop sorted_drop_map)
    show ?thesis
    proof (cases ?d)
      case (Cons e rest)
      then have "\<not> ev_height e < h" using hd_dropWhile [of "\<lambda>e. ev_height e < h" es] by simp
      then show ?thesis using s Cons by (auto simp: list_all_iff)
    next
      case Nil
      then show ?thesis unfolding Nil by simp
    qed
  qed
  moreover have "list_all (\<lambda>e. ev_height e < h) (takeWhile (\<lambda>e. ev_height e < h) es)"
    by (auto simp: list_all_iff dest: set_takeWhileD)
  ultimately show ?thesis using rewind_append tw by metis
qed

text \<open>Facts that go with each operation: what it does to the log of its state.\<close>

definition log_of :: "hush_world \<Rightarrow> nat \<Rightarrow> hush_event list" where
  "log_of w sp = Hush_events (st_get w sp)"

lemma states_ok_simps [simp]:
  "states_ok (w\<lparr>faulted := b\<rparr>) = states_ok w"
  "states_ok (w\<lparr>PAX := T\<rparr>) = states_ok w"
  "states_ok (w\<lparr>HUSH_KV := kv\<rparr>) = states_ok w"
  "states_ok (w\<lparr>Pubkeys := P, notarysinit_hwmheight := m\<rparr>) = states_ok w"
  by (simp_all add: states_ok_def)

lemma st_get_simps [simp]:
  "st_get (w\<lparr>faulted := b\<rparr>) sp = st_get w sp"
  "st_get (w\<lparr>PAX := T\<rparr>) sp = st_get w sp"
  "st_get (w\<lparr>HUSH_KV := kv\<rparr>) sp = st_get w sp"
  "st_get (w\<lparr>Pubkeys := P, notarysinit_hwmheight := m\<rparr>) sp = st_get w sp"
  by (simp_all add: st_get_def)

lemma st_get_upd_same_events:
  assumes "\<And>st. Hush_events (f st) = Hush_events st"
  shows "Hush_events (st_get (st_upd i f w) sp) = Hush_events (st_get w sp)"
  using assms by (cases "i = sp"; cases "sp < length (HUSH_STATES w)")
    (simp_all add: st_get_def st_upd_def list_update_beyond)

lemma kvupdate_states:
  "HUSH_STATES (hush_kvupdate c G m n v w) = HUSH_STATES w"
  by (auto simp: hush_kvupdate_def Let_def split: option.splits prod.splits)

lemma kvupdate_faulted: "faulted w \<Longrightarrow> faulted (hush_kvupdate c G m n v w)"
  by (auto simp: hush_kvupdate_def Let_def split: option.splits prod.splits)

lemma opreturn_log:
  "log_of (snd (hush_opreturn E G h v m n t vo s w)) sp = log_of w sp \<and>
   states_ok (snd (hush_opreturn E G h v m n t vo s w)) = states_ok w"
proof -
  have kv: "st_get (hush_kvupdate c G m n v w) sp = st_get w sp"
    "states_ok (hush_kvupdate c G m n v w) = states_ok w" for c
    by (simp_all add: st_get_def states_ok_def kvupdate_states)
  have wd: "log_of (pax_withdraw E h v m t vo s w) sp = log_of w sp"
    "states_ok (pax_withdraw E h v m t vo s w) = states_ok w"
    by (simp_all add: pax_withdraw_def Let_def log_of_def st_get_upd_same_events)
  show ?thesis using kv wd by (simp add: hush_opreturn_def Let_def log_of_def)
qed

lemma opreturn_faulted: "faulted w \<Longrightarrow> faulted (snd (hush_opreturn E G h v m n t vo s w))"
  by (simp add: hush_opreturn_def Let_def kvupdate_faulted pax_withdraw_def st_upd_def)

lemma eventadd_states_ok [simp]: "states_ok (hush_eventadd G sp h sy ty d w) = states_ok w"
  by (simp add: hush_eventadd_def Let_def)

lemma eventadd_log:
  assumes "states_ok w" and "sp < 34"
  shows "log_of (hush_eventadd G sp h sy ty d w) sp =
     log_of w sp @ (if SMART_CHAIN_SYMBOL G = [] then []
       else [\<lparr>ev_len = word_of_nat (SIZEOF_EVENT + length d), ev_height = h, ev_type = ty, ev_symbol = sy, ev_space = d\<rparr>])"
  using assms by (simp add: hush_eventadd_def Let_def log_of_def)

lemma notarysinit_log [simp]:
  "log_of (hush_notarysinit h pks w) sp = log_of w sp" "states_ok (hush_notarysinit h pks w) = states_ok w"
  by (simp_all add: hush_notarysinit_def Let_def log_of_def)

lemma notarized_update_events [simp]: "Hush_events (hush_notarized_update nh n hs tx m d st) = Hush_events st"
  by (simp add: hush_notarized_update_def)

lemma sethushheight_events [simp]: "Hush_events (hush_sethushheight hh ts st) = Hush_events st"
  by (simp add: hush_sethushheight_def Let_def)

section \<open>Steps\<close>

text \<open>
  One event added at a height not below \<open>h\<close>, by any of the five operations that append to the log.
\<close>

inductive event_step :: "hush_env \<Rightarrow> hush_params \<Rightarrow> nat \<Rightarrow> int \<Rightarrow> hush_world \<Rightarrow> hush_world \<Rightarrow> bool"
  for E G sp h where
  notarized: "h \<le> ht \<Longrightarrow> event_step E G sp h w (hush_eventadd_notarized E G sp sy ht dest hs tx n m d w)"
| pubkeys: "h \<le> ht \<Longrightarrow> event_step E G sp h w (hush_eventadd_pubkeys G sp sy ht pks w)"
| pricefeed: "h \<le> ht \<Longrightarrow> event_step E G sp h w (hush_eventadd_pricefeed G sp sy ht prices w)"
| opreturn: "h \<le> ht \<Longrightarrow> event_step E G sp h w (hush_eventadd_opreturn E G sp sy ht txid v vo buf len w)"
| hushheight: "h \<le> ht \<Longrightarrow> 0 < hh \<Longrightarrow> event_step E G sp h w (hush_eventadd_hushheight G sp sy ht hh ts w)"

definition log_extends :: "int \<Rightarrow> nat \<Rightarrow> hush_world \<Rightarrow> hush_world \<Rightarrow> bool" where
  "log_extends h sp w w' \<longleftrightarrow>
     states_ok w' \<and> (\<exists>es. log_of w' sp = log_of w sp @ es \<and> list_all (\<lambda>e. h \<le> ev_height e) es)"

lemma log_extends_refl: "states_ok w \<Longrightarrow> log_extends h sp w w"
  by (simp add: log_extends_def)

lemma log_extends_trans: "log_extends h sp w w' \<Longrightarrow> log_extends h sp w' w'' \<Longrightarrow> log_extends h sp w w''"
  by (auto simp: log_extends_def)

lemma eventadd_extends:
  "states_ok w \<Longrightarrow> sp < 34 \<Longrightarrow> h \<le> ht \<Longrightarrow> log_extends h sp w (hush_eventadd G sp ht sy ty d w)"
  by (simp add: log_extends_def eventadd_log)

lemma log_extends_same:
  "log_extends h sp w w' \<Longrightarrow> log_of w'' sp = log_of w' sp \<Longrightarrow> states_ok w'' = states_ok w' \<Longrightarrow> log_extends h sp w w''"
  by (simp add: log_extends_def)

lemma event_step_extends:
  assumes "event_step E G sp h w w'" and ok: "states_ok w" and sp: "sp < 34"
  shows "log_extends h sp w w'"
  using assms(1)
proof cases
  case (notarized ht sy dest hs tx n m d)
  let ?w = "hush_eventadd G sp ht sy HUSH_EVENT_NOTARIZED (notarized_bytes hs tx m n d dest) w"
  have "log_extends h sp w (st_upd sp (hush_notarized_update ht n hs tx m d) ?w)"
    using eventadd_extends [OF ok sp notarized(2)]
    by (rule log_extends_same) (simp_all add: log_of_def st_get_upd_same_events)
  then show ?thesis
    unfolding notarized(1) hush_eventadd_notarized_def Let_def by (auto simp: log_extends_refl ok)
next
  case (pubkeys ht sy pks)
  let ?v = "if 64 < length pks then w\<lparr>faulted := True\<rparr> else w"
  have v: "states_ok ?v" "log_of ?v sp = log_of w sp" using ok by (simp_all add: log_of_def)
  then have "log_extends h sp w (hush_eventadd G sp ht sy HUSH_EVENT_RATIFY (word_of_nat (length pks) # concat pks) ?v)"
    using eventadd_extends [OF v(1) sp pubkeys(2)] by (simp add: log_extends_def)
  then show ?thesis
    unfolding pubkeys(1) hush_eventadd_pubkeys_def Let_def by (rule log_extends_same) simp_all
next
  case (pricefeed ht sy prices)
  then show ?thesis using eventadd_extends [OF ok sp] log_extends_refl [OF ok] by (simp add: hush_eventadd_pricefeed_def)
next
  case (opreturn ht sy txid v vo buf len)
  then show ?thesis
    using log_extends_same [OF eventadd_extends [OF ok sp opreturn(2)]] opreturn_log log_extends_refl [OF ok]
    by (simp add: hush_eventadd_opreturn_def Let_def)
next
  case (hushheight ht hh sy ts)
  let ?w = "hush_eventadd G sp ht sy HUSH_EVENT_HUSHHEIGHT (le_i32 hh @ le_bytes 4 ts) w"
  have "log_extends h sp w (st_upd sp (hush_sethushheight hh ts) ?w)"
    using eventadd_extends [OF ok sp hushheight(2)]
    by (rule log_extends_same) (simp_all add: log_of_def st_get_upd_same_events)
  then show ?thesis using hushheight by (simp add: hush_eventadd_hushheight_def)
qed

lemma event_steps_extend:
  "(event_step E G sp h)\<^sup>*\<^sup>* w w' \<Longrightarrow> states_ok w \<Longrightarrow> sp < 34 \<Longrightarrow> log_extends h sp w w'"
proof (induction rule: rtranclp_induct)
  case base
  then show ?case by (simp add: log_extends_refl)
next
  case (step w' w'')
  then have "log_extends h sp w w'" by simp
  moreover have "states_ok w'" using calculation by (simp add: log_extends_def)
  then have "log_extends h sp w' w''" using step by (intro event_step_extends)
  ultimately show ?case by (rule log_extends_trans)
qed

lemma rewind_log:
  "states_ok w \<Longrightarrow> sp < 34 \<Longrightarrow>
   log_of (hush_event_rewind G sp h w) sp = rev (dropWhile (\<lambda>e. h \<le> ev_height e) (rev (log_of w sp)))"
  by (simp add: hush_event_rewind_def Let_def log_of_def rewind_state_events st_get_def st_upd_def states_ok_def)

section \<open>Properties\<close>

text \<open>C22 The log is a stack: whatever is added at heights from \<open>h\<close> on, by any sequence of operations,
  rewinding to \<open>h\<close> leaves exactly the log of before.\<close>
theorem rewind_restores_log:
  assumes "states_ok w" and "sp < 34" and "list_all (\<lambda>e. ev_height e < h) (log_of w sp)"
    and "(event_step E G sp h)\<^sup>*\<^sup>* w w'"
  shows "log_of (hush_event_rewind G sp h w') sp = log_of w sp"
proof -
  obtain es where es: "log_of w' sp = log_of w sp @ es" "list_all (\<lambda>e. h \<le> ev_height e) es" and ok: "states_ok w'"
    using event_steps_extend [OF assms(4,1,2)] by (auto simp: log_extends_def)
  show ?thesis unfolding rewind_log [OF ok assms(2)] es(1) using assms(3) es(2) by (rule rewind_append)
qed

theorem rewind_restores_log_witness:
  "\<forall>E. log_of (hush_event_rewind hsc_params 0 10
      (hush_eventadd_notarized E hsc_params 0 ''ZDEEX'' 12 ''HUSH3'' 1 2 9 0 0
        (hush_eventadd_hushheight hsc_params 0 ''ZDEEX'' 11 11 7 hush_world0))) 0 = []"
proof
  fix E :: hush_env
  let ?w1 = "hush_eventadd_hushheight hsc_params 0 ''ZDEEX'' 11 11 7 hush_world0"
  have z: "log_of hush_world0 0 = []" by (simp add: log_of_def st_get_def hush_world0_def hush_state0_def)
  have "event_step E hsc_params 0 10 hush_world0 ?w1" by (rule event_step.hushheight) simp_all
  moreover have "event_step E hsc_params 0 10 ?w1 (hush_eventadd_notarized E hsc_params 0 ''ZDEEX'' 12 ''HUSH3'' 1 2 9 0 0 ?w1)"
    by (rule event_step.notarized) simp
  ultimately have "(event_step E hsc_params 0 10)\<^sup>*\<^sup>* hush_world0
      (hush_eventadd_notarized E hsc_params 0 ''ZDEEX'' 12 ''HUSH3'' 1 2 9 0 0 ?w1)"
    by (meson converse_rtranclp_into_rtranclp r_into_rtranclp)
  then show "log_of (hush_event_rewind hsc_params 0 10
      (hush_eventadd_notarized E hsc_params 0 ''ZDEEX'' 12 ''HUSH3'' 1 2 9 0 0 ?w1)) 0 = []"
    using rewind_restores_log [of hush_world0 0 10 E hsc_params] z by simp
qed

text \<open>On a log in height order a rewind to \<open>h\<close> keeps exactly the events below \<open>h\<close>, and lowers
  \<open>SAVEDHEIGHT\<close> to the smallest height among the height events it removes, if that is smaller.\<close>
theorem rewind_keeps_below:
  assumes "sorted (map ev_height (Hush_events st))"
  shows "Hush_events (rewind_state h st) = filter (\<lambda>e. ev_height e < h) (Hush_events st) \<and>
     SAVEDHEIGHT (rewind_state h st) =
       fold min (map ev_height (filter (\<lambda>e. h \<le> ev_height e \<and> ev_type e = HUSH_EVENT_HUSHHEIGHT) (rev (Hush_events st))))
         (SAVEDHEIGHT st)"
proof
  show "Hush_events (rewind_state h st) = filter (\<lambda>e. ev_height e < h) (Hush_events st)"
    unfolding rewind_state_events using assms by (rule rewind_sorted)
  let ?r = "rev (Hush_events st)"
  have "takeWhile (\<lambda>e. h \<le> ev_height e) ?r = filter (\<lambda>e. h \<le> ev_height e) ?r"
  proof -
    have "?r = takeWhile (\<lambda>e. h \<le> ev_height e) ?r @ dropWhile (\<lambda>e. h \<le> ev_height e) ?r" by simp
    moreover have "rev (dropWhile (\<lambda>e. h \<le> ev_height e) ?r) = filter (\<lambda>e. ev_height e < h) (Hush_events st)"
      using assms by (rule rewind_sorted)
    then have "dropWhile (\<lambda>e. h \<le> ev_height e) ?r = rev (filter (\<lambda>e. ev_height e < h) (Hush_events st))"
      by (metis rev_rev_ident)
    ultimately have "filter (\<lambda>e. h \<le> ev_height e) ?r =
        filter (\<lambda>e. h \<le> ev_height e) (takeWhile (\<lambda>e. h \<le> ev_height e) ?r) @
        filter (\<lambda>e. h \<le> ev_height e) (rev (filter (\<lambda>e. ev_height e < h) (Hush_events st)))"
      by (metis filter_append)
    moreover have "filter (\<lambda>e. h \<le> ev_height e) (rev (filter (\<lambda>e. ev_height e < h) (Hush_events st))) = []"
      by (auto simp: filter_empty_conv)
    moreover have "filter (\<lambda>e. h \<le> ev_height e) (takeWhile (\<lambda>e. h \<le> ev_height e) ?r) = takeWhile (\<lambda>e. h \<le> ev_height e) ?r"
      by (auto simp: filter_id_conv dest: set_takeWhileD)
    ultimately show ?thesis by simp
  qed
  moreover have "fold hush_event_undo es s =
      fold min (map ev_height (filter (\<lambda>e. ev_type e = HUSH_EVENT_HUSHHEIGHT) es)) s" for es s
    by (induction es arbitrary: s) (simp_all add: undo_min)
  ultimately show "SAVEDHEIGHT (rewind_state h st) =
      fold min (map ev_height (filter (\<lambda>e. h \<le> ev_height e \<and> ev_type e = HUSH_EVENT_HUSHHEIGHT) ?r)) (SAVEDHEIGHT st)"
    by (simp add: rewind_state_def case_prod_unfold rewind_loop_saved filter_filter conj_commute)
qed

definition event_at :: "int \<Rightarrow> hush_event" where
  "event_at h = \<lparr>ev_len = 96, ev_height = h, ev_type = HUSH_EVENT_HUSHHEIGHT, ev_symbol = ''ZDEEX'', ev_space = []\<rparr>"

theorem rewind_keeps_below_witness:
  "let st = hush_state0\<lparr>Hush_events := [event_at 5, event_at 6, event_at 7], SAVEDHEIGHT := 7\<rparr> in
   Hush_events (rewind_state 6 st) = [event_at 5] \<and> SAVEDHEIGHT (rewind_state 6 st) = 6"
  using rewind_keeps_below [of "hush_state0\<lparr>Hush_events := [event_at 5, event_at 6, event_at 7], SAVEDHEIGHT := 7\<rparr>" 6]
  by (simp add: event_at_def)

text \<open>A rewind does not touch notarisations: checkpoints and the notarised height recorded by blocks
  that are being disconnected stay in force.\<close>
theorem rewind_keeps_notarizations:
  "let st = rewind_state h st0 in
   NPOINTS st = NPOINTS st0 \<and> NOTARIZED_HEIGHT st = NOTARIZED_HEIGHT st0 \<and> NOTARIZED_HASH st = NOTARIZED_HASH st0 \<and>
   NOTARIZED_DESTTXID st = NOTARIZED_DESTTXID st0 \<and> MoM st = MoM st0 \<and> MoMdepth st = MoMdepth st0"
  by (simp add: rewind_state_def case_prod_unfold Let_def)

text \<open>After a reorganisation the saved timestamp is that of the orphaned block: connecting height
  \<open>h\<close> with time \<open>t1\<close>, rewinding to \<open>h\<close> and connecting it again with time \<open>t2\<close> leaves \<open>t1\<close>,
  because the rewind lowers \<open>SAVEDHEIGHT\<close> to \<open>h\<close> and not below.\<close>
theorem reorg_stale_timestamp:
  assumes "states_ok w" and "sp < 34" and "SMART_CHAIN_SYMBOL G \<noteq> []" and "0 < h"
    and "SAVEDHEIGHT (st_get w sp) < h" and "log_of w sp = []"
    and "w1 = hush_eventadd_hushheight G sp symbol h h t1 w"
    and "w2 = hush_eventadd_hushheight G sp symbol h (- h) t2 w1"
    and "w3 = hush_eventadd_hushheight G sp symbol h h t2 w2"
  shows "SAVEDTIMESTAMP (st_get w3 sp) = t1 \<and> SAVEDHEIGHT (st_get w3 sp) = h"
proof -
  have add: "st_get (hush_eventadd G sp ht sy ty d v) sp = (st_get v sp)\<lparr>Hush_events := Hush_events (st_get v sp) @
      [\<lparr>ev_len = word_of_nat (SIZEOF_EVENT + length d), ev_height = ht, ev_type = ty, ev_symbol = sy, ev_space = d\<rparr>]\<rparr>"
    if "states_ok v" for ht sy ty d v
    using that assms(2,3) by (simp add: hush_eventadd_def Let_def)
  have ok1: "states_ok w1" using assms(1,4,7) by (simp add: hush_eventadd_hushheight_def)
  have s1: "SAVEDHEIGHT (st_get w1 sp) = h" "SAVEDTIMESTAMP (st_get w1 sp) = t1"
      "Hush_events (st_get w1 sp) = [\<lparr>ev_len = word_of_nat (SIZEOF_EVENT + 8), ev_height = h,
         ev_type = HUSH_EVENT_HUSHHEIGHT, ev_symbol = symbol, ev_space = le_i32 h @ le_bytes 4 t1\<rparr>]"
    using assms by (simp_all add: hush_eventadd_hushheight_def add hush_sethushheight_def Let_def log_of_def)
  have w2: "w2 = st_upd sp (rewind_state h) (hush_eventadd G sp h symbol HUSH_EVENT_REWIND (le_i32 h) w1)"
    using assms(3,4,8) by (simp add: hush_eventadd_hushheight_def hush_event_rewind_def)
  then have ok2: "states_ok w2" using ok1 by simp
  have s2: "SAVEDHEIGHT (st_get w2 sp) = h" "SAVEDTIMESTAMP (st_get w2 sp) = t1"
    using ok1 assms(2) s1 by (simp_all add: w2 add rewind_state_def undo_min event_types)
  show ?thesis
    using assms(2,4,9) ok2 s2 by (simp add: hush_eventadd_hushheight_def add hush_sethushheight_def Let_def)
qed

theorem reorg_stale_timestamp_witness:
  "SAVEDTIMESTAMP (st_get (hush_eventadd_hushheight hsc_params 0 ''ZDEEX'' 9 9 200
     (hush_eventadd_hushheight hsc_params 0 ''ZDEEX'' 9 (- 9) 200
       (hush_eventadd_hushheight hsc_params 0 ''ZDEEX'' 9 9 100 hush_world0))) 0) = 100"
proof -
  have "SMART_CHAIN_SYMBOL hsc_params \<noteq> []" and "SAVEDHEIGHT (st_get hush_world0 0) < 9" and "log_of hush_world0 0 = []"
    by (simp_all add: hsc_params_def log_of_def st_get_def hush_world0_def hush_state0_def)
  then show ?thesis
    using reorg_stale_timestamp [of hush_world0 0 hsc_params 9 _ "''ZDEEX''" 100 _ 200, OF _ _ _ _ _ _ refl refl refl]
    by simp
qed

lemma u16_wrap_short: "65448 \<le> n \<Longrightarrow> n < 65536 \<Longrightarrow> (88 + n) mod 65536 < 83 + (n :: nat)"
  by (simp add: le_mod_geq)

text \<open>The 16-bit allocation size overflows: an opreturn of 65400 to 65487 bytes makes
  \<open>hush_eventadd\<close> allocate fewer bytes than it writes, and below 65400 bytes it never does.\<close>
theorem opreturn_event_overflow:
  assumes "SMART_CHAIN_SYMBOL G \<noteq> []"
  shows "(65400 \<le> unat opretlen \<and> unat opretlen < 65488 \<longrightarrow>
           faulted (hush_eventadd_opreturn E G sp symbol height txid val vout buf opretlen w)) \<and>
     (length d < 65448 \<longrightarrow> faulted (hush_eventadd G sp height symbol type d w) = faulted w)"
proof (intro conjI impI)
  have len: "unat (word_of_nat (SIZEOF_EVENT + n) :: u16) = (88 + n) mod 65536" for n
    unfolding SIZEOF_EVENT_def by (simp only: unat_of_nat) simp
  show "faulted (hush_eventadd G sp height symbol type d w) = faulted w" if "length d < 65448"
    using that by (simp add: hush_eventadd_def Let_def len OFFSETOF_SPACE_def st_upd_def del: of_nat_add)
  assume l: "65400 \<le> unat opretlen \<and> unat opretlen < 65488"
  have "unat (opretlen + 48) = (unat opretlen + 48) mod 2 ^ LENGTH(16)" by (simp add: unat_word_ariths)
  then have o: "unat (opretlen + 48) = unat opretlen + 48" using l by simp
  let ?d = "take (unat (opretlen + 48)) (opreturn_header E txid val vout @ bslice buf 0 (unat opretlen) @ replicate 16 0)"
  have d: "length ?d = unat opretlen + 48" by (simp add: o opreturn_header_def)
  have "65448 \<le> length ?d" and "length ?d < 65536" using l unfolding d by simp_all
  then have "(88 + length ?d) mod 65536 < 83 + length ?d" by (rule u16_wrap_short)
  then have "faulted (hush_eventadd G sp height symbol HUSH_EVENT_OPRETURN ?d w)"
    using assms by (simp add: hush_eventadd_def Let_def len OFFSETOF_SPACE_def st_upd_def del: of_nat_add)
  then show "faulted (hush_eventadd_opreturn E G sp symbol height txid val vout buf opretlen w)"
    using assms unfolding hush_eventadd_opreturn_def Let_def by (simp add: opreturn_faulted)
qed

theorem opreturn_event_overflow_witness:
  "\<forall>E. faulted (hush_eventadd_opreturn E hsc_params 0 ''ZDEEX'' 9 0 0 0 (\<lambda>_. 0x4b) 65400 hush_world0)"
  using opreturn_event_overflow [of hsc_params 65400] by (simp add: hsc_params_def)

end
