(* ===== verification/Hush_CCdata.thy ===== *)
theory Hush_CCdata
  imports Hush_Structs
begin

text \<open>
  Cross-chain data, \<open>src/src/hush_ccdata.h\<close>: the Merkle root over a range of blocks (MoM), the list
  \<open>CC_data\<close> of MoMs notarised by other chains, newest first, the root over a range of it (MoMoM)
  with its wire format, and the purge on a reorganisation. The Merkle tree construction is the
  parameter \<open>merkle\<close>, instantiated by \<open>GetMerkleRoot\<close> of \<open>Hush_Merkle\<close> in the proofs across chains. \<open>hush_rwccdata\<close>, which would fill the list, returns at once.
\<close>

section \<open>Operations\<close>

fun calcMoM_leaves :: "chain_view \<Rightarrow> int \<Rightarrow> nat \<Rightarrow> nat \<Rightarrow> uint256 list option" where
  "calcMoM_leaves ch height i 0 = Some []"
| "calcMoM_leaves ch height i (Suc n) =
     (case hush_chainactive ch (height - int i) of
        None \<Rightarrow> None
      | Some pindex \<Rightarrow> map_option (Cons (bi_hashMerkleRoot pindex)) (calcMoM_leaves ch height (i + 1) n))"

definition hush_calcMoM :: "(uint256 list \<Rightarrow> uint256) \<Rightarrow> chain_view \<Rightarrow> int \<Rightarrow> int \<Rightarrow> uint256" where
  "hush_calcMoM merkle ch height momdepth =
     (let momdepth = momdepth AND 0xffff in
      if momdepth \<ge> height then 0
      else case calcMoM_leaves ch height 0 (nat momdepth) of None \<Rightarrow> 0 | Some leaves \<Rightarrow> merkle leaves)"

text \<open>The walk over \<open>CC_data\<close> that stops below the range.\<close>

definition ccdata_entry :: "hush_ccdata \<Rightarrow> hush_ccdata_entry" where
  "ccdata_entry c =
     \<lparr>ce_MoM = cm_MoM (cc_MoMdata c), ce_notarized_height = cm_notarized_height (cc_MoMdata c),
      ce_hushheight = cm_height (cc_MoMdata c), ce_txi = cm_txi (cc_MoMdata c), ce_symbol = cc_symbol c\<rparr>"

fun allMoMs_loop :: "int \<Rightarrow> int \<Rightarrow> hush_ccdata list \<Rightarrow> hush_ccdata_entry list" where
  "allMoMs_loop starti endi [] = []"
| "allMoMs_loop starti endi (c # cs) =
     (let h = cm_height (cc_MoMdata c) in
      (if h \<le> endi \<and> h \<ge> starti then [ccdata_entry c] else []) @
      (if h < starti then [] else allMoMs_loop starti endi cs))"

text \<open>The entries, their number and the root; the root is unset when there is no entry.\<close>

definition hush_allMoMs ::
    "(uint256 list \<Rightarrow> uint256) \<Rightarrow> hush_world \<Rightarrow> int \<Rightarrow> int \<Rightarrow> hush_ccdata_entry list \<times> uint256 option" where
  "hush_allMoMs merkle w starti endi =
     (let es = allMoMs_loop starti endi (CC_data w)
      in (es, if es = [] then None else Some (merkle (map ce_MoM es))))"

text \<open>The new \<open>maxpairs\<close> and the structure; \<open>None\<close> is the error return.\<close>

definition hush_addpair :: "hush_ccdataMoMoM \<Rightarrow> int \<Rightarrow> int \<Rightarrow> int \<Rightarrow> (int \<times> hush_ccdataMoMoM) option" where
  "hush_addpair mdata notarized_height offset maxpairs =
     (if maxpairs \<ge> 0
      then Some (if mm_numpairs mdata \<ge> maxpairs then maxpairs + 100 else maxpairs,
                 mdata\<lparr>mm_pairs := mm_pairs mdata @ [\<lparr>cp_notarized_height = notarized_height, cp_MoMoMoffset = offset\<rparr>],
                       mm_numpairs := mm_numpairs mdata + 1\<rparr>)
      else None)"

text \<open>
  The search for the range: \<open>starti\<close>, \<open>endi\<close> and \<open>CCid\<close>. During the walk \<open>numpairs\<close> is still 0, so
  only the second disjunct of its stop condition can hold.
\<close>

fun MoMoM_range ::
    "string \<Rightarrow> int \<Rightarrow> int \<Rightarrow> hush_ccdata list \<Rightarrow> int \<times> int \<times> u32 \<Rightarrow> int \<times> int \<times> u32" where
  "MoMoM_range symbol hushheight notarized_height [] r = r"
| "MoMoM_range symbol hushheight notarized_height (c # cs) (starti, endi, ccid) =
     (let h = cm_height (cc_MoMdata c) in
      if h < hushheight
      then
        if cc_symbol c = symbol
        then
          let (endi, ccid) = (if endi = 0 then (h, cc_CCid c) else (endi, ccid)) in
          if cm_notarized_height (cc_MoMdata c) \<le> notarized_height then (h + 1, endi, ccid)
          else MoMoM_range symbol hushheight notarized_height cs (h, endi, ccid)
        else MoMoM_range symbol hushheight notarized_height cs (h, endi, ccid)
      else MoMoM_range symbol hushheight notarized_height cs (starti, endi, ccid))"

text \<open>The pairs of the chain itself among the entries, with their positions.\<close>

definition MoMoM_pairs :: "string \<Rightarrow> hush_ccdata_entry list \<Rightarrow> hush_ccdatapair list" where
  "MoMoM_pairs symbol es =
     map (\<lambda>(i, e). \<lparr>cp_notarized_height = ce_notarized_height e, cp_MoMoMoffset = int i\<rparr>)
       (filter (\<lambda>(i, e). symbol = ce_symbol e) (zip [0..<length es] es))"

definition pair_bytes :: "hush_ccdatapair \<Rightarrow> buffer" where
  "pair_bytes p = le_i32 (cp_notarized_height p) @ le_i32 (cp_MoMoMoffset p)"

definition MoMoM_bytes :: "u32 \<Rightarrow> hush_ccdataMoMoM \<Rightarrow> buffer" where
  "MoMoM_bytes ccid m =
     le_bytes 4 ccid @ le_i32 (mm_hushstarti m) @ le_i32 (mm_hushendi m) @ le_bytes 32 (mm_MoMoM m) @
     le_i32 (mm_MoMoMdepth m) @ le_i32 (mm_numpairs m) @ concat (map pair_bytes (mm_pairs m))"

text \<open>
  The hexadecimal payload and the structure; \<open>None\<close> is the return value -1. The payload buffer
  has 8192 bytes, of which 52 are the fixed fields.
\<close>

definition hush_MoMoMdata ::
    "(uint256 list \<Rightarrow> uint256) \<Rightarrow> hush_world \<Rightarrow> nat \<Rightarrow> string \<Rightarrow> int \<Rightarrow> int \<Rightarrow> (string \<times> hush_ccdataMoMoM) option" where
  "hush_MoMoMdata merkle w hexsize symbol hushheight notarized_height =
     (if 8192 * 2 + 1 > hexsize then None
      else
        let (starti, endi, ccid) = MoMoM_range symbol hushheight notarized_height (CC_data w) (0, 0, 0) in
        if starti \<noteq> 0 \<and> endi \<noteq> 0 \<and> endi \<ge> starti
        then case hush_allMoMs merkle w starti endi of
            (es, None) \<Rightarrow> None
          | (es, Some root) \<Rightarrow>
              let pairs = MoMoM_pairs symbol es;
                  m = \<lparr>mm_MoMoM = root, mm_hushstarti = starti, mm_hushendi = endi, mm_MoMoMoffset = 0,
                       mm_MoMoMdepth = int (length es), mm_numpairs = int (length pairs), mm_len = 0, mm_pairs = pairs\<rparr>
              in if pairs \<noteq> [] \<and> 52 + 8 * length pairs \<le> 8192 \<and> (52 + 8 * length pairs) * 2 + 1 < hexsize
                 then Some (hexstr (MoMoM_bytes ccid m), m) else None
        else None)"

fun purge_loop :: "int \<Rightarrow> hush_ccdata list \<Rightarrow> hush_ccdata list" where
  "purge_loop height [] = []"
| "purge_loop height (c # cs) = (if cm_height (cc_MoMdata c) \<ge> height then purge_loop height cs else c # cs)"

definition hush_purge_ccdata :: "hush_params \<Rightarrow> int \<Rightarrow> hush_world \<Rightarrow> hush_world" where
  "hush_purge_ccdata G height w =
     (if SMART_CHAIN_SYMBOL G = [] then w\<lparr>CC_data := purge_loop height (CC_data w)\<rparr> else w)"

definition hush_rwccdata :: "hush_world \<Rightarrow> int \<times> hush_world" where
  "hush_rwccdata w = (0, w)"

section \<open>Ranges\<close>

definition cc_height :: "hush_ccdata \<Rightarrow> int" where
  "cc_height c = cm_height (cc_MoMdata c)"

text \<open>Newest first.\<close>

definition cc_sorted :: "hush_ccdata list \<Rightarrow> bool" where
  "cc_sorted cs \<longleftrightarrow> sorted_wrt (\<lambda>a b. cc_height b \<le> cc_height a) cs"

lemma allMoMs_loop_filter:
  "cc_sorted cs \<Longrightarrow> allMoMs_loop a b cs = map ccdata_entry (filter (\<lambda>c. a \<le> cc_height c \<and> cc_height c \<le> b) cs)"
proof (induction cs)
  case (Cons c cs)
  show ?case
  proof (cases "cc_height c < a")
    case True
    then have "\<forall>d\<in>set cs. \<not> (a \<le> cc_height d \<and> cc_height d \<le> b)"
      using Cons.prems by (auto simp: cc_sorted_def)
    then have "filter (\<lambda>c. a \<le> cc_height c \<and> cc_height c \<le> b) cs = []" by (simp add: filter_empty_conv)
    then show ?thesis using True by (simp add: cc_height_def)
  next
    case False
    then show ?thesis using Cons by (auto simp: cc_height_def cc_sorted_def)
  qed
qed simp

lemma purge_loop_filter:
  "cc_sorted cs \<Longrightarrow> purge_loop h cs = filter (\<lambda>c. cc_height c < h) cs"
proof (induction cs)
  case (Cons c cs)
  show ?case
  proof (cases "h \<le> cc_height c")
    case True
    then show ?thesis using Cons by (simp add: cc_height_def cc_sorted_def)
  next
    case False
    then have "\<forall>d\<in>set cs. cc_height d < h" using Cons.prems by (force simp: cc_sorted_def)
    then have "filter (\<lambda>c. cc_height c < h) cs = cs" by (simp add: filter_id_conv)
    then show ?thesis using False by (simp add: cc_height_def)
  qed
qed simp

lemma calcMoM_leaves_all:
  "calcMoM_leaves ch h i n = Some ls \<Longrightarrow>
     length ls = n \<and> (\<forall>k<n. \<exists>b. hush_chainactive ch (h - int (i + k)) = Some b \<and> ls ! k = bi_hashMerkleRoot b)"
proof (induction n arbitrary: i ls)
  case (Suc n)
  then obtain b ls' where b: "hush_chainactive ch (h - int i) = Some b" and r: "calcMoM_leaves ch h (i + 1) n = Some ls'"
    and ls: "ls = bi_hashMerkleRoot b # ls'"
    by (auto split: option.splits)
  from Suc.IH [OF r] have len: "length ls' = n"
    and IH: "\<And>k. k < n \<Longrightarrow> \<exists>b. hush_chainactive ch (h - int (i + 1 + k)) = Some b \<and> ls' ! k = bi_hashMerkleRoot b"
    by auto
  have "\<exists>b. hush_chainactive ch (h - int (i + k)) = Some b \<and> ls ! k = bi_hashMerkleRoot b" if k: "k < Suc n" for k
  proof (cases k)
    case 0
    then show ?thesis using b ls by simp
  next
    case (Suc j)
    then show ?thesis using IH [of j] k ls by (simp add: algebra_simps)
  qed
  then show ?case using len ls by simp
qed simp

lemma MoMoM_pairs_nth:
  "p \<in> set (MoMoM_pairs symbol es) \<longleftrightarrow>
     (\<exists>i<length es. ce_symbol (es ! i) = symbol \<and>
        p = \<lparr>cp_notarized_height = ce_notarized_height (es ! i), cp_MoMoMoffset = int i\<rparr>)"
proof
  assume "p \<in> set (MoMoM_pairs symbol es)"
  then show "\<exists>i<length es. ce_symbol (es ! i) = symbol \<and>
      p = \<lparr>cp_notarized_height = ce_notarized_height (es ! i), cp_MoMoMoffset = int i\<rparr>"
    by (auto simp: MoMoM_pairs_def set_zip)
next
  assume "\<exists>i<length es. ce_symbol (es ! i) = symbol \<and>
      p = \<lparr>cp_notarized_height = ce_notarized_height (es ! i), cp_MoMoMoffset = int i\<rparr>"
  then obtain i where "i < length es" "ce_symbol (es ! i) = symbol"
    "p = \<lparr>cp_notarized_height = ce_notarized_height (es ! i), cp_MoMoMoffset = int i\<rparr>" by blast
  moreover have "(i, es ! i) \<in> set (zip [0..<length es] es)"
    using \<open>i < length es\<close> by (auto simp: set_zip intro!: exI [of _ i])
  ultimately show "p \<in> set (MoMoM_pairs symbol es)"
    by (auto simp: MoMoM_pairs_def intro!: image_eqI [of _ _ "(i, es ! i)"])
qed

section \<open>Properties\<close>

text \<open>The MoMoM proof data of a chain: when \<open>hush_MoMoMdata\<close> succeeds on a list in height order, the root is the
  Merkle root of the MoMs of all entries in the reported range, newest first, the depth is their number, and the
  pairs are exactly the positions of the entries of that chain, with the height each one notarises; the text returned
  decodes to the wire format of this structure.\<close>
theorem MoMoMdata_proves_range:
  assumes "cc_sorted (CC_data w)" and "hush_MoMoMdata merkle w hexsize symbol hushheight notarized_height = Some (hex, mm)"
  defines "es \<equiv> map ccdata_entry
      (filter (\<lambda>c. mm_hushstarti mm \<le> cc_height c \<and> cc_height c \<le> mm_hushendi mm) (CC_data w))"
  shows "mm_MoMoM mm = merkle (map ce_MoM es) \<and> mm_MoMoMdepth mm = int (length es) \<and> mm_numpairs mm = int (length (mm_pairs mm)) \<and>
     mm_pairs mm \<noteq> [] \<and>
     (\<forall>p. p \<in> set (mm_pairs mm) \<longleftrightarrow>
        (\<exists>i<length es. ce_symbol (es ! i) = symbol \<and>
           p = \<lparr>cp_notarized_height = ce_notarized_height (es ! i), cp_MoMoMoffset = int i\<rparr>)) \<and>
     (\<exists>ccid. hex = hexstr (MoMoM_bytes ccid mm)) \<and> length hex < hexsize"
proof -
  obtain starti endi ccid where r: "MoMoM_range symbol hushheight notarized_height (CC_data w) (0, 0, 0) = (starti, endi, ccid)"
    by (metis prod_cases3)
  let ?es = "allMoMs_loop starti endi (CC_data w)"
  have mm: "mm = \<lparr>mm_MoMoM = merkle (map ce_MoM ?es), mm_hushstarti = starti, mm_hushendi = endi, mm_MoMoMoffset = 0,
        mm_MoMoMdepth = int (length ?es), mm_numpairs = int (length (MoMoM_pairs symbol ?es)), mm_len = 0,
        mm_pairs = MoMoM_pairs symbol ?es\<rparr>"
    and hex: "hex = hexstr (MoMoM_bytes ccid mm)" and ne: "MoMoM_pairs symbol ?es \<noteq> []"
    and size: "(52 + 8 * length (MoMoM_pairs symbol ?es)) * 2 + 1 < hexsize"
    using assms(2) by (auto simp: hush_MoMoMdata_def r hush_allMoMs_def Let_def split: if_splits)
  have es: "es = ?es" unfolding es_def mm using allMoMs_loop_filter [OF assms(1)] by simp
  have lp: "length (concat (map pair_bytes ps)) = 8 * length ps" for ps
    by (induction ps) (simp_all add: pair_bytes_def)
  have "length (MoMoM_bytes ccid mm) = 52 + 8 * length (MoMoM_pairs symbol ?es)"
    by (simp add: MoMoM_bytes_def lp mm)
  then have "length hex < hexsize" using size by (simp add: hex)
  then show ?thesis unfolding es using hex ne MoMoM_pairs_nth [of _ symbol ?es] by (auto simp: mm)
qed

definition ccdata_example :: "hush_ccdata list" where
  "ccdata_example =
     [\<lparr>cc_MoMdata = \<lparr>cm_MoM = 7, cm_MoMdepth = 2, cm_notarized_height = 30, cm_height = 90, cm_txi = 1\<rparr>,
        cc_CCid = 4, cc_len = 0, cc_symbol = ''ZDEEX''\<rparr>,
      \<lparr>cc_MoMdata = \<lparr>cm_MoM = 5, cm_MoMdepth = 2, cm_notarized_height = 20, cm_height = 80, cm_txi = 1\<rparr>,
        cc_CCid = 4, cc_len = 0, cc_symbol = ''DEX''\<rparr>]"

theorem MoMoMdata_proves_range_witness:
  "\<exists>hex mm. hush_MoMoMdata sum_list (hush_world0\<lparr>CC_data := ccdata_example\<rparr>) 20000 ''ZDEEX'' 100 10 = Some (hex, mm) \<and>
     mm_MoMoM mm = 12 \<and> mm_pairs mm = [\<lparr>cp_notarized_height = 30, cp_MoMoMoffset = 0\<rparr>] \<and> length hex < 20000"
proof -
  let ?w = "hush_world0\<lparr>CC_data := ccdata_example\<rparr>"
  have range: "MoMoM_range ''ZDEEX'' 100 10 ccdata_example (0, 0, 0) = (80, 90, 4)"
    by (simp add: ccdata_example_def)
  have es: "map ce_MoM (allMoMs_loop 80 90 ccdata_example) = [7, 5]"
    "MoMoM_pairs ''ZDEEX'' (allMoMs_loop 80 90 ccdata_example) = [\<lparr>cp_notarized_height = 30, cp_MoMoMoffset = 0\<rparr>]"
    "allMoMs_loop 80 90 ccdata_example \<noteq> []"
    by (simp_all add: ccdata_example_def ccdata_entry_def MoMoM_pairs_def upt_rec)
  then obtain hex mm where run: "hush_MoMoMdata sum_list ?w 20000 ''ZDEEX'' 100 10 = Some (hex, mm)"
    by (simp add: hush_MoMoMdata_def range hush_allMoMs_def Let_def)
  then have mm: "mm_hushstarti mm = 80" "mm_hushendi mm = 90" "mm_pairs mm = [\<lparr>cp_notarized_height = 30, cp_MoMoMoffset = 0\<rparr>]"
    using es by (auto simp: hush_MoMoMdata_def range hush_allMoMs_def Let_def)
  have sorted: "cc_sorted (CC_data ?w)" by (simp add: cc_sorted_def ccdata_example_def cc_height_def)
  have "map ce_MoM (map ccdata_entry (filter (\<lambda>c. 80 \<le> cc_height c \<and> cc_height c \<le> 90) ccdata_example)) = [7, 5]"
    by (simp add: ccdata_example_def cc_height_def ccdata_entry_def)
  then show ?thesis using MoMoMdata_proves_range [OF sorted run] run mm by auto
qed

lemma calcMoM_leaves_eq:
  "calcMoM_leaves ch h i n =
     (if \<forall>k<n. hush_chainactive ch (h - int (i + k)) \<noteq> None
      then Some (map (\<lambda>k. bi_hashMerkleRoot (the (hush_chainactive ch (h - int (i + k))))) [0..<n]) else None)"
proof (induction n arbitrary: i)
  case (Suc n)
  have all: "(\<forall>k<Suc n. hush_chainactive ch (h - int (i + k)) \<noteq> None) \<longleftrightarrow>
      hush_chainactive ch (h - int i) \<noteq> None \<and> (\<forall>k<n. hush_chainactive ch (h - int (i + 1 + k)) \<noteq> None)"
    unfolding All_less_Suc2 by (simp add: algebra_simps)
  have split: "map f [0..<Suc n] = f 0 # map (\<lambda>k. f (Suc k)) [0..<n]" for f :: "nat \<Rightarrow> uint256"
    by (simp add: upt_conv_Cons map_Suc_upt [symmetric] comp_def del: upt_Suc)
  show ?case unfolding calcMoM_leaves.simps Suc.IH all split by (auto split: option.split)
qed simp

text \<open>The MoM over \<open>depth\<close> blocks: when all of them are in the active chain it is the Merkle root over the
  Merkle roots of exactly the blocks \<open>height\<close>, \<open>height - 1\<close>, ..., \<open>height - depth + 1\<close>; otherwise, and for a depth that
  reaches the genesis block, it is zero.\<close>
theorem calcMoM_covers:
  "hush_calcMoM merkle ch height momdepth =
     (let d = nat (momdepth AND 0xffff) in
      if int d < height \<and> (\<forall>k<d. hush_chainactive ch (height - int k) \<noteq> None)
      then merkle (map (\<lambda>k. bi_hashMerkleRoot (the (hush_chainactive ch (height - int k)))) [0..<d])
      else 0)"
proof -
  have "0 \<le> momdepth AND 0xffff" by simp
  then show ?thesis by (auto simp: hush_calcMoM_def Let_def calcMoM_leaves_eq)
qed

definition momchain_example :: chain_view where
  "momchain_example = \<lparr>mapBlockIndex = [],
     chainActive = map (\<lambda>i. \<lparr>bi_hash = word_of_nat i, bi_height = int i, bi_nTime = 0, bi_hashMerkleRoot = 10 + word_of_nat i\<rparr>) [0..<5],
     IsInitialBlockDownload = False\<rparr>"

theorem calcMoM_covers_witness: "hush_calcMoM sum_list momchain_example 3 2 = 25"
proof -
  have act: "hush_chainactive momchain_example (3 - int 0) \<noteq> None" "hush_chainactive momchain_example (3 - int 1) \<noteq> None"
    "bi_hashMerkleRoot (the (hush_chainactive momchain_example (3 - int 0))) = 13"
    "bi_hashMerkleRoot (the (hush_chainactive momchain_example (3 - int 1))) = 12"
    by (simp_all add: momchain_example_def hush_chainactive_def chain_LastTip_def chain_at_def upt_rec)
  have two: "(\<forall>k<2. P k) \<longleftrightarrow> P 0 \<and> P (1 :: nat)" for P by (auto simp: less_2_cases_iff)
  have upt2: "[0..<2] = [0, 1 :: nat]" by (simp add: upt_rec)
  have d: "nat (2 AND 0xffff) = 2" by simp
  show ?thesis unfolding calcMoM_covers Let_def d two upt2 using act by simp
qed

end
