(* ===== verification/Hush_StateIndex.thy ===== *)
theory Hush_StateIndex
  imports Hush_Prelude
begin

text \<open>
  The index of the state file, \<open>src/src/hush_gateway.h\<close>: one 32-bit word per record with the record's
  tag in the low byte and, above it, the distance from the last base position to the end of the
  record; every hundredth word is a new base position. \<open>hush_indfile_update\<close> appends the word of a
  record, \<open>hush_stateind_validate\<close> checks an index against the state file. The index is a list of its
  words; only whole words are ever written, so the test of the file size always succeeds.
\<close>

section \<open>Operations\<close>

record ind_file =
  ind_words :: "u32 list"
  ind_prevpos100 :: u32
  ind_counter :: u32

text \<open>The new index file with its first base position.\<close>

definition ind_start :: ind_file where
  "ind_start = \<lparr>ind_words = [0], ind_prevpos100 = 0, ind_counter = 1\<rparr>"

definition ind_word :: "u32 \<Rightarrow> nat \<Rightarrow> byte \<Rightarrow> u32" where
  "ind_word prevpos100 newfpos func =
     push_bit 8 (word_of_int (int newfpos - uint prevpos100)) OR (ucast func AND 0xff)"

definition hush_indfile_update :: "nat \<Rightarrow> byte \<Rightarrow> ind_file \<Rightarrow> ind_file" where
  "hush_indfile_update newfpos func f =
     (let f = f\<lparr>ind_words := ind_words f @ [ind_word (ind_prevpos100 f) newfpos func],
                ind_counter := ind_counter f + 1\<rparr>
      in if ind_counter f mod 100 = 0
         then f\<lparr>ind_prevpos100 := word_of_nat newfpos,
                ind_words := ind_words f @ [word_of_nat newfpos],
                ind_counter := ind_counter f + 1\<rparr>
         else f)"

text \<open>One round of the checking loop; its variables are \<open>i\<close>, \<open>prevpos100\<close> and \<open>fpos\<close> (at the start of a
  round \<open>lastfpos\<close> is \<open>fpos\<close>).\<close>

definition validate_step :: "buffer \<Rightarrow> u32 \<Rightarrow> nat \<times> u32 \<times> nat \<Rightarrow> (nat \<times> u32 \<times> nat) option" where
  "validate_step filedata tmp s =
     (case s of (i, prevpos100, lastfpos) \<Rightarrow>
        if i mod 100 = 0 then Some (i + 1, tmp, lastfpos)
        else
          let func = ucast (tmp AND 0xff) :: byte;
              offset = drop_bit 8 tmp;
              fpos = unat (prevpos100 + offset)
          in if lastfpos \<ge> length filedata \<or> filedata ! lastfpos \<noteq> func then None
             else Some (i + 1, prevpos100, fpos))"

fun validate_loop :: "buffer \<Rightarrow> u32 list \<Rightarrow> nat \<times> u32 \<times> nat \<Rightarrow> (nat \<times> u32 \<times> nat) option" where
  "validate_loop filedata [] s = Some s"
| "validate_loop filedata (tmp # tmps) s =
     (case validate_step filedata tmp s of None \<Rightarrow> None | Some s' \<Rightarrow> validate_loop filedata tmps s')"

text \<open>The position the index ends at, or \<open>None\<close> for the return value -1; \<open>sp\<close> is null.\<close>

definition hush_stateind_validate :: "buffer \<Rightarrow> u32 list \<Rightarrow> nat option" where
  "hush_stateind_validate filedata inds =
     (if inds = [] then None else map_option (\<lambda>(i, prevpos100, fpos). fpos) (validate_loop filedata inds (0, 0, 0)))"

section \<open>An index that is written validates\<close>

lemma validate_loop_append:
  "validate_loop fd (xs @ ys) s = Option.bind (validate_loop fd xs s) (validate_loop fd ys)"
  by (induction xs arbitrary: s) (auto split: option.splits)

text \<open>Tag and distance are recovered when the distance has at most 24 bits.\<close>

lemma ff_mask: "(0xff :: 'a::len word) = mask 8"
  by (simp add: mask_eq_exp_minus_1)

lemma ind_word_func: "ucast (ind_word p n f AND 0xff) = f"
proof (rule bit_word_eqI)
  fix k
  assume "k < LENGTH(8)"
  then show "bit (ucast (ind_word p n f AND 0xff) :: byte) k = bit f k"
    unfolding ind_word_def ff_mask by (auto simp: bit_simps)
qed

lemma ind_word_offset:
  assumes "uint p \<le> int n" and "int n - uint p < 2 ^ 24"
  shows "drop_bit 8 (ind_word p n f) = word_of_int (int n - uint p)"
proof -
  define d where "d = nat (int n - uint p)"
  have d: "d < 2 ^ 24" and eq: "(word_of_int (int n - uint p) :: u32) = word_of_nat d"
    using assms by (auto simp: d_def)
  have nb: "\<not> bit d k" if "24 \<le> k" for k
  proof -
    have "(2 :: nat) ^ 24 \<le> 2 ^ k" using that by (rule power_increasing) simp
    then have "d < 2 ^ k" using d by linarith
    then show ?thesis by (simp add: bit_iff_odd)
  qed
  have "\<not> bit (f :: byte) (k + 8)" for k by (auto dest: bit_imp_le_length)
  then show ?thesis
    unfolding ind_word_def eq
    using nb by (intro bit_word_eqI) (auto simp: bit_simps add.commute not_less [symmetric])
qed

lemma ind_word_fpos:
  assumes "uint p \<le> int n" and "int n - uint p < 2 ^ 24" and "n < 2 ^ 32"
  shows "unat (p + drop_bit 8 (ind_word p n f)) = n"
proof -
  have "p + drop_bit 8 (ind_word p n f) = word_of_nat n"
    by (simp add: ind_word_offset [OF assms(1,2)])
  then show ?thesis using assms(3) by (simp add: unat_of_nat take_bit_nat_eq_self)
qed

text \<open>
  The end positions and tags of consecutive records of a file, from position \<open>pos\<close>; a record has at
  least its tag and height, and the longest, an OP_RETURN of 65535 bytes, has 65584 bytes.
\<close>

fun records_at :: "buffer \<Rightarrow> nat \<Rightarrow> (nat \<times> byte) list \<Rightarrow> bool" where
  "records_at fd pos [] = True"
| "records_at fd pos ((newfpos, func) # rs) =
     (pos < length fd \<and> fd ! pos = func \<and> pos + 5 \<le> newfpos \<and> newfpos \<le> pos + 65584 \<and> newfpos < 2 ^ 32 \<and>
      records_at fd newfpos rs)"

definition ind_build :: "(nat \<times> byte) list \<Rightarrow> ind_file \<Rightarrow> ind_file" where
  "ind_build rs f = fold (\<lambda>(newfpos, func). hush_indfile_update newfpos func) rs f"

text \<open>
  The invariant of the writer: the checking loop accepts the words so far and ends with the
  writer's base position at the end of the last record, at most \<open>i mod 100 - 1\<close> records further.
\<close>

definition ind_inv :: "buffer \<Rightarrow> nat \<Rightarrow> ind_file \<Rightarrow> bool" where
  "ind_inv fd pos f \<longleftrightarrow>
     (let n = length (ind_words f) in
      n mod 100 \<noteq> 0 \<and> 2 * n \<le> pos + 2 \<and> ind_counter f = word_of_nat n \<and>
      validate_loop fd (ind_words f) (0, 0, 0) = Some (n, ind_prevpos100 f, pos) \<and>
      uint (ind_prevpos100 f) \<le> int pos \<and> int pos - uint (ind_prevpos100 f) \<le> int (n mod 100 - 1) * 65584)"

lemma ind_inv_start: "ind_inv fd 0 ind_start"
  by (simp add: ind_inv_def ind_start_def validate_step_def)

lemma mod100_Suc: "(n :: nat) mod 100 \<noteq> 0 \<Longrightarrow> Suc n mod 100 = (if n mod 100 = 99 then 0 else n mod 100 + 1)"
  by (simp add: mod_Suc)

lemma mod100_word:
  assumes "n < 2 ^ 32"
  shows "(word_of_nat n :: u32) mod 100 = 0 \<longleftrightarrow> n mod 100 = 0"
proof -
  have "unat ((word_of_nat n :: u32) mod 100) = n mod 100"
    using assms by (simp add: unat_mod unat_of_nat take_bit_nat_eq_self)
  then show ?thesis by (metis unat_eq_zero)
qed

lemma ind_update_inv:
  assumes inv: "ind_inv fd pos f" and rec: "records_at fd pos [(newfpos, func)]"
  shows "ind_inv fd newfpos (hush_indfile_update newfpos func f)"
proof -
  define n where "n = length (ind_words f)"
  define p where "p = ind_prevpos100 f"
  from inv have nz: "n mod 100 \<noteq> 0" and n2: "2 * n \<le> pos + 2" and cnt: "ind_counter f = word_of_nat n"
    and run: "validate_loop fd (ind_words f) (0, 0, 0) = Some (n, p, pos)"
    and le: "uint p \<le> int pos" and near: "int pos - uint p \<le> int (n mod 100 - 1) * 65584"
    unfolding ind_inv_def n_def p_def Let_def by blast+
  from rec have at: "pos < length fd" "fd ! pos = func" "pos + 5 \<le> newfpos" "newfpos \<le> pos + 65584" "newfpos < 2 ^ 32"
    by auto
  have "n mod 100 \<le> 99" by (simp add: less_Suc_eq_le [symmetric])
  then have near': "int newfpos - uint p \<le> int (n mod 100) * 65584" and "int newfpos - uint p < 2 ^ 24"
    using near at nz by auto
  moreover have "uint p \<le> int newfpos" using le at by simp
  ultimately have fpos: "unat (p + drop_bit 8 (ind_word p newfpos func)) = newfpos"
    using at by (intro ind_word_fpos) auto
  have step: "validate_step fd (ind_word p newfpos func) (n, p, pos) = Some (Suc n, p, newfpos)"
    using nz at fpos by (simp add: validate_step_def ind_word_func Let_def)
  have n32: "Suc n < 2 ^ 32" using n2 at by simp
  have ctr: "(word_of_nat n + 1 :: u32) = word_of_nat (Suc n)" by simp
  have ctr0: "(word_of_nat n + 1 :: u32) mod 100 = 0 \<longleftrightarrow> n mod 100 = 99"
    unfolding ctr using n32 nz by (subst mod100_word) (auto simp: mod100_Suc)
  show ?thesis
  proof (cases "n mod 100 = 99")
    case True
    have step2: "validate_step fd (word_of_nat newfpos) (Suc n, p, newfpos) = Some (Suc (Suc n), word_of_nat newfpos, newfpos)"
      using True nz by (simp add: validate_step_def mod100_Suc)
    have "Suc (Suc n) mod 100 = 1" using True by (simp add: mod_Suc)
    then show ?thesis
      using True n2 at run step step2 ctr0
      by (simp add: hush_indfile_update_def ind_inv_def Let_def cnt p_def [symmetric] n_def [symmetric]
          validate_loop_append uint_nat unat_of_nat take_bit_nat_eq_self)
  next
    case False
    then have "Suc n mod 100 = n mod 100 + 1" using nz by (simp add: mod100_Suc)
    then show ?thesis
      using False n2 at run step ctr0 near' \<open>uint p \<le> int newfpos\<close>
      by (simp add: hush_indfile_update_def ind_inv_def Let_def cnt p_def [symmetric] n_def [symmetric]
          validate_loop_append)
  qed
qed

lemma ind_build_inv:
  "ind_inv fd pos f \<Longrightarrow> records_at fd pos rs \<Longrightarrow> ind_inv fd (last (pos # map fst rs)) (ind_build rs f)"
proof (induction rs arbitrary: pos f)
  case (Cons r rs)
  obtain newfpos func where r: "r = (newfpos, func)" by fastforce
  have "ind_inv fd newfpos (hush_indfile_update newfpos func f)"
    using Cons.prems r by (intro ind_update_inv) auto
  then show ?case using Cons.IH Cons.prems r by (simp add: ind_build_def)
qed (simp add: ind_build_def)

lemma ind_build_validates:
  assumes "records_at fd 0 rs"
  shows "hush_stateind_validate fd (ind_words (ind_build rs ind_start)) = Some (last (0 # map fst rs))"
  using ind_build_inv [OF ind_inv_start assms] by (auto simp: ind_inv_def hush_stateind_validate_def Let_def)

end
