(* ===== verification/Hush_State.thy ===== *)
theory Hush_State
  imports Hush_Events Hush_CCdata Hush_StateIndex
begin

text \<open>
  The state file, from \<open>src/src/hush.h\<close>: the record parser in its two forms (\<open>hush_parsestatefile\<close>
  reads a stream, \<open>hush_parsestatefiledata\<close> a buffer), the writer \<open>hush_stateupdate\<close>, which appends
  a record and applies its effect, and the replay at start-up. The file is the list of its bytes;
  every write succeeds. The counters \<open>errs\<close> and the console output are left out.
\<close>

section \<open>Reading\<close>

text \<open>
  The bytes obtained and the rest of the input. \<open>memread\<close> copies all or nothing; \<open>fread\<close> takes what
  is left.
\<close>

datatype reader = Memread | Fread

definition memread :: "nat \<Rightarrow> buffer \<Rightarrow> buffer \<times> buffer" where
  "memread n rest = (if n \<le> length rest then (take n rest, drop n rest) else ([], rest))"

definition fread :: "nat \<Rightarrow> buffer \<Rightarrow> buffer \<times> buffer" where
  "fread n rest = (take n rest, drop n rest)"

fun read_n :: "reader \<Rightarrow> nat \<Rightarrow> buffer \<Rightarrow> buffer \<times> buffer" where
  "read_n Memread n rest = memread n rest"
| "read_n Fread n rest = fread n rest"

text \<open>A local variable of \<open>n\<close> bytes after a read into it: bytes not read keep what the stack held.\<close>

definition read_local :: "hush_env \<Rightarrow> reader \<Rightarrow> string \<Rightarrow> nat \<Rightarrow> buffer \<Rightarrow> buffer \<times> buffer" where
  "read_local E R name n rest =
     (let (bs, rest) = read_n R n rest in (bslice (bmem_of bs (stk_local E name)) 0 n, rest))"

definition chunks :: "nat \<Rightarrow> nat \<Rightarrow> buffer \<Rightarrow> buffer list" where
  "chunks k n bs = map (\<lambda>i. take k (drop (k * i) bs)) [0..<n]"

section \<open>The record parser\<close>

text \<open>
  The branches of the two parsers, which are textually the same up to the reader \<open>R\<close>: the rest of
  the input and the world. A count byte that is missing makes the following read fail (the
  buffer is followed by a zero byte, the stream returns \<open>EOF\<close>), so nothing happens.
\<close>

definition parse_P :: "reader \<Rightarrow> hush_params \<Rightarrow> nat \<Rightarrow> string \<Rightarrow> int \<Rightarrow> buffer \<Rightarrow> hush_world \<Rightarrow> buffer \<times> hush_world" where
  "parse_P R G sp symbol ht rest w =
     (case rest of
        [] \<Rightarrow> ([], w)
      | num # rest \<Rightarrow>
          if num \<le> 64
          then let (bs, rest) = read_n R (33 * unat num) rest in
               if length bs \<noteq> 33 * unat num then (rest, w)
               else (rest,
                     if HUSH_EXTERNAL_NOTARIES G \<noteq> 0 \<and> symbol = SMART_CHAIN_SYMBOL G
                     then hush_eventadd_pubkeys G sp symbol ht (chunks 33 (unat num) bs) w else w)
          else (rest, w))"

definition parse_NM ::
    "reader \<Rightarrow> hush_env \<Rightarrow> hush_params \<Rightarrow> nat \<Rightarrow> string \<Rightarrow> string \<Rightarrow> bool \<Rightarrow> int \<Rightarrow> buffer \<Rightarrow> hush_world \<Rightarrow> buffer \<times> hush_world" where
  "parse_NM R E G sp symbol dest isM ht rest w =
     (let (nh, rest) = read_local E R ''notarized_height'' 4 rest;
          (hash, rest) = read_local E R ''notarized_hash'' 32 rest;
          (txid, rest) = read_local E R ''notarized_desttxid'' 32 rest;
          (mom, depth, rest) =
            (if isM
             then let (m, rest) = read_local E R ''MoM'' 32 rest;
                      (d, rest) = read_local E R ''MoMdepth'' 4 rest
                  in (le_word m, rd_i32 d, rest)
             else (0, 0, rest))
      in (rest, hush_eventadd_notarized E G sp symbol ht dest (le_word hash) (le_word txid) (rd_i32 nh) mom depth w))"

definition parse_U :: "reader \<Rightarrow> hush_env \<Rightarrow> buffer \<Rightarrow> buffer" where
  "parse_U R E rest =
     (let rest = drop 2 rest;
          (mask, rest) = read_local E R ''mask'' 8 rest;
          (hash, rest) = read_local E R ''hash'' 32 rest
      in rest)"

definition parse_K ::
    "reader \<Rightarrow> hush_env \<Rightarrow> hush_params \<Rightarrow> nat \<Rightarrow> string \<Rightarrow> int \<Rightarrow> buffer \<Rightarrow> hush_world \<Rightarrow> buffer \<times> hush_world" where
  "parse_K R E G sp symbol ht rest w =
     (let (k, rest) = read_local E R ''kheight'' 4 rest
      in (rest, hush_eventadd_hushheight G sp symbol ht (rd_i32 k) 0 w))"

definition parse_T ::
    "reader \<Rightarrow> hush_env \<Rightarrow> hush_params \<Rightarrow> nat \<Rightarrow> string \<Rightarrow> int \<Rightarrow> buffer \<Rightarrow> hush_world \<Rightarrow> buffer \<times> hush_world" where
  "parse_T R E G sp symbol ht rest w =
     (let (k, rest) = read_local E R ''kheight'' 4 rest;
          (t, rest) = read_local E R ''ktimestamp'' 4 rest
      in (rest, hush_eventadd_hushheight G sp symbol ht (rd_i32 k) (le_word t) w))"

text \<open>\<open>olen\<close> has 16 bits, so the test against the 65536 bytes of \<open>opret\<close> always succeeds.\<close>

definition parse_R ::
    "reader \<Rightarrow> hush_env \<Rightarrow> hush_params \<Rightarrow> nat \<Rightarrow> string \<Rightarrow> int \<Rightarrow> buffer \<Rightarrow> hush_world \<Rightarrow> buffer \<times> hush_world" where
  "parse_R R E G sp symbol ht rest w =
     (let (txid, rest) = read_local E R ''txid'' 32 rest;
          (v, rest) = read_local E R ''v'' 2 rest;
          (ovalue, rest) = read_local E R ''ovalue'' 8 rest;
          (olen, rest) = read_local E R ''olen'' 2 rest;
          n = le_word olen :: u16;
          (opret, rest) = read_n R (unat n) rest
      in (rest, hush_eventadd_opreturn E G sp symbol ht (le_word txid) (le_word ovalue) (le_word v)
                  (bmem_of opret (stk_local E ''opret'')) n w))"

definition parse_V ::
    "reader \<Rightarrow> hush_params \<Rightarrow> nat \<Rightarrow> string \<Rightarrow> int \<Rightarrow> buffer \<Rightarrow> hush_world \<Rightarrow> buffer \<times> hush_world" where
  "parse_V R G sp symbol ht rest w =
     (case rest of
        [] \<Rightarrow> ([], w)
      | numpvals # rest \<Rightarrow>
          if unat numpvals * 4 \<le> 512
          then let (bs, rest) = read_n R (4 * unat numpvals) rest in
               if length bs = 4 * unat numpvals
               then (rest, hush_eventadd_pricefeed G sp symbol ht (map le_word (chunks 4 (unat numpvals) bs)) w)
               else (rest, w)
          else (rest, w))"

text \<open>The function code returned, or -1 at the end of the input.\<close>

definition parse_record ::
    "reader \<Rightarrow> hush_env \<Rightarrow> hush_params \<Rightarrow> nat \<Rightarrow> string \<Rightarrow> string \<Rightarrow> buffer \<Rightarrow> hush_world \<Rightarrow> int \<times> buffer \<times> hush_world" where
  "parse_record R E G sp symbol dest rest w =
     (case rest of
        [] \<Rightarrow> (-1, [], w)
      | func # rest \<Rightarrow>
          let (h, rest) = read_local E R ''ht'' 4 rest; ht = rd_i32 h in
          (uint func,
           if func = 0x50 then parse_P R G sp symbol ht rest w
           else if func = 0x4e \<or> func = 0x4d then parse_NM R E G sp symbol dest (func = 0x4d) ht rest w
           else if func = 0x55 then (parse_U R E rest, w)
           else if func = 0x4b then parse_K R E G sp symbol ht rest w
           else if func = 0x54 then parse_T R E G sp symbol ht rest w
           else if func = 0x52 then parse_R R E G sp symbol ht rest w
           else if func = 0x56 then parse_V R G sp symbol ht rest w
           else (rest, w)))"

definition hush_parsestatefile ::
    "hush_env \<Rightarrow> hush_params \<Rightarrow> nat \<Rightarrow> string \<Rightarrow> string \<Rightarrow> buffer \<Rightarrow> hush_world \<Rightarrow> int \<times> buffer \<times> hush_world" where
  "hush_parsestatefile = parse_record Fread"

definition hush_parsestatefiledata ::
    "hush_env \<Rightarrow> hush_params \<Rightarrow> nat \<Rightarrow> string \<Rightarrow> string \<Rightarrow> buffer \<Rightarrow> hush_world \<Rightarrow> int \<times> buffer \<times> hush_world" where
  "hush_parsestatefiledata = parse_record Memread"

text \<open>
  The position after a record: \<open>filedata[fpos++]\<close> advances it also when there is no byte left for a
  count (tags P and V) or for the two bytes of U.
\<close>

definition missing_bytes :: "byte \<Rightarrow> buffer \<Rightarrow> nat" where
  "missing_bytes func rest =
     (if func = 0x50 \<or> func = 0x56 then 1 - length rest else if func = 0x55 then 2 - length rest else 0)"

definition record_fpos :: "hush_env \<Rightarrow> reader \<Rightarrow> nat \<Rightarrow> buffer \<Rightarrow> buffer \<Rightarrow> nat" where
  "record_fpos E R fpos rest rest' =
     fpos + (length rest - length rest') + missing_bytes (hd rest) (snd (read_local E R ''ht'' 4 (tl rest)))"

lemma read_n_length: "length (snd (read_n R n rest)) \<le> length rest"
  by (cases R) (simp_all add: memread_def fread_def)

lemma read_local_length: "length (snd (read_local E R name n rest)) \<le> length rest"
  using read_n_length [of R n rest] by (simp add: read_local_def case_prod_unfold Let_def)

lemma parse_P_length: "length (fst (parse_P R G sp symbol ht rest w)) \<le> length rest"
  using read_n_length [of R "33 * unat (hd rest)" "tl rest"]
  by (auto simp: parse_P_def case_prod_unfold Let_def split: list.splits)

lemma parse_V_length: "length (fst (parse_V R G sp symbol ht rest w)) \<le> length rest"
  using read_n_length [of R "4 * unat (hd rest)" "tl rest"]
  by (auto simp: parse_V_def case_prod_unfold Let_def split: list.splits)

lemmas read_chain = order_trans [OF read_local_length] order_trans [OF read_n_length]

lemma parse_record_length:
  "rest \<noteq> [] \<Longrightarrow> length (fst (snd (parse_record R E G sp symbol dest rest w))) < length rest"
proof -
  assume "rest \<noteq> []"
  then obtain func r where r: "rest = func # r" by (cases rest) auto
  let ?r = "snd (read_local E R ''ht'' 4 r)"
  have "length ?r \<le> length r" by (rule read_local_length)
  have "length (fst (parse_P R G sp symbol ht ?r w)) \<le> length ?r" for ht
    by (rule parse_P_length)
  moreover have "length (fst (parse_NM R E G sp symbol dest m ht ?r w)) \<le> length ?r" for m ht
    by (auto simp: parse_NM_def case_prod_unfold Let_def intro!: read_chain)
  moreover have "length (parse_U R E ?r) \<le> length ?r"
    by (auto simp: parse_U_def case_prod_unfold Let_def intro!: read_chain)
  moreover have "length (fst (parse_K R E G sp symbol ht ?r w)) \<le> length ?r" for ht
    by (auto simp: parse_K_def case_prod_unfold Let_def intro!: read_chain)
  moreover have "length (fst (parse_T R E G sp symbol ht ?r w)) \<le> length ?r" for ht
    by (auto simp: parse_T_def case_prod_unfold Let_def intro!: read_chain)
  moreover have "length (fst (parse_R R E G sp symbol ht ?r w)) \<le> length ?r" for ht
    by (auto simp: parse_R_def case_prod_unfold Let_def intro!: read_chain)
  moreover have "length (fst (parse_V R G sp symbol ht ?r w)) \<le> length ?r" for ht
    by (rule parse_V_length)
  ultimately have "length (fst (snd (parse_record R E G sp symbol dest rest w))) \<le> length ?r"
    by (simp add: r parse_record_def case_prod_unfold Let_def)
  then show ?thesis using \<open>length ?r \<le> length r\<close> r by simp
qed

text \<open>
  The loop over the records of a file, until the parser returns -1: the end position and tag of
  each record and the world.
\<close>

function parse_loop ::
    "reader \<Rightarrow> hush_env \<Rightarrow> hush_params \<Rightarrow> nat \<Rightarrow> string \<Rightarrow> string \<Rightarrow> nat \<Rightarrow> buffer \<Rightarrow> hush_world
      \<Rightarrow> (nat \<times> byte) list \<times> hush_world" where
  "parse_loop R E G sp symbol dest fpos rest w =
     (case parse_record R E G sp symbol dest rest w of (func, rest', w') \<Rightarrow>
        if func \<ge> 0
        then let fpos' = record_fpos E R fpos rest rest';
                 (recs, w'') = parse_loop R E G sp symbol dest fpos' rest' w'
             in ((fpos', word_of_int func) # recs, w'')
        else ([], w'))"
  by pat_completeness auto
termination
proof (relation "measure (\<lambda>(R, E, G, sp, symbol, dest, fpos, rest, w). length rest)", goal_cases)
  case (2 R E G sp symbol dest fpos rest w func rw rest' w' fpos')
  then have r: "parse_record R E G sp symbol dest rest w = (func, rest', w')" and "0 \<le> func" by simp_all
  then have "rest \<noteq> []" by (auto simp: parse_record_def)
  then show ?case using parse_record_length [of rest R E G sp symbol dest w] r by simp
qed simp

declare parse_loop.simps [simp del]

text \<open>
  The fast start-up path reads the whole file and writes a fresh index, which it then only
  checks; an empty file is an error (-1).
\<close>

definition hush_faststateinit ::
    "hush_env \<Rightarrow> hush_params \<Rightarrow> nat \<Rightarrow> buffer \<Rightarrow> string \<Rightarrow> string \<Rightarrow> hush_world \<Rightarrow> int \<times> hush_world" where
  "hush_faststateinit E G sp file symbol dest w =
     (if file = [] then (-1, w)
      else let (recs, w) = parse_loop Memread E G sp symbol dest 0 file w
           in (1, w\<lparr>hushstate_ind := ind_words (ind_build recs ind_start)\<rparr>))"

section \<open>Writing\<close>

text \<open>
  The arguments of \<open>hush_stateupdate\<close>. A null pointer is \<open>None\<close>; the counts of keys and prices are
  the lengths of the lists, which are at most 255.
\<close>

record su_args =
  su_height :: int
  su_notarypubs :: "pubkey33 list option"
  su_notaryid :: byte
  su_txhash :: uint256
  su_voutmask :: u64
  su_numvouts :: byte
  su_pvals :: "u32 list option"
  su_HUSHheight :: int
  su_HUSHtimestamp :: u32
  su_opretvalue :: u64
  su_opretbuf :: "bmem option"
  su_opretlen :: u16
  su_vout :: u16

definition su_none :: "int \<Rightarrow> su_args" where
  "su_none height =
     \<lparr>su_height = height, su_notarypubs = None, su_notaryid = 0, su_txhash = 0, su_voutmask = 0, su_numvouts = 0,
      su_pvals = None, su_HUSHheight = 0, su_HUSHtimestamp = 0, su_opretvalue = 0, su_opretbuf = None,
      su_opretlen = 0, su_vout = 0\<rparr>"

text \<open>
  The part of \<open>hush_stateupdate\<close> after the file has been opened: the bytes appended and the world.
\<close>

definition stateupdate_write ::
    "hush_env \<Rightarrow> hush_params \<Rightarrow> su_args \<Rightarrow> hush_world \<Rightarrow> buffer \<times> hush_world" where
  "stateupdate_write E G a w =
     (let sp = hush_stateptr G; symbol = chain_symbol G; dest = chain_dest G; height = su_height a;
          pubs = (case su_notarypubs a of Some p \<Rightarrow> p | None \<Rightarrow> []);
          pvals = (case su_pvals a of Some p \<Rightarrow> p | None \<Rightarrow> [])
      in
      if height \<le> 0 then ([], w)
      else if su_HUSHheight a \<noteq> 0
      then ((if su_HUSHtimestamp a \<noteq> 0
             then 0x54 # le_i32 height @ le_i32 (su_HUSHheight a) @ le_bytes 4 (su_HUSHtimestamp a)
             else 0x4b # le_i32 height @ le_i32 (su_HUSHheight a)),
            hush_eventadd_hushheight G sp symbol height (su_HUSHheight a) (su_HUSHtimestamp a) w)
      else if su_opretbuf a \<noteq> None \<and> su_opretlen a > 0
      then let buf = the (su_opretbuf a); olen = su_opretlen a in
           (0x52 # le_i32 height @ le_bytes 32 (su_txhash a) @ le_bytes 2 (su_vout a) @ le_bytes 8 (su_opretvalue a) @
              le_bytes 2 olen @ bslice buf 0 (unat olen),
            hush_eventadd_opreturn E G sp symbol height (su_txhash a) (su_opretvalue a) (su_vout a) buf olen w)
      else if pubs \<noteq> []
      then (0x50 # le_i32 height @ word_of_nat (length pubs) # concat pubs,
            hush_eventadd_pubkeys G sp symbol height pubs w)
      else if su_voutmask a \<noteq> 0 \<and> su_numvouts a > 0
      then (0x55 # le_i32 height @ su_numvouts a # su_notaryid a # le_bytes 8 (su_voutmask a) @ le_bytes 32 (su_txhash a),
            w)
      else if pvals \<noteq> []
      then if 32 \<le> length pvals \<and> (\<forall>p \<in> set (take 32 pvals). p \<noteq> 0)
           then (0x56 # le_i32 height @ word_of_nat (length pvals) # concat (map (le_bytes 4) pvals),
                 hush_eventadd_pricefeed G sp symbol height pvals w)
           else ([], w)
      else let st = st_get w sp; withM = (MoMdepth st \<noteq> 0 \<and> MoM st \<noteq> 0) in
           ((if withM then 0x4d else 0x4e) # le_i32 height @ le_i32 (NOTARIZED_HEIGHT st) @
              le_bytes 32 (NOTARIZED_HASH st) @ le_bytes 32 (NOTARIZED_DESTTXID st) @
              (if withM then le_bytes 32 (MoM st) @ le_i32 (MoMdepth st) else []),
            hush_eventadd_notarized E G sp symbol height dest (NOTARIZED_HASH st) (NOTARIZED_DESTTXID st)
              (NOTARIZED_HEIGHT st) (MoM st) (MoMdepth st) w))"

text \<open>The part before it: the first call opens the state file and replays it, or creates it.\<close>

definition stateupdate_open :: "hush_env \<Rightarrow> hush_params \<Rightarrow> hush_world \<Rightarrow> hush_world" where
  "stateupdate_open E G w =
     (let sp = hush_stateptr G; symbol = chain_symbol G; dest = chain_dest G in
      if state_fp w then w
      else case hushstate_file w of
          None \<Rightarrow> w\<lparr>hushstate_file := Some [], state_fp := True\<rparr>
        | Some file \<Rightarrow>
            let (retval, w) = hush_faststateinit E G sp file symbol dest w;
                w = (if retval > 0 then w else snd (parse_loop Fread E G sp symbol dest 0 file w))
            in w\<lparr>state_fp := True\<rparr>)"

definition hush_stateupdate :: "hush_env \<Rightarrow> hush_params \<Rightarrow> su_args \<Rightarrow> hush_world \<Rightarrow> hush_world" where
  "hush_stateupdate E G a w =
     (let w = stateupdate_open E G w; (bs, w) = stateupdate_write E G a w
      in w\<lparr>hushstate_file := map_option (\<lambda>f. f @ bs) (hushstate_file w)\<rparr>)"

definition hush_currentheight_set :: "hush_params \<Rightarrow> int \<Rightarrow> hush_world \<Rightarrow> hush_world" where
  "hush_currentheight_set G height w = st_upd (hush_stateptr G) (\<lambda>st. st\<lparr>CURRENT_HEIGHT := height\<rparr>) w"

definition hush_currentheight :: "hush_params \<Rightarrow> int \<Rightarrow> hush_world \<Rightarrow> int" where
  "hush_currentheight G nspv_height w =
     (if HUSH_NSPV G > 0 then nspv_height else CURRENT_HEIGHT (st_get w (hush_stateptr G)))"

section \<open>The file as a sequence of records\<close>

datatype state_record =
    Rec_P int "pubkey33 list"
  | Rec_N int int uint256 uint256
  | Rec_M int int uint256 uint256 uint256 int
  | Rec_U int byte byte u64 uint256
  | Rec_K int int
  | Rec_T int int u32
  | Rec_R int uint256 u16 u64 buffer
  | Rec_V int "u32 list"

fun rec_tag :: "state_record \<Rightarrow> byte" where
  "rec_tag (Rec_P _ _) = 0x50"
| "rec_tag (Rec_N _ _ _ _) = 0x4e"
| "rec_tag (Rec_M _ _ _ _ _ _) = 0x4d"
| "rec_tag (Rec_U _ _ _ _ _) = 0x55"
| "rec_tag (Rec_K _ _) = 0x4b"
| "rec_tag (Rec_T _ _ _) = 0x54"
| "rec_tag (Rec_R _ _ _ _ _) = 0x52"
| "rec_tag (Rec_V _ _) = 0x56"

fun rec_body :: "state_record \<Rightarrow> buffer" where
  "rec_body (Rec_P h ks) = le_i32 h @ word_of_nat (length ks) # concat ks"
| "rec_body (Rec_N h nh hash txid) = le_i32 h @ le_i32 nh @ le_bytes 32 hash @ le_bytes 32 txid"
| "rec_body (Rec_M h nh hash txid mom depth) =
     le_i32 h @ le_i32 nh @ le_bytes 32 hash @ le_bytes 32 txid @ le_bytes 32 mom @ le_i32 depth"
| "rec_body (Rec_U h n nid vm hash) = le_i32 h @ n # nid # le_bytes 8 vm @ le_bytes 32 hash"
| "rec_body (Rec_K h k) = le_i32 h @ le_i32 k"
| "rec_body (Rec_T h k t) = le_i32 h @ le_i32 k @ le_bytes 4 t"
| "rec_body (Rec_R h txid v val pay) =
     le_i32 h @ le_bytes 32 txid @ le_bytes 2 v @ le_bytes 8 val @ le_bytes 2 (word_of_nat (length pay) :: u16) @ pay"
| "rec_body (Rec_V h ps) = le_i32 h @ word_of_nat (length ps) # concat (map (le_bytes 4) ps)"

definition rec_bytes :: "state_record \<Rightarrow> buffer" where
  "rec_bytes r = rec_tag r # rec_body r"

fun rec_ok :: "state_record \<Rightarrow> bool" where
  "rec_ok (Rec_P h ks) = (is_i32 h \<and> length ks \<le> 64 \<and> list_all (\<lambda>k. length k = 33) ks)"
| "rec_ok (Rec_N h nh hash txid) = (is_i32 h \<and> is_i32 nh)"
| "rec_ok (Rec_M h nh hash txid mom depth) = (is_i32 h \<and> is_i32 nh \<and> is_i32 depth)"
| "rec_ok (Rec_U h n nid vm hash) = is_i32 h"
| "rec_ok (Rec_K h k) = (is_i32 h \<and> is_i32 k)"
| "rec_ok (Rec_T h k t) = (is_i32 h \<and> is_i32 k)"
| "rec_ok (Rec_R h txid v val pay) = (is_i32 h \<and> length pay < 65536)"
| "rec_ok (Rec_V h ps) = (is_i32 h \<and> length ps \<le> 128)"

text \<open>What reading a record back does to the world.\<close>

fun rec_apply :: "hush_env \<Rightarrow> hush_params \<Rightarrow> nat \<Rightarrow> string \<Rightarrow> string \<Rightarrow> state_record \<Rightarrow> hush_world \<Rightarrow> hush_world" where
  "rec_apply E G sp symbol dest (Rec_P h ks) w =
     (if HUSH_EXTERNAL_NOTARIES G \<noteq> 0 \<and> symbol = SMART_CHAIN_SYMBOL G
      then hush_eventadd_pubkeys G sp symbol h ks w else w)"
| "rec_apply E G sp symbol dest (Rec_N h nh hash txid) w =
     hush_eventadd_notarized E G sp symbol h dest hash txid nh 0 0 w"
| "rec_apply E G sp symbol dest (Rec_M h nh hash txid mom depth) w =
     hush_eventadd_notarized E G sp symbol h dest hash txid nh mom depth w"
| "rec_apply E G sp symbol dest (Rec_U h n nid vm hash) w = w"
| "rec_apply E G sp symbol dest (Rec_K h k) w = hush_eventadd_hushheight G sp symbol h k 0 w"
| "rec_apply E G sp symbol dest (Rec_T h k t) w = hush_eventadd_hushheight G sp symbol h k t w"
| "rec_apply E G sp symbol dest (Rec_R h txid v val pay) w =
     hush_eventadd_opreturn E G sp symbol h txid val v (bmem_of pay (stk_local E ''opret'')) (word_of_nat (length pay)) w"
| "rec_apply E G sp symbol dest (Rec_V h ps) w = hush_eventadd_pricefeed G sp symbol h ps w"

lemma read_n_append [simp]: "length xs = n \<Longrightarrow> read_n R n (xs @ r) = (xs, r)"
  by (cases R) (auto simp: memread_def fread_def)

lemma read_n_zero [simp]: "read_n R 0 r = ([], r)"
  by (cases R) (auto simp: memread_def fread_def)

lemma bslice_self [simp]: "bslice (bmem_of xs junk) 0 (length xs) = xs"
  by (subst bslice_bmem_of) simp_all

lemma read_local_append [simp]: "length xs = n \<Longrightarrow> read_local E R name n (xs @ r) = (xs, r)"
  by (auto simp: read_local_def)

lemma le_word_le_bytes_8 [simp]: "le_word (le_bytes 8 x) = (x :: u64)"
  by (simp add: le_word_le_bytes_full)

lemma le_word_le_bytes_32 [simp]: "le_word (le_bytes 32 x) = (x :: uint256)"
  by (simp add: le_word_le_bytes_full)

lemma length_concat_const: "list_all (\<lambda>k. length k = n) ks \<Longrightarrow> length (concat ks) = n * length ks"
  by (induction ks) auto

lemma chunks_concat: "list_all (\<lambda>k. length k = n) ks \<Longrightarrow> chunks n (length ks) (concat ks) = ks"
proof (rule nth_equalityI)
  assume all: "list_all (\<lambda>k. length k = n) ks"
  show "length (chunks n (length ks) (concat ks)) = length ks" by (simp add: chunks_def)
  fix i
  assume "i < length (chunks n (length ks) (concat ks))"
  then have i: "i < length ks" by (simp add: chunks_def)
  have "take n (drop (n * i) (concat ks)) = ks ! i" using all i
  proof (induction ks arbitrary: i)
    case (Cons k ks)
    then show ?case by (cases i) auto
  qed simp
  then show "chunks n (length ks) (concat ks) ! i = ks ! i" using i by (simp add: chunks_def)
qed

lemma unat_length8: "n \<le> 255 \<Longrightarrow> unat (word_of_nat n :: byte) = n"
  by (simp add: unat_of_nat take_bit_nat_eq_self)

lemma unat_length16: "n < 65536 \<Longrightarrow> unat (word_of_nat n :: u16) = n"
  by (simp add: unat_of_nat take_bit_nat_eq_self)

lemma le_word_map_le_bytes: "map (le_word \<circ> le_bytes 4) ps = (ps :: u32 list)"
  by (simp add: comp_def)

text \<open>The parser inverts the writer, whichever way it reads.\<close>

lemma parse_record_bytes:
  assumes "rec_ok r"
  shows "parse_record R E G sp symbol dest (rec_bytes r @ rest) w =
     (uint (rec_tag r), rest, rec_apply E G sp symbol dest r w)"
proof (cases r)
  case (Rec_P h ks)
  then have ks: "list_all (\<lambda>k. length k = 33) ks" and n: "length ks \<le> 64" and h: "is_i32 h"
    using assms by auto
  have u: "unat (word_of_nat (length ks) :: byte) = length ks" using n by (simp add: unat_length8)
  then have "(word_of_nat (length ks) :: byte) \<le> 64" using n by (simp add: word_le_nat_alt)
  then show ?thesis using h u length_concat_const [OF ks] chunks_concat [OF ks] Rec_P
    by (simp add: rec_bytes_def parse_record_def parse_P_def)
next
  case (Rec_V h ps)
  let ?bs = "map (le_bytes 4) ps"
  have all: "list_all (\<lambda>k. length k = 4) ?bs" by (simp add: list_all_iff)
  have n: "length ps \<le> 128" and h: "is_i32 h" using assms Rec_V by auto
  have u: "unat (word_of_nat (length ps) :: byte) = length ps" using n by (simp add: unat_length8)
  then show ?thesis using h n length_concat_const [OF all] chunks_concat [OF all] Rec_V
    by (simp add: rec_bytes_def parse_record_def parse_V_def comp_def)
next
  case (Rec_R h txid v val pay)
  then have "unat (word_of_nat (length pay) :: u16) = length pay" and "is_i32 h"
    using assms by (auto simp: unat_length16)
  then show ?thesis using Rec_R by (simp add: rec_bytes_def parse_record_def parse_R_def)
qed (use assms in \<open>simp_all add: rec_bytes_def parse_record_def parse_NM_def parse_U_def parse_K_def parse_T_def\<close>)

end
