(* ===== verification/Hush_Replay.thy ===== *)
theory Hush_Replay
  imports Hush_State
begin

text \<open>
  The state file as a log: the loops over a file written record by record, the index of such a
  file, and recovery. What a running node does to its logged state is a sequence of four kinds of
  steps (\<open>live_op\<close>); after such a sequence, a restart that replays the file reaches the same world.
\<close>

section \<open>Reading a whole file\<close>

fun rec_ends :: "nat \<Rightarrow> state_record list \<Rightarrow> (nat \<times> byte) list" where
  "rec_ends pos [] = []"
| "rec_ends pos (r # rs) = (pos + length (rec_bytes r), rec_tag r) # rec_ends (pos + length (rec_bytes r)) rs"

definition state_file :: "state_record list \<Rightarrow> buffer" where
  "state_file rs = concat (map rec_bytes rs)"

lemma state_file_simps [simp]:
  "state_file [] = []" "state_file (r # rs) = rec_bytes r @ state_file rs"
  "state_file (rs @ rs') = state_file rs @ state_file rs'"
  by (simp_all add: state_file_def)

lemma record_fpos_bytes:
  assumes "rec_ok r"
  shows "record_fpos E R pos (rec_bytes r @ rest) rest = pos + length (rec_bytes r)"
  by (cases r) (simp_all add: record_fpos_def rec_bytes_def missing_bytes_def)

lemma parse_loop_file:
  assumes "list_all rec_ok rs"
  shows "parse_loop R E G sp symbol dest pos (state_file rs) w =
     (rec_ends pos rs, fold (rec_apply E G sp symbol dest) rs w)"
  using assms
proof (induction rs arbitrary: pos w)
  case Nil
  then show ?case by (simp add: parse_loop.simps parse_record_def)
next
  case (Cons r rs)
  then show ?case
    by (subst parse_loop.simps) (simp add: parse_record_bytes record_fpos_bytes Let_def)
qed

lemma rec_bytes_length:
  assumes "rec_ok r"
  shows "5 \<le> length (rec_bytes r) \<and> length (rec_bytes r) \<le> 65584"
proof (cases r)
  case (Rec_P h ks)
  then show ?thesis using assms length_concat_const [of 33 ks] by (simp add: rec_bytes_def)
next
  case (Rec_V h ps)
  then show ?thesis using assms length_concat_const [of 4 "map (le_bytes 4) ps"]
    by (simp add: rec_bytes_def list_all_iff)
qed (use assms in \<open>simp_all add: rec_bytes_def\<close>)

lemma records_at_file:
  assumes "list_all rec_ok rs" and "length pre + length (state_file rs) < 2 ^ 32"
  shows "records_at (pre @ state_file rs) (length pre) (rec_ends (length pre) rs)"
  using assms
proof (induction rs arbitrary: pre)
  case (Cons r rs)
  have "records_at ((pre @ rec_bytes r) @ state_file rs) (length (pre @ rec_bytes r))
      (rec_ends (length (pre @ rec_bytes r)) rs)"
    using Cons.prems by (intro Cons.IH) auto
  moreover have "5 \<le> length (rec_bytes r) \<and> length (rec_bytes r) \<le> 65584"
    using Cons.prems by (intro rec_bytes_length) simp
  moreover have "(pre @ rec_bytes r @ state_file rs) ! length pre = rec_tag r"
    by (simp add: rec_bytes_def)
  ultimately show ?case using Cons.prems by auto
qed simp

lemma rec_ends_last: "last (pos # map fst (rec_ends pos rs)) = pos + length (state_file rs)"
  by (induction rs arbitrary: pos) (auto simp: add.assoc)

section \<open>Steps of a running node\<close>

text \<open>
  \<open>Op_update\<close> is a call of \<open>hush_stateupdate\<close> as it is; \<open>Op_notarize\<close> the acceptance of a notarisation in
  \<open>hush_voutupdate\<close>, which stores it before the call; \<open>Op_rewind\<close> the reorganisation in
  \<open>hush_connectblock\<close>, which rewinds before the call. \<open>Op_height\<close> is a call of \<open>hush_notarized_height\<close>.
\<close>

datatype live_op =
    Op_update su_args
  | Op_notarize int int uint256 uint256 "(uint256 \<times> int) option"
  | Op_rewind int u32
  | Op_height chain_view

definition set_notarized ::
    "int \<Rightarrow> uint256 \<Rightarrow> uint256 \<Rightarrow> (uint256 \<times> int) option \<Rightarrow> hush_state \<Rightarrow> hush_state" where
  "set_notarized nh hash txid m st =
     (let st = st\<lparr>NOTARIZED_HEIGHT := nh, NOTARIZED_HASH := hash, NOTARIZED_DESTTXID := txid\<rparr>
      in case m of None \<Rightarrow> st | Some (mom, depth) \<Rightarrow> st\<lparr>MoM := mom, MoMdepth := depth\<rparr>)"

fun live_exec :: "hush_env \<Rightarrow> hush_params \<Rightarrow> live_op \<Rightarrow> hush_world \<Rightarrow> hush_world" where
  "live_exec E G (Op_update a) w = hush_stateupdate E G a w"
| "live_exec E G (Op_notarize h nh hash txid m) w =
     hush_stateupdate E G (su_none h) (st_upd (hush_stateptr G) (set_notarized nh hash txid m) w)"
| "live_exec E G (Op_rewind h t) w =
     hush_stateupdate E G ((su_none h)\<lparr>su_HUSHheight := - h, su_HUSHtimestamp := t\<rparr>)
       (hush_event_rewind G (hush_stateptr G) h w)"
| "live_exec E G (Op_height ch) w = snd (hush_notarized_height G ch w)"

text \<open>
  The steps that are recovered. The callers guarantee 32-bit heights, at most 64 keys of 33 bytes and 128 prices, and that a notarised block is below
  the notarising one. Three kinds of steps are excluded because a restart does not reproduce them: the ratification of a notary set where \<open>HUSH_EXTERNAL_NOTARIES\<close> is zero (the replay
  skips it; the daemon never sets that variable, so this is every ratification), a key-value transfer whose text runs past the end of its payload (\<open>transfer_inside\<close>; it reads memory), and a
  query of the notarised height that does not find the notarised block (it forgets the notarisation in memory only). A notarisation must have a MoM exactly when it has a depth,
  since the file keeps the MoM only with both.
\<close>

definition su_ok :: "hush_params \<Rightarrow> su_args \<Rightarrow> bool" where
  "su_ok G a \<longleftrightarrow>
     is_i32 (su_height a) \<and> is_i32 (su_HUSHheight a) \<and>
     (case su_notarypubs a of None \<Rightarrow> True
      | Some ks \<Rightarrow> length ks \<le> 64 \<and> list_all (\<lambda>k. length k = 33) ks \<and> HUSH_EXTERNAL_NOTARIES G \<noteq> 0) \<and>
     (case su_pvals a of None \<Rightarrow> True | Some ps \<Rightarrow> length ps \<le> 128) \<and>
     (case su_opretbuf a of None \<Rightarrow> True | Some buf \<Rightarrow> transfer_inside buf (unat (su_opretlen a)))"

fun live_ok :: "hush_params \<Rightarrow> live_op \<Rightarrow> bool" where
  "live_ok G (Op_update a) = su_ok G a"
| "live_ok G (Op_notarize h nh hash txid m) =
     (0 < h \<and> is_i32 h \<and> is_i32 nh \<and> nh < h \<and>
      (case m of None \<Rightarrow> True | Some (mom, depth) \<Rightarrow> is_i32 depth \<and> (mom = 0 \<longleftrightarrow> depth = 0)))"
| "live_ok G (Op_rewind h t) = (0 < h \<and> is_i32 h)"
| "live_ok G (Op_height ch) = True"

fun live_run_ok :: "hush_env \<Rightarrow> hush_params \<Rightarrow> live_op list \<Rightarrow> hush_world \<Rightarrow> bool" where
  "live_run_ok E G [] w = True"
| "live_run_ok E G (op # ops) w =
     (live_ok G op \<and> (case op of Op_height ch \<Rightarrow> \<not> orphaned G ch w | _ \<Rightarrow> True) \<and> live_run_ok E G ops (live_exec E G op w))"

text \<open>A chain of its own name that is not a currency, on a node that is not a notary.\<close>

definition plain_chain :: "hush_params \<Rightarrow> bool" where
  "plain_chain G \<longleftrightarrow> SMART_CHAIN_SYMBOL G \<noteq> [] \<and> hush_baseid (SMART_CHAIN_SYMBOL G) < 0 \<and> IS_HUSH_NOTARY G = 0"

text \<open>The two processes may differ in the contents of their stacks, except in the six bytes of an
  OP_RETURN event that are never written.\<close>

definition env_agree :: "hush_env \<Rightarrow> hush_env \<Rightarrow> bool" where
  "env_agree E E' \<longleftrightarrow>
     env_curve25519 E = env_curve25519 E' \<and>
     bslice (stk_local E ''O'') 42 6 = bslice (stk_local E' ''O'') 42 6"

section \<open>Records and their effects\<close>

text \<open>Effects do not depend on the files.\<close>

definition set_files :: "buffer option \<Rightarrow> u32 list \<Rightarrow> bool \<Rightarrow> hush_world \<Rightarrow> hush_world" where
  "set_files f i b w = w\<lparr>hushstate_file := f, hushstate_ind := i, state_fp := b\<rparr>"

named_theorems files_simps

lemma set_files_st_upd [files_simps]: "st_upd sp f (set_files a b c w) = set_files a b c (st_upd sp f w)"
  by (simp add: st_upd_def set_files_def)

lemma set_files_eventadd [files_simps]:
  "hush_eventadd G sp h s ty d (set_files a b c w) = set_files a b c (hush_eventadd G sp h s ty d w)"
  by (simp add: hush_eventadd_def Let_def st_upd_def set_files_def)

lemma set_files_fields [files_simps]:
  "HUSH_KV (set_files a b c w) = HUSH_KV w"
  "(set_files a b c w)\<lparr>HUSH_KV := kv\<rparr> = set_files a b c (w\<lparr>HUSH_KV := kv\<rparr>)"
  "(set_files a b c w)\<lparr>faulted := x\<rparr> = set_files a b c (w\<lparr>faulted := x\<rparr>)"
  by (simp_all add: set_files_def)

lemma set_files_kvupdate [files_simps]:
  "hush_kvupdate curve G m n v (set_files a b c w) = set_files a b c (hush_kvupdate curve G m n v w)"
  by (simp only: hush_kvupdate_def Let_def files_simps if_distrib [of "set_files a b c"]
      option.case_distrib [of "set_files a b c"] prod.case_distrib [of "set_files a b c"])

lemma set_files_notarysinit [files_simps]:
  "hush_notarysinit h ks (set_files a b c w) = set_files a b c (hush_notarysinit h ks w)"
  by (simp add: hush_notarysinit_def Let_def set_files_def)

lemma set_files_rewind [files_simps]:
  "hush_event_rewind G sp h (set_files a b c w) = set_files a b c (hush_event_rewind G sp h w)"
  by (simp add: hush_event_rewind_def Let_def st_upd_def set_files_def)

lemma set_files_opreturn:
  "plain_chain G \<Longrightarrow> hush_eventadd_opreturn E G sp s h t v vo m n (set_files a b c w) =
     set_files a b c (hush_eventadd_opreturn E G sp s h t v vo m n w)"
  by (simp add: hush_eventadd_opreturn_def hush_opreturn_def plain_chain_def Let_def files_simps)

lemma set_files_pubkeys [files_simps]:
  "hush_eventadd_pubkeys G sp s h ks (set_files a b c w) = set_files a b c (hush_eventadd_pubkeys G sp s h ks w)"
  by (simp add: hush_eventadd_pubkeys_def Let_def files_simps)

lemma rec_apply_files:
  "plain_chain G \<Longrightarrow> rec_apply E G sp s d r (set_files a b c w) = set_files a b c (rec_apply E G sp s d r w)"
  by (cases r) (simp_all add: hush_eventadd_notarized_def hush_eventadd_hushheight_def
      hush_eventadd_pricefeed_def Let_def files_simps set_files_opreturn)

text \<open>Stack contents do not matter.\<close>

lemma opreturn_agree:
  assumes "plain_chain G" and "env_agree E E'" and "0 < n" and "\<And>i. i < unat n \<Longrightarrow> m i = m' i"
    and "transfer_inside m (unat n)"
  shows "hush_eventadd_opreturn E G sp s h t v vo m n w = hush_eventadd_opreturn E' G sp s h t v vo m' n w"
proof -
  have n: "0 < unat n" using assms(3) by (simp add: unat_gt_0)
  then have tag: "m' 0 = m 0" using assms(4) [of 0] by simp
  have hdr: "opreturn_header E t v vo = opreturn_header E' t v vo"
    using assms(2) by (simp add: opreturn_header_def env_agree_def)
  have pay: "bslice m 0 (unat n) = bslice m' 0 (unat n)" using assms(4) by (intro bslice_cong) simp
  have "hush_kvupdate c G m (int (unat n)) v w' = hush_kvupdate c G m' (int (unat n)) v w'" if "m 0 = 0x4b" for c w'
    using assms(4,5) that by (rule hush_kvupdate_local)
  then have "hush_opreturn E G h v m (int (unat n)) t vo s w' = hush_opreturn E' G h v m' (int (unat n)) t vo s w'" for w'
    using assms(1,2) by (auto simp: hush_opreturn_def plain_chain_def env_agree_def Let_def tag)
  then show ?thesis by (simp add: hush_eventadd_opreturn_def hdr pay)
qed

fun rec_local :: "state_record \<Rightarrow> bool" where
  "rec_local (Rec_R h txid v val pay) = (pay \<noteq> [] \<and> transfer_inside (bmem_of pay (\<lambda>_. 0)) (length pay))"
| "rec_local _ = True"

lemma rec_apply_agree:
  assumes "plain_chain G" and "env_agree E E'" and "rec_ok r" and "rec_local r"
  shows "rec_apply E G sp s d r w = rec_apply E' G sp s d r w"
proof (cases r)
  case (Rec_R h txid v val pay)
  have n: "unat (word_of_nat (length pay) :: u16) = length pay" using assms(3) Rec_R by (simp add: unat_length16)
  moreover have "0 < length pay" using assms(4) Rec_R by simp
  ultimately have "0 < (word_of_nat (length pay) :: u16)" by (metis unat_gt_0 word_neq_0_conv)
  moreover have "transfer_inside (bmem_of pay (stk_local E ''opret'')) (length pay)"
    using \<open>0 < length pay\<close> assms(4) Rec_R by (auto intro: transfer_inside_cong [of _ "bmem_of pay (\<lambda>_. 0)"])
  ultimately show ?thesis unfolding Rec_R rec_apply.simps
    using assms(1,2) n by (intro opreturn_agree) auto
qed (use assms in \<open>simp_all add: hush_eventadd_notarized_def plain_chain_def\<close>)

section \<open>The logged part of the state\<close>

definition mom_of :: "hush_params \<Rightarrow> hush_world \<Rightarrow> int \<times> uint256 \<times> int" where
  "mom_of G w = (let st = st_get w (hush_stateptr G) in (NOTARIZED_HEIGHT st, MoM st, MoMdepth st))"

definition log_inv :: "hush_params \<Rightarrow> hush_world \<Rightarrow> bool" where
  "log_inv G w \<longleftrightarrow> states_ok w \<and>
     (case mom_of G w of (nh, mom, depth) \<Rightarrow> is_i32 nh \<and> is_i32 depth \<and> (mom = 0 \<longleftrightarrow> depth = 0))"

text \<open>An operation that leaves the notarisation fields alone.\<close>

definition keeps_mom :: "hush_params \<Rightarrow> (hush_world \<Rightarrow> hush_world) \<Rightarrow> bool" where
  "keeps_mom G f \<longleftrightarrow> (\<forall>w. states_ok w \<longrightarrow> states_ok (f w) \<and> mom_of G (f w) = mom_of G w)"

lemma keeps_mom_comp: "keeps_mom G f \<Longrightarrow> keeps_mom G g \<Longrightarrow> keeps_mom G (\<lambda>w. g (f w))"
  by (simp add: keeps_mom_def)

lemma keeps_mom_st_upd:
  "(\<And>st. NOTARIZED_HEIGHT (f st) = NOTARIZED_HEIGHT st \<and> MoM (f st) = MoM st \<and> MoMdepth (f st) = MoMdepth st) \<Longrightarrow>
     keeps_mom G (st_upd (hush_stateptr G) f)"
  by (simp add: keeps_mom_def mom_of_def Let_def)

lemma st_get_faulted [simp]: "st_get (w\<lparr>faulted := x\<rparr>) sp = st_get w sp" "states_ok (w\<lparr>faulted := x\<rparr>) = states_ok w"
  by (simp_all add: st_get_def states_ok_def)

lemma keeps_mom_eventadd: "keeps_mom G (hush_eventadd G (hush_stateptr G) h s ty d)"
  by (auto simp: keeps_mom_def hush_eventadd_def mom_of_def Let_def)

lemma keeps_mom_states: "(\<And>w. HUSH_STATES (f w) = HUSH_STATES w) \<Longrightarrow> keeps_mom G f"
  by (simp add: keeps_mom_def mom_of_def st_get_def states_ok_def)

lemma keeps_mom_rewind: "keeps_mom G (hush_event_rewind G (hush_stateptr G) h)"
proof -
  have "NOTARIZED_HEIGHT (rewind_state h st) = NOTARIZED_HEIGHT st \<and> MoM (rewind_state h st) = MoM st \<and>
      MoMdepth (rewind_state h st) = MoMdepth st" for st
    by (simp add: rewind_state_def Let_def case_prod_unfold)
  then have "keeps_mom G (st_upd (hush_stateptr G) (rewind_state h))" by (rule keeps_mom_st_upd)
  moreover have "keeps_mom G (\<lambda>w. if SMART_CHAIN_SYMBOL G = [] \<and> h \<le> HUSH_LASTMINED w \<and> prevHUSH_LASTMINED w \<noteq> 0
      then w\<lparr>HUSH_LASTMINED := prevHUSH_LASTMINED w, prevHUSH_LASTMINED := 0\<rparr> else w)"
    by (rule keeps_mom_states) simp
  ultimately show ?thesis unfolding hush_event_rewind_def Let_def by (rule keeps_mom_comp [rotated])
qed

lemma keeps_mom_opreturn:
  assumes "plain_chain G"
  shows "keeps_mom G (hush_eventadd_opreturn E G (hush_stateptr G) s h t v vo m n)"
proof -
  have "keeps_mom G (\<lambda>w. snd (hush_opreturn E G h v m (int (unat n)) t vo s w))"
    using assms by (intro keeps_mom_states) (simp add: hush_opreturn_def plain_chain_def Let_def kvupdate_states)
  with keeps_mom_eventadd show ?thesis
    using assms unfolding hush_eventadd_opreturn_def plain_chain_def Let_def by (simp add: keeps_mom_def)
qed

lemma keeps_mom_pubkeys: "keeps_mom G (hush_eventadd_pubkeys G (hush_stateptr G) s h ks)"
proof -
  have "keeps_mom G (\<lambda>w. if 64 < length ks then w\<lparr>faulted := True\<rparr> else w)"
    by (rule keeps_mom_states) simp
  moreover have "keeps_mom G (hush_notarysinit h ks)"
    by (rule keeps_mom_states) (simp add: hush_notarysinit_def Let_def)
  ultimately show ?thesis
    unfolding hush_eventadd_pubkeys_def Let_def by (rule keeps_mom_comp [OF keeps_mom_comp [OF _ keeps_mom_eventadd]])
qed

lemma keeps_mom_hushheight: "keeps_mom G (hush_eventadd_hushheight G (hush_stateptr G) s h k t)"
proof -
  have "keeps_mom G (st_upd (hush_stateptr G) (hush_sethushheight k t))"
    by (rule keeps_mom_st_upd) (simp add: hush_sethushheight_def Let_def)
  note set = keeps_mom_comp [OF keeps_mom_eventadd this]
  note rew = keeps_mom_comp [OF keeps_mom_eventadd keeps_mom_rewind]
  show ?thesis using set rew by (cases "0 < k") (auto simp: keeps_mom_def hush_eventadd_hushheight_def)
qed

lemma keeps_mom_pricefeed: "keeps_mom G (hush_eventadd_pricefeed G (hush_stateptr G) s h ps)"
  using keeps_mom_eventadd [of G] by (simp add: hush_eventadd_pricefeed_def keeps_mom_def)

text \<open>A notarisation sets the fields, also where an earlier step has already set them.\<close>

lemma st_upd_cong: "f (st_get w sp) = g (st_get w sp) \<Longrightarrow> st_upd sp f w = st_upd sp g w"
  by (simp add: st_upd_def st_get_def)

lemma st_upd_faulted: "st_upd sp f (w\<lparr>faulted := x\<rparr>) = (st_upd sp f w)\<lparr>faulted := x\<rparr>"
  by (simp add: st_upd_def)

lemma eventadd_after:
  assumes "SMART_CHAIN_SYMBOL G \<noteq> []" and "states_ok w" and "sp < 34"
    and "\<And>ev. ev_height ev = h \<Longrightarrow> ev_type ev = ty \<Longrightarrow>
        g ((f (st_get w sp))\<lparr>Hush_events := Hush_events (f (st_get w sp)) @ [ev]\<rparr>) =
        g ((st_get w sp)\<lparr>Hush_events := Hush_events (st_get w sp) @ [ev]\<rparr>)"
  shows "st_upd sp g (hush_eventadd G sp h s ty d (st_upd sp f w)) = st_upd sp g (hush_eventadd G sp h s ty d w)"
  using assms
  by (auto simp: hush_eventadd_def Let_def st_upd_faulted intro!: arg_cong [where f = "faulted_update (\<lambda>_. True)"] st_upd_cong)

lemma notarized_overwrites:
  assumes "plain_chain G" and "states_ok w" and "nh < h"
  shows "hush_eventadd_notarized E G (hush_stateptr G) s h dest hash txid nh mom depth
      (st_upd (hush_stateptr G) (set_notarized nh' hash' txid' m) w) =
    (if s = SMART_CHAIN_SYMBOL G then hush_eventadd_notarized E G (hush_stateptr G) s h dest hash txid nh mom depth w
     else st_upd (hush_stateptr G) (set_notarized nh' hash' txid' m) w)"
proof (cases "s = SMART_CHAIN_SYMBOL G")
  case True
  let ?g = "hush_notarized_update h nh hash txid mom depth"
  have "?g ((set_notarized nh' hash' txid' m st)\<lparr>Hush_events := Hush_events (set_notarized nh' hash' txid' m st) @ [ev]\<rparr>) =
      ?g (st\<lparr>Hush_events := Hush_events st @ [ev]\<rparr>)" for st ev
    using assms(3) by (auto simp: hush_notarized_update_def set_notarized_def Let_def split: option.split)
  then show ?thesis using assms True
    by (simp add: hush_eventadd_notarized_def plain_chain_def Let_def eventadd_after)
qed (use assms in \<open>simp add: hush_eventadd_notarized_def plain_chain_def Let_def\<close>)

text \<open>Rewinding twice is rewinding once.\<close>

lemma rewind_loop_append:
  "list_all (\<lambda>e. h \<le> ev_height e) es \<Longrightarrow> rewind_loop h (es @ es') s = rewind_loop h es' (fold hush_event_undo es s)"
  by (induction es arbitrary: s) auto

lemma rewind_state_add:
  assumes "ev_height ev = h" and "ev_type ev \<noteq> HUSH_EVENT_HUSHHEIGHT"
  shows "rewind_state h (st\<lparr>Hush_events := Hush_events st @ [ev]\<rparr>) = rewind_state h st"
  using assms by (simp add: rewind_state_def hush_event_undo_def case_prod_unfold Let_def)

lemma rewind_state_idem: "rewind_state h (rewind_state h st) = rewind_state h st"
proof -
  let ?r = "rewind_loop h (rev (Hush_events st)) (SAVEDHEIGHT st)"
  have "fst ?r = [] \<or> ev_height (hd (fst ?r)) < h"
    using hd_dropWhile [of "\<lambda>e. h \<le> ev_height e" "rev (Hush_events st)"]
    by (cases "fst ?r = []") (auto simp: rewind_loop_dropWhile)
  then have "rewind_loop h (fst ?r) (snd ?r) = ?r" by (cases "fst ?r") (auto simp: prod_eq_iff)
  then show ?thesis by (simp add: rewind_state_def case_prod_unfold Let_def)
qed

lemma rewind_absorbed:
  assumes "plain_chain G" and "states_ok w" and "k \<le> 0"
  shows "hush_eventadd_hushheight G (hush_stateptr G) s h k t (hush_event_rewind G (hush_stateptr G) h w) =
     hush_eventadd_hushheight G (hush_stateptr G) s h k t w"
proof -
  have rew: "hush_event_rewind G (hush_stateptr G) h v = st_upd (hush_stateptr G) (rewind_state h) v" for v
    using assms(1) by (simp add: hush_event_rewind_def plain_chain_def)
  have "st_upd (hush_stateptr G) (rewind_state h) (hush_eventadd G (hush_stateptr G) h s HUSH_EVENT_REWIND d
        (st_upd (hush_stateptr G) (rewind_state h) w)) =
      st_upd (hush_stateptr G) (rewind_state h) (hush_eventadd G (hush_stateptr G) h s HUSH_EVENT_REWIND d w)" for d
    using assms by (intro eventadd_after) (auto simp: plain_chain_def rewind_state_add rewind_state_idem event_types)
  then show ?thesis using assms(3) by (simp add: hush_eventadd_hushheight_def rew)
qed

section \<open>What a step writes\<close>

text \<open>The record of a call of \<open>hush_stateupdate\<close>, if it writes one.\<close>

definition su_record :: "hush_params \<Rightarrow> su_args \<Rightarrow> hush_world \<Rightarrow> state_record option" where
  "su_record G a w =
     (let h = su_height a; st = st_get w (hush_stateptr G);
          pubs = (case su_notarypubs a of Some p \<Rightarrow> p | None \<Rightarrow> []);
          pvals = (case su_pvals a of Some p \<Rightarrow> p | None \<Rightarrow> [])
      in
      if h \<le> 0 then None
      else if su_HUSHheight a \<noteq> 0
      then Some (if su_HUSHtimestamp a \<noteq> 0 then Rec_T h (su_HUSHheight a) (su_HUSHtimestamp a) else Rec_K h (su_HUSHheight a))
      else if su_opretbuf a \<noteq> None \<and> su_opretlen a > 0
      then Some (Rec_R h (su_txhash a) (su_vout a) (su_opretvalue a) (bslice (the (su_opretbuf a)) 0 (unat (su_opretlen a))))
      else if pubs \<noteq> [] then Some (Rec_P h pubs)
      else if su_voutmask a \<noteq> 0 \<and> su_numvouts a > 0
      then Some (Rec_U h (su_numvouts a) (su_notaryid a) (su_voutmask a) (su_txhash a))
      else if pvals \<noteq> []
      then if 32 \<le> length pvals \<and> (\<forall>p \<in> set (take 32 pvals). p \<noteq> 0) then Some (Rec_V h pvals) else None
      else Some (if MoMdepth st \<noteq> 0 \<and> MoM st \<noteq> 0
                 then Rec_M h (NOTARIZED_HEIGHT st) (NOTARIZED_HASH st) (NOTARIZED_DESTTXID st) (MoM st) (MoMdepth st)
                 else Rec_N h (NOTARIZED_HEIGHT st) (NOTARIZED_HASH st) (NOTARIZED_DESTTXID st)))"

lemma unat_lt_65536: "unat (x :: u16) < 65536"
  using unsigned_less [of x] by simp

lemma bslice_Nil [simp]: "bslice m off n = [] \<longleftrightarrow> n = 0"
  by (simp add: bslice_def)

lemma su_record_ok:
  assumes "su_ok G a" and "log_inv G w" and "su_record G a w = Some r"
  shows "rec_ok r \<and> rec_local r"
proof -
  have R: "transfer_inside (bmem_of (bslice buf 0 n) (\<lambda>_. 0)) n" if "transfer_inside buf n" and "0 < n" for buf n
    using that(2) _ that(1) by (rule transfer_inside_cong) (simp add: bslice_def)
  show ?thesis
    using assms R
    by (auto simp: su_record_def su_ok_def log_inv_def mom_of_def Let_def unat_lt_65536 unat_gt_0
        split: if_splits option.splits)
qed

lemma stateupdate_write_record:
  assumes G: "plain_chain G" and E: "env_agree E E'" and a: "su_ok G a" and inv: "log_inv G w"
  defines "step \<equiv> rec_apply E' G (hush_stateptr G) (chain_symbol G) (chain_dest G)"
  shows "stateupdate_write E G a w =
     (case su_record G a w of None \<Rightarrow> ([], w) | Some r \<Rightarrow> (rec_bytes r, step r w))"
proof -
  let ?st = "st_get w (hush_stateptr G)"
  have sym: "chain_symbol G = SMART_CHAIN_SYMBOL G"
    using G by (simp add: chain_symbol_def hush_nameset_def plain_chain_def)
  have mom: "\<not> (MoMdepth ?st \<noteq> 0 \<and> MoM ?st \<noteq> 0) \<Longrightarrow> MoM ?st = 0 \<and> MoMdepth ?st = 0"
    using inv by (auto simp: log_inv_def mom_of_def Let_def)
  have R: "hush_eventadd_opreturn E G sp s h t v vo buf n w =
      hush_eventadd_opreturn E' G sp s h t v vo (bmem_of (bslice buf 0 (unat n)) (stk_local E' ''opret'')) n w"
    if "su_opretbuf a = Some buf" "su_opretlen a = n" "0 < n" for sp s h t v vo buf n
  proof (rule opreturn_agree [OF G E \<open>0 < n\<close>])
    show "buf i = bmem_of (bslice buf 0 (unat n)) (stk_local E' ''opret'') i" if "i < unat n" for i
      using that by (simp add: bslice_def)
    show "transfer_inside buf (unat n)" using a that by (simp add: su_ok_def)
  qed
  have NM: "hush_eventadd_notarized E G sp s h d hash txid nh m dp w = hush_eventadd_notarized E' G sp s h d hash txid nh m dp w"
    for sp s h d hash txid nh m dp using G by (simp add: hush_eventadd_notarized_def plain_chain_def)
  let ?pubs = "case su_notarypubs a of Some p \<Rightarrow> p | None \<Rightarrow> []"
  let ?pv = "case su_pvals a of Some p \<Rightarrow> p | None \<Rightarrow> []"
  have P: "?pubs \<noteq> [] \<Longrightarrow> HUSH_EXTERNAL_NOTARIES G \<noteq> 0" using a by (auto simp: su_ok_def split: option.splits)
  note defs = stateupdate_write_def su_record_def step_def rec_bytes_def Let_def
  consider "su_height a \<le> 0" | "0 < su_height a" "su_HUSHheight a \<noteq> 0"
    | "0 < su_height a" "su_HUSHheight a = 0" "su_opretbuf a \<noteq> None" "su_opretlen a > 0"
    | "0 < su_height a" "su_HUSHheight a = 0" "\<not> (su_opretbuf a \<noteq> None \<and> su_opretlen a > 0)" "?pubs \<noteq> []"
    | "0 < su_height a" "su_HUSHheight a = 0" "\<not> (su_opretbuf a \<noteq> None \<and> su_opretlen a > 0)" "?pubs = []"
      "?pv \<noteq> [] \<or> su_voutmask a \<noteq> 0 \<and> su_numvouts a > 0"
    | "0 < su_height a" "su_HUSHheight a = 0" "\<not> (su_opretbuf a \<noteq> None \<and> su_opretlen a > 0)" "?pubs = []"
      "?pv = []" "\<not> (su_voutmask a \<noteq> 0 \<and> su_numvouts a > 0)"
    by linarith
  then show ?thesis
  proof cases
    case 3
    then obtain buf where buf: "su_opretbuf a = Some buf" by auto
    show ?thesis using 3 R [OF buf refl 3(4)] by (simp add: defs buf)
  next
    case 4
    then show ?thesis using P sym unfolding defs by (simp only: if_False if_True not_le [symmetric] option.case) simp
  next
    case 5
    then show ?thesis
    proof (cases "su_voutmask a \<noteq> 0 \<and> su_numvouts a > 0")
      case True
      with 5(1-4) show ?thesis unfolding defs by (simp only: if_False if_True not_le [symmetric] option.case) simp
    next
      case False
      define few where "few \<longleftrightarrow> 32 \<le> length ?pv \<and> (\<forall>p \<in> set (take 32 ?pv). p \<noteq> 0)"
      from False 5 have c: "(su_height a \<le> 0) = False" "(su_HUSHheight a \<noteq> 0) = False"
        "(su_opretbuf a \<noteq> None \<and> su_opretlen a > 0) = False" "(?pubs \<noteq> []) = False"
        "(su_voutmask a \<noteq> 0 \<and> su_numvouts a > 0) = False" "(?pv \<noteq> []) = True" by auto
      show ?thesis unfolding defs few_def [symmetric] c if_False if_True
        by (cases few) (simp_all only: if_False if_True option.case rec_apply.simps rec_tag.simps rec_body.simps append.simps)
    qed
  next
    case 6
    define withM where "withM \<longleftrightarrow> MoMdepth ?st \<noteq> 0 \<and> MoM ?st \<noteq> 0"
    from 6 have c: "(su_height a \<le> 0) = False" "(su_HUSHheight a \<noteq> 0) = False"
      "(su_opretbuf a \<noteq> None \<and> su_opretlen a > 0) = False" "(?pubs \<noteq> []) = False"
      "(su_voutmask a \<noteq> 0 \<and> su_numvouts a > 0) = False" "(?pv \<noteq> []) = False" by auto
    have "\<not> withM \<Longrightarrow> MoM ?st = 0 \<and> MoMdepth ?st = 0" using mom unfolding withM_def by blast
    then show ?thesis unfolding defs withM_def [symmetric] c if_False if_True
      by (cases withM) (simp_all only: if_False if_True option.case rec_apply.simps rec_tag.simps rec_body.simps
          append.simps append_Nil2 append_assoc NM simp_thms)
  qed (simp_all add: defs)
qed

section \<open>Recovery\<close>

lemma log_inv_files [simp]: "log_inv G (set_files a b c w) = log_inv G w"
  by (simp add: log_inv_def mom_of_def set_files_def st_get_def states_ok_def)

lemma keeps_mom_log_inv: "keeps_mom G f \<Longrightarrow> log_inv G w \<Longrightarrow> log_inv G (f w)"
  by (auto simp: keeps_mom_def log_inv_def)

text \<open>A record of a MoM has a depth exactly when it has a root.\<close>

fun rec_mom :: "state_record \<Rightarrow> bool" where
  "rec_mom (Rec_M h nh hash txid mom depth) = (mom = 0 \<longleftrightarrow> depth = 0)"
| "rec_mom _ = True"

lemma log_inv_notarized:
  assumes "log_inv G w" and "is_i32 nh" and "is_i32 depth" and "mom = 0 \<longleftrightarrow> depth = 0"
  shows "log_inv G (hush_eventadd_notarized E G (hush_stateptr G) s h d hash txid nh mom depth w)"
proof -
  let ?w = "hush_eventadd G (hush_stateptr G) h s HUSH_EVENT_NOTARIZED (notarized_bytes hash txid mom nh depth d) w"
  have "log_inv G ?w" using keeps_mom_eventadd assms(1) by (rule keeps_mom_log_inv)
  then have "log_inv G (st_upd (hush_stateptr G) (hush_notarized_update h nh hash txid mom depth) ?w)"
    using assms(2-4) by (simp add: log_inv_def mom_of_def Let_def hush_notarized_update_def)
  then show ?thesis using assms(1) by (auto simp: hush_eventadd_notarized_def Let_def)
qed

lemma rec_apply_log_inv:
  assumes "plain_chain G" and "rec_ok r" and "rec_mom r" and "log_inv G w"
  shows "log_inv G (rec_apply E G (hush_stateptr G) s d r w)"
proof (cases r)
  case (Rec_R h txid v val pay)
  show ?thesis unfolding Rec_R rec_apply.simps using keeps_mom_opreturn [OF assms(1)] assms(4) by (rule keeps_mom_log_inv)
qed (use assms in \<open>auto simp: log_inv_notarized is_i32_def
    intro: keeps_mom_log_inv [OF keeps_mom_pubkeys] keeps_mom_log_inv [OF keeps_mom_hushheight]
      keeps_mom_log_inv [OF keeps_mom_pricefeed]\<close>)

lemma su_record_mom: "log_inv G w \<Longrightarrow> su_record G a w = Some r \<Longrightarrow> rec_mom r"
  by (auto simp: su_record_def Let_def split: if_splits)

text \<open>One step appends a list of records (at most one) and has the effect of replaying them.\<close>

abbreviation replay :: "hush_env \<Rightarrow> hush_params \<Rightarrow> state_record list \<Rightarrow> hush_world \<Rightarrow> hush_world" where
  "replay E G \<equiv> fold (rec_apply E G (hush_stateptr G) (chain_symbol G) (chain_dest G))"

lemma set_files_own: "set_files (hushstate_file w) (hushstate_ind w) (state_fp w) w = w"
  by (simp add: set_files_def)

lemma set_files_sel [simp]:
  "hushstate_file (set_files a b c w) = a" "hushstate_ind (set_files a b c w) = b" "state_fp (set_files a b c w) = c"
  "set_files a b c (set_files a' b' c' w) = set_files a b c w"
  by (simp_all add: set_files_def)

lemma rec_apply_same_files:
  assumes "plain_chain G"
  shows "hushstate_file (rec_apply E G sp s d r w) = hushstate_file w"
    and "hushstate_ind (rec_apply E G sp s d r w) = hushstate_ind w"
    and "state_fp (rec_apply E G sp s d r w) = state_fp w"
  using rec_apply_files [OF assms, of E sp s d r "hushstate_file w" "hushstate_ind w" "state_fp w" w]
  unfolding set_files_own by (metis set_files_sel)+

lemma replay_files:
  "plain_chain G \<Longrightarrow> replay E G rs (set_files a b c w) = set_files a b c (replay E G rs w)"
  by (induction rs arbitrary: w) (simp_all add: rec_apply_files)

lemma stateupdate_logged:
  assumes G: "plain_chain G" and E: "env_agree E E'" and a: "su_ok G a" and inv: "log_inv G w" and fp: "state_fp w"
  shows "hush_stateupdate E G a w =
     (case su_record G a w of
        None \<Rightarrow> w
      | Some r \<Rightarrow> set_files (map_option (\<lambda>f. f @ rec_bytes r) (hushstate_file w)) (hushstate_ind w) True
          (rec_apply E' G (hush_stateptr G) (chain_symbol G) (chain_dest G) r w))"
proof -
  have "stateupdate_open E G w = w" using fp by (simp add: stateupdate_open_def)
  moreover have "w\<lparr>hushstate_file := map_option (\<lambda>f. f) (hushstate_file w)\<rparr> = w" by (simp add: option.map_ident)
  moreover have "(rec_apply E' G sp s d r w)\<lparr>hushstate_file := x\<rparr> =
      set_files x (hushstate_ind w) True (rec_apply E' G sp s d r w)" for sp s d r x
    using rec_apply_same_files [OF G, of E' sp s d r w] fp by (simp add: set_files_def)
  ultimately show ?thesis
    using stateupdate_write_record [OF G E a inv] rec_apply_same_files [OF G]
    by (simp add: hush_stateupdate_def split: option.split)
qed

definition logs :: "hush_env \<Rightarrow> hush_params \<Rightarrow> hush_world \<Rightarrow> hush_world \<Rightarrow> state_record list \<Rightarrow> bool" where
  "logs E G w w' rs \<longleftrightarrow>
     list_all rec_ok rs \<and> list_all rec_local rs \<and> list_all rec_mom rs \<and>
     w' = set_files (map_option (\<lambda>f. f @ state_file rs) (hushstate_file w)) (hushstate_ind w) True (replay E G rs w)"

lemma logs_none: "state_fp w \<Longrightarrow> logs E G w w []"
  by (simp add: logs_def set_files_def option.map_ident)

lemma su_ok_none [simp]: "is_i32 h \<Longrightarrow> su_ok G (su_none h)"
  by (simp add: su_ok_def su_none_def is_i32_def)

text \<open>
  A call made from a world \<open>w1\<close> that differs from \<open>w\<close> only in ways its record overwrites.
\<close>

lemma logs_through:
  assumes G: "plain_chain G" and E: "env_agree E E'" and a: "su_ok G a" and inv: "log_inv G w1" and fp: "state_fp w1"
    and r: "su_record G a w1 = Some r"
    and same: "hushstate_file w1 = hushstate_file w" "hushstate_ind w1 = hushstate_ind w"
      "rec_apply E' G (hush_stateptr G) (chain_symbol G) (chain_dest G) r w1 =
       rec_apply E' G (hush_stateptr G) (chain_symbol G) (chain_dest G) r w"
  shows "logs E' G w (hush_stateupdate E G a w1) [r]"
  using stateupdate_logged [OF G E a inv fp] su_record_ok [OF a inv r] su_record_mom [OF inv r] r same
  by (simp add: logs_def)

lemma live_step_logs:
  assumes G: "plain_chain G" and E: "env_agree E E'" and ok: "live_ok G op" and inv: "log_inv G w" and fp: "state_fp w"
    and known: "case op of Op_height ch \<Rightarrow> \<not> orphaned G ch w | _ \<Rightarrow> True"
  shows "\<exists>rs. logs E' G w (live_exec E G op w) rs"
proof (cases op)
  case (Op_height ch)
  then show ?thesis using known logs_none [OF fp] by (auto simp: notarized_query)
next
  case (Op_update a)
  then have a: "su_ok G a" using ok by simp
  show ?thesis
  proof (cases "su_record G a w")
    case None
    then show ?thesis using stateupdate_logged [OF G E a inv fp] logs_none [OF fp] Op_update by auto
  next
    case (Some r)
    then show ?thesis using logs_through [OF G E a inv fp Some refl refl refl] Op_update by auto
  qed
next
  case (Op_notarize h nh hash txid m)
  let ?w1 = "st_upd (hush_stateptr G) (set_notarized nh hash txid m) w"
  have inv1: "log_inv G ?w1" using inv ok Op_notarize
    by (auto simp: log_inv_def mom_of_def set_notarized_def Let_def split: option.splits)
  have sym: "chain_symbol G = SMART_CHAIN_SYMBOL G"
    using G by (simp add: chain_symbol_def hush_nameset_def plain_chain_def)
  have st: "NOTARIZED_HEIGHT (st_get ?w1 (hush_stateptr G)) = nh"
    using inv by (simp add: log_inv_def set_notarized_def Let_def split: option.split)
  let ?st = "st_get ?w1 (hush_stateptr G)"
  let ?r = "if MoMdepth ?st \<noteq> 0 \<and> MoM ?st \<noteq> 0
      then Rec_M h nh (NOTARIZED_HASH ?st) (NOTARIZED_DESTTXID ?st) (MoM ?st) (MoMdepth ?st)
      else Rec_N h nh (NOTARIZED_HASH ?st) (NOTARIZED_DESTTXID ?st)"
  have r: "su_record G (su_none h) ?w1 = Some ?r"
    using ok Op_notarize st by (simp add: su_record_def su_none_def Let_def)
  have same: "rec_apply E' G (hush_stateptr G) (chain_symbol G) d ?r ?w1 = rec_apply E' G (hush_stateptr G) (chain_symbol G) d ?r w" for d
    using ok Op_notarize inv sym notarized_overwrites [OF G] by (simp add: log_inv_def)
  have "hushstate_file ?w1 = hushstate_file w" "hushstate_ind ?w1 = hushstate_ind w" "state_fp ?w1"
    using fp by (simp_all add: st_upd_def)
  then have "logs E' G w (live_exec E G op w) [?r]"
    unfolding Op_notarize live_exec.simps using ok Op_notarize by (intro logs_through [OF G E _ inv1 _ r _ _ same]) auto
  then show ?thesis by blast
next
  case (Op_rewind h t)
  let ?w1 = "hush_event_rewind G (hush_stateptr G) h w"
  let ?a = "(su_none h)\<lparr>su_HUSHheight := - h, su_HUSHtimestamp := t\<rparr>"
  let ?r = "if t \<noteq> 0 then Rec_T h (- h) t else Rec_K h (- h)"
  have h: "0 < h" "is_i32 h" "is_i32 (- h)" using ok Op_rewind by (auto simp: is_i32_def)
  have a: "su_ok G ?a" using h by (simp add: su_ok_def su_none_def)
  have inv1: "log_inv G ?w1" using keeps_mom_rewind inv by (rule keeps_mom_log_inv)
  have r: "su_record G ?a ?w1 = Some ?r" using h by (simp add: su_record_def su_none_def Let_def)
  have same: "rec_apply E' G (hush_stateptr G) s d ?r ?w1 = rec_apply E' G (hush_stateptr G) s d ?r w" for s d
    using h inv rewind_absorbed [OF G] by (simp add: log_inv_def)
  have "hushstate_file ?w1 = hushstate_file w" "hushstate_ind ?w1 = hushstate_ind w" "state_fp ?w1"
    using fp by (simp_all add: hush_event_rewind_def st_upd_def Let_def)
  then have "logs E' G w (live_exec E G op w) [?r]"
    unfolding Op_rewind live_exec.simps by (intro logs_through [OF G E a inv1 _ r _ _ same])
  then show ?thesis by blast
qed

lemma logs_inv:
  assumes "plain_chain G" and "log_inv G w" and "logs E G w w' rs"
  shows "log_inv G w' \<and> state_fp w'"
proof -
  have "list_all rec_ok rs \<Longrightarrow> list_all rec_mom rs \<Longrightarrow> log_inv G (replay E G rs w)"
    using assms(2) by (induction rs arbitrary: w) (auto intro: rec_apply_log_inv [OF assms(1)])
  then show ?thesis using assms(3) by (simp add: logs_def)
qed

lemma logs_trans:
  "plain_chain G \<Longrightarrow> logs E G w w' rs \<Longrightarrow> logs E G w' w'' rs' \<Longrightarrow> logs E G w w'' (rs @ rs')"
  by (auto simp: logs_def replay_files option.map_comp comp_def)

lemma live_run_logs:
  assumes "plain_chain G" and "env_agree E E'" and "live_run_ok E G ops w" and "log_inv G w" and "state_fp w"
  shows "\<exists>rs. logs E' G w (fold (live_exec E G) ops w) rs"
  using assms(3-5)
proof (induction ops arbitrary: w)
  case Nil
  then show ?case using logs_none by auto
next
  case (Cons op ops)
  then have "live_ok G op" "case op of Op_height ch \<Rightarrow> \<not> orphaned G ch w | _ \<Rightarrow> True" by simp_all
  from live_step_logs [OF assms(1,2) this(1) Cons.prems(2,3) this(2)]
  obtain rs where 1: "logs E' G w (live_exec E G op w) rs" ..
  then have "log_inv G (live_exec E G op w) \<and> state_fp (live_exec E G op w)"
    using logs_inv [OF assms(1) Cons.prems(2)] by blast
  then obtain rs' where "logs E' G (live_exec E G op w) (fold (live_exec E G) ops (live_exec E G op w)) rs'"
    using Cons.IH Cons.prems by auto
  then show ?case using logs_trans [OF assms(1) 1] by auto
qed

text \<open>Opening the file of a sequence of records.\<close>

lemma state_file_Nil: "state_file rs = [] \<longleftrightarrow> rs = []"
  by (cases rs) (simp_all add: rec_bytes_def)

lemma stateupdate_opens:
  assumes G: "plain_chain G" and ok: "list_all rec_ok rs"
  shows "\<exists>i'. hush_stateupdate E G (su_none 0) (set_files (Some (state_file rs)) i False w) =
     set_files (Some (state_file rs)) i' True (replay E G rs w)"
proof -
  let ?w = "set_files (Some (state_file rs)) i False w"
  have wr: "stateupdate_write E G (su_none 0) v = ([], v)" for v
    by (simp add: stateupdate_write_def su_none_def Let_def)
  have op: "(set_files a b c v)\<lparr>state_fp := x\<rparr> = set_files a b x v" "(set_files a b c v)\<lparr>hushstate_ind := y\<rparr> = set_files a y c v"
      "(set_files a b c v)\<lparr>hushstate_file := a'\<rparr> = set_files a' b c v" for a a' b c v x y
    by (simp_all add: set_files_def)
  have "\<exists>i'. stateupdate_open E G ?w = set_files (Some (state_file rs)) i' True (replay E G rs w)"
    using parse_loop_file [OF ok]
    by (auto simp: stateupdate_open_def hush_faststateinit_def state_file_Nil Let_def replay_files [OF G] op)
  then show ?thesis by (auto simp: hush_stateupdate_def wr op)
qed

lemma log_inv_world0: "log_inv G hush_world0"
proof -
  have "st_get hush_world0 (hush_stateptr G) = hush_state0"
    by (simp add: st_get_def hush_world0_def)
  then show ?thesis by (simp add: log_inv_def mom_of_def hush_state0_def is_i32_def)
qed

section \<open>Properties\<close>

text \<open>C1 Recovery: on a plain chain (named, not a currency, the node not a notary), start from any state file of well-formed records and let the node make a sequence of state updates,
  notarisations, reorganisations and queries of the notarised height that fulfil \<open>live_run_ok\<close>: no notary set is ratified while \<open>HUSH_EXTERNAL_NOTARIES\<close> is zero, no key-value
  transfer reads past its payload, and every query finds the notarised block. A process that starts from the file left behind and replays it reaches exactly the
  same world (all states, event logs, key-value table, notary sets and the file itself); only the index, which the start rewrites, may
  differ. A query that then misses the notarised block forgets the notarisation in memory only: the restart brings it back. The two processes may have different stack contents, as
  long as the same garbage is in the six bytes of an OP_RETURN event that are never written (\<open>env_agree\<close>).\<close>
theorem restart_recovers:
  assumes "plain_chain G" and "env_agree E E'"
    and "list_all rec_ok rs" and "list_all rec_local rs" and "list_all rec_mom rs"
    and "w0 = hush_stateupdate E G (su_none 0) (hush_world0\<lparr>hushstate_file := Some (state_file rs)\<rparr>)"
    and "live_run_ok E G ops w0" and "w = fold (live_exec E G) ops w0"
  shows "(hush_stateupdate E' G (su_none 0) (hush_world0\<lparr>hushstate_file := hushstate_file w\<rparr>))\<lparr>hushstate_ind := []\<rparr> = w\<lparr>hushstate_ind := []\<rparr> \<and>
    (\<forall>ch. orphaned G ch w \<longrightarrow>
      (let v = snd (hush_notarized_height G ch w)
       in NOTARIZED_HEIGHT (st_get v (hush_stateptr G)) = 0 \<and>
          (hush_stateupdate E' G (su_none 0) (hush_world0\<lparr>hushstate_file := hushstate_file v\<rparr>))\<lparr>hushstate_ind := []\<rparr> = w\<lparr>hushstate_ind := []\<rparr>))"
proof -
  have h: "hush_world0\<lparr>hushstate_file := x\<rparr> = set_files x [] False hush_world0" for x
    by (simp add: hush_world0_def set_files_def)
  obtain i where start: "w0 = set_files (Some (state_file rs)) i True (replay E G rs hush_world0)"
    unfolding assms(6) h using stateupdate_opens [OF assms(1,3)] by blast
  have "replay E G rs v = replay E' G rs v" for v
    using assms(3,4) rec_apply_agree [OF assms(1,2)] by (induction rs arbitrary: v) auto
  with start assms(3-5) have 0: "logs E' G (set_files (Some []) i True hush_world0) w0 rs"
    by (simp add: logs_def replay_files [OF assms(1)])
  then have inv: "log_inv G w0 \<and> state_fp w0" using logs_inv [OF assms(1) _ 0] log_inv_world0 by simp
  then obtain rs' where rs': "logs E' G w0 w rs'"
    using live_run_logs [OF assms(1,2,7)] assms(8) by blast
  then have *: "logs E' G (set_files (Some []) i True hush_world0) w (rs @ rs')" by (rule logs_trans [OF assms(1) 0])
  then have "list_all rec_ok (rs @ rs')" by (simp add: logs_def)
  from stateupdate_opens [OF assms(1) this, of E' "[]" hush_world0] obtain i' where
    "hush_stateupdate E' G (su_none 0) (hush_world0\<lparr>hushstate_file := Some (state_file (rs @ rs'))\<rparr>) =
      set_files (Some (state_file (rs @ rs'))) i' True (replay E' G (rs @ rs') hush_world0)"
    unfolding h by blast
  moreover from * have w: "w = set_files (Some (state_file (rs @ rs'))) i True (replay E' G (rs @ rs') hush_world0)"
    by (simp add: logs_def replay_files [OF assms(1)])
  moreover have "hushstate_file w = Some (state_file (rs @ rs'))" using w by simp
  moreover have "(set_files a b c v)\<lparr>hushstate_ind := []\<rparr> = set_files a [] c v" for a b c v by (simp add: set_files_def)
  ultimately have same: "(hush_stateupdate E' G (su_none 0) (hush_world0\<lparr>hushstate_file := hushstate_file w\<rparr>))\<lparr>hushstate_ind := []\<rparr> = w\<lparr>hushstate_ind := []\<rparr>"
    by simp
  have "states_ok w" using logs_inv [OF assms(1) _ rs'] inv by (auto simp: log_inv_def)
  then have "NOTARIZED_HEIGHT (st_get (snd (hush_notarized_height G ch w)) (hush_stateptr G)) = 0 \<and>
      hushstate_file (snd (hush_notarized_height G ch w)) = hushstate_file w" if "orphaned G ch w" for ch
    using that by (simp add: notarized_query) (simp add: st_upd_def)
  then show ?thesis using same by (simp add: Let_def)
qed

theorem restart_recovers_witness:
  "\<forall>E. let w0 = hush_stateupdate E hsc_params (su_none 0) (hush_world0\<lparr>hushstate_file := Some (state_file [Rec_K 6 6])\<rparr>);
         ops = [Op_update ((su_none 7)\<lparr>su_HUSHheight := 7, su_HUSHtimestamp := 9\<rparr>), Op_notarize 8 5 1 2 (Some (3, 2)), Op_rewind 8 11];
         v = fold (live_exec E hsc_params) ops w0;
         ch = \<lparr>mapBlockIndex = [(NOTARIZED_HASH (st_get v (hush_stateptr hsc_params)), \<lparr>bi_hash = 1, bi_height = 5, bi_nTime = 9, bi_hashMerkleRoot = 0\<rparr>)],
                chainActive = [], IsInitialBlockDownload = False\<rparr>;
         w = live_exec E hsc_params (Op_height ch) v
     in (hush_stateupdate E hsc_params (su_none 0) (hush_world0\<lparr>hushstate_file := hushstate_file w\<rparr>))\<lparr>hushstate_ind := []\<rparr> =
        w\<lparr>hushstate_ind := []\<rparr>"
proof (intro allI)
  fix E
  define w0 where "w0 = hush_stateupdate E hsc_params (su_none 0) (hush_world0\<lparr>hushstate_file := Some (state_file [Rec_K 6 6])\<rparr>)"
  define a where "a = (su_none 7)\<lparr>su_HUSHheight := 7, su_HUSHtimestamp := 9\<rparr>"
  define v where "v = fold (live_exec E hsc_params) [Op_update a, Op_notarize 8 5 1 2 (Some (3, 2)), Op_rewind 8 11] w0"
  define ch where "ch = \<lparr>mapBlockIndex = [(NOTARIZED_HASH (st_get v (hush_stateptr hsc_params)), \<lparr>bi_hash = 1, bi_height = 5, bi_nTime = 9, bi_hashMerkleRoot = 0\<rparr>)],
                chainActive = [], IsInitialBlockDownload = False\<rparr>"
  have G: "plain_chain hsc_params" by code_simp
  have "env_agree E E" by (simp add: env_agree_def)
  moreover have "list_all rec_ok [Rec_K 6 6]" "list_all rec_local [Rec_K 6 6]" "list_all rec_mom [Rec_K 6 6]"
    by (simp_all add: is_i32_def)
  moreover have "\<not> orphaned hsc_params ch v" by (simp add: orphaned_def hush_blockindex_def ch_def)
  then have "live_run_ok E hsc_params [Op_update a, Op_notarize 8 5 1 2 (Some (3, 2)), Op_rewind 8 11, Op_height ch] w0"
    by (simp add: v_def su_ok_def su_none_def is_i32_def a_def del: live_exec.simps)
  ultimately have "(hush_stateupdate E hsc_params (su_none 0) (hush_world0\<lparr>hushstate_file := hushstate_file (live_exec E hsc_params (Op_height ch) v)\<rparr>))\<lparr>hushstate_ind := []\<rparr> =
      (live_exec E hsc_params (Op_height ch) v)\<lparr>hushstate_ind := []\<rparr>"
    using restart_recovers [OF G _ _ _ _ w0_def _ refl, of E "[Op_update a, Op_notarize 8 5 1 2 (Some (3, 2)), Op_rewind 8 11, Op_height ch]"]
    by (simp add: v_def del: live_exec.simps)
  then show "let w0 = hush_stateupdate E hsc_params (su_none 0) (hush_world0\<lparr>hushstate_file := Some (state_file [Rec_K 6 6])\<rparr>);
         ops = [Op_update ((su_none 7)\<lparr>su_HUSHheight := 7, su_HUSHtimestamp := 9\<rparr>), Op_notarize 8 5 1 2 (Some (3, 2)), Op_rewind 8 11];
         v = fold (live_exec E hsc_params) ops w0;
         ch = \<lparr>mapBlockIndex = [(NOTARIZED_HASH (st_get v (hush_stateptr hsc_params)), \<lparr>bi_hash = 1, bi_height = 5, bi_nTime = 9, bi_hashMerkleRoot = 0\<rparr>)],
                chainActive = [], IsInitialBlockDownload = False\<rparr>;
         w = live_exec E hsc_params (Op_height ch) v
     in (hush_stateupdate E hsc_params (su_none 0) (hush_world0\<lparr>hushstate_file := hushstate_file w\<rparr>))\<lparr>hushstate_ind := []\<rparr> =
        w\<lparr>hushstate_ind := []\<rparr>"
    unfolding Let_def w0_def [symmetric] a_def [symmetric] v_def [symmetric] ch_def [symmetric] .
qed

text \<open>C33 The index written at start-up is always accepted: for a state file of well-formed records below
  4 GiB, \<open>hush_stateind_validate\<close> follows the index that \<open>hush_faststateinit\<close> wrote to the end of the
  file. In particular the 24-bit distances never overflow between two base positions.\<close>
theorem faststateinit_index_valid:
  assumes "list_all rec_ok rs" and "rs \<noteq> []" and "length (state_file rs) < 2 ^ 32"
  shows "hush_stateind_validate (state_file rs)
      (hushstate_ind (snd (hush_faststateinit E G sp (state_file rs) symbol dest w))) = Some (length (state_file rs))"
proof -
  have "records_at (state_file rs) 0 (rec_ends 0 rs)"
    using records_at_file [OF assms(1), of "[]"] assms(3) by simp
  then have "hush_stateind_validate (state_file rs) (ind_words (ind_build (rec_ends 0 rs) ind_start)) =
      Some (last (0 # map fst (rec_ends 0 rs)))"
    by (rule ind_build_validates)
  then show ?thesis
    unfolding rec_ends_last
    using assms by (simp add: hush_faststateinit_def state_file_Nil parse_loop_file)
qed

theorem faststateinit_index_valid_witness:
  "\<forall>E. hush_stateind_validate (state_file [Rec_K 6 6, Rec_T 7 7 9])
      (hushstate_ind (snd (hush_faststateinit E hsc_params 0 (state_file [Rec_K 6 6, Rec_T 7 7 9]) ''ZDEEX'' ''HUSH3'' hush_world0))) =
    Some 22"
proof -
  have "list_all rec_ok [Rec_K 6 6, Rec_T 7 7 9]" by (simp add: is_i32_def)
  moreover have "length (state_file [Rec_K 6 6, Rec_T 7 7 9]) = 22" by (simp add: rec_bytes_def)
  ultimately show ?thesis using faststateinit_index_valid [of "[Rec_K 6 6, Rec_T 7 7 9]"] by simp
qed

end
