(* ===== verification/Hush_Connect.thy ===== *)
theory Hush_Connect
  imports Hush_Replay
begin

text \<open>
  Block connection, \<open>src/src/hush.h\<close> (with \<open>hush_init\<close> of \<open>hush_notary.h\<close>): the scan of a block's
  outputs for notarisations, key-value updates and ratifications, and the driver that handles
  reorganisations and writes the state file.
\<close>

section \<open>Start-up\<close>

fun genesis_pubkeys :: "(string \<times> string) list \<Rightarrow> pubkey33 list" where
  "genesis_pubkeys [] = []"
| "genesis_pubkeys ((name, key) # es) = (if name = [] \<or> key = [] then [] else decode_key key # genesis_pubkeys es)"

definition hush_init :: "hush_env \<Rightarrow> hush_params \<Rightarrow> int \<Rightarrow> hush_world \<Rightarrow> hush_world" where
  "hush_init E G height w =
     (if init_didinit w then w
      else
        let w = (if height \<ge> 0 then hush_notarysinit 0 (genesis_pubkeys Notaries_genesis) w else w)
        in hush_stateupdate E G (su_none 0) (w\<lparr>init_didinit := True\<rparr>))"

section \<open>Chain validation\<close>

text \<open>
  Whether the notarised block is in this chain. The message printed on failure reads the height
  of a block index that may be null.
\<close>

definition hush_validate_chain ::
    "hush_params \<Rightarrow> chain_view \<Rightarrow> uint256 \<Rightarrow> int \<Rightarrow> hush_world \<Rightarrow> int \<times> hush_world" where
  "hush_validate_chain G ch srchash notarized_height w =
     (let st = st_get w (hush_stateptr G); pindex = hush_getblockindex ch srchash in
      if \<not> IsInitialBlockDownload ch \<and> (case pindex of None \<Rightarrow> True | Some p \<Rightarrow> bi_height p \<noteq> notarized_height)
      then
        let w = (if pindex = None then w\<lparr>faulted := True\<rparr> else w);
            rewindtarget = (if NOTARIZED_HEIGHT st > 0 \<and> NOTARIZED_HEIGHT st < notarized_height
                            then NOTARIZED_HEIGHT st - 1
                            else if notarized_height > 101 then notarized_height - 101 else 0);
            w = (if rewindtarget \<noteq> 0 \<and> rewindtarget > HUSH_REWIND G \<and> rewindtarget > last_rewind w
                 then w\<lparr>last_rewind := rewindtarget\<rparr> else w)
        in (0, w)
      else (1, w))"

section \<open>One output\<close>

definition CRYPTO555_PUBSECPSTR :: string where
  "CRYPTO555_PUBSECPSTR = ''038a1bd41a08f38edda51042988022933c5775dfce81f7bae0b32a9179650352ac''"

definition HUSH_MINRATIFY :: "int \<Rightarrow> int" where
  "HUSH_MINRATIFY height = (if height < 90000 then 7 else 11)"

text \<open>The variables of the caller that \<open>hush_voutupdate\<close> writes through pointers, and the notary id.\<close>

record vout_ctx =
  vx_notaryid :: int
  vx_isratification :: int
  vx_voutmask :: u64
  vx_specialtx :: int
  vx_notarizedheight :: int

text \<open>A shift by the output number; the processor takes the count modulo 64.\<close>

definition bit_at :: "int \<Rightarrow> u64" where
  "bit_at k = push_bit (nat (k mod 64)) 1"

text \<open>A pay-to-pubkey output: mined by this node, special, or paying a notary.\<close>

definition vout_pubkey ::
    "hush_env \<Rightarrow> hush_params \<Rightarrow> chain_view \<Rightarrow> bmem \<Rightarrow> nat \<Rightarrow> int \<Rightarrow> int \<Rightarrow> int \<Rightarrow> u32 \<Rightarrow> vout_ctx \<Rightarrow> hush_world
      \<Rightarrow> vout_ctx \<times> hush_world" where
  "vout_pubkey E G ch scriptbuf scriptlen height i j timestamp x w =
     (if scriptlen = 35 \<and> scriptbuf 0 = 33 \<and> scriptbuf 34 = 0xac
      then
        let key = bslice scriptbuf 1 33;
            w = (if i = 0 \<and> j = 0 \<and> NOTARY_PUBKEY33 G = key \<and> IS_HUSH_NOTARY G \<noteq> 0
                 then w\<lparr>prevHUSH_LASTMINED := HUSH_LASTMINED w, HUSH_LASTMINED := height\<rparr> else w)
        in if decode_key CRYPTO555_PUBSECPSTR = key then (x\<lparr>vx_specialtx := 1\<rparr>, w)
           else
             let ((chosen, nid), w) = hush_chosennotary (hush_init E G 0) G ch height key timestamp w
             in (if chosen \<ge> 0 \<and> vx_notaryid x < 64
                 then if vx_notaryid x < 0
                      then x\<lparr>vx_notaryid := nid, vx_voutmask := vx_voutmask x OR bit_at j\<rparr>
                      else if vx_notaryid x \<noteq> nid then x\<lparr>vx_notaryid := 64, vx_voutmask := 0\<rparr>
                      else x\<lparr>vx_voutmask := vx_voutmask x OR bit_at j\<rparr>
                 else x, w)
      else (x, w))"

text \<open>
  The length byte or bytes after \<open>OP_RETURN\<close>: the payload length and where the payload starts.
  Nothing bounds the length by the length of the script.
\<close>

definition vout_opretlen :: "bmem \<Rightarrow> nat \<times> nat" where
  "vout_opretlen scriptbuf =
     (let b = scriptbuf 1 in
      if b = 0x4c then (unat (scriptbuf 2), 3)
      else if b = 0x4d then (unat (scriptbuf 2) + push_bit 8 (unat (scriptbuf 3)), 4)
      else (unat b, 2))"

text \<open>\<open>strcmp\<close> with the string at an offset, and that string up to the end of \<open>scriptbuf[10001]\<close>. Where the buffer holds no terminator, the code would go on
  reading behind it; the string then ends with the buffer here, and this over-read is not recorded as a fault.\<close>

definition cstr_is :: "bmem \<Rightarrow> nat \<Rightarrow> string \<Rightarrow> bool" where
  "cstr_is m off s \<longleftrightarrow> bslice m off (length s + 1) = bytes_of s @ [0]"

definition cstr_at :: "bmem \<Rightarrow> nat \<Rightarrow> string" where
  "cstr_at m off = cstr (bslice m off (10001 - off))"

text \<open>The MoMoM part of a notarisation: the structure read, whose pairs are kept only when they fill the payload.\<close>

fun read_pairs :: "bmem \<Rightarrow> nat \<Rightarrow> nat \<Rightarrow> hush_ccdatapair list" where
  "read_pairs m off 0 = []"
| "read_pairs m off (Suc n) =
     \<lparr>cp_notarized_height = rd_i32 (bslice m off 4), cp_MoMoMoffset = rd_i32 (bslice m (off + 4) 4)\<rparr> #
       read_pairs m (off + 8) n"

definition vout_MoMoM :: "bmem \<Rightarrow> nat \<Rightarrow> nat \<Rightarrow> nat \<Rightarrow> hush_ccdataMoMoM" where
  "vout_MoMoM m len opoffset opretlen =
     (let n = rd_i32 (bslice m (len + 44) 4);
          fits = (wrap32 (int (len + 48) + wrap32 (n * 8) - int opoffset) = int opretlen)
      in \<lparr>mm_MoMoM = le_word (bslice m (len + 8) 32), mm_hushstarti = rd_i32 (bslice m len 4),
          mm_hushendi = rd_i32 (bslice m (len + 4) 4), mm_MoMoMoffset = 0, mm_MoMoMdepth = rd_i32 (bslice m (len + 40) 4),
          mm_numpairs = n, mm_len = (if fits then 48 + 8 * max 0 n else 0),
          mm_pairs = (if fits then read_pairs m (len + 48) (nat n) else [])\<rparr>)"

text \<open>
  Where reading a notarisation stops: after MoM and depth, the identifier, or the MoMoM part with its
  pairs. What is read after MoM and depth goes to \<open>hush_rwccdata\<close> only, which does nothing; but it is read
  from a buffer of 10001 bytes, so a read beyond it is a fault.
\<close>

definition vout_read_end :: "hush_params \<Rightarrow> string \<Rightarrow> bmem \<Rightarrow> nat \<Rightarrow> nat \<Rightarrow> nat \<Rightarrow> nat" where
  "vout_read_end G name m len opoffset opretlen =
     (if len + 36 - opoffset > opretlen then len
      else if len + 40 - opoffset > opretlen then len + 36
      else if SMART_CHAIN_SYMBOL G \<noteq> [] \<and> len + 88 - opoffset \<le> opretlen \<and> name = SMART_CHAIN_SYMBOL G
      then len + 88 + 8 * length (mm_pairs (vout_MoMoM m (len + 40) opoffset opretlen))
      else len + 40)"

definition read_fault :: "nat \<Rightarrow> hush_world \<Rightarrow> hush_world" where
  "read_fault end_pos w = (if end_pos > 10001 then w\<lparr>faulted := True\<rparr> else w)"

text \<open>
  MoM and depth of a notarisation whose payload starts at \<open>opoffset\<close>; \<open>len\<close> is the position after the
  name. They are reset when they make no sense.
\<close>

definition vout_MoM :: "bmem \<Rightarrow> nat \<Rightarrow> nat \<Rightarrow> nat \<Rightarrow> int \<Rightarrow> uint256 \<times> int" where
  "vout_MoM m len opoffset opretlen nh =
     (if len + 36 - opoffset \<le> opretlen
      then let mom = le_word (bslice m len 32); depth = rd_i32 (bslice m (len + 32) 4) in
           if mom = 0 \<or> depth AND 0xffff > nh then (0, 0) else (mom, depth)
      else (0, 0))"

text \<open>A notarisation in output 1, after the tests on its length; the result is \<open>None\<close> for the early return -2.\<close>

definition vout_notarization ::
    "hush_env \<Rightarrow> hush_params \<Rightarrow> chain_view \<Rightarrow> bool \<Rightarrow> bmem \<Rightarrow> nat \<Rightarrow> nat \<Rightarrow> bool \<Rightarrow> int \<Rightarrow> int \<Rightarrow> u64 \<Rightarrow> vout_ctx
      \<Rightarrow> hush_world \<Rightarrow> int option \<times> vout_ctx \<times> hush_world" where
  "vout_notarization E G ch fJustCheck m opretlen opoffset matched height notarized signedmask x w =
     (let offset = (if matched then 68 else 36);
          name = cstr_at m (opoffset + offset);
          notarized = (if \<not> matched \<and> signedmask \<noteq> 0 \<and> bitweight signedmask \<ge> HUSH_MINRATIFY height then 1 else notarized);
          notarized = (if name = ''DPOW'' \<or> name = ''ZPOW'' \<or> name = ''TUSH'' then 1 else notarized);
          srchash = le_word (bslice m opoffset 32);
          nh = rd_i32 (bslice m (opoffset + 32) 4);
          desttxid = le_word (bslice m (opoffset + 36) 32);
          len = opoffset + offset;
          x = x\<lparr>vx_notarizedheight := nh\<rparr>;
          (validated, w) = (if matched then hush_validate_chain G ch srchash nh w else (1, w))
      in if fJustCheck \<and> matched then (None, x, w)
         else if notarized \<noteq> 0 \<and> validated \<noteq> 0
         then
           let len = len + length name + 1;
               (mom, depth) = vout_MoM m len opoffset opretlen nh;
               w = read_fault (vout_read_end G name m len opoffset opretlen) w;
               st = st_get w (hush_stateptr G)
           in (Some (vx_notaryid x), x,
               if matched \<and> nh > NOTARIZED_HEIGHT st \<and> nh < height
               then hush_stateupdate E G (su_none height)
                      (st_upd (hush_stateptr G)
                        (set_notarized nh srchash desttxid
                          (if mom \<noteq> 0 \<and> depth AND 0xffff > 0 then Some (mom, depth) else None)) w)
               else w)
         else (Some (vx_notaryid x), x, w))"

text \<open>The arguments with which an \<open>OP_RETURN\<close> payload goes to the state file.\<close>

definition su_opret :: "int \<Rightarrow> uint256 \<Rightarrow> u64 \<Rightarrow> bmem \<Rightarrow> nat \<Rightarrow> nat \<Rightarrow> int \<Rightarrow> su_args" where
  "su_opret height txhash value m off opretlen j =
     (su_none height)\<lparr>su_txhash := txhash, su_opretvalue := value, su_opretbuf := Some (\<lambda>k. m (off + k)),
       su_opretlen := word_of_nat opretlen, su_vout := word_of_int j\<rparr>"

text \<open>
  The price feed branch of the code (a payload of 149 bytes in output 1) comes after the notarisation branch,
  whose test such a payload passes, so it is never taken.
\<close>

definition vout_opret ::
    "hush_env \<Rightarrow> hush_params \<Rightarrow> chain_view \<Rightarrow> bool \<Rightarrow> bmem \<Rightarrow> int \<Rightarrow> uint256 \<Rightarrow> int \<Rightarrow> int \<Rightarrow> u64 \<Rightarrow> int \<Rightarrow> u64
      \<Rightarrow> vout_ctx \<Rightarrow> hush_world \<Rightarrow> int \<times> vout_ctx \<times> hush_world" where
  "vout_opret E G ch fJustCheck m height txhash i j val notarized signedmask x w =
     (let (opretlen, opoffset) = vout_opretlen m;
          named = (SMART_CHAIN_SYMBOL G \<noteq> []);
          matched = (named \<and> cstr_is m (opoffset + 68) (SMART_CHAIN_SYMBOL G));
          update = hush_stateupdate E G (su_opret height txhash val m opoffset opretlen j)
      in if named \<and> m opoffset = 0x4b then (-1, x, update w)
         else if j = 1 \<and> opretlen \<ge> (if matched then 68 else 36)
         then (case vout_notarization E G ch fJustCheck m opretlen opoffset matched height notarized signedmask x w of
                 (None, x, w) \<Rightarrow> (-2, x, w)
               | (Some nid, x, w) \<Rightarrow> (nid, x, w))
         else if matched
         then
           let x = (if opretlen \<ge> 68 \<and> (\<forall>k<32. m (opoffset + k) = 0) then x\<lparr>vx_isratification := 1\<rparr> else x);
               w = (if vx_isratification x = 0 \<and> (signedmask \<noteq> 0 \<or> m opoffset \<noteq> 0x58 \<and> m opoffset \<noteq> 0x41)
                    then update w else w)
           in (vx_notaryid x, x, w)
         else (vx_notaryid x, x, w))"

definition hush_voutupdate ::
    "hush_env \<Rightarrow> hush_params \<Rightarrow> chain_view \<Rightarrow> bool \<Rightarrow> bmem \<Rightarrow> nat \<Rightarrow> int \<Rightarrow> uint256 \<Rightarrow> int \<Rightarrow> int \<Rightarrow> u64 \<Rightarrow> int \<Rightarrow> u64
      \<Rightarrow> u32 \<Rightarrow> vout_ctx \<Rightarrow> hush_world \<Rightarrow> int \<times> vout_ctx \<times> hush_world" where
  "hush_voutupdate E G ch fJustCheck m scriptlen height txhash i j val notarized signedmask timestamp x w =
     (let (x, w) = vout_pubkey E G ch m scriptlen height i j timestamp x w in
      if m 0 = 0x6a
      then vout_opret E G ch fJustCheck m height txhash i j val notarized signedmask x w
      else (vx_notaryid x, x, w))"

section \<open>Signatures\<close>

text \<open>Transactions as the scan sees them: hash, spent outputs, and scripts with values.\<close>

record tx_out =
  to_scriptPubKey :: buffer
  to_nValue :: u64

record block_tx =
  tx_hash :: uint256
  tx_vin :: "(uint256 \<times> u32) list"
  tx_vout :: "tx_out list"

text \<open>At most \<open>maxsize\<close> bytes of the script of an output; \<open>None\<close> is the return value -1. The transaction
  database is the parameter \<open>GetTransaction\<close>.\<close>

definition gettxout_scriptPubKey ::
    "(uint256 \<Rightarrow> block_tx option) \<Rightarrow> nat \<Rightarrow> uint256 \<Rightarrow> u32 \<Rightarrow> buffer option" where
  "gettxout_scriptPubKey GetTransaction maxsize txid n =
     (case GetTransaction txid of
        None \<Rightarrow> None
      | Some tx \<Rightarrow>
          if unat n < length (tx_vout tx) then Some (take maxsize (to_scriptPubKey (tx_vout tx ! unat n))) else None)"

definition hush_notarycmp :: "buffer \<Rightarrow> pubkey33 list \<Rightarrow> int \<Rightarrow> buffer \<Rightarrow> int" where
  "hush_notarycmp scriptPubKey pubkeys numnotaries rmd160 =
     (if length scriptPubKey = 25 \<and> take 20 (drop 3 scriptPubKey) = rmd160 then 0
      else if length scriptPubKey = 35
      then find_index (\<lambda>k. take 33 (drop 1 scriptPubKey) = k) (take (nat numnotaries) pubkeys) 0
      else -1)"

text \<open>The signed mask after the inputs from number \<open>j\<close> on.\<close>

fun vin_signedmask ::
    "(uint256 \<Rightarrow> block_tx option) \<Rightarrow> pubkey33 list \<Rightarrow> int \<Rightarrow> buffer \<Rightarrow> int \<Rightarrow> int \<Rightarrow> (uint256 \<times> u32) list \<Rightarrow> u64 \<Rightarrow> u64" where
  "vin_signedmask gt pubkeys numnotaries rmd160 i j [] signedmask = signedmask"
| "vin_signedmask gt pubkeys numnotaries rmd160 i j ((hash, n) # vins) signedmask =
     (let k = (if i = 0 \<and> j = 0 then -1
               else case gettxout_scriptPubKey gt 35 hash n of
                   None \<Rightarrow> -1
                 | Some script \<Rightarrow> if script = [] then -1 else hush_notarycmp script pubkeys numnotaries rmd160)
      in vin_signedmask gt pubkeys numnotaries rmd160 i (j + 1) vins
           (if k \<ge> 0 then signedmask OR bit_at k else signedmask))"

definition mask_notarized :: "hush_params \<Rightarrow> int \<Rightarrow> int \<Rightarrow> u64 \<Rightarrow> bool" where
  "mask_notarized G height numnotaries signedmask \<longleftrightarrow>
     (let numvalid = bitweight signedmask in
      (height < 90000 \<or> signedmask AND 1 \<noteq> 0) \<and> numvalid \<ge> HUSH_MINRATIFY height \<or>
      numvalid \<ge> HUSH_MINRATIFY height \<and> SMART_CHAIN_SYMBOL G \<noteq> [] \<or>
      numvalid > c_div numnotaries 5)"

section \<open>One transaction\<close>

text \<open>
  The variables of \<open>hush_connectblock\<close> that survive from one transaction to the next: the local key
  array, which a ratification overwrites, the script buffer with what earlier scripts left in it,
  and the positions of the notarisations found when only checking.
\<close>

record connect_state =
  cb_pubkeys :: "pubkey33 list"
  cb_scriptbuf :: bmem
  cb_notarizations :: "int list"
  cb_world :: hush_world

definition script_fits :: "buffer \<Rightarrow> bool" where
  "script_fits script \<longleftrightarrow> 4 \<le> length script \<and> length script \<le> 10001"

fun connect_vouts ::
    "hush_env \<Rightarrow> hush_params \<Rightarrow> chain_view \<Rightarrow> bool \<Rightarrow> int \<Rightarrow> uint256 \<Rightarrow> int \<Rightarrow> int \<Rightarrow> u64 \<Rightarrow> u32 \<Rightarrow> int \<Rightarrow> tx_out list
      \<Rightarrow> vout_ctx \<Rightarrow> connect_state \<Rightarrow> vout_ctx \<times> connect_state" where
  "connect_vouts E G ch fJustCheck height txhash i notarized signedmask timestamp j [] x s = (x, s)"
| "connect_vouts E G ch fJustCheck height txhash i notarized signedmask timestamp j (vout # vouts) x s =
     (let script = to_scriptPubKey vout in
      if script_fits script
      then
        let m = bmem_of script (cb_scriptbuf s);
            (nid, x, w) = hush_voutupdate E G ch fJustCheck m (length script) height txhash i j (to_nValue vout)
                            notarized signedmask timestamp x (cb_world s);
            s = s\<lparr>cb_scriptbuf := m, cb_world := w,
                  cb_notarizations := cb_notarizations s @ (if fJustCheck \<and> nid = -2 then [i] else [])\<rparr>
        in connect_vouts E G ch fJustCheck height txhash i notarized signedmask timestamp (j + 1) vouts
             (x\<lparr>vx_notaryid := nid\<rparr>) s
      else connect_vouts E G ch fJustCheck height txhash i notarized signedmask timestamp (j + 1) vouts x s)"

text \<open>The keys of a ratification: the pay-to-pubkey outputs between the first and the last.\<close>

definition ratified_keys :: "tx_out list \<Rightarrow> pubkey33 list" where
  "ratified_keys vouts =
     map (\<lambda>v. take 33 (drop 1 (to_scriptPubKey v)))
       (filter (\<lambda>v. length (to_scriptPubKey v) = 35 \<and> to_scriptPubKey v ! 0 = 33 \<and> to_scriptPubKey v ! 34 = 0xac)
         (take (length vouts - 2) (drop 1 vouts)))"

text \<open>
  What the copies into the script buffer leave there: each fitting script of those outputs in turn.
\<close>

definition ratified_scriptbuf :: "tx_out list \<Rightarrow> bmem \<Rightarrow> bmem" where
  "ratified_scriptbuf vouts m =
     fold (\<lambda>v m. if script_fits (to_scriptPubKey v) then bmem_of (to_scriptPubKey v) m else m)
       (take (length vouts - 2) (drop 1 vouts)) m"

definition connect_ratify ::
    "hush_env \<Rightarrow> hush_params \<Rightarrow> int \<Rightarrow> int \<Rightarrow> u64 \<Rightarrow> tx_out list \<Rightarrow> connect_state \<Rightarrow> connect_state" where
  "connect_ratify E G height numnotaries signedmask vouts s =
     (let keys = ratified_keys vouts; numvalid = int (length keys); w = cb_world s;
          w = (if numvalid > 64 then w\<lparr>faulted := True\<rparr> else w);
          w = (if (SMART_CHAIN_SYMBOL G \<noteq> [] \<or> height < 100000) \<and>
                  (signedmask AND 1 \<noteq> 0 \<and> numvalid \<ge> HUSH_MINRATIFY height \<or>
                   bitweight signedmask > c_div numnotaries 3)
               then hush_stateupdate E G ((su_none height)\<lparr>su_notarypubs := Some keys\<rparr>) w else w)
      in s\<lparr>cb_pubkeys := take 64 (keys @ replicate 64 (replicate 33 0)), cb_scriptbuf := ratified_scriptbuf vouts (cb_scriptbuf s),
           cb_world := w\<rparr>)"

definition connect_tx ::
    "hush_env \<Rightarrow> hush_params \<Rightarrow> chain_view \<Rightarrow> (uint256 \<Rightarrow> block_tx option) \<Rightarrow> bool \<Rightarrow> int \<Rightarrow> uint256 \<Rightarrow> int \<Rightarrow> buffer \<Rightarrow> u32
      \<Rightarrow> int \<Rightarrow> block_tx \<Rightarrow> connect_state \<Rightarrow> connect_state" where
  "connect_tx E G ch gt fJustCheck height blockhash numnotaries rmd160 tiptime i tx s =
     (let signedmask = vin_signedmask gt (cb_pubkeys s) numnotaries rmd160 i 0 (tx_vin tx) (if height < 91400 then 1 else 0);
          notarized = mask_notarized G height numnotaries signedmask;
          s = (if notarized \<and> \<not> fJustCheck \<and> SMART_CHAIN_SYMBOL G \<noteq> []
               then s\<lparr>cb_world := (cb_world s)\<lparr>signedmasks_file :=
                        signedmasks_file (cb_world s) @ le_i32 height @ le_bytes 8 signedmask\<rparr>\<rparr> else s);
          simulate = (NETWORK_ID G = ''regtest'' \<and> height mod 7 = 0);
          s = (if simulate
               then s\<lparr>cb_world := st_upd (hush_stateptr G) (set_notarized height blockhash (tx_hash tx) None) (cb_world s)\<rparr>
               else s);
          notarized = (notarized \<or> simulate);
          (x, s) = connect_vouts E G ch fJustCheck height (tx_hash tx) i (if notarized then 1 else 0) signedmask tiptime 0
                     (tx_vout tx)
                     \<lparr>vx_notaryid = -1, vx_isratification = 0, vx_voutmask = 0, vx_specialtx = 0, vx_notarizedheight = 0\<rparr> s
      in if \<not> fJustCheck \<and> notarized \<and> (vx_notarizedheight x \<noteq> 0 \<or> vx_specialtx x \<noteq> 0) \<and>
            vx_specialtx x \<noteq> 0 \<and> vx_isratification x \<noteq> 0 \<and> length (tx_vout tx) > 2
         then connect_ratify E G height numnotaries signedmask (tx_vout tx) s else s)"

fun connect_txs ::
    "hush_env \<Rightarrow> hush_params \<Rightarrow> chain_view \<Rightarrow> (uint256 \<Rightarrow> block_tx option) \<Rightarrow> bool \<Rightarrow> int \<Rightarrow> uint256 \<Rightarrow> int \<Rightarrow> buffer \<Rightarrow> u32
      \<Rightarrow> int \<Rightarrow> block_tx list \<Rightarrow> connect_state \<Rightarrow> connect_state" where
  "connect_txs E G ch gt fJustCheck height blockhash numnotaries rmd160 tiptime i [] s = s"
| "connect_txs E G ch gt fJustCheck height blockhash numnotaries rmd160 tiptime i (tx # txs) s =
     (if \<not> fJustCheck \<and> i > 1 \<and> hd (ASSETCHAINS_NOTARY_PAY G) \<noteq> 0 then s
      else connect_txs E G ch gt fJustCheck height blockhash numnotaries rmd160 tiptime (i + 1) txs
             (connect_tx E G ch gt fJustCheck height blockhash numnotaries rmd160 tiptime i tx s))"

section \<open>One block\<close>

text \<open>The part before the scan: the high-water mark, and the rewind when the block is not above it.\<close>

definition connect_reorg ::
    "hush_env \<Rightarrow> hush_params \<Rightarrow> bool \<Rightarrow> block_index \<Rightarrow> hush_world \<Rightarrow> hush_world" where
  "connect_reorg E G fJustCheck pindex w =
     (let height = bi_height pindex in
      if height > connectblock_hwmheight w then w\<lparr>connectblock_hwmheight := height\<rparr>
      else
        let w = (if height \<noteq> connectblock_hwmheight w
                 then (hush_purge_ccdata G height w)\<lparr>connectblock_hwmheight := height\<rparr> else w)
        in if \<not> fJustCheck
           then hush_stateupdate E G ((su_none height)\<lparr>su_HUSHheight := - height, su_HUSHtimestamp := bi_nTime pindex\<rparr>)
                  (hush_event_rewind G (hush_stateptr G) height w)
           else w)"

text \<open>The value returned when only checking.\<close>

definition justcheck_result :: "int list \<Rightarrow> int" where
  "justcheck_result notarizations = (if notarizations = [] then 0 else if notarizations = [1] then 1 else -1)"

text \<open>
  The whole function; the block index is not null. Without a notary set the key array holds what
  the stack held. The tip of the chain is read without a test.
\<close>

definition hush_connectblock ::
    "hush_env \<Rightarrow> hush_params \<Rightarrow> chain_view \<Rightarrow> (uint256 \<Rightarrow> block_tx option) \<Rightarrow> bool \<Rightarrow> block_index \<Rightarrow> block_tx list \<Rightarrow> hush_world
      \<Rightarrow> int \<times> hush_world" where
  "hush_connectblock E G ch gt fJustCheck pindex vtx w =
     (let height = bi_height pindex;
          w = hush_init E G height w;
          (pubkeys, numnotaries) =
            (case hush_notaries G ch height (bi_nTime pindex) of
               Some ks \<Rightarrow> (ks, int (length ks))
             | None \<Rightarrow> (chunks 33 64 (bslice (stk_local E ''pubkeys'') 0 2112), -1));
          rmd160 = (case calc_rmd160_sha256 (bslice (stk_local E ''md_buf'') 0 64) (pubkeys ! 0) of Some r \<Rightarrow> r | None \<Rightarrow> []);
          w = connect_reorg E G fJustCheck pindex w
      in case chain_LastTip ch of
           None \<Rightarrow> (0, w\<lparr>faulted := True\<rparr>)
         | Some tip \<Rightarrow>
             let w = hush_currentheight_set G (bi_height tip) w;
                 s = connect_txs E G ch gt fJustCheck height (bi_hash pindex) numnotaries rmd160 (bi_nTime tip) 0 vtx
                       \<lparr>cb_pubkeys = pubkeys, cb_scriptbuf = stk_local E ''scriptbuf'', cb_notarizations = [], cb_world = w\<rparr>;
                 w = cb_world s;
                 w = (if \<not> fJustCheck \<and> height = connectblock_hwmheight w
                      then hush_stateupdate E G
                             ((su_none height)\<lparr>su_HUSHheight := height, su_HUSHtimestamp := bi_nTime pindex\<rparr>) w
                      else w)
             in (if fJustCheck then justcheck_result (cb_notarizations s) else 0, w))"

section \<open>The notarised height never falls\<close>

definition notarized_ht :: "hush_params \<Rightarrow> hush_world \<Rightarrow> int" where
  "notarized_ht G w = NOTARIZED_HEIGHT (st_get w (hush_stateptr G))"

text \<open>A step of a node whose state file is open: it stays open and the notarised height does not fall.\<close>

definition nota_le :: "hush_params \<Rightarrow> hush_world \<Rightarrow> hush_world \<Rightarrow> bool" where
  "nota_le G w w' \<longleftrightarrow>
     (states_ok w \<and> state_fp w \<longrightarrow> states_ok w' \<and> state_fp w' \<and> notarized_ht G w \<le> notarized_ht G w')"

named_theorems nota_intros

lemma nota_le_refl [nota_intros, simp]: "nota_le G w w"
  by (simp add: nota_le_def)

lemma nota_le_trans [trans]: "nota_le G w w' \<Longrightarrow> nota_le G w' w'' \<Longrightarrow> nota_le G w w''"
  by (auto simp: nota_le_def)

lemma nota_le_same_states:
  "HUSH_STATES w' = HUSH_STATES w \<Longrightarrow> state_fp w' = state_fp w \<Longrightarrow> nota_le G w w'"
  by (simp add: nota_le_def states_ok_def notarized_ht_def st_get_def)

text \<open>What a call of \<open>hush_stateupdate\<close> does to the notarisation fields: nothing.\<close>

lemma st_upd_fp [simp]: "state_fp (st_upd sp f w) = state_fp w"
  by (simp add: st_upd_def)

lemma eventadd_fp [simp]: "state_fp (hush_eventadd G sp h s ty d w) = state_fp w"
  by (simp add: hush_eventadd_def Let_def)

lemma rewind_fp [simp]: "state_fp (hush_event_rewind G sp h w) = state_fp w"
  by (simp add: hush_event_rewind_def Let_def)

lemma notarysinit_fp [simp]: "state_fp (hush_notarysinit h ks w) = state_fp w"
  by (simp add: hush_notarysinit_def Let_def)

lemma kvupdate_fp [simp]: "state_fp (hush_kvupdate c G m n v w) = state_fp w"
  using set_files_kvupdate [of c G m n v "hushstate_file w" "hushstate_ind w" "state_fp w" w]
  unfolding set_files_own by (metis set_files_sel(3))

lemma opreturn_fp: "plain_chain G \<Longrightarrow> state_fp (hush_eventadd_opreturn E G sp s h t v vo m n w) = state_fp w"
  by (simp add: hush_eventadd_opreturn_def hush_opreturn_def plain_chain_def Let_def)

lemma hushheight_fp [simp]: "state_fp (hush_eventadd_hushheight G sp s h k t w) = state_fp w"
  by (simp add: hush_eventadd_hushheight_def)

lemma notarized_fp [simp]: "state_fp (hush_eventadd_notarized E G sp s h d hash txid nh m dp w) = state_fp w"
  by (simp add: hush_eventadd_notarized_def Let_def)

lemma pubkeys_fp [simp]: "state_fp (hush_eventadd_pubkeys G sp s h ks w) = state_fp w"
  by (simp add: hush_eventadd_pubkeys_def Let_def)

lemma pricefeed_fp [simp]: "state_fp (hush_eventadd_pricefeed G sp s h ps w) = state_fp w"
  by (simp add: hush_eventadd_pricefeed_def)

text \<open>The record of a notarisation repeats the stored one.\<close>

lemma notarized_again:
  fixes G
  assumes "states_ok w"
  defines "st \<equiv> st_get w (hush_stateptr G)"
  shows "states_ok (hush_eventadd_notarized E G (hush_stateptr G) s h d hash txid (NOTARIZED_HEIGHT st) (MoM st) (MoMdepth st) w) \<and>
     mom_of G (hush_eventadd_notarized E G (hush_stateptr G) s h d hash txid (NOTARIZED_HEIGHT st) (MoM st) (MoMdepth st) w) = mom_of G w"
proof -
  let ?v = "hush_eventadd G (hush_stateptr G) h s HUSH_EVENT_NOTARIZED
      (notarized_bytes hash txid (MoM st) (NOTARIZED_HEIGHT st) (MoMdepth st) d) w"
  have "states_ok ?v" and v: "mom_of G ?v = mom_of G w"
    using keeps_mom_eventadd assms(1) unfolding keeps_mom_def by blast+
  then have "mom_of G (st_upd (hush_stateptr G)
      (hush_notarized_update h (NOTARIZED_HEIGHT st) hash txid (MoM st) (MoMdepth st)) ?v) = mom_of G w"
    by (auto simp: mom_of_def Let_def st_def hush_notarized_update_def)
  then show ?thesis using \<open>states_ok ?v\<close> assms(1) by (auto simp: hush_eventadd_notarized_def Let_def)
qed

lemma stateupdate_write_keeps:
  assumes "plain_chain G" and "states_ok w"
  shows "states_ok (snd (stateupdate_write E G a w)) \<and> mom_of G (snd (stateupdate_write E G a w)) = mom_of G w"
proof -
  have k: "states_ok (f w) \<and> mom_of G (f w) = mom_of G w" if "keeps_mom G f" for f
    using that assms(2) by (simp add: keeps_mom_def)
  note ks = k [OF keeps_mom_hushheight] k [OF keeps_mom_opreturn [OF assms(1)]] k [OF keeps_mom_pubkeys]
    k [OF keeps_mom_pricefeed] notarized_again [OF assms(2)]
  show ?thesis using ks assms(2) unfolding stateupdate_write_def Let_def by (simp split: if_split)
qed

lemma stateupdate_write_fp: "plain_chain G \<Longrightarrow> state_fp (snd (stateupdate_write E G a w)) = state_fp w"
  by (simp add: stateupdate_write_def Let_def opreturn_fp)

lemma stateupdate_keeps:
  assumes "plain_chain G" and "states_ok w" and "state_fp w"
  shows "states_ok (hush_stateupdate E G a w) \<and> state_fp (hush_stateupdate E G a w) \<and>
     mom_of G (hush_stateupdate E G a w) = mom_of G w"
proof -
  have "stateupdate_open E G w = w" using assms(3) by (simp add: stateupdate_open_def)
  moreover have "states_ok (v\<lparr>hushstate_file := x\<rparr>) = states_ok v" "mom_of G (v\<lparr>hushstate_file := x\<rparr>) = mom_of G v" for v x
    by (simp_all add: states_ok_def mom_of_def st_get_def)
  ultimately show ?thesis
    using stateupdate_write_keeps [OF assms(1,2)] stateupdate_write_fp [OF assms(1)] assms(3)
    by (simp add: hush_stateupdate_def case_prod_unfold Let_def)
qed

lemma notarized_ht_mom: "notarized_ht G w = fst (mom_of G w)"
  by (simp add: notarized_ht_def mom_of_def Let_def)

lemma nota_le_stateupdate: "plain_chain G \<Longrightarrow> nota_le G w (hush_stateupdate E G a w)"
  unfolding nota_le_def using stateupdate_keeps by (auto simp: notarized_ht_mom)

lemma nota_le_init: "plain_chain G \<Longrightarrow> nota_le G w (hush_init E G h w)"
proof -
  assume G: "plain_chain G"
  let ?v = "(if h \<ge> 0 then hush_notarysinit 0 (genesis_pubkeys Notaries_genesis) w else w)\<lparr>init_didinit := True\<rparr>"
  have "nota_le G w ?v" by (rule nota_le_same_states) (simp_all add: hush_notarysinit_def Let_def)
  also have "nota_le G ?v (hush_stateupdate E G (su_none 0) ?v)" using G by (rule nota_le_stateupdate)
  finally show ?thesis by (simp add: hush_init_def Let_def)
qed

lemma nota_le_faulted: "nota_le G w w' \<Longrightarrow> nota_le G w (w'\<lparr>faulted := True\<rparr>)"
  by (erule nota_le_trans) (rule nota_le_same_states; simp)

lemma nota_le_chosennotary:
  assumes "plain_chain G"
  shows "nota_le G w (snd (hush_chosennotary (hush_init E G 0) G ch h key t w))"
proof -
  have "nota_le G w (if Pubkeys w = None then hush_init E G 0 w else w)" using nota_le_init [OF assms] by simp
  then show ?thesis
    unfolding hush_chosennotary_def Let_def
    by (auto simp: case_prod_unfold nota_le_faulted split: option.splits)
qed

lemma validate_chain_frame:
  "HUSH_STATES (snd (hush_validate_chain G ch src nh w)) = HUSH_STATES w"
  "state_fp (snd (hush_validate_chain G ch src nh w)) = state_fp w"
  "hushstate_file (snd (hush_validate_chain G ch src nh w)) = hushstate_file w"
  by (simp_all add: hush_validate_chain_def Let_def)

lemma nota_le_vout_pubkey:
  assumes "plain_chain G"
  shows "nota_le G w (snd (vout_pubkey E G ch m n h i j t x w))"
proof -
  let ?w = "if i = 0 \<and> j = 0 \<and> NOTARY_PUBKEY33 G = bslice m 1 33 \<and> IS_HUSH_NOTARY G \<noteq> 0
      then w\<lparr>prevHUSH_LASTMINED := HUSH_LASTMINED w, HUSH_LASTMINED := h\<rparr> else w"
  have 1: "nota_le G w ?w" by (rule nota_le_same_states) simp_all
  also have "nota_le G ?w (snd (hush_chosennotary (hush_init E G 0) G ch h (bslice m 1 33) t ?w))"
    using assms by (rule nota_le_chosennotary)
  finally show ?thesis using 1 by (simp add: vout_pubkey_def Let_def case_prod_unfold)
qed

lemma set_notarized_ht [simp]: "NOTARIZED_HEIGHT (set_notarized nh hash txid m st) = nh"
  by (simp add: set_notarized_def Let_def split: option.split)

lemma read_fault_frame [simp]:
  "HUSH_STATES (read_fault k w) = HUSH_STATES w" "state_fp (read_fault k w) = state_fp w"
  "hushstate_file (read_fault k w) = hushstate_file w" "states_ok (read_fault k w) = states_ok w"
  "st_get (read_fault k w) sp = st_get w sp" "notarized_ht G (read_fault k w) = notarized_ht G w"
  by (simp_all add: read_fault_def states_ok_def st_get_def notarized_ht_def)

lemma nota_le_vout_notarization:
  assumes "plain_chain G"
  shows "nota_le G w (snd (snd (vout_notarization E G ch c m ol oo mt h n sm x w)))"
proof -
  define v where "v = (if mt then hush_validate_chain G ch (le_word (bslice m oo 32)) (rd_i32 (bslice m (oo + 32) 4)) w else (1, w))"
  have 1: "nota_le G w (snd v)" "nota_le G w (read_fault k (snd v))" for k
    by (rule nota_le_same_states; simp add: v_def validate_chain_frame)+
  have 2: "nota_le G u (hush_stateupdate E G a (st_upd (hush_stateptr G) (set_notarized nh hash txid q) u))"
    if "NOTARIZED_HEIGHT (st_get u (hush_stateptr G)) < nh" for a nh hash txid q u
  proof -
    have "nota_le G u (st_upd (hush_stateptr G) (set_notarized nh hash txid q) u)"
      using that by (simp add: nota_le_def notarized_ht_def)
    also have "nota_le G \<dots> (hush_stateupdate E G a (st_upd (hush_stateptr G) (set_notarized nh hash txid q) u))"
      using assms by (rule nota_le_stateupdate)
    finally show ?thesis .
  qed
  show ?thesis
    unfolding vout_notarization_def Let_def v_def [symmetric]
    using 1 nota_le_trans [OF 1(2) 2] by (auto simp: case_prod_unfold)
qed

lemma nota_le_voutupdate:
  assumes "plain_chain G"
  shows "nota_le G w (snd (snd (hush_voutupdate E G ch c m n h tx i j val nz sm t x w)))"
proof -
  have o: "nota_le G v (snd (snd (vout_opret E G ch c m h tx i j val nz sm y v)))" for y v
    using nota_le_stateupdate [OF assms, of v E] nota_le_vout_notarization [OF assms, of v E ch c m]
    unfolding vout_opret_def Let_def by (auto simp: case_prod_unfold split: option.split)
  show ?thesis
    using nota_le_trans [OF nota_le_vout_pubkey [OF assms] o] nota_le_vout_pubkey [OF assms]
    unfolding hush_voutupdate_def by (auto simp: case_prod_unfold Let_def)
qed

lemma nota_le_connect_vouts:
  assumes "plain_chain G"
  shows "nota_le G (cb_world s) (cb_world (snd (connect_vouts E G ch c h tx i nz sm t j vouts x s)))"
proof (induction vouts arbitrary: j x s)
  case (Cons v vouts)
  show ?case
    using Cons.IH nota_le_trans [OF nota_le_voutupdate [OF assms] Cons.IH [where s = "s\<lparr>cb_scriptbuf := _, cb_world := _, cb_notarizations := _\<rparr>", simplified]]
    by (simp add: Let_def case_prod_unfold)
qed simp

lemma nota_le_connect_ratify:
  assumes "plain_chain G"
  shows "nota_le G (cb_world s) (cb_world (connect_ratify E G h nn sm vouts s))"
  using nota_le_stateupdate [OF assms] nota_le_trans [OF nota_le_faulted [OF nota_le_refl] nota_le_stateupdate [OF assms]]
  by (simp add: connect_ratify_def Let_def nota_le_faulted)

lemma nota_le_connect_tx:
  assumes "plain_chain G" and "NETWORK_ID G \<noteq> ''regtest''"
  shows "nota_le G (cb_world s) (cb_world (connect_tx E G ch gt c h bh nn rmd tt i tx s))"
proof -
  define sm where "sm = vin_signedmask gt (cb_pubkeys s) nn rmd i 0 (tx_vin tx) (if h < 91400 then 1 else 0)"
  define s1 where "s1 = (if mask_notarized G h nn sm \<and> \<not> c \<and> SMART_CHAIN_SYMBOL G \<noteq> []
      then s\<lparr>cb_world := (cb_world s)\<lparr>signedmasks_file := signedmasks_file (cb_world s) @ le_i32 h @ le_bytes 8 sm\<rparr>\<rparr> else s)"
  define r where "r = connect_vouts E G ch c h (tx_hash tx) i (if mask_notarized G h nn sm then 1 else 0) sm tt 0 (tx_vout tx)
      \<lparr>vx_notaryid = -1, vx_isratification = 0, vx_voutmask = 0, vx_specialtx = 0, vx_notarizedheight = 0\<rparr> s1"
  have "nota_le G (cb_world s) (cb_world s1)" by (rule nota_le_same_states) (simp_all add: s1_def)
  also have "nota_le G (cb_world s1) (cb_world (snd r))" unfolding r_def by (rule nota_le_connect_vouts [OF assms(1)])
  finally have 1: "nota_le G (cb_world s) (cb_world (snd r))" .
  have eq: "connect_tx E G ch gt c h bh nn rmd tt i tx s =
      (if \<not> c \<and> mask_notarized G h nn sm \<and> (vx_notarizedheight (fst r) \<noteq> 0 \<or> vx_specialtx (fst r) \<noteq> 0) \<and>
          vx_specialtx (fst r) \<noteq> 0 \<and> vx_isratification (fst r) \<noteq> 0 \<and> length (tx_vout tx) > 2
       then connect_ratify E G h nn sm (tx_vout tx) (snd r) else snd r)"
  proof -
    have sim: "(NETWORK_ID G = ''regtest'' \<and> h mod 7 = 0) = False" using assms(2) by simp
    show ?thesis
      unfolding connect_tx_def Let_def sm_def [symmetric] s1_def [symmetric] sim if_False simp_thms
        case_prod_unfold r_def [symmetric] by simp
  qed
  show ?thesis unfolding eq using 1 nota_le_trans [OF 1 nota_le_connect_ratify [OF assms(1)]] by simp
qed

lemma nota_le_connect_txs:
  assumes "plain_chain G" and "NETWORK_ID G \<noteq> ''regtest''"
  shows "nota_le G (cb_world s) (cb_world (connect_txs E G ch gt c h bh nn rmd tt i txs s))"
proof (induction txs arbitrary: i s)
  case (Cons tx txs)
  show ?case using nota_le_trans [OF nota_le_connect_tx [OF assms] Cons.IH] by simp
qed simp

lemma nota_le_connect_reorg:
  assumes "plain_chain G"
  shows "nota_le G w (connect_reorg E G c p w)"
proof -
  let ?v = "if bi_height p \<noteq> connectblock_hwmheight w
      then (hush_purge_ccdata G (bi_height p) w)\<lparr>connectblock_hwmheight := bi_height p\<rparr> else w"
  have 1: "nota_le G w ?v"
    by (rule nota_le_same_states) (simp_all add: hush_purge_ccdata_def)
  have "nota_le G v (hush_event_rewind G (hush_stateptr G) h v)" for v h
    using keeps_mom_rewind [of G h] by (auto simp: nota_le_def keeps_mom_def notarized_ht_mom)
  note 2 = nota_le_trans [OF 1 nota_le_trans [OF this nota_le_stateupdate [OF assms]]]
  have 3: "nota_le G w (w\<lparr>connectblock_hwmheight := k\<rparr>)" for k by (rule nota_le_same_states) simp_all
  show ?thesis unfolding connect_reorg_def Let_def using 1 2 3 by simp
qed

lemma nota_le_connectblock:
  assumes "plain_chain G" and "NETWORK_ID G \<noteq> ''regtest''"
  shows "nota_le G w (snd (hush_connectblock E G ch gt c p vtx w))"
proof -
  let ?v = "connect_reorg E G c p (hush_init E G (bi_height p) w)"
  have 1: "nota_le G w ?v" using nota_le_init [OF assms(1)] nota_le_connect_reorg [OF assms(1)] by (rule nota_le_trans)
  have "nota_le G ?v (hush_currentheight_set G k ?v)" for k
    by (simp add: nota_le_def notarized_ht_def hush_currentheight_set_def)
  note 2 = nota_le_trans [OF 1 this]
  have 3: "nota_le G u (cb_world (connect_txs E G ch gt c h bh nn rmd tt 0 vtx
      \<lparr>cb_pubkeys = pk, cb_scriptbuf = sb, cb_notarizations = [], cb_world = u\<rparr>))" for u h bh nn rmd tt pk sb
    using nota_le_connect_txs [OF assms, of "\<lparr>cb_pubkeys = pk, cb_scriptbuf = sb, cb_notarizations = [], cb_world = u\<rparr>"] by simp
  note 4 = nota_le_trans [OF 2 3]
  show ?thesis
    unfolding hush_connectblock_def Let_def
    using nota_le_faulted [OF 1] 4 nota_le_trans [OF 4 nota_le_stateupdate [OF assms(1)]]
    by (auto simp: case_prod_unfold split: option.split)
qed

section \<open>What is accepted\<close>

text \<open>An output that is not a notarisation leaves the notarisation fields alone.\<close>

lemma vout_pubkey_mom:
  assumes "plain_chain G" and "states_ok w" and "state_fp w"
  shows "states_ok (snd (vout_pubkey E G ch m n h i j t x w)) \<and> state_fp (snd (vout_pubkey E G ch m n h i j t x w)) \<and>
     mom_of G (snd (vout_pubkey E G ch m n h i j t x w)) = mom_of G w"
proof -
  have same: "states_ok v' \<and> state_fp v' \<and> mom_of G v' = mom_of G w"
    if "HUSH_STATES v' = HUSH_STATES w" "state_fp v' = state_fp w" for v'
    using that assms by (simp add: states_ok_def mom_of_def st_get_def)
  have init: "states_ok (hush_init E G k v) \<and> state_fp (hush_init E G k v) \<and> mom_of G (hush_init E G k v) = mom_of G v"
    if "states_ok v" "state_fp v" for k v
  proof -
    let ?u = "(if k \<ge> 0 then hush_notarysinit 0 (genesis_pubkeys Notaries_genesis) v else v)\<lparr>init_didinit := True\<rparr>"
    have u: "states_ok ?u" "state_fp ?u" "mom_of G ?u = mom_of G v"
      using that by (simp_all add: states_ok_def mom_of_def st_get_def hush_notarysinit_def Let_def)
    show ?thesis using stateupdate_keeps [OF assms(1) u(1,2)] u(3) that by (simp add: hush_init_def Let_def)
  qed
  have chosen: "states_ok (snd (hush_chosennotary (hush_init E G 0) G ch h key t v)) \<and>
      state_fp (snd (hush_chosennotary (hush_init E G 0) G ch h key t v)) \<and>
      mom_of G (snd (hush_chosennotary (hush_init E G 0) G ch h key t v)) = mom_of G v"
    if "states_ok v" "state_fp v" for key v
  proof -
    have "states_ok u \<and> state_fp u \<and> mom_of G u = mom_of G v" if "u = (if Pubkeys v = None then hush_init E G 0 v else v)" for u
      using that init [OF \<open>states_ok v\<close> \<open>state_fp v\<close>] \<open>states_ok v\<close> \<open>state_fp v\<close> by simp
    moreover have "mom_of G (u\<lparr>faulted := True\<rparr>) = mom_of G u" for u by (simp add: mom_of_def)
    ultimately show ?thesis using that
      unfolding hush_chosennotary_def Let_def by (auto simp: case_prod_unfold split: option.splits)
  qed
  let ?w = "if i = 0 \<and> j = 0 \<and> NOTARY_PUBKEY33 G = bslice m 1 33 \<and> IS_HUSH_NOTARY G \<noteq> 0
      then w\<lparr>prevHUSH_LASTMINED := HUSH_LASTMINED w, HUSH_LASTMINED := h\<rparr> else w"
  have 1: "states_ok ?w \<and> state_fp ?w \<and> mom_of G ?w = mom_of G w" by (rule same) simp_all
  show ?thesis using 1 chosen [of ?w "bslice m 1 33"] assms
    by (simp add: vout_pubkey_def Let_def case_prod_unfold)
qed

lemma notarized_ht_stored:
  assumes "plain_chain G" and "states_ok v" and "state_fp v"
  shows "notarized_ht G (hush_stateupdate E G a (st_upd (hush_stateptr G) (set_notarized nh hash txid q) v)) = nh"
proof -
  let ?u = "st_upd (hush_stateptr G) (set_notarized nh hash txid q) v"
  have "states_ok ?u" "state_fp ?u" using assms by simp_all
  then have "mom_of G (hush_stateupdate E G a ?u) = mom_of G ?u" using stateupdate_keeps [OF assms(1)] by blast
  then show ?thesis using assms(2) by (simp add: notarized_ht_mom) (simp add: mom_of_def Let_def)
qed

lemma vout_notarization_accepts:
  assumes G: "plain_chain G" and ok: "states_ok w" "state_fp w"
    and w': "w' = snd (snd (vout_notarization E G ch c m ol oo mt h nz sm x w))"
    and new: "notarized_ht G w' \<noteq> notarized_ht G w"
  shows "\<not> c \<and> mt \<and> notarized_ht G w < notarized_ht G w' \<and> notarized_ht G w' < h \<and>
     notarized_ht G w' = rd_i32 (bslice m (oo + 32) 4) \<and>
     (nz \<noteq> 0 \<or> cstr_at m (oo + 68) \<in> {''DPOW'', ''ZPOW'', ''TUSH''}) \<and>
     (IsInitialBlockDownload ch \<or>
      (\<exists>b. hush_getblockindex ch (le_word (bslice m oo 32)) = Some b \<and> bi_height b = notarized_ht G w'))"
proof -
  define nh where "nh = rd_i32 (bslice m (oo + 32) 4)"
  define src :: uint256 where "src = le_word (bslice m oo 32)"
  define v where "v = (if mt then hush_validate_chain G ch src nh w else (1, w))"
  have v: "HUSH_STATES (snd v) = HUSH_STATES w" "state_fp (snd v) = state_fp w"
    by (simp_all add: v_def validate_chain_frame)
  then have vw: "notarized_ht G (snd v) = notarized_ht G w" "states_ok (snd v)"
    using ok by (simp_all add: notarized_ht_def st_get_def states_ok_def)
  define u where "u = read_fault (vout_read_end G (cstr_at m (oo + (if mt then 68 else 36))) m
      (oo + (if mt then 68 else 36) + length (cstr_at m (oo + (if mt then 68 else 36))) + 1) oo ol) (snd v)"
  have acc: "notarized_ht G (hush_stateupdate E G a (st_upd (hush_stateptr G) (set_notarized nh hash txid q) u)) = nh" for a hash txid q
    by (rule notarized_ht_stored) (use G vw v ok in \<open>simp_all add: u_def\<close>)
  have u: "notarized_ht G u = notarized_ht G (snd v)" by (simp add: u_def)
  then have uh: "NOTARIZED_HEIGHT (st_get u (hush_stateptr G)) = notarized_ht G (snd v)" by (simp add: notarized_ht_def)
  have cases: "w' = snd v \<or> w' = u \<or> (\<not> c \<and> mt \<and> nh > notarized_ht G (snd v) \<and> nh < h \<and> fst v \<noteq> 0 \<and>
      (nz \<noteq> 0 \<or> cstr_at m (oo + 68) \<in> {''DPOW'', ''ZPOW'', ''TUSH''}) \<and>
      (\<exists>a hash txid q. w' = hush_stateupdate E G a (st_upd (hush_stateptr G) (set_notarized nh hash txid q) u)))"
    unfolding w' vout_notarization_def Let_def nh_def [symmetric] src_def [symmetric] v_def [symmetric] case_prod_unfold
      u_def [symmetric] uh
    by auto
  moreover have "w' \<noteq> snd v" "w' \<noteq> u" using new vw u by auto
  ultimately have 1: "\<not> c" "mt" "nh > notarized_ht G (snd v)" "nh < h" "fst v \<noteq> 0"
      "nz \<noteq> 0 \<or> cstr_at m (oo + 68) \<in> {''DPOW'', ''ZPOW'', ''TUSH''}"
    and 2: "notarized_ht G w' = nh" using acc by auto
  have "IsInitialBlockDownload ch \<or> (\<exists>b. hush_getblockindex ch src = Some b \<and> bi_height b = nh)"
    using 1(2,5) by (auto simp: v_def hush_validate_chain_def Let_def split: option.splits if_splits)
  then show ?thesis using 1 2 vw by (simp add: nh_def src_def)
qed

text \<open>Recognising the notary of an output leaves the per-chain states alone.\<close>

lemma init_states: "state_fp w \<Longrightarrow> HUSH_STATES (hush_init E G k w) = HUSH_STATES w"
  by (simp add: hush_init_def hush_stateupdate_def stateupdate_open_def stateupdate_write_def hush_notarysinit_def Let_def su_none_def)

lemma chosennotary_states: "state_fp w \<Longrightarrow> HUSH_STATES (snd (hush_chosennotary (hush_init E G 0) G ch h key t w)) = HUSH_STATES w"
  unfolding hush_chosennotary_def Let_def by (auto simp: case_prod_unfold init_states split: option.splits)

lemma vout_pubkey_states: "state_fp w \<Longrightarrow> HUSH_STATES (snd (vout_pubkey E G ch m n h i j t x w)) = HUSH_STATES w"
  by (simp add: vout_pubkey_def Let_def case_prod_unfold chosennotary_states)

text \<open>An output that changes the notarised height does so in the notarisation branch, from the same states.\<close>

lemma voutupdate_notarization:
  assumes G: "plain_chain G" and ok: "states_ok w" "state_fp w"
    and run: "hush_voutupdate E G ch c m n h tx i j val nz sm t x w = (nid, x', w')"
    and new: "notarized_ht G w' \<noteq> notarized_ht G w" and pos: "vout_opretlen m = (ol, off)"
  obtains y v where "HUSH_STATES v = HUSH_STATES w" and "states_ok v" and "state_fp v" and "notarized_ht G v = notarized_ht G w"
    and "m 0 = 0x6a" and "j = 1" and "w' = snd (snd (vout_notarization E G ch c m ol off
      (SMART_CHAIN_SYMBOL G \<noteq> [] \<and> cstr_is m (off + 68) (SMART_CHAIN_SYMBOL G)) h nz sm y v))"
proof -
  obtain y v where yv: "vout_pubkey E G ch m n h i j t x w = (y, v)" by fastforce
  have v: "HUSH_STATES v = HUSH_STATES w" "states_ok v" "state_fp v" "notarized_ht G v = notarized_ht G w"
    using vout_pubkey_mom [OF G ok, of E ch m n h i j t x] vout_pubkey_states [OF ok(2), of E G ch m n h i j t x] yv
    by (simp_all add: notarized_ht_mom)
  have up: "notarized_ht G (hush_stateupdate E G a v) = notarized_ht G v" for a
    using stateupdate_keeps [OF G v(2,3)] by (simp add: notarized_ht_mom)
  define mt where "mt = (SMART_CHAIN_SYMBOL G \<noteq> [] \<and> cstr_is m (off + 68) (SMART_CHAIN_SYMBOL G))"
  have m0: "m 0 = 0x6a" and w': "w' = snd (snd (vout_opret E G ch c m h tx i j val nz sm y v))"
    using run new v yv by (auto simp: hush_voutupdate_def split: if_splits)
  have "j = 1 \<and> w' = snd (snd (vout_notarization E G ch c m ol off mt h nz sm y v))"
    using new v(4) up unfolding w' vout_opret_def pos Let_def prod.case mt_def [symmetric]
    by (auto simp: case_prod_unfold split: option.splits if_splits)
  then show ?thesis using that v m0 unfolding mt_def by blast
qed

text \<open>
  What touches the notarised height while a node runs: \<open>hush_connectblock\<close>, for blocks that are connected or only checked and on reorganisations, and
  \<open>hush_notarized_height\<close>, which is called by \<open>DisconnectTip\<close>, \<open>ActivateBestChainStep\<close>, the check of fork heights and several RPCs, and which forgets the
  notarisation when its block is not in the block index.
\<close>

datatype node_op =
    Op_connect chain_view "uint256 \<Rightarrow> block_tx option" bool block_index "block_tx list"
  | Op_query chain_view

fun node_step :: "hush_env \<Rightarrow> hush_params \<Rightarrow> node_op \<Rightarrow> hush_world \<Rightarrow> hush_world" where
  "node_step E G (Op_connect ch gt fJustCheck pindex vtx) w = snd (hush_connectblock E G ch gt fJustCheck pindex vtx w)"
| "node_step E G (Op_query ch) w = snd (hush_notarized_height G ch w)"

fun no_orphan :: "hush_env \<Rightarrow> hush_params \<Rightarrow> node_op list \<Rightarrow> hush_world \<Rightarrow> bool" where
  "no_orphan E G [] w = True"
| "no_orphan E G (op # ops) w = ((case op of Op_query ch \<Rightarrow> \<not> orphaned G ch w | _ \<Rightarrow> True) \<and> no_orphan E G ops (node_step E G op w))"

lemma node_step_nota_le:
  assumes "plain_chain G" "NETWORK_ID G \<noteq> ''regtest''" "case op of Op_query ch \<Rightarrow> \<not> orphaned G ch w | _ \<Rightarrow> True"
  shows "nota_le G w (node_step E G op w)"
proof (cases op)
  case (Op_connect ch gt c p vtx)
  then show ?thesis using nota_le_connectblock [OF assms(1,2), of w E ch gt c p vtx] by simp
next
  case (Op_query ch)
  then show ?thesis using assms(3) by (simp add: notarized_query)
qed

lemma node_step_ok:
  assumes "plain_chain G" "NETWORK_ID G \<noteq> ''regtest''" "states_ok w" "state_fp w"
  shows "states_ok (node_step E G op w) \<and> state_fp (node_step E G op w)"
proof (cases op)
  case (Op_connect ch gt c p vtx)
  then have "nota_le G w (node_step E G op w)" using assms(1,2) by (intro node_step_nota_le) simp_all
  then show ?thesis using assms(3,4) by (simp add: nota_le_def)
next
  case (Op_query ch)
  then show ?thesis using assms(3,4) by (simp add: notarized_query)
qed

section \<open>Properties\<close>

text \<open>C2 dPoW safety: after any sequence of connected, checked and reorganised blocks and queries of the notarised height, on any views of the block tree, a further step lowers
  the notarised height in one case only: a query that does not find the notarised block in the block index, which forgets the notarisation (height and hash become zero). As
  long as no query misses the notarised block, the height never falls. The chain is a plain one (\<open>plain_chain\<close>), not regtest with its simulated notarisations, and the state file is open.\<close>
theorem notarized_falls_only_orphaned:
  assumes "plain_chain G" and "NETWORK_ID G \<noteq> ''regtest''" and "states_ok w" and "state_fp w"
    and "w1 = fold (node_step E G) ops w" and "w2 = node_step E G op w1"
  shows "(notarized_ht G w2 < notarized_ht G w1 \<longrightarrow>
      (\<exists>ch. op = Op_query ch \<and> orphaned G ch w1 \<and> notarized_ht G w2 = 0 \<and> NOTARIZED_HASH (st_get w2 (hush_stateptr G)) = 0)) \<and>
    (no_orphan E G ops w \<longrightarrow> notarized_ht G w \<le> notarized_ht G w1)"
proof -
  have run: "states_ok (fold (node_step E G) ops w) \<and> state_fp (fold (node_step E G) ops w) \<and>
      (no_orphan E G ops w \<longrightarrow> notarized_ht G w \<le> notarized_ht G (fold (node_step E G) ops w))"
    using assms(3,4)
  proof (induction ops arbitrary: w)
    case (Cons op ops)
    have ok: "states_ok (node_step E G op w)" "state_fp (node_step E G op w)"
      using node_step_ok [OF assms(1,2) Cons.prems] by blast+
    have "notarized_ht G w \<le> notarized_ht G (node_step E G op w)" if "case op of Op_query ch \<Rightarrow> \<not> orphaned G ch w | _ \<Rightarrow> True"
      using node_step_nota_le [OF assms(1,2) that, of E] Cons.prems by (simp add: nota_le_def)
    then show ?case
      using Cons.IH [OF ok] by (simp del: node_step.simps) linarith
  qed simp
  then have w1: "states_ok w1" "state_fp w1" "no_orphan E G ops w \<longrightarrow> notarized_ht G w \<le> notarized_ht G w1"
    unfolding assms(5) by blast+
  have "\<exists>ch. op = Op_query ch \<and> orphaned G ch w1 \<and> notarized_ht G w2 = 0 \<and> NOTARIZED_HASH (st_get w2 (hush_stateptr G)) = 0"
    if "notarized_ht G w2 < notarized_ht G w1"
  proof -
    have "\<not> (case op of Op_query ch \<Rightarrow> \<not> orphaned G ch w1 | _ \<Rightarrow> True)"
      using node_step_nota_le [OF assms(1,2), where op = op and w = w1 and E = E] that w1(1,2) unfolding assms(6) nota_le_def by linarith
    then obtain ch where "op = Op_query ch" "orphaned G ch w1"
      by (cases op) auto
    moreover have "st_get w2 (hush_stateptr G) =
        (st_get w1 (hush_stateptr G))\<lparr>NOTARIZED_HASH := 0, NOTARIZED_DESTTXID := 0, NOTARIZED_HEIGHT := 0\<rparr>"
      using calculation w1(1) unfolding assms(6) by (simp add: notarized_query)
    ultimately show ?thesis
      by (simp add: notarized_ht_def)
  qed
  then show ?thesis
    using w1(3) by blast
qed

text \<open>C3 Acceptance: when an output changes the notarised height, it is the second output of a transaction that is
  really being connected, an \<open>OP_RETURN\<close> that carries this chain's name; the new height is the one in the
  payload, above the old one and below the block; the transaction was judged notarised (or the name is one of the
  three test names); and outside the initial download the payload names a known block of exactly that height.\<close>
theorem notarization_accepted:
  assumes G: "plain_chain G" and ok: "states_ok w" "state_fp w"
    and run: "hush_voutupdate E G ch c m n h tx i j val nz sm t x w = (nid, x', w')"
    and new: "notarized_ht G w' \<noteq> notarized_ht G w"
    and pos: "vout_opretlen m = (opretlen, off)"
  shows "\<not> c \<and> j = 1 \<and> m 0 = 0x6a \<and> cstr_is m (off + 68) (SMART_CHAIN_SYMBOL G) \<and>
     notarized_ht G w < notarized_ht G w' \<and> notarized_ht G w' < h \<and>
     notarized_ht G w' = rd_i32 (bslice m (off + 32) 4) \<and>
     (nz \<noteq> 0 \<or> cstr_at m (off + 68) \<in> {''DPOW'', ''ZPOW'', ''TUSH''}) \<and>
     (IsInitialBlockDownload ch \<or>
      (\<exists>b. hush_getblockindex ch (le_word (bslice m off 32)) = Some b \<and> bi_height b = notarized_ht G w'))"
proof -
  from voutupdate_notarization [OF G ok run new pos] obtain y v where
    v: "states_ok v" "state_fp v" "notarized_ht G v = notarized_ht G w" "m 0 = 0x6a" "j = 1" and
    w': "w' = snd (snd (vout_notarization E G ch c m opretlen off
      (SMART_CHAIN_SYMBOL G \<noteq> [] \<and> cstr_is m (off + 68) (SMART_CHAIN_SYMBOL G)) h nz sm y v))" .
  show ?thesis using vout_notarization_accepts [OF G v(1,2) w'] new v(3-5) by auto
qed


definition notarization_script :: buffer where
  "notarization_script = 0x6a # 74 # le_bytes 32 (1 :: uint256) @ le_i32 5 @ le_bytes 32 (2 :: uint256) @ bytes_of ''ZDEEX'' @ [0]"

definition notarization_chain :: chain_view where
  "notarization_chain = \<lparr>mapBlockIndex = [(1, \<lparr>bi_hash = 1, bi_height = 5, bi_nTime = 9, bi_hashMerkleRoot = 0\<rparr>)],
     chainActive = [], IsInitialBlockDownload = False\<rparr>"

definition notarization_world :: hush_world where
  "notarization_world = hush_world0\<lparr>hushstate_file := Some [], state_fp := True\<rparr>"

definition vout_ctx0 :: vout_ctx where
  "vout_ctx0 = \<lparr>vx_notaryid = -1, vx_isratification = 0, vx_voutmask = 0, vx_specialtx = 0, vx_notarizedheight = 0\<rparr>"

lemma notarization_example:
  "\<exists>x' w'. hush_voutupdate E hsc_params notarization_chain False (bmem_of notarization_script (\<lambda>_. 0)) 76 8 3 1 1 0 1 0 0 vout_ctx0
      notarization_world = (-1, x', w') \<and> notarized_ht hsc_params w' = 5"
proof -
  let ?m = "bmem_of notarization_script (\<lambda>_. 0)" and ?w = notarization_world
  have G: "plain_chain hsc_params" by code_simp
  have ok: "states_ok ?w" "state_fp ?w" by (simp_all add: notarization_world_def states_ok_def hush_world0_def)
  have len: "length notarization_script = 76" by (simp add: notarization_script_def)
  have pos: "vout_opretlen ?m = (74, 2)" by (simp add: vout_opretlen_def notarization_script_def bmem_of_def)
  have sl: "bslice ?m 2 32 = le_bytes 32 (1 :: uint256)" "bslice ?m 34 4 = le_i32 5" "cstr_is ?m 70 ''ZDEEX''"
    by (simp_all add: cstr_is_def bslice_bmem_of len) (simp_all add: notarization_script_def)
  have "?m 2 = bslice ?m 2 32 ! 0" by (simp add: bslice_def numeral_2_eq_2)
  also have "\<dots> = 1" by (simp add: sl nth_le_bytes)
  finally have tag: "?m 0 = 0x6a" "?m 2 \<noteq> 0x4b" by (simp_all add: bmem_of_def notarization_script_def)
  have valid: "hush_validate_chain hsc_params notarization_chain 1 5 ?w = (1, ?w)"
    by (simp add: hush_validate_chain_def notarization_chain_def hush_getblockindex_def Let_def)
  have "st_get ?w (hush_stateptr hsc_params) = hush_state0"
    by (simp add: notarization_world_def st_get_def hush_world0_def)
  then have nh: "NOTARIZED_HEIGHT (st_get ?w (hush_stateptr hsc_params)) = 0" by (simp add: hush_state0_def)
  have sym: "SMART_CHAIN_SYMBOL hsc_params = ''ZDEEX''" by (simp add: hsc_params_def)
  have "\<exists>q x' k. hush_voutupdate E hsc_params notarization_chain False ?m 76 8 3 1 1 0 1 0 0 vout_ctx0 ?w =
      (-1, x', hush_stateupdate E hsc_params (su_none 8)
         (st_upd (hush_stateptr hsc_params) (set_notarized 5 1 (le_word (bslice ?m 38 32)) q) (read_fault k ?w)))"
    using nh by (simp add: hush_voutupdate_def vout_pubkey_def vout_opret_def vout_notarization_def pos tag sl sym valid
        vout_ctx0_def is_i32_def case_prod_unfold Let_def) blast
  moreover have "states_ok (read_fault k ?w)" "state_fp (read_fault k ?w)" for k using ok by simp_all
  ultimately show ?thesis using notarized_ht_stored [OF G] by blast
qed

text \<open>A node with block 5 notarised asks for the notarised height, while it knows the block, and then connects a block with a notarisation of height 3.\<close>

theorem notarized_falls_only_orphaned_witness:
  "\<forall>E gt txid. 5 \<le> notarized_ht hsc_params (fold (node_step E hsc_params)
      [Op_query notarization_chain,
       Op_connect notarization_chain gt False \<lparr>bi_hash = 9, bi_height = 9, bi_nTime = 9, bi_hashMerkleRoot = 0\<rparr>
         [\<lparr>tx_hash = txid, tx_vin = [], tx_vout = [\<lparr>to_scriptPubKey = [], to_nValue = 0\<rparr>,
            \<lparr>to_scriptPubKey = 0x6a # 74 # le_bytes 32 (1 :: uint256) @ le_i32 3 @ replicate 38 0, to_nValue = 0\<rparr>]\<rparr>]]
      (st_upd (hush_stateptr hsc_params) (set_notarized 5 1 7 None) notarization_world))"
proof (intro allI)
  fix E gt txid
  let ?w = "st_upd (hush_stateptr hsc_params) (set_notarized 5 1 7 None) notarization_world"
  let ?c = "Op_connect notarization_chain gt False \<lparr>bi_hash = 9, bi_height = 9, bi_nTime = 9, bi_hashMerkleRoot = 0\<rparr>
         [\<lparr>tx_hash = txid, tx_vin = [], tx_vout = [\<lparr>to_scriptPubKey = [], to_nValue = 0\<rparr>,
            \<lparr>to_scriptPubKey = 0x6a # 74 # le_bytes 32 (1 :: uint256) @ le_i32 3 @ replicate 38 0, to_nValue = 0\<rparr>]\<rparr>]"
  have G: "plain_chain hsc_params" "NETWORK_ID hsc_params \<noteq> ''regtest''" by code_simp (simp add: hsc_params_def)
  have w: "states_ok notarization_world" "state_fp notarization_world" by (simp_all add: notarization_world_def states_ok_def hush_world0_def)
  then have ok: "states_ok ?w" "state_fp ?w" by simp_all
  have st: "NOTARIZED_HEIGHT (st_get ?w (hush_stateptr hsc_params)) = 5" "NOTARIZED_HASH (st_get ?w (hush_stateptr hsc_params)) = 1"
    using w(1) by (simp_all add: set_notarized_def)
  then have "no_orphan E hsc_params [Op_query notarization_chain, ?c] ?w"
    by (simp add: orphaned_def hush_blockindex_def notarization_chain_def)
  then show "5 \<le> notarized_ht hsc_params (fold (node_step E hsc_params) [Op_query notarization_chain, ?c] ?w)"
    using notarized_falls_only_orphaned [OF G ok refl refl] st(1) by (simp only: notarized_ht_def)
qed

theorem notarization_accepted_witness:
  "\<forall>E. \<exists>x' w'. hush_voutupdate E hsc_params notarization_chain False (bmem_of notarization_script (\<lambda>_. 0)) 76 8 3 1 1 0 1 0 0
       vout_ctx0 notarization_world = (-1, x', w') \<and>
     (\<exists>b. hush_getblockindex notarization_chain (le_word (bslice (bmem_of notarization_script (\<lambda>_. 0)) 2 32)) = Some b \<and>
        bi_height b = notarized_ht hsc_params w')"
proof
  fix E
  let ?m = "bmem_of notarization_script (\<lambda>_. 0)" and ?w = notarization_world
  obtain x' w' where run: "hush_voutupdate E hsc_params notarization_chain False ?m 76 8 3 1 1 0 1 0 0 vout_ctx0 ?w = (-1, x', w')"
    and nh: "notarized_ht hsc_params w' = 5" using notarization_example by blast
  have G: "plain_chain hsc_params" by code_simp
  have ok: "states_ok ?w" "state_fp ?w" by (simp_all add: notarization_world_def states_ok_def hush_world0_def)
  have "st_get ?w (hush_stateptr hsc_params) = hush_state0"
    by (simp add: notarization_world_def st_get_def hush_world0_def)
  then have "notarized_ht hsc_params w' \<noteq> notarized_ht hsc_params ?w" using nh by (simp add: notarized_ht_def hush_state0_def)
  moreover have "vout_opretlen ?m = (74, 2)" by (simp add: vout_opretlen_def notarization_script_def bmem_of_def)
  moreover have "\<not> IsInitialBlockDownload notarization_chain" by (simp add: notarization_chain_def)
  ultimately show "\<exists>x' w'. hush_voutupdate E hsc_params notarization_chain False ?m 76 8 3 1 1 0 1 0 0 vout_ctx0 ?w = (-1, x', w') \<and>
      (\<exists>b. hush_getblockindex notarization_chain (le_word (bslice ?m 2 32)) = Some b \<and> bi_height b = notarized_ht hsc_params w')"
    using notarization_accepted [OF G ok run] run by blast
qed

text \<open>Notary signatures are recognised by key bytes only: an input counts for notary \<open>k\<close> when the script it
  spends has the key in bytes 1 to 33, whatever its opcodes and whatever follows (scripts are cut at 35 bytes). A script
  that pushes the key and needs no signature is enough.\<close>
theorem signedmask_ignores_opcodes:
  assumes "gt hash = Some tx" and "unat n < length (tx_vout tx)"
    and "to_scriptPubKey (tx_vout tx ! unat n) = op # key @ op' # rest" and "length key = 33"
    and "k < length pubkeys" and "pubkeys ! k = key" and "distinct pubkeys" and "i \<noteq> 0"
  shows "vin_signedmask gt pubkeys (int (length pubkeys)) rmd160 i j [(hash, n)] signedmask = signedmask OR bit_at (int k)"
proof -
  have script: "gettxout_scriptPubKey gt 35 hash n = Some (op # key @ [op'])"
    using assms(1-4) by (simp add: gettxout_scriptPubKey_def)
  have "find_index (\<lambda>q. q = pubkeys ! k) pubkeys 0 = int k"
    using assms(5,7) by (intro find_index_distinct)
  moreover have "(\<lambda>q. pubkeys ! k = q) = (\<lambda>q. q = pubkeys ! k)" by auto
  ultimately have "hush_notarycmp (op # key @ [op']) pubkeys (int (length pubkeys)) rmd160 = int k"
    using assms(4,6) by (simp add: hush_notarycmp_def)
  then show ?thesis using script assms(8) by simp
qed

theorem signedmask_ignores_opcodes_witness:
  "vin_signedmask (\<lambda>_. Some \<lparr>tx_hash = 7, tx_vin = [], tx_vout = [\<lparr>to_scriptPubKey = 0x21 # replicate 33 2 @ [0x61], to_nValue = 0\<rparr>]\<rparr>)
     [replicate 33 2] (int (length [replicate 33 (2 :: byte)])) [] 1 0 [(7, 0)] 0 = 0 OR bit_at (int 0)"
  by (rule signedmask_ignores_opcodes [where op = "0x21" and op' = "0x61" and tx = "\<lparr>tx_hash = 7, tx_vin = [],
      tx_vout = [\<lparr>to_scriptPubKey = 0x21 # replicate 33 2 @ [0x61], to_nValue = 0\<rparr>]\<rparr>" and rest = "[]" and key = "replicate 33 2"]) simp_all

text \<open>Checking is not read-only: when a block is only being checked, an output with a key-value payload still
  appends its record to the state file and is applied, so the updates of a block that is then rejected stay.\<close>
theorem justcheck_applies_kv:
  assumes "plain_chain G" and "state_fp w" and "hushstate_file w = Some f" and "0 < h"
    and "m 0 = 0x6a" and "vout_opretlen m = (opretlen, off)" and "m off = 0x4b" and "0 < opretlen" and "opretlen < 65536"
    and "scriptlen \<noteq> 35"
  shows "\<exists>w'. hush_voutupdate E G ch True m scriptlen h txhash i j val notarized signedmask timestamp x w = (-1, x, w') \<and>
     w' = hush_stateupdate E G (su_opret h txhash val m off opretlen j) w \<and>
     hushstate_file w' = Some (f @ rec_bytes (Rec_R h txhash (word_of_int j) val (bslice m off opretlen)))"
proof -
  let ?a = "su_opret h txhash val m off opretlen j"
  have named: "SMART_CHAIN_SYMBOL G \<noteq> []" using assms(1) by (simp add: plain_chain_def)
  have run: "hush_voutupdate E G ch True m scriptlen h txhash i j val notarized signedmask timestamp x w =
      (-1, x, hush_stateupdate E G ?a w)"
    using assms(5-7,10) named by (simp add: hush_voutupdate_def vout_pubkey_def vout_opret_def)
  have n: "unat (word_of_nat opretlen :: u16) = opretlen" using assms(9) by (simp add: unat_length16)
  then have pos: "0 < (word_of_nat opretlen :: u16)" using assms(8) by (metis unat_gt_0 word_neq_0_conv)
  have pay: "bslice (\<lambda>k. m (off + k)) 0 opretlen = bslice m off opretlen" by (simp add: bslice_def)
  have keep: "hushstate_file (hush_eventadd_opreturn E G sp s h t v vo q k w) = hushstate_file w" for sp s t v vo q k
    using set_files_opreturn [OF assms(1), of E sp s h t v vo q k "hushstate_file w" "hushstate_ind w" "state_fp w" w]
    unfolding set_files_own by (metis set_files_sel(1))
  have "stateupdate_write E G ?a w =
      (rec_bytes (Rec_R h txhash (word_of_int j) val (bslice m off opretlen)),
       hush_eventadd_opreturn E G (hush_stateptr G) (chain_symbol G) h txhash val (word_of_int j) (\<lambda>k. m (off + k)) (word_of_nat opretlen) w)"
    using assms(4) pos n pay by (simp add: stateupdate_write_def su_opret_def su_none_def rec_bytes_def Let_def)
  then have "hushstate_file (hush_stateupdate E G ?a w) =
      Some (f @ rec_bytes (Rec_R h txhash (word_of_int j) val (bslice m off opretlen)))"
    using assms(2,3) keep by (simp add: hush_stateupdate_def stateupdate_open_def)
  then show ?thesis using run by blast
qed

theorem justcheck_applies_kv_witness:
  "\<forall>E ch. let m = bmem_of (0x6a # 2 # [0x4b, 0]) (\<lambda>_. 0); w = hush_world0\<lparr>hushstate_file := Some [], state_fp := True\<rparr>;
         x = \<lparr>vx_notaryid = -1, vx_isratification = 0, vx_voutmask = 0, vx_specialtx = 0, vx_notarizedheight = 0\<rparr> in
     \<exists>w'. hush_voutupdate E hsc_params ch True m 4 9 3 1 0 8 0 0 0 x w = (-1, x, w') \<and>
       w' = hush_stateupdate E hsc_params (su_opret 9 3 8 m 2 2 0) w \<and>
       hushstate_file w' = Some ([] @ rec_bytes (Rec_R 9 3 (word_of_int 0) 8 (bslice m 2 2)))"
proof -
  have "plain_chain hsc_params" by code_simp
  moreover have "vout_opretlen (bmem_of (0x6a # 2 # [0x4b, 0]) (\<lambda>_. 0)) = (2, 2)" by (simp add: vout_opretlen_def)
  ultimately show ?thesis unfolding Let_def by (intro allI justcheck_applies_kv) (simp_all add: hush_world0_def)
qed

text \<open>The number of pairs is trusted: eight times it is computed in 32 bits, so for \<open>2 ^ 29\<close> pairs the test that they fill
  the payload is passed with no pair present, and reading them runs past the 10001 bytes of the script
  buffer.\<close>
theorem MoMoM_pairs_overrun:
  assumes "SMART_CHAIN_SYMBOL G \<noteq> []" and "opoffset \<le> len" and "rd_i32 (bslice m (len + 84) 4) = 2 ^ 29" and "len < 10001"
  shows "vout_read_end G (SMART_CHAIN_SYMBOL G) m len opoffset (len + 88 - opoffset) > 10001"
proof -
  have n: "length (read_pairs m off n) = n" for off n by (induction n arbitrary: off) simp_all
  have "wrap32 (int (len + 88) + wrap32 (2 ^ 29 * 8) - int opoffset) = int (len + 88 - opoffset)"
  proof -
    have "wrap32 (2 ^ 29 * 8) = 0" by (simp add: wrap32_def)
    moreover have "is_i32 (int (len + 88) - int opoffset)" using assms(2,4) by (simp add: is_i32_def)
    ultimately show ?thesis using assms(2) by simp
  qed
  moreover have "\<not> len + 36 - opoffset > len + 88 - opoffset" "\<not> len + 40 - opoffset > len + 88 - opoffset" using assms(2) by simp_all
  ultimately show ?thesis using assms by (simp add: vout_read_end_def vout_MoMoM_def n add.commute Let_def)
qed

theorem MoMoM_pairs_overrun_witness:
  "vout_read_end hsc_params (SMART_CHAIN_SYMBOL hsc_params) (\<lambda>k. if k = 97 then 0x20 else 0) 10 2 (10 + 88 - 2) > 10001"
proof (rule MoMoM_pairs_overrun)
  have "bslice (\<lambda>k. if k = 97 then 0x20 else 0) (10 + 84) 4 = ([0, 0, 0, 0x20] :: byte list)"
    by (simp add: bslice_def upt_rec)
  moreover have "rd_i32 [0, 0, 0, 0x20] = 2 ^ 29" by code_simp
  ultimately show "rd_i32 (bslice (\<lambda>k. if k = 97 then 0x20 else 0) (10 + 84) 4) = 2 ^ 29" by simp
qed (simp_all add: hsc_params_def)

section \<open>MoMoM on the wire\<close>

lemma length_pair_bytes [simp]: "length (pair_bytes p) = 8"
  by (simp add: pair_bytes_def)

lemma read_pairs_bytes:
  assumes "list_all (\<lambda>p. is_i32 (cp_notarized_height p) \<and> is_i32 (cp_MoMoMoffset p)) ps"
  shows "read_pairs (bmem_of (pre @ concat (map pair_bytes ps)) junk) (length pre) (length ps) = ps"
  using assms
proof (induction ps arbitrary: pre)
  case (Cons p ps)
  let ?m = "bmem_of (pre @ pair_bytes p @ concat (map pair_bytes ps)) junk"
  have "read_pairs (bmem_of ((pre @ pair_bytes p) @ concat (map pair_bytes ps)) junk) (length (pre @ pair_bytes p)) (length ps) = ps"
    using Cons.prems by (intro Cons.IH) simp
  moreover have "bslice ?m (length pre) 4 = le_i32 (cp_notarized_height p)" "bslice ?m (length pre + 4) 4 = le_i32 (cp_MoMoMoffset p)"
    by (simp_all add: bslice_bmem_of pair_bytes_def)
  ultimately show ?case using Cons.prems by simp
qed simp

text \<open>The cross-chain part of a notarisation survives the wire: from the bytes that \<open>hush_MoMoMdata\<close> produces, at
  any position of a payload that ends with them, \<open>hush_voutupdate\<close> reads back the same range, root, depth and pairs.\<close>
theorem MoMoM_wire_roundtrip:
  assumes "is_i32 (mm_hushstarti mm)" and "is_i32 (mm_hushendi mm)" and "is_i32 (mm_MoMoMdepth mm)"
    and "mm_numpairs mm = int (length (mm_pairs mm))" and "mm_MoMoMoffset mm = 0"
    and "list_all (\<lambda>p. is_i32 (cp_notarized_height p) \<and> is_i32 (cp_MoMoMoffset p)) (mm_pairs mm)"
    and "length (pre @ MoMoM_bytes ccid mm) < 10001" and "opoffset \<le> length pre"
  shows "vout_MoMoM (bmem_of (pre @ MoMoM_bytes ccid mm) junk) (length pre + 4) opoffset
           (length (pre @ MoMoM_bytes ccid mm) - opoffset) =
         mm\<lparr>mm_len := 48 + 8 * mm_numpairs mm\<rparr>"
proof -
  let ?n = "length (mm_pairs mm)"
  let ?B = "pre @ MoMoM_bytes ccid mm"
  have lp: "length (concat (map pair_bytes ps)) = 8 * length ps" for ps by (induction ps) (simp_all add: pair_bytes_def)
  have lB: "length ?B = length pre + 52 + 8 * ?n" by (simp add: MoMoM_bytes_def lp)
  then have n: "8 * ?n < 10001" using assms(7) by simp
  then have i32: "is_i32 (mm_numpairs mm)" using assms(4) by (simp add: is_i32_def)
  have f: "bslice (bmem_of ?B junk) (length pre + 4 + off) k = take k (drop (4 + off) (MoMoM_bytes ccid mm))"
    if "4 + off + k \<le> 52 + 8 * ?n" for off k
  proof -
    have "length pre + 4 + off + k \<le> length ?B" using that lB by simp
    then show ?thesis by (simp add: bslice_bmem_of add.assoc)
  qed
  have fields: "bslice (bmem_of ?B junk) (length pre + 4) 4 = le_i32 (mm_hushstarti mm)"
    "bslice (bmem_of ?B junk) (length pre + 4 + 4) 4 = le_i32 (mm_hushendi mm)"
    "bslice (bmem_of ?B junk) (length pre + 4 + 8) 32 = le_bytes 32 (mm_MoMoM mm)"
    "bslice (bmem_of ?B junk) (length pre + 4 + 40) 4 = le_i32 (mm_MoMoMdepth mm)"
    "bslice (bmem_of ?B junk) (length pre + 4 + 44) 4 = le_i32 (mm_numpairs mm)"
    using f [of 0 4] f [of 4 4] f [of 8 32] f [of 40 4] f [of 44 4] by (simp_all add: MoMoM_bytes_def)
  let ?H = "pre @ le_bytes 4 ccid @ le_i32 (mm_hushstarti mm) @ le_i32 (mm_hushendi mm) @ le_bytes 32 (mm_MoMoM mm) @
      le_i32 (mm_MoMoMdepth mm) @ le_i32 (mm_numpairs mm)"
  have "?B = ?H @ concat (map pair_bytes (mm_pairs mm))" and "length ?H = length pre + 4 + 48"
    by (simp_all add: MoMoM_bytes_def)
  then have pairs: "read_pairs (bmem_of ?B junk) (length pre + 4 + 48) ?n = mm_pairs mm"
    using read_pairs_bytes [OF assms(6), of ?H junk] by metis
  have "wrap32 (int (length pre + 4 + 48) + wrap32 (mm_numpairs mm * 8) - int opoffset) = int (length ?B - opoffset)"
  proof -
    have "wrap32 (mm_numpairs mm * 8) = 8 * int ?n" using n assms(4) by (simp add: is_i32_def)
    moreover have "is_i32 (int (length pre + 4 + 48) + 8 * int ?n - int opoffset)"
      using lB assms(7,8) by (simp add: is_i32_def)
    ultimately show ?thesis using lB assms(8) by simp
  qed
  then show ?thesis
    unfolding vout_MoMoM_def Let_def fields
    using assms(1-5) i32 pairs by (simp add: fields)
qed

theorem MoMoM_wire_roundtrip_witness:
  "let mm = \<lparr>mm_MoMoM = 77, mm_hushstarti = 100, mm_hushendi = 120, mm_MoMoMoffset = 0, mm_MoMoMdepth = 3, mm_numpairs = 1,
             mm_len = 0, mm_pairs = [\<lparr>cp_notarized_height = 50, cp_MoMoMoffset = 2\<rparr>]\<rparr> in
   vout_MoMoM (bmem_of ([9, 9] @ MoMoM_bytes 5 mm) (\<lambda>_. 0)) (length [9 :: byte, 9] + 4) 1 (length ([9, 9] @ MoMoM_bytes 5 mm) - 1) =
     mm\<lparr>mm_len := 48 + 8 * mm_numpairs mm\<rparr>"
  unfolding Let_def
  by (rule MoMoM_wire_roundtrip) (simp_all add: is_i32_def MoMoM_bytes_def)

end
