(* ===== verification/Hush_Emission.thy ===== *)
theory Hush_Emission
  imports Hush_Prelude
begin

unbundle bit_operations_syntax

text \<open>
  Coin emission: the miner subsidy of HUSH3 and of the smart chains (\<open>hush_utils.h\<close>), the developer
  commission (\<open>hush_bitcoind.h\<close>), the supply formula behind \<open>MAX_MONEY\<close> and the rotating commission scripts
  (\<open>hush_globals.h\<close>). Amounts are 64-bit words, heights integers in the range of \<open>int32_t\<close>.
\<close>

section \<open>The HUSH3 curve\<close>

text \<open>The parameter \<open>HALVING1\<close> is the option \<open>-z2zheight\<close>, 340000 by default.\<close>

definition hush_block_subsidy :: "int \<Rightarrow> int \<Rightarrow> u64" where
  "hush_block_subsidy HALVING1 height =
     (let TRANSITION = 128 in
      if height < TRANSITION then 0
      else if height < HALVING1 then 1125000000
      else if height < 2020000 then 281250000
      else if height < 3700000 then 140625000
      else if height < 5380000 then 70312500
      else if height < 7060000 then 35156250
      else if height < 8740000 then 17578125
      else if height < 10420000 then 8789062
      else if height < 12100000 then 4394531
      else if height < 15460000 then 2197265
      else if height < 17140000 then 1098632
      else if height < 18820000 then 549316
      else if height < 23860000 then 274658
      else if height < 23860000 then 137329
      else if height < 25540000 then 68664
      else if height < 27220000 then 34332
      else if height < 27220000 then 17166
      else if height < 28900000 then 8583
      else if height < 30580000 then 4291
      else if height < 32260000 then 2145
      else if height < 33940000 then 1072
      else if height < 35620000 then 536
      else if height < 37300000 then 268
      else if height < 38980000 then 134
      else if height < 40660000 then 67
      else if height < 42340000 then 33
      else if height < 44020000 then 16
      else if height < 45700000 then 8
      else if height < 47380000 then 4
      else if height < 49060000 then 2
      else if height < 50740000 then 1
      else 0)"

definition hush_commission :: "int \<Rightarrow> int \<Rightarrow> u64" where
  "hush_commission HALVING1 height =
     (let TRANSITION = 129; starting_commission = 125000000 in
      if height < TRANSITION then 0
      else if height < HALVING1 then starting_commission
      else if height < 2020000 then 31250000
      else if height < 3700000 then 15625000
      else if height < 5380000 then 7812500
      else if height < 7060000 then 3906250
      else if height < 8740000 then 1953125
      else if height < 10420000 then 976562
      else if height < 12100000 then 488281
      else if height < 15460000 then 244140
      else if height < 17140000 then 122070
      else if height < 18820000 then 61035
      else if height < 23860000 then 30517
      else if height < 23860000 then 15258
      else if height < 25540000 then 7629
      else if height < 27220000 then 3814
      else if height < 27220000 then 1907
      else if height < 28900000 then 953
      else if height < 30580000 then 476
      else if height < 32260000 then 238
      else if height < 33940000 then 119
      else if height < 35620000 then 59
      else if height < 37300000 then 29
      else if height < 38980000 then 14
      else if height < 40660000 then 7
      else if height < 42340000 then 3
      else if height < 44020000 then 1
      else if height < 45700000 then 0
      else if height < 47380000 then 0
      else if height < 49060000 then 0
      else if height < 50740000 then 0
      else 0)"

section \<open>Smart chains\<close>

text \<open>
  The chain parameters; the arrays have \<open>ASSETCHAINS_MAX_ERAS + 1 = 8\<close> entries and \<open>ASSETCHAINS_LASTERA\<close> is
  at most 6 (\<open>hush_args\<close>).
\<close>

record emission_params =
  EM_SYMBOL :: string
  ASSETCHAINS_LASTERA :: u64
  ASSETCHAINS_ENDSUBSIDY :: "u64 list"
  ASSETCHAINS_REWARD :: "u64 list"
  ASSETCHAINS_HALVING :: "u64 list"
  ASSETCHAINS_DECAY :: "u64 list"
  ASSETCHAINS_SUPPLY :: u64
  ASSETCHAINS_MAGIC :: u32
  ASSETCHAINS_STAKED :: int
  ASSETCHAINS_GENESISTXVAL :: u64
  ASSETCHAINS_COMMISSION :: u64
  ASSETCHAINS_FOUNDERS :: int
  ASSETCHAINS_FOUNDERS_REWARD :: u64
  ASSETCHAINS_SCRIPTPUB :: string
  Z2ZHEIGHT :: int

definition COIN :: u64 where
  "COIN = 100000000"

definition is_hush3 :: "emission_params \<Rightarrow> bool" where
  "is_hush3 P \<longleftrightarrow> take 5 (EM_SYMBOL P) = ''HUSH3''"

text \<open>The first era whose end lies above the height, or that has no end.\<close>

function era_search :: "emission_params \<Rightarrow> int \<Rightarrow> nat \<Rightarrow> nat" where
  "era_search P nHeight curEra =
     (if curEra \<le> unat (ASSETCHAINS_LASTERA P) \<and>
         \<not> (ASSETCHAINS_ENDSUBSIDY P ! curEra > word_of_int nHeight \<or> ASSETCHAINS_ENDSUBSIDY P ! curEra = 0)
      then era_search P nHeight (curEra + 1) else curEra)"
  by auto
termination
  by (relation "measure (\<lambda>(P, h, e). Suc (unat (ASSETCHAINS_LASTERA P)) - e)") auto

declare era_search.simps [simp del]

text \<open>The static variables of \<open>hush_sc_block_subsidy\<close>.\<close>

record subsidy_cache =
  cached_subsidy :: u64
  cached_numhalvings :: int
  cached_era :: nat

definition subsidy_cache0 :: subsidy_cache where
  "subsidy_cache0 = \<lparr>cached_subsidy = 0, cached_numhalvings = 0, cached_era = 0\<rparr>"

text \<open>Exponential decay: one factor per halving, cut off at zero.\<close>

fun decay_loop :: "u64 \<Rightarrow> nat \<Rightarrow> u64 \<Rightarrow> u64" where
  "decay_loop decay 0 subsidy = subsidy"
| "decay_loop decay (Suc n) subsidy =
     (if subsidy = 0 then subsidy else decay_loop decay n (subsidy * decay div 100000000))"

text \<open>Linear decay towards the next era; signed 64-bit products and quotients.\<close>

definition linear_decay :: "emission_params \<Rightarrow> nat \<Rightarrow> u64 \<Rightarrow> int \<Rightarrow> u64 \<Rightarrow> u64" where
  "linear_decay P curEra nStart nHeight subsidy =
     (let d = subsidy - ASSETCHAINS_REWARD P ! (curEra + 1);
          (sign, subsidyDifference) =
            (if curEra = unat (ASSETCHAINS_LASTERA P) then (1, subsidy) else if sint d < 0 then (-1, - d) else (1, d));
          denominator = ASSETCHAINS_ENDSUBSIDY P ! curEra - nStart;
          numerator = denominator - ((ASSETCHAINS_ENDSUBSIDY P ! curEra - word_of_int nHeight) +
                        (word_of_int nHeight - nStart) mod ASSETCHAINS_HALVING P ! curEra)
      in if denominator \<noteq> 0
         then subsidy - sign * word_of_int (c_div (sint (subsidyDifference * numerator)) (sint denominator))
         else 10000)"

text \<open>
  The reward of an era at a height. The shift by the number of halvings is undefined in C++ from 64 on; the processors the
  daemon runs on take the count modulo 64.
\<close>

definition era_subsidy :: "emission_params \<Rightarrow> nat \<Rightarrow> int \<Rightarrow> subsidy_cache \<Rightarrow> u64 \<times> subsidy_cache" where
  "era_subsidy P curEra nHeight c =
     (let nStart = (if curEra \<noteq> 0 then ASSETCHAINS_ENDSUBSIDY P ! (curEra - 1) else 0);
          subsidy = ASSETCHAINS_REWARD P ! curEra;
          halving = ASSETCHAINS_HALVING P ! curEra;
          decay = ASSETCHAINS_DECAY P ! curEra;
          numhalvings = wrap32 (uint ((word_of_int nHeight - nStart) div halving))
      in if (subsidy \<noteq> 0 \<or> curEra \<noteq> unat (ASSETCHAINS_LASTERA P) \<and> ASSETCHAINS_REWARD P ! (curEra + 1) \<noteq> 0) \<and> halving \<noteq> 0
         then
           if is_hush3 P then (hush_block_subsidy (Z2ZHEIGHT P) nHeight, c)
           else if numhalvings > 0
           then
             if decay = 0 then (signed_drop_bit (nat (numhalvings mod 64)) subsidy, c)
             else if decay = 100000000 \<and> ASSETCHAINS_ENDSUBSIDY P ! curEra \<noteq> 0
             then (linear_decay P curEra nStart nHeight subsidy, c)
             else if cached_subsidy c > 0 \<and> cached_era c = curEra \<and> cached_numhalvings c = numhalvings
             then (cached_subsidy c, c)
             else
               let subsidy = decay_loop decay (nat numhalvings) subsidy
               in (subsidy, \<lparr>cached_subsidy = subsidy, cached_numhalvings = numhalvings, cached_era = curEra\<rparr>)
           else (subsidy, c)
         else (subsidy, c))"

text \<open>The premine: in block 1, or a billion coins per block while it exceeds ten billion.\<close>

definition premine :: "emission_params \<Rightarrow> int \<Rightarrow> u64 \<Rightarrow> u64" where
  "premine P nHeight subsidy =
     (let magicExtra = (ucast (if ASSETCHAINS_STAKED P \<noteq> 0 then ASSETCHAINS_MAGIC P else ASSETCHAINS_MAGIC P AND 0xffffff) :: u64);
          supply = ASSETCHAINS_SUPPLY P
      in if supply > 10000000000
         then
           if word_of_int nHeight \<le> supply div 1000000000
           then let subsidy = subsidy + 1000000000 * COIN
                in if nHeight = 1 then subsidy + ((supply mod 1000000000) * COIN + magicExtra) else subsidy
           else subsidy
         else if nHeight = 1
         then (if ASSETCHAINS_LASTERA P = 0 then 0 else subsidy) + (supply * COIN + magicExtra)
         else subsidy)"

definition hush_sc_block_subsidy :: "emission_params \<Rightarrow> int \<Rightarrow> subsidy_cache \<Rightarrow> u64 \<times> subsidy_cache" where
  "hush_sc_block_subsidy P nHeight c =
     (let (subsidy, c) =
        (if ASSETCHAINS_ENDSUBSIDY P ! 0 = 0 \<and> ASSETCHAINS_REWARD P ! 0 = 0 then (10000, c)
         else
           let curEra = (if ASSETCHAINS_ENDSUBSIDY P ! 0 \<noteq> 0 then era_search P nHeight 0 else 0)
           in if curEra \<le> unat (ASSETCHAINS_LASTERA P) then era_subsidy P curEra nHeight c else (0, c))
      in (premine P nHeight subsidy, c))"

text \<open>\<open>main.cpp\<close> takes its block reward from here.\<close>

definition GetBlockSubsidy :: "emission_params \<Rightarrow> int \<Rightarrow> subsidy_cache \<Rightarrow> u64 \<times> subsidy_cache" where
  "GetBlockSubsidy P nHeight c = hush_sc_block_subsidy P nHeight c"

text \<open>The parameters \<open>hush_args\<close> sets for the main chain; three eras are counted, four are filled in.\<close>

definition hush3_emission :: "u32 \<Rightarrow> emission_params" where
  "hush3_emission magic =
     \<lparr>EM_SYMBOL = ''HUSH3'', ASSETCHAINS_LASTERA = 3 - 1,
      ASSETCHAINS_ENDSUBSIDY = [129, 340000, 2 * 5422111, 0, 0, 0, 0, 0],
      ASSETCHAINS_REWARD = [0, 1125000000, 281250000, 140625000, 0, 0, 0, 0],
      ASSETCHAINS_HALVING = [129, 340000, 2020000, 3700000, 0, 0, 0, 0],
      ASSETCHAINS_DECAY = replicate 8 0, ASSETCHAINS_SUPPLY = 6178674, ASSETCHAINS_MAGIC = magic, ASSETCHAINS_STAKED = 0,
      ASSETCHAINS_GENESISTXVAL = 5000000000, ASSETCHAINS_COMMISSION = 11111111, ASSETCHAINS_FOUNDERS = 1,
      ASSETCHAINS_FOUNDERS_REWARD = 0, ASSETCHAINS_SCRIPTPUB = ''76a9145eb10cf64f2bab1b457f1f25e658526155928fac88ac'',
      Z2ZHEIGHT = 340000\<rparr>"

section \<open>Supply\<close>

text \<open>
  The loop over the halvings of an era; its counter is an \<open>int\<close> compared with 64-bit numbers. A period that is a multiple
  of \<open>2 ^ 32\<close> does not move the counter, so the loop may run forever; that is the value \<^const>\<open>None\<close>.
\<close>

partial_function (option) supply_loop ::
    "u64 \<Rightarrow> u64 \<Rightarrow> u64 \<Rightarrow> int \<Rightarrow> u64 \<Rightarrow> u64 \<Rightarrow> (u64 \<times> u64) option" where
  "supply_loop period decay curEnd k reward cur_money =
     (if word_of_int k < curEnd
      then supply_loop period decay curEnd (wrap32 (uint (word_of_int k + period)))
             (if decay \<noteq> 0 then reward * decay div COIN else signed_drop_bit 1 reward) (cur_money + period * reward)
      else Some (reward, cur_money))"

text \<open>
  What a linear era contributes: a base rectangle, triangles of one step and the minor triangle. The inner
  \<open>modulo\<close> is 1, the step counts are 32-bit, quotients and the halving shift are unsigned.
\<close>

definition supply_linear :: "emission_params \<Rightarrow> nat \<Rightarrow> u64 \<Rightarrow> u64 \<Rightarrow> u32 \<Rightarrow> u64 \<Rightarrow> u64 \<Rightarrow> u64" where
  "supply_linear P j lastEnd curEnd nSteps period reward =
     (let d = reward - ASSETCHAINS_REWARD P ! (j + 1);
          (sign, subsidyDifference, lowestSubsidy) =
            (if j = unat (ASSETCHAINS_LASTERA P) then (1 :: int, reward, 0)
             else if sint d < 0 then (-1, - d, reward) else (1, d, ASSETCHAINS_REWARD P ! (j + 1)));
          denominator = ucast nSteps * period;
          denominator = (if denominator = 0 then 1 else denominator);
          stepDifference = period * subsidyDifference div denominator;
          stepTriangle = drop_bit 1 (period * stepDifference);
          n = ucast nSteps :: u64;
          n1 = ucast (nSteps - 1) :: u64
      in if sign < 0
         then stepTriangle * n1 + stepTriangle * n1 * n1 + stepDifference * n + lowestSubsidy * (curEnd - lastEnd)
         else stepTriangle * n + stepTriangle * n * n + (reward - stepDifference * n) * (curEnd - lastEnd))"

definition supply_era :: "emission_params \<Rightarrow> u32 \<Rightarrow> nat \<Rightarrow> u64 \<Rightarrow> u64 option" where
  "supply_era P nHeight j cur_money =
     (let reward = ASSETCHAINS_REWARD P ! j; ht = ucast nHeight :: u64 in
      if sint reward > 0
      then
        let lastEnd = (if j = 0 then 0 else ASSETCHAINS_ENDSUBSIDY P ! (j - 1));
            curEnd = (if ASSETCHAINS_ENDSUBSIDY P ! j = 0 then ht
                      else if ht > ASSETCHAINS_ENDSUBSIDY P ! j then ASSETCHAINS_ENDSUBSIDY P ! j else ht);
            period = (if ASSETCHAINS_HALVING P ! j = 0 then 210000 else ASSETCHAINS_HALVING P ! j);
            nSteps = ucast ((curEnd - lastEnd) div period) :: u32;
            modulo = ucast ((curEnd - lastEnd) mod period) :: u32;
            decay = ASSETCHAINS_DECAY P ! j
        in if ASSETCHAINS_HALVING P ! j = 0 then Some (cur_money + reward * ucast (nHeight - 1))
           else if decay = COIN then Some (cur_money + supply_linear P j lastEnd curEnd nSteps period reward)
           else (case supply_loop period decay curEnd (wrap32 (uint lastEnd)) reward cur_money of
                   None \<Rightarrow> None
                 | Some (reward, cur_money) \<Rightarrow> Some (cur_money + ucast modulo * reward))
      else Some cur_money)"

text \<open>No more rewards: the height is below the era, or the era is empty.\<close>

definition supply_stop :: "emission_params \<Rightarrow> u32 \<Rightarrow> nat \<Rightarrow> bool" where
  "supply_stop P nHeight j \<longleftrightarrow>
     j \<noteq> 0 \<and>
     (ucast nHeight \<le> ASSETCHAINS_ENDSUBSIDY P ! (j - 1) \<or>
      ASSETCHAINS_ENDSUBSIDY P ! (j - 1) = 0 \<and> ASSETCHAINS_REWARD P ! j = 0 \<and>
        (j = unat (ASSETCHAINS_LASTERA P) \<or> ASSETCHAINS_DECAY P ! j \<noteq> COIN))"

fun supply_eras :: "emission_params \<Rightarrow> u32 \<Rightarrow> nat list \<Rightarrow> u64 \<Rightarrow> u64 option" where
  "supply_eras P nHeight [] cur_money = Some cur_money"
| "supply_eras P nHeight (j # js) cur_money =
     (if supply_stop P nHeight j then Some cur_money
      else case supply_era P nHeight j cur_money of
          None \<Rightarrow> None
        | Some cur_money \<Rightarrow> supply_eras P nHeight js cur_money)"

definition HUSH_MAXNVALUE :: u64 where
  "HUSH_MAXNVALUE = push_bit 63 1 - 1"

definition HUSH_BIT63SET :: "u64 \<Rightarrow> u64" where
  "HUSH_BIT63SET x = x AND push_bit 63 1"

definition supply_commission :: "emission_params \<Rightarrow> u64 \<Rightarrow> u64" where
  "supply_commission P cur_money =
     (if HUSH_BIT63SET cur_money \<noteq> 0 then HUSH_MAXNVALUE
      else if ASSETCHAINS_COMMISSION P \<noteq> 0
      then
        let newval = cur_money + cur_money div COIN * ASSETCHAINS_COMMISSION P
        in if HUSH_BIT63SET newval \<noteq> 0 then HUSH_MAXNVALUE
           else if newval < cur_money then HUSH_MAXNVALUE
           else newval
      else cur_money)"

text \<open>The product \<open>nHeight * 10000\<close> of the default reward is a 32-bit one.\<close>

definition hush_current_supply :: "emission_params \<Rightarrow> u32 \<Rightarrow> u64 option" where
  "hush_current_supply P nHeight =
     (let cur_money = (ASSETCHAINS_SUPPLY P + 1) * COIN + ucast (ASSETCHAINS_MAGIC P AND 0xffffff) + ASSETCHAINS_GENESISTXVAL P
      in map_option (supply_commission P)
           (if ASSETCHAINS_LASTERA P = 0 \<and> ASSETCHAINS_REWARD P ! 0 = 0
            then Some (cur_money + ucast (nHeight * 10000))
            else supply_eras P nHeight [0..<Suc (unat (ASSETCHAINS_LASTERA P))] cur_money))"

definition hush_max_money :: "emission_params \<Rightarrow> u64 option" where
  "hush_max_money P = hush_current_supply P 10000000"

section \<open>Step functions\<close>

text \<open>A schedule as a table of bounds and values, and what it pays from a height on.\<close>

fun step_value :: "(int \<times> nat) list \<Rightarrow> int \<Rightarrow> nat" where
  "step_value [] h = 0"
| "step_value ((b, v) # t) h = (if h < b then v else step_value t h)"

fun step_total :: "int \<Rightarrow> (int \<times> nat) list \<Rightarrow> nat" where
  "step_total a [] = 0"
| "step_total a ((b, v) # t) = v * nat (max a b - a) + step_total (max a b) t"

lemma sum_step_value:
  assumes "\<forall>(b, v) \<in> set t. b \<le> e" and "a \<le> e"
  shows "(\<Sum>h\<in>{a..<e}. step_value t h) = step_total a t"
  using assms
proof (induction t arbitrary: a)
  case (Cons p t)
  obtain b v where p: "p = (b, v)" by fastforce
  let ?m = "max a b"
  have m: "a \<le> ?m" "?m \<le> e" using Cons.prems p by auto
  have "(\<Sum>h\<in>{a..<e}. step_value (p # t) h) =
      (\<Sum>h\<in>{a..<?m}. step_value (p # t) h) + (\<Sum>h\<in>{?m..<e}. step_value (p # t) h)"
    using m by (metis ivl_disj_int_two(3) ivl_disj_un_two(3) sum.union_disjoint finite_atLeastLessThan_int)
  also have "(\<Sum>h\<in>{a..<?m}. step_value (p # t) h) = (\<Sum>h\<in>{a..<?m}. v)"
    by (rule sum.cong) (auto simp: p max_def split: if_splits)
  also have "(\<Sum>h\<in>{?m..<e}. step_value (p # t) h) = (\<Sum>h\<in>{?m..<e}. step_value t h)"
    by (rule sum.cong) (auto simp: p)
  also have "\<dots> = step_total ?m t" using Cons.prems m by (intro Cons.IH) auto
  finally show ?case by (simp add: p)
qed simp

definition subsidy_table :: "(int \<times> nat) list" where
  "subsidy_table =
     [(128, 0), (340000, 1125000000), (2020000, 281250000), (3700000, 140625000), (5380000, 70312500),
      (7060000, 35156250), (8740000, 17578125), (10420000, 8789062), (12100000, 4394531), (15460000, 2197265),
      (17140000, 1098632), (18820000, 549316), (23860000, 274658), (25540000, 68664), (27220000, 34332),
      (28900000, 8583), (30580000, 4291), (32260000, 2145), (33940000, 1072), (35620000, 536), (37300000, 268),
      (38980000, 134), (40660000, 67), (42340000, 33), (44020000, 16), (45700000, 8), (47380000, 4), (49060000, 2),
      (50740000, 1)]"

lemma subsidy_table: "unat (hush_block_subsidy 340000 h) = step_value subsidy_table h"
  by (simp add: hush_block_subsidy_def subsidy_table_def)

text \<open>The static variables hold a result of the decay loop, or nothing.\<close>

definition cache_ok :: "emission_params \<Rightarrow> subsidy_cache \<Rightarrow> bool" where
  "cache_ok P c \<longleftrightarrow>
     (cached_subsidy c = 0 \<or>
      cached_subsidy c = decay_loop (ASSETCHAINS_DECAY P ! cached_era c) (nat (cached_numhalvings c))
        (ASSETCHAINS_REWARD P ! cached_era c))"

lemma cache_ok_era:
  assumes "cache_ok P c"
  shows "fst (era_subsidy P e h c) = fst (era_subsidy P e h subsidy_cache0) \<and> cache_ok P (snd (era_subsidy P e h c))"
proof -
  define nh where "nh = wrap32 (uint ((word_of_int h - (if e \<noteq> 0 then ASSETCHAINS_ENDSUBSIDY P ! (e - 1) else 0)) div ASSETCHAINS_HALVING P ! e))"
  define v where "v = decay_loop (ASSETCHAINS_DECAY P ! e) (nat nh) (ASSETCHAINS_REWARD P ! e)"
  have 1: "cached_subsidy c = v" if "cached_subsidy c > 0" "cached_era c = e" "cached_numhalvings c = nh"
    using assms that by (auto simp: cache_ok_def v_def)
  have 2: "cache_ok P \<lparr>cached_subsidy = v, cached_numhalvings = nh, cached_era = e\<rparr>" by (simp add: cache_ok_def v_def)
  have 3: "cached_subsidy subsidy_cache0 = 0" by (simp add: subsidy_cache0_def)
  have 4: "(if cached_subsidy c > 0 \<and> cached_era c = e \<and> cached_numhalvings c = nh then cached_subsidy c else v) = v"
    using 1 by simp
  show ?thesis
    unfolding era_subsidy_def Let_def nh_def [symmetric] v_def [symmetric] if_distrib [of fst] if_distrib [of snd]
      if_distrib [of "cache_ok P"] fst_conv snd_conv 3 4
    using 2 assms by simp
qed

lemma cache_ok_sc:
  assumes "cache_ok P c"
  shows "fst (hush_sc_block_subsidy P h c) = fst (hush_sc_block_subsidy P h subsidy_cache0) \<and> cache_ok P (snd (hush_sc_block_subsidy P h c))"
  unfolding hush_sc_block_subsidy_def Let_def case_prod_unfold using assms cache_ok_era [OF assms] by simp

interpretation sc_subsidy: memo_cell "\<lambda>h. fst (hush_sc_block_subsidy P h subsidy_cache0)" "hush_sc_block_subsidy P" "cache_ok P" for P
  by unfold_locales (simp_all add: cache_ok_sc)

lemma cache_ok_0 [simp]: "cache_ok P subsidy_cache0"
  by (simp add: cache_ok_def subsidy_cache0_def)

lemma commission_div_9: "hush_commission z h = (if h = 128 then 0 else hush_block_subsidy z h div 9)"
  by (simp add: hush_commission_def hush_block_subsidy_def)

section \<open>The supply loop\<close>

lemma wrap32_signed: "wrap32 k = signed_take_bit 31 k"
  by (simp add: wrap32_def sint_sbintrunc')

lemma take_bit_wrap32: "take_bit 32 (wrap32 k) = take_bit 32 k"
  unfolding wrap32_signed by (simp add: take_bit_signed_take_bit)

lemma wrap32_cong: "take_bit 32 a = take_bit 32 b \<Longrightarrow> wrap32 a = wrap32 b"
  unfolding wrap32_signed using signed_take_bit_eq_iff_take_bit_eq [of 31 a b] by simp

lemma wrap32_add_word: "wrap32 (k + wrap32 (uint x)) = wrap32 (uint (word_of_int k + x :: u64))"
proof (rule wrap32_cong)
  have "uint (word_of_int k + x) = take_bit 64 (take_bit 64 k + uint x)"
    by (simp add: uint_word_arith_bintrs unsigned_of_int)
  then have "take_bit 32 (uint (word_of_int k + x)) = take_bit 32 (take_bit 64 k + uint x)" by simp
  also have "\<dots> = take_bit 32 (take_bit 32 (take_bit 64 k) + take_bit 32 (uint x))" by (simp only: take_bit_add)
  also have "\<dots> = take_bit 32 (take_bit 32 k + take_bit 32 (wrap32 (uint x)))" by (simp add: take_bit_wrap32)
  finally show "take_bit 32 (k + wrap32 (uint x)) = take_bit 32 (uint (word_of_int k + x))" by (simp add: take_bit_add)
qed

lemma wrap32_over: "2 ^ 31 \<le> x \<Longrightarrow> x < 2 ^ 32 \<Longrightarrow> wrap32 x < 0"
proof -
  assume x: "2 ^ 31 \<le> x" "x < 2 ^ 32"
  have "(word_of_int x :: u32) = word_of_int (x - 2 ^ 32)" by (simp add: word_of_int_eq_iff take_bit_eq_mod)
  then have "wrap32 x = wrap32 (x - 2 ^ 32)" unfolding wrap32_def by (rule arg_cong)
  also have "\<dots> = x - 2 ^ 32" using x by (intro wrap32_id) (simp add: is_i32_def)
  finally show ?thesis using x by simp
qed

text \<open>The counter either leaves the range by growing past the end, by wrapping below zero, or by falling below zero.\<close>

lemma supply_loop_terminates:
  assumes "wrap32 (uint period) \<noteq> 0" and "curEnd < 2 ^ 32" and "is_i32 k"
  shows "\<exists>r. supply_loop period decay curEnd k reward cur = Some r"
  using assms(3)
proof (induction "if k < 0 then 0 else if wrap32 (uint period) > 0 then nat (2 ^ 31 - k) else Suc (nat k)"
    arbitrary: k reward cur rule: less_induct)
  case less
  let ?p = "wrap32 (uint period)" and ?k = "wrap32 (uint (word_of_int k + period))"
  have neg: "\<not> (word_of_int k :: u64) < curEnd" if "k < 0"
  proof -
    have "uint (word_of_int k :: u64) = k mod 2 ^ 64" by (simp add: uint_word_of_int)
    also have "\<dots> = (k + 2 ^ 64) mod 2 ^ 64" by simp
    also have "\<dots> = k + 2 ^ 64" using that less.prems by (intro mod_pos_pos_trivial) (simp_all add: is_i32_def)
    finally show ?thesis using assms(2) less.prems by (simp add: word_less_def is_i32_def)
  qed
  show ?case
  proof (cases "(word_of_int k :: u64) < curEnd")
    case True
    then have k: "0 \<le> k" using neg by fastforce
    have step: "?k = wrap32 (k + ?p)" by (rule wrap32_add_word [symmetric])
    have "(if ?k < 0 then 0 else if ?p > 0 then nat (2 ^ 31 - ?k) else Suc (nat ?k)) <
        (if k < 0 then 0 else if ?p > 0 then nat (2 ^ 31 - k) else Suc (nat k))"
      using k assms(1) less.prems wrap32_over [of "k + ?p"] wrap32_id [of "k + ?p"] is_i32_wrap32 [of "uint period"]
      unfolding step by (cases "?p > 0"; cases "k + ?p < 2 ^ 31") (auto simp: is_i32_def)
    from less.hyps [OF this is_i32_wrap32] show ?thesis
      by (subst supply_loop.simps) (simp add: True)
  next
    case False
    then show ?thesis by (subst supply_loop.simps) simp
  qed
qed

lemma supply_era_returns:
  assumes "ASSETCHAINS_HALVING P ! j = 0 \<or> ASSETCHAINS_HALVING P ! j mod 2 ^ 32 \<noteq> 0"
  shows "\<exists>v. supply_era P nHeight j cur = Some v"
proof -
  define curEnd :: u64 where "curEnd = (if ASSETCHAINS_ENDSUBSIDY P ! j = 0 then ucast nHeight
      else if ucast nHeight > ASSETCHAINS_ENDSUBSIDY P ! j then ASSETCHAINS_ENDSUBSIDY P ! j else ucast nHeight)"
  have "unat nHeight < 2 ^ LENGTH(32)" by (rule unsigned_less)
  then have "(ucast nHeight :: u64) < 2 ^ 32"
    by (simp add: word_less_nat_alt unsigned_ucast_eq take_bit_nat_eq_self)
  then have end32: "curEnd < 2 ^ 32" by (auto simp: curEnd_def)
  have nz: "wrap32 (uint p) \<noteq> 0" if "p mod 2 ^ 32 \<noteq> 0" for p :: u64
  proof
    assume "wrap32 (uint p) = 0"
    then have "take_bit 32 (uint p) = 0" using take_bit_wrap32 [of "uint p"] by simp
    then have "uint (p mod 2 ^ 32) = 0" by (simp add: uint_mod take_bit_eq_mod)
    then show False using that by (simp only: uint_0_iff)
  qed
  have "\<exists>r. supply_loop (ASSETCHAINS_HALVING P ! j) d curEnd (wrap32 k) r0 cur = Some r"
    if "ASSETCHAINS_HALVING P ! j \<noteq> 0" for d k r0
    using assms that by (intro supply_loop_terminates nz end32) auto
  then obtain r where "supply_loop (ASSETCHAINS_HALVING P ! j) (ASSETCHAINS_DECAY P ! j) curEnd
      (wrap32 (uint (if j = 0 then 0 else ASSETCHAINS_ENDSUBSIDY P ! (j - 1)))) (ASSETCHAINS_REWARD P ! j) cur = Some r"
    if "ASSETCHAINS_HALVING P ! j \<noteq> 0" by blast
  then show ?thesis
    unfolding supply_era_def Let_def curEnd_def [symmetric]
    by (cases "ASSETCHAINS_HALVING P ! j = 0") (simp_all add: case_prod_unfold)
qed

lemma supply_eras_return:
  assumes "\<forall>j\<in>set js. ASSETCHAINS_HALVING P ! j = 0 \<or> ASSETCHAINS_HALVING P ! j mod 2 ^ 32 \<noteq> 0"
  shows "\<exists>v. supply_eras P nHeight js cur = Some v"
  using assms
proof (induction js arbitrary: cur)
  case (Cons j js)
  then obtain v where "supply_era P nHeight j cur = Some v" using supply_era_returns by (metis list.set_intros(1))
  then show ?case using Cons by simp
qed simp

section \<open>Properties of the curves\<close>

text \<open>C37 Termination of the supply computation: it returns for every height and every set of chain parameters in which no
  halving interval is a non-zero multiple of \<open>2 ^ 32\<close>; the loop counter is 32 bits wide and every other interval moves it out of
  range.\<close>
theorem current_supply_returns:
  assumes "\<forall>j\<le>unat (ASSETCHAINS_LASTERA P). ASSETCHAINS_HALVING P ! j = 0 \<or> ASSETCHAINS_HALVING P ! j mod 2 ^ 32 \<noteq> 0"
  shows "\<exists>v. hush_current_supply P nHeight = Some v"
proof -
  have "\<exists>v. supply_eras P nHeight [0..<Suc (unat (ASSETCHAINS_LASTERA P))] cur = Some v" for cur
    by (rule supply_eras_return) (use assms in \<open>simp add: less_Suc_eq_le\<close>)
  then show ?thesis by (auto simp: hush_current_supply_def Let_def)
qed

theorem current_supply_returns_witness:
  "\<exists>v. hush_current_supply (hush3_emission 7) 3000000 = Some v"
proof (rule current_supply_returns, intro allI impI)
  fix j
  assume "j \<le> unat (ASSETCHAINS_LASTERA (hush3_emission 7))"
  then have "j \<le> 2" by (simp add: hush3_emission_def)
  then have "j = 0 \<or> j = 1 \<or> j = 2" by auto
  then show "ASSETCHAINS_HALVING (hush3_emission 7) ! j = 0 \<or> ASSETCHAINS_HALVING (hush3_emission 7) ! j mod 2 ^ 32 \<noteq> 0"
    by (elim disjE) (simp_all add: hush3_emission_def)
qed

lemma hush3_subsidy_eq:
  assumes "0 \<le> h" and "h < 2 ^ 31"
  shows "hush_sc_block_subsidy (hush3_emission magic) h c =
     (if h = 1 then 6178674 * COIN + ucast (magic AND 0xffffff)
      else if h < 10844222 then hush_block_subsidy 340000 h else 0, c)"
proof -
  let ?P = "hush3_emission magic" and ?h = "word_of_int h :: u64"
  have h: "?h < word_of_int b \<longleftrightarrow> h < b" if "0 \<le> b" "b < 2 ^ 31" for b
    using assms that by (simp add: word_less_def unsigned_of_int take_bit_int_eq_self)
  have ends: "129 > ?h \<longleftrightarrow> h < 129" "340000 > ?h \<longleftrightarrow> h < 340000" "10844222 > ?h \<longleftrightarrow> h < 10844222"
    using h [of 129] h [of 340000] h [of 10844222] by simp_all
  have era: "era_search ?P h 0 = (if h < 129 then 0 else if h < 340000 then 1 else if h < 10844222 then 2 else 3)"
    by (simp add: era_search.simps hush3_emission_def ends)
  have sub: "era_subsidy ?P e k c = (hush_block_subsidy 340000 k, c)" if "e = 0 \<or> e = 1 \<or> e = 2" for e k
    using that by (auto simp: era_subsidy_def hush3_emission_def is_hush3_def)
  have "hush_block_subsidy 340000 1 = 0" by (simp add: hush_block_subsidy_def)
  moreover have "ASSETCHAINS_ENDSUBSIDY ?P ! 0 = 129" "unat (ASSETCHAINS_LASTERA ?P) = 2" by (simp_all add: hush3_emission_def)
  moreover have "premine ?P h x = (if h = 1 then x + (6178674 * COIN + ucast (magic AND 0xffffff)) else x)" for x
    by (simp add: premine_def hush3_emission_def)
  ultimately show ?thesis
    unfolding hush_sc_block_subsidy_def Let_def era by (simp add: sub)
qed

text \<open>The subsidy of the main chain, for every height: the premine in block 1, the curve of \<open>hush_block_subsidy\<close> up to block
  10844221, and nothing from block 10844222 on. The curve itself pays until block 50740000, but the end of the third era
  comes first and no fourth era is counted.\<close>
theorem hush3_subsidy:
  assumes "0 \<le> h" and "h < 2 ^ 31"
  shows "hush_sc_block_subsidy (hush3_emission magic) h c =
     (if h = 1 then 6178674 * COIN + ucast (magic AND 0xffffff)
      else if h < 10844222 then hush_block_subsidy 340000 h else 0, c)"
  using assms by (rule hush3_subsidy_eq)

theorem hush3_subsidy_witness:
  "hush_sc_block_subsidy (hush3_emission 5) 10844221 subsidy_cache0 = (4394531, subsidy_cache0) \<and>
   hush_sc_block_subsidy (hush3_emission 5) 10844222 subsidy_cache0 = (0, subsidy_cache0)"
  using hush3_subsidy [of 10844221 5 subsidy_cache0] hush3_subsidy [of 10844222 5 subsidy_cache0]
  by (simp add: hush_block_subsidy_def)

text \<open>The curve against the schedule it describes (a halving every 1680000 blocks after block 340000): they agree exactly up
  to block 13779999 and from block 50740000 on. In between the curve pays more: two of its branches repeat the bound of
  the branch before them and are never taken, and one era is twice, another three times as long.\<close>
theorem emission_schedule:
  assumes "340000 \<le> h"
  shows "(unat (hush_block_subsidy 340000 h) = 281250000 div 2 ^ nat ((h - 340000) div 1680000)) = (h < 13780000 \<or> 50740000 \<le> h) \<and>
     281250000 div 2 ^ nat ((h - 340000) div 1680000) \<le> unat (hush_block_subsidy 340000 h)"
proof -
  define k where "k = nat ((h - 340000) div 1680000)"
  define m where "m = (h - 340000) mod 1680000"
  have m: "0 \<le> m" "m < 1680000" by (simp_all add: m_def)
  have "(h - 340000) div 1680000 * 1680000 + m = h - 340000" unfolding m_def by (rule div_mult_mod_eq)
  moreover have "(h - 340000) div 1680000 = int k" using assms by (simp add: k_def)
  ultimately have k: "340000 + 1680000 * int k \<le> h" "h < 340000 + 1680000 * (int k + 1)" using m by simp_all
  show ?thesis
  proof (cases "k < 30")
    case True
    then have "k \<in> {0, 1, 2, 3, 4, 5, 6, 7, 8, 9, 10, 11, 12, 13, 14, 15, 16, 17, 18, 19, 20, 21, 22, 23, 24, 25, 26, 27, 28, 29}" unfolding insert_iff empty_iff by presburger
    then show ?thesis using k unfolding k_def [symmetric]
      by (elim insertE emptyE; hypsubst; simp add: hush_block_subsidy_def)
  next
    case False
    then have "(2 :: nat) ^ 30 \<le> 2 ^ k" by (intro power_increasing) simp_all
    moreover have "(2 :: nat) ^ 30 = 1073741824" by simp
    ultimately have "281250000 div (2 :: nat) ^ k = 0" by (intro div_less) linarith
    moreover have "50740000 \<le> h" using False k by simp
    ultimately show ?thesis unfolding k_def [symmetric] by (simp add: hush_block_subsidy_def)
  qed
qed

theorem emission_schedule_witness:
  "unat (hush_block_subsidy 340000 12000000) = 281250000 div 2 ^ nat ((12000000 - 340000) div 1680000) \<and>
   unat (hush_block_subsidy 340000 20000000) \<noteq> 281250000 div 2 ^ nat ((20000000 - 340000) div 1680000)"
  using emission_schedule [of 12000000] emission_schedule [of 20000000] by simp

text \<open>The two tables are kept in sync: the commission is a ninth of the subsidy, rounded down, at every height and for every
  first halving, except in block 128, which has a subsidy and no commission.\<close>
theorem commission_in_sync: "hush_commission z h = (if h = 128 then 0 else hush_block_subsidy z h div 9)"
  by (rule commission_div_9)

text \<open>The static cache of the smart chain subsidy cannot be seen: after any calls for any heights the subsidy of a height is the
  one computed with an empty cache.\<close>
theorem sc_subsidy_cache_transparent:
  "fst (hush_sc_block_subsidy P h (fold (\<lambda>h c. snd (hush_sc_block_subsidy P h c)) hs subsidy_cache0)) =
   fst (hush_sc_block_subsidy P h subsidy_cache0)"
  by (rule sc_subsidy.transparent) simp

section \<open>Halving chains\<close>

text \<open>A smart chain with one era of reward \<open>R\<close> that halves every \<open>H\<close> blocks.\<close>

definition halving_chain :: "nat \<Rightarrow> nat \<Rightarrow> emission_params \<Rightarrow> bool" where
  "halving_chain R H P \<longleftrightarrow>
     \<not> is_hush3 P \<and> ASSETCHAINS_LASTERA P = 0 \<and> ASSETCHAINS_ENDSUBSIDY P ! 0 = 0 \<and> ASSETCHAINS_DECAY P ! 0 = 0 \<and>
     ASSETCHAINS_REWARD P ! 0 = word_of_nat R \<and> ASSETCHAINS_HALVING P ! 0 = word_of_nat H \<and>
     ASSETCHAINS_SUPPLY P \<le> 10000000000 \<and> 0 < R \<and> R < 2 ^ 63 \<and> 0 < H \<and> H < 2 ^ 31"

lemma unat_word_of_nat64: "x < 2 ^ 64 \<Longrightarrow> unat (word_of_nat x :: u64) = x"
  by (simp add: unat_of_nat)

lemma word_of_nat64_nz: "0 < x \<Longrightarrow> x < 2 ^ 64 \<Longrightarrow> (word_of_nat x :: u64) \<noteq> 0"
  by (metis unat_word_of_nat64 unat_0 less_irrefl)

lemma word_of_nat64_div:
  assumes "a < 2 ^ 64" and "b < 2 ^ 64"
  shows "(word_of_nat a :: u64) div word_of_nat b = word_of_nat (a div b)"
proof -
  have "a div b < 2 ^ 64" using assms(1) by (metis div_le_dividend le_less_trans)
  then show ?thesis using assms by (simp add: word_unat_eq_iff unat_div_distrib unat_word_of_nat64)
qed

lemma signed_drop_bit_nat:
  assumes "x < 2 ^ 63"
  shows "signed_drop_bit n (word_of_nat x :: u64) = word_of_nat (x div 2 ^ n)"
proof (rule bit_word_eqI)
  fix i
  assume "i < LENGTH(64)"
  have hi: "\<not> bit x j" if "63 \<le> j" for j
  proof -
    have "x < 2 ^ j" using assms that by (meson less_le_trans one_le_numeral power_increasing)
    then show ?thesis by (simp add: bit_iff_odd)
  qed
  then show "bit (signed_drop_bit n (word_of_nat x :: u64)) i = bit (word_of_nat (x div 2 ^ n) :: u64) i"
    using \<open>i < LENGTH(64)\<close> by (auto simp: bit_simps simp flip: drop_bit_eq_div)
qed

lemma halving_subsidy:
  assumes "halving_chain R H P" and "1 < h" and "h < 2 ^ 31"
  shows "hush_sc_block_subsidy P (int h) c = (word_of_nat (R div 2 ^ (h div H mod 64)), c)"
proof -
  have nz: "(word_of_nat R :: u64) \<noteq> 0" "(word_of_nat H :: u64) \<noteq> 0"
    using assms(1) word_of_nat64_nz [of R] word_of_nat64_nz [of H] by (simp_all add: halving_chain_def del: word_of_nat_eq_0_iff)
  have "(word_of_nat h :: u64) div word_of_nat H = word_of_nat (h div H)"
    using assms by (intro word_of_nat64_div) (simp_all add: halving_chain_def)
  moreover have hH: "h div H < 2 ^ 31" using assms(3) by (metis div_le_dividend le_less_trans)
  ultimately have "uint ((word_of_nat h :: u64) div word_of_nat H) = int (h div H)"
    by (simp add: uint_nat unat_word_of_nat64)
  then have num: "wrap32 (uint ((word_of_nat h :: u64) div word_of_nat H)) = int (h div H)"
    using hH by (simp add: is_i32_def)
  have "era_subsidy P 0 (int h) c = (word_of_nat (R div 2 ^ (h div H mod 64)), c)"
  proof -
    have "nat (int (h div H) mod 64) = h div H mod 64" by (simp add: nat_mod_distrib)
    then show ?thesis
      using assms(1) nz num by (auto simp: era_subsidy_def halving_chain_def signed_drop_bit_nat Let_def)
  qed
  moreover have "\<not> ASSETCHAINS_SUPPLY P > 10000000000" using assms(1) by (simp add: halving_chain_def not_less)
  ultimately show ?thesis
    using assms nz by (simp add: hush_sc_block_subsidy_def halving_chain_def premine_def Let_def)
qed

text \<open>The reward comes back: on a halving chain the subsidy is zero in the 63rd interval at the latest, and the full initial reward
  again in the 64th, because the number of halvings is used as a shift count without the usual test against 64.\<close>
theorem sc_subsidy_shift_revives:
  assumes "halving_chain R H P" and "64 * H \<le> h" and "h < 65 * H" and "h < 2 ^ 31"
  shows "hush_sc_block_subsidy P (int (h - H)) c = (0, c) \<and> hush_sc_block_subsidy P (int h) c = (word_of_nat R, c)"
proof -
  have H: "0 < H" "R < 2 ^ 63" using assms(1) by (simp_all add: halving_chain_def)
  have "h div H = 64" using assms(2,3) H by (intro div_nat_eqI) (simp_all add: mult.commute)
  moreover have "(h - H) div H = 63" using assms(2,3) H by (intro div_nat_eqI) (simp_all add: mult.commute)
  moreover have "1 < h" "1 < h - H" using assms(2) H by simp_all
  ultimately show ?thesis
    using H assms(4) halving_subsidy [OF assms(1), of "h - H" c] halving_subsidy [OF assms(1), of h c] by simp
qed

definition halving_example :: emission_params where
  "halving_example = (hush3_emission 0)\<lparr>EM_SYMBOL := ''ZDEEX'', ASSETCHAINS_LASTERA := 0, ASSETCHAINS_ENDSUBSIDY := replicate 8 0,
     ASSETCHAINS_REWARD := 5000000000 # replicate 7 0, ASSETCHAINS_HALVING := 1000 # replicate 7 0,
     ASSETCHAINS_SUPPLY := 10, ASSETCHAINS_COMMISSION := 0\<rparr>"

lemma halving_example: "halving_chain 5000000000 1000 halving_example"
  by (simp add: halving_chain_def halving_example_def hush3_emission_def is_hush3_def)

theorem sc_subsidy_shift_revives_witness:
  "hush_sc_block_subsidy halving_example (int (64000 - 1000)) subsidy_cache0 = (0, subsidy_cache0) \<and>
   hush_sc_block_subsidy halving_example (int 64000) subsidy_cache0 = (word_of_nat 5000000000, subsidy_cache0)"
  by (rule sc_subsidy_shift_revives [OF halving_example]) simp_all

section \<open>Supply of a halving chain\<close>

text \<open>What the supply loop adds in its first \<open>m\<close> rounds.\<close>

definition halving_sum :: "nat \<Rightarrow> nat \<Rightarrow> nat \<Rightarrow> nat" where
  "halving_sum R H m = (\<Sum>q<m. H * (R div 2 ^ q))"

lemma ceil_div:
  fixes n H :: nat
  assumes "0 < H"
  defines "m \<equiv> (n + H - 1) div H"
  shows "n \<le> m * H" and "m * H < n + H"
proof -
  have "m * H + (n + H - 1) mod H = n + H - 1" unfolding m_def by (rule div_mult_mod_eq)
  moreover have "(n + H - 1) mod H < H" using assms(1) by simp
  ultimately show "n \<le> m * H" and "m * H < n + H" using assms(1) by linarith+
qed

lemma supply_loop_halving:
  assumes "R < 2 ^ 63" and "0 < H" and "n + H \<le> 2 ^ 31" and m: "n \<le> m * H" "m * H < n + H" and "i \<le> m"
  shows "supply_loop (word_of_nat H) 0 (word_of_nat n) (int (i * H)) (word_of_nat (R div 2 ^ i)) (word_of_nat (C + halving_sum R H i)) =
     Some (word_of_nat (R div 2 ^ m), word_of_nat (C + halving_sum R H m))"
  using assms(6)
proof (induction "m - i" arbitrary: i)
  case 0
  then have i: "i = m" by simp
  have "\<not> (word_of_nat (m * H) :: u64) < word_of_nat n"
    using assms(3) m by (simp add: word_less_nat_alt unat_word_of_nat64 del: of_nat_mult)
  then show ?case by (subst supply_loop.simps) (simp add: i)
next
  case (Suc d)
  then have i: "i < m" by simp
  then have "Suc i * H \<le> m * H" by (intro mult_right_mono) simp_all
  then have iH: "i * H < n" "i * H + H < 2 ^ 31" using m assms(3) by simp_all
  then have lt: "(word_of_nat (i * H) :: u64) < word_of_nat n"
    using assms(3) by (simp add: word_less_nat_alt unat_word_of_nat64 del: of_nat_mult)
  have k: "wrap32 (uint (word_of_nat (i * H) + word_of_nat H :: u64)) = int (Suc i * H)"
  proof -
    have "uint (word_of_nat (i * H + H) :: u64) = int (i * H + H)"
      using iH by (simp add: uint_nat unat_word_of_nat64 del: of_nat_add of_nat_mult)
    moreover have "is_i32 (int (i * H + H))" using iH(2) by (simp add: is_i32_def del: of_nat_add of_nat_mult)
    ultimately show ?thesis by (simp add: add.commute)
  qed
  have r: "signed_drop_bit 1 (word_of_nat (R div 2 ^ i) :: u64) = word_of_nat (R div 2 ^ Suc i)"
  proof -
    have "R div 2 ^ i < 2 ^ 63" using assms(1) by (metis div_le_dividend le_less_trans)
    moreover have "R div 2 ^ Suc i = R div 2 ^ i div 2" unfolding power_Suc2 by (rule div_mult2_eq)
    ultimately show ?thesis by (simp add: signed_drop_bit_nat)
  qed
  have c: "(word_of_nat (C + halving_sum R H i) :: u64) + word_of_nat H * word_of_nat (R div 2 ^ i) = word_of_nat (C + halving_sum R H (Suc i))"
    by (simp add: halving_sum_def)
  have "d = m - Suc i" using Suc.hyps(2) by simp
  from Suc.hyps(1) [OF this] i show ?case
    by (subst supply_loop.simps) (use lt k r c in \<open>simp del: of_nat_add of_nat_mult mult_Suc\<close>)
qed

lemma halving_sum_blocks: "halving_sum R H m = (\<Sum>h<m * H. R div 2 ^ (h div H))"
proof (cases "H = 0")
  case False
  have "halving_sum R H m = (\<Sum>q<m. \<Sum>h\<in>{q * H..<q * H + H}. R div 2 ^ (h div H))"
    unfolding halving_sum_def
  proof (rule sum.cong)
    fix q
    have "(\<Sum>h\<in>{q * H..<q * H + H}. R div 2 ^ (h div H)) = (\<Sum>h\<in>{q * H..<q * H + H}. R div 2 ^ q)"
      by (rule sum.cong) (use False in \<open>auto intro!: arg_cong [where f = "\<lambda>k. R div 2 ^ k"] div_nat_eqI simp: mult.commute\<close>)
    then show "H * (R div 2 ^ q) = (\<Sum>h\<in>{q * H..<q * H + H}. R div 2 ^ (h div H))" by simp
  qed simp
  also have "\<dots> = (\<Sum>h<m * H. R div 2 ^ (h div H))" by (rule sum.nat_group)
  finally show ?thesis .
qed (simp add: halving_sum_def)

lemma halving_sum_le: "halving_sum R H m \<le> m * H * R"
proof -
  have "halving_sum R H m \<le> (\<Sum>q<m. H * R)" unfolding halving_sum_def by (intro sum_mono) simp
  then show ?thesis by simp
qed

text \<open>The blocks from the second on get no more than what the rounds of the loop add up to.\<close>

lemma halving_sum_covers:
  assumes "0 < H" and "n \<le> m * H"
  shows "(\<Sum>h\<in>{2..n}. R div 2 ^ (h div H)) \<le> halving_sum R H m"
proof -
  let ?f = "\<lambda>h. R div 2 ^ (h div H)"
  have anti: "?f (Suc h) \<le> ?f h" for h
    by (intro div_le_mono2 power_increasing div_le_mono) simp_all
  have "(\<Sum>h\<in>{2..n}. ?f h) = (\<Sum>h\<in>{1..<n}. ?f (Suc h))"
    using sum.shift_bounds_Suc_ivl [of ?f 1 n] by (simp add: atLeastLessThanSuc_atLeastAtMost numeral_2_eq_2)
  also have "\<dots> \<le> (\<Sum>h\<in>{1..<n}. ?f h)" by (intro sum_mono anti)
  also have "\<dots> \<le> (\<Sum>h<m * H. ?f h)" using assms(2) by (intro sum_mono2) auto
  finally show ?thesis by (simp add: halving_sum_blocks)
qed

lemma bit63_clear: "x < 2 ^ 63 \<Longrightarrow> HUSH_BIT63SET (word_of_nat x) = 0"
proof -
  assume "x < 2 ^ 63"
  then have "\<not> bit x 63" by (simp add: bit_iff_odd)
  then show ?thesis
    unfolding HUSH_BIT63SET_def push_bit_of_1
    by (intro bit_word_eqI) (auto simp: bit_and_iff bit_exp_iff bit_simps simp del: power_numeral)
qed

lemma supply_era_halving:
  assumes P: "halving_chain R H P" and n: "n + H \<le> 2 ^ 31" and m: "n \<le> m * H" "m * H < n + H"
  shows "supply_era P (word_of_nat n) 0 (word_of_nat C) = Some (word_of_nat (C + halving_sum R H m + (n mod H) * (R div 2 ^ m)))"
proof -
  have H: "0 < H" "H < 2 ^ 31" "R < 2 ^ 63" "0 < R" using P by (simp_all add: halving_chain_def)
  have ht: "(ucast (word_of_nat n :: u32) :: u64) = word_of_nat n"
    using n by (simp add: word_unat_eq_iff unsigned_ucast_eq unat_of_nat take_bit_nat_eq_self unat_word_of_nat64)
  have r: "sint (word_of_nat R :: u64) > 0"
    using H by (simp add: sint_uint unsigned_of_nat signed_take_bit_int_eq_self take_bit_nat_eq_self)
  have "unat ((word_of_nat n :: u64) mod word_of_nat H) = n mod H"
    using n H by (simp add: unat_mod_distrib unat_word_of_nat64)
  then have md: "(ucast (ucast ((word_of_nat n :: u64) mod word_of_nat H) :: u32) :: u64) = word_of_nat (n mod H)"
    using n H mod_less_divisor [OF H(1), of n]
    by (simp add: word_unat_eq_iff unsigned_ucast_eq unsigned_take_bit_eq take_bit_nat_eq_self unat_word_of_nat64)
  have hz: "(word_of_nat H :: u64) \<noteq> 0" using word_of_nat64_nz [of H] H by (simp del: word_of_nat_eq_0_iff)
  have loop: "supply_loop (word_of_nat H) 0 (word_of_nat n) 0 (word_of_nat R) (word_of_nat C) =
      Some (word_of_nat (R div 2 ^ m), word_of_nat (C + halving_sum R H m))"
    using supply_loop_halving [OF H(3,1) n m, of 0 C] by (simp add: halving_sum_def)
  have f: "ASSETCHAINS_REWARD P ! 0 = word_of_nat R" "ASSETCHAINS_ENDSUBSIDY P ! 0 = 0" "ASSETCHAINS_HALVING P ! 0 = word_of_nat H"
    "ASSETCHAINS_DECAY P ! 0 = 0" using P by (simp_all add: halving_chain_def)
  have w: "wrap32 (uint (0 :: u64)) = 0" by (simp add: is_i32_def)
  have "(0 :: u64) \<noteq> COIN" by (simp add: COIN_def)
  then show ?thesis
    unfolding supply_era_def Let_def f ht using r hz md loop w by simp
qed

text \<open>What the blocks of a halving chain pay: the premine and the halving rewards.\<close>

lemma halving_paid:
  assumes P: "halving_chain R H P" and stk: "ASSETCHAINS_STAKED P = 0"
    and S: "ASSETCHAINS_SUPPLY P = word_of_nat S" "S \<le> 10000000000"
    and n: "1 \<le> n" "n < 64 * H" "n + H \<le> 2 ^ 31"
  shows "(\<Sum>h\<in>{1..n}. unat (fst (hush_sc_block_subsidy P (int h) subsidy_cache0))) =
     S * 100000000 + unat (ASSETCHAINS_MAGIC P AND 0xffffff) + (\<Sum>h\<in>{2..n}. R div 2 ^ (h div H))"
proof -
  define M where "M = unat (ASSETCHAINS_MAGIC P AND 0xffffff)"
  have "ASSETCHAINS_MAGIC P AND 0xffffff \<le> 0xffffff" by (rule word_and_le1)
  then have M: "M < 2 ^ 24" by (simp add: M_def word_le_nat_alt)
  have H: "0 < H" "H < 2 ^ 31" "R < 2 ^ 63" using P by (simp_all add: halving_chain_def)
  have "\<not> ASSETCHAINS_SUPPLY P > 10000000000" "ASSETCHAINS_LASTERA P = 0" using P by (simp_all add: halving_chain_def not_less)
  moreover have "(ucast (ASSETCHAINS_MAGIC P AND 0xffffff) :: u64) = word_of_nat M" by (simp add: M_def)
  ultimately have "fst (hush_sc_block_subsidy P (int 1) subsidy_cache0) = word_of_nat (S * 100000000 + M)"
    unfolding hush_sc_block_subsidy_def Let_def case_prod_unfold fst_conv using stk S(1) by (simp add: premine_def COIN_def)
  then have 1: "unat (fst (hush_sc_block_subsidy P (int 1) subsidy_cache0)) = S * 100000000 + M"
    using S(2) M by (simp add: unat_word_of_nat64 del: of_nat_add of_nat_mult)
  have "unat (fst (hush_sc_block_subsidy P (int h) subsidy_cache0)) = R div 2 ^ (h div H)" if "h \<in> {2..n}" for h
  proof -
    have "h div H < 64" using that n(2) H(1) by (simp add: less_mult_imp_div_less)
    moreover have "R div 2 ^ (h div H) < 2 ^ 64" by (rule le_less_trans [OF div_le_dividend]) (use H(3) in simp)
    moreover have "h < 2 ^ 31" using that n(3) H(1) by simp
    ultimately show ?thesis using that halving_subsidy [OF P, of h] by (simp add: unat_word_of_nat64)
  qed
  moreover have "{1..n} = insert 1 {2..n}" using n(1) by auto
  ultimately show ?thesis using 1 by (simp add: M_def)
qed

text \<open>C36 The supply figure covers the coins, where these conditions hold: a halving chain (\<open>halving_chain\<close>) without commission and without staking,
  fewer than 64 halvings (\<open>n < 64 * H\<close>), and a sum that fits 63 bits. Then the supply reported for a height is at least what all blocks up to it have paid, plus the
  genesis value and one coin. Without staking is needed: the first block of a staked chain pays the whole 32-bit \<open>ASSETCHAINS_MAGIC\<close> on top of the premine,
  while \<open>hush_current_supply\<close> counts its low 24 bits (\<open>hush_utils.h\<close> line 1704, \<open>hush_globals.h\<close> line 143).\<close>
theorem supply_covers_emission:
  assumes P: "halving_chain R H P" and com: "ASSETCHAINS_COMMISSION P = 0" and stk: "ASSETCHAINS_STAKED P = 0"
    and S: "ASSETCHAINS_SUPPLY P = word_of_nat S" "S \<le> 10000000000" and g: "ASSETCHAINS_GENESISTXVAL P = word_of_nat g"
    and n: "1 \<le> n" "n < 64 * H" "n + H \<le> 2 ^ 31"
    and fits: "(S + 1) * 100000000 + 2 ^ 24 + g + (n + 2 * H) * R < 2 ^ 63"
  shows "\<exists>v. hush_current_supply P (word_of_nat n) = Some v \<and>
     (\<Sum>h\<in>{1..n}. unat (fst (hush_sc_block_subsidy P (int h) subsidy_cache0))) + g + 100000000 \<le> unat v"
proof -
  define M where "M = unat (ASSETCHAINS_MAGIC P AND 0xffffff)"
  define C where "C = (S + 1) * 100000000 + M + g"
  define m where "m = (n + H - 1) div H"
  have H: "0 < H" "H < 2 ^ 31" "R < 2 ^ 63" "0 < R" using P by (simp_all add: halving_chain_def)
  have m: "n \<le> m * H" "m * H < n + H" using ceil_div [OF H(1), of n] by (simp_all add: m_def)
  have "ASSETCHAINS_MAGIC P AND 0xffffff \<le> 0xffffff" by (rule word_and_le1)
  then have M: "M < 2 ^ 24" by (simp add: M_def word_le_nat_alt)
  define V where "V = C + halving_sum R H m + (n mod H) * (R div 2 ^ m)"
  have "(n mod H) * (R div 2 ^ m) \<le> H * R" using H by (intro mult_mono) (simp_all add: less_imp_le)
  moreover have "m * H * R \<le> (n + H) * R" using m by (intro mult_right_mono) simp_all
  ultimately have V: "V < 2 ^ 63" using fits M halving_sum_le [of R H m] by (simp add: V_def C_def algebra_simps)
  have "hush_current_supply P (word_of_nat n) = Some (word_of_nat V)"
  proof -
    have base: "(ASSETCHAINS_SUPPLY P + 1) * COIN + ucast (ASSETCHAINS_MAGIC P AND 0xffffff) + ASSETCHAINS_GENESISTXVAL P = word_of_nat C"
    proof -
      have "(ucast (ASSETCHAINS_MAGIC P AND 0xffffff) :: u64) = word_of_nat M" by (simp add: M_def)
      then show ?thesis unfolding S g by (simp add: C_def COIN_def)
    qed
    have "supply_eras P (word_of_nat n) [0..<Suc 0] (word_of_nat C) = Some (word_of_nat V)"
      using supply_era_halving [OF P n(3) m, of C] by (simp add: supply_stop_def V_def)
    moreover have "ASSETCHAINS_LASTERA P = 0" "ASSETCHAINS_REWARD P ! 0 \<noteq> 0"
      using P word_of_nat64_nz [of R] H by (simp_all add: halving_chain_def del: word_of_nat_eq_0_iff)
    ultimately show ?thesis
      unfolding hush_current_supply_def Let_def base using V com by (simp add: supply_commission_def bit63_clear)
  qed
  moreover have "(\<Sum>h\<in>{1..n}. unat (fst (hush_sc_block_subsidy P (int h) subsidy_cache0))) =
      S * 100000000 + M + (\<Sum>h\<in>{2..n}. R div 2 ^ (h div H))"
    unfolding M_def by (rule halving_paid [OF P stk S n])
  moreover have "unat (word_of_nat V :: u64) = V" using V by (intro unat_word_of_nat64) simp
  moreover have "S * 100000000 + M + (\<Sum>h\<in>{2..n}. R div 2 ^ (h div H)) + g + 100000000 \<le> V"
    using halving_sum_covers [OF H(1) m(1), of R] by (simp add: V_def C_def)
  ultimately show ?thesis by metis
qed

theorem supply_covers_emission_witness:
  "\<exists>v. hush_current_supply halving_example (word_of_nat 3000) = Some v \<and>
     (\<Sum>h\<in>{1..3000}. unat (fst (hush_sc_block_subsidy halving_example (int h) subsidy_cache0))) + 5000000000 + 100000000 \<le> unat v"
  by (rule supply_covers_emission [OF halving_example, where S = 10]) (simp_all add: halving_example_def hush3_emission_def)

end
