(* ===== verification/Hush_Coinbase.thy ===== *)
theory Hush_Coinbase
  imports Hush_Emission Hush_Connect
begin

text \<open>
  What a coinbase transaction must pay besides the miner: the developer commission with its rotating
  scripts (\<open>the_commission\<close>, \<open>hush_checkcommission\<close> of \<open>hush_bitcoind.h\<close>, \<open>devtax_scriptpub_for_height\<close> of
  \<open>hush_globals.h\<close>) and the notaries of a notarisation in the block (\<open>hush_notarypay\<close>, \<open>hush_checknotarypay\<close>).
  The transaction database is a parameter, as in block connection.
\<close>

section \<open>Commission\<close>

definition DEVTAX_DATA :: "(string \<times> string) list" where
  "DEVTAX_DATA =
     [(''RAMagYNy678TEFvjqE9kmkDX5j3xsK9whE'', ''76a9140bcca88d9224ec1571d4dd68009305d055ca3a4588ac''),
      (''RAstH3RJSHq2jr9cigVmAdC5kLdeqCU9gu'', ''76a9141187d31f4b95c3210d2c69acb6853034fb748f8d88ac''),
      (''RCjpaSm3SBnoR7EfM3BGFApx1FgMYZqUqd'', ''76a91425f1a8f5c0bcb7fb4c351f98fd664bbbc029c65488ac''),
      (''RCoJZfPhyigihrzBx3nBnT2V2fdt8PUEmN'', ''76a914269a4514eaa07aa928d3d809d6f9b5a8b0a0d84588ac''),
      (''REadVrDc5PdtkuuXhGMcdBfTLKFkYZtp61'', ''76a9143a24eb5ff34c8395c4159aa74113680960fbae0888ac''),
      (''REJjRATXJ4YqtTTbcSS24HTzVpKc235kzb'', ''76a914372334851e666ff7932d423b1d614db0ad88f3e988ac''),
      (''REktw85C53o6FN9yuQL4HfL8cEgq9oQzgg'', ''76a9143c15f6d372a486e0d3da907e0063d990d50a1f9588ac''),
      (''REXWQqh6ibSc3SDZDN1n3tN6H2fjDB3LRs'', ''76a914398dc193009312742129f00bc12214c2e0ec2cba88ac''),
      (''RFJYpa7sHMes2da1Kd9JZpNEwoz3ut2zxq'', ''76a91442127c49a163f79898c69906147ca3c7c34924b788ac''),
      (''RFLXxCk7AAtUnxauu8k5BzuhXm6XqfJjLA'', ''76a914427297ae0417d18b7f9c31b4a51502d4f2a8cd7988ac''),
      (''RHrBQoDnZ5QrtkL7B1zsdFxrNfLuEikf5T'', ''76a9145dfe2cfe9f6db1c0e6847a35f433d1948d4086a488ac''),
      (''RJDnDj2XHFSbjrBWxW7AA5vv8pQbeiRw5i'', ''76a9146213f7d7567a97d4b6888d3863ed8d4808acf9c688ac''),
      (''RKf78FsvzJebo41n1ZQGyLxbuh3bmbkmAg'', ''76a91471d646502b388d9cca69f05bdedc8920918eca4a88ac''),
      (''RL6J7DU69YvJBFSL93RnezR7dJYW93yKN3'', ''76a9147699d74f361b559ef4cdab6ad2582f68fdd444bd88ac''),
      (''RLDDJMB3fSexorUC7ZkTRjcRLJEkNJZktz'', ''76a91477e8bd3dc10277540fa7f183936c977c130c397c88ac''),
      (''RR9ufAA8m5Myu5EZd2KdXy9hpD6sY5vE1f'', ''76a914ae2164e50fd814faa8629907679af2668f8fd08388ac''),
      (''RUBz8fptKNXB5NL3H1ohNGTeKMBv9WRcpd'', ''76a914cf6e56a04785c9a913d355a2d9c7c7ec1243a4ff88ac''),
      (''RUT8NytuYHqmYXwBkue7ujLWaCKw5ZVc38'', ''76a914d24b763bdac5fb28513d134743e42302736c0dfd88ac''),
      (''RVF6tWNCrUsubeKLzadH4aeseVwnJPKd8N'', ''76a914dafd59fd09a4e7cb813fc4dde4515a605e3aceae88ac''),
      (''RVMygLshHa8qvFX1orEi5FGji99BVXUQFy'', ''76a914dc4a3eb079349b4bb25864af4ddc5cd52faf382d88ac'')]"

definition nHushHardforkHeight4 :: u32 where
  "nHushHardforkHeight4 = 1605555"

definition devtax_fork_height :: "emission_params \<Rightarrow> u32" where
  "devtax_fork_height P = (if is_hush3 P then nHushHardforkHeight4 else 5)"

definition devtax_scriptpub_for_height :: "emission_params \<Rightarrow> u32 \<Rightarrow> string" where
  "devtax_scriptpub_for_height P nHeight =
     (let istush3 = (take 5 (EM_SYMBOL P) = ''TUSH3'') in
      if nHeight \<ge> devtax_fork_height P
      then if is_hush3 P \<or> istush3 then snd (DEVTAX_DATA ! unat (nHeight mod 20)) else ASSETCHAINS_SCRIPTPUB P
      else ASSETCHAINS_SCRIPTPUB P)"

definition devtax_address_for_height :: "emission_params \<Rightarrow> u32 \<Rightarrow> string" where
  "devtax_address_for_height P nHeight =
     (let legacy_devtax_address = ''RHushEyeDm7XwtaTWtyCbjGQumYyV8vMjn''; istush3 = (take 5 (EM_SYMBOL P) = ''TUSH3'') in
      if nHeight \<ge> devtax_fork_height P
      then if is_hush3 P \<or> istush3 then fst (DEVTAX_DATA ! unat (nHeight mod 20)) else legacy_devtax_address
      else legacy_devtax_address)"

text \<open>
  The value of a block's outputs, leaving out the commission output and a staking transaction, and cut off at
  a million coins. The \<open>break\<close> leaves the loop over one transaction's outputs only.
\<close>

fun vouts_total :: "bool \<Rightarrow> nat \<Rightarrow> nat \<Rightarrow> tx_out list \<Rightarrow> u64 \<Rightarrow> u64" where
  "vouts_total staking i j [] paid = paid"
| "vouts_total staking i j (v # vs) paid =
     (if staking \<and> vs = [] then paid
      else
        let paid = (if i \<noteq> 0 \<or> j \<noteq> 1 then paid + to_nValue v else paid)
        in if paid > 1000000 * COIN then 1000000 * COIN else vouts_total staking i (Suc j) vs paid)"

fun block_total :: "emission_params \<Rightarrow> int \<Rightarrow> nat \<Rightarrow> nat \<Rightarrow> block_tx list \<Rightarrow> u64 \<Rightarrow> u64" where
  "block_total P height txn_count i [] paid = paid"
| "block_total P height txn_count i (tx # txs) paid =
     block_total P height txn_count (Suc i) txs
       (vouts_total (height > 225000 \<and> ASSETCHAINS_STAKED P \<noteq> 0 \<and> txn_count > 1 \<and> txs = []) i 0 (tx_vout tx) paid)"

text \<open>
  The block is a pointer that may be null; without founders and without a block the result is what the
  variable \<open>commission\<close> held, the parameter \<open>stk\<close>.
\<close>

definition the_commission ::
    "u64 \<Rightarrow> emission_params \<Rightarrow> block_tx list option \<Rightarrow> int \<Rightarrow> subsidy_cache \<Rightarrow> u64 \<times> subsidy_cache" where
  "the_commission stk P pblock height c =
     (let (commission, c) =
        (if ASSETCHAINS_FOUNDERS P \<noteq> 0
         then
           let (nSubsidy, c) = GetBlockSubsidy P height c;
               commission = nSubsidy * ASSETCHAINS_COMMISSION P div COIN;
               commission = (if is_hush3 P then hush_commission (Z2ZHEIGHT P) height else commission);
               commission =
                 (if ASSETCHAINS_FOUNDERS P > 1
                  then if height mod ASSETCHAINS_FOUNDERS P = 0
                       then if ASSETCHAINS_FOUNDERS_REWARD P = 0
                            then commission * word_of_int (ASSETCHAINS_FOUNDERS P)
                            else ASSETCHAINS_FOUNDERS_REWARD P
                       else 0
                  else commission)
           in (commission, c)
         else case pblock of
             None \<Rightarrow> (stk, c)
           | Some vtx \<Rightarrow>
               ((block_total P height (length vtx) 0 vtx 0 div 10000 * ASSETCHAINS_COMMISSION P) div 10000, c))
      in (if commission < 10000 then 0 else commission, c))"

text \<open>
  The keys given with \<open>-ac_pubkey\<close>. \<open>HUSH_EARLYTXID\<close> is zero unless \<open>-earlytxid\<close> is given; the branch that
  replaces the end of \<open>ASSETCHAINS_SCRIPTPUB\<close> is not modelled.
\<close>

record override_keys =
  ASSETCHAINS_OVERRIDE_PUBKEY33 :: pubkey33
  ASSETCHAINS_OVERRIDE_PUBKEYHASH :: buffer

definition hex_script :: "nat \<Rightarrow> string \<Rightarrow> buffer" where
  "hex_script n s = (case decode_hex n s (\<lambda>_. nul) of Some (bs, _) \<Rightarrow> take n bs | None \<Rightarrow> [])"

definition commission_matched :: "override_keys \<Rightarrow> string \<Rightarrow> buffer \<Rightarrow> bool" where
  "commission_matched K scriptpub script =
     (let scriptlen = length script in
      if length scriptpub > 1
      then length scriptpub div 2 = scriptlen \<and> scriptlen < 8192 \<and> hex_script scriptlen scriptpub = script
      else if scriptlen = 35 \<and> script ! 0 = 33 \<and> script ! 34 = 0xac \<and> take 33 (drop 1 script) = ASSETCHAINS_OVERRIDE_PUBKEY33 K
      then True
      else scriptlen = 25 \<and> script ! 0 = 0x76 \<and> script ! 1 = 0xa9 \<and> script ! 2 = 20 \<and> script ! 23 = 0x88 \<and>
             script ! 24 = 0xac \<and> take 20 (drop 3 script) = ASSETCHAINS_OVERRIDE_PUBKEYHASH K)"

text \<open>\<open>None\<close> is the read of an output that is not there, for a commission of \<open>2 ^ 63\<close> or more.\<close>

definition hush_checkcommission ::
    "u64 \<Rightarrow> emission_params \<Rightarrow> override_keys \<Rightarrow> block_tx list \<Rightarrow> int \<Rightarrow> subsidy_cache \<Rightarrow> int option \<times> subsidy_cache" where
  "hush_checkcommission stk P K vtx height c =
     (let scriptpub = devtax_scriptpub_for_height P (word_of_int height) in
      if ASSETCHAINS_COMMISSION P \<noteq> 0 \<or> ASSETCHAINS_FOUNDERS_REWARD P \<noteq> 0
      then
        let (commission, c) = the_commission stk P (Some vtx) height c;
            checktoshis = sint commission;
            vouts = tx_vout (vtx ! 0)
        in if checktoshis \<ge> 10000 \<and> length vouts < 2 then (Some (-1), c)
           else if checktoshis \<noteq> 0
           then if length vouts < 2 then (None, c)
                else if \<not> commission_matched K scriptpub (to_scriptPubKey (vouts ! 1)) then (Some (-1), c)
                else if to_nValue (vouts ! 1) \<noteq> commission then (Some (-1), c)
                else (Some checktoshis, c)
           else (Some checktoshis, c)
      else (Some 0, c))"

section \<open>Notary pay\<close>

text \<open>The era search with a counter of type \<open>int8_t\<close>; the last era is at most 6.\<close>

definition hush_notarypayamount :: "hush_params \<Rightarrow> emission_params \<Rightarrow> int \<Rightarrow> nat \<Rightarrow> u64" where
  "hush_notarypayamount G P nHeight notarycount =
     (let curEra = (if ASSETCHAINS_ENDSUBSIDY P ! 0 > 1 then era_search P nHeight 0 else 0)
      in if curEra > unat (ASSETCHAINS_LASTERA P) then 0
         else if notarycount = 0 then 0
         else ASSETCHAINS_NOTARY_PAY G ! curEra div word_of_nat notarycount)"

text \<open>The scan of an output in check mode; what the two variables that are not set hold at the start does not matter to it.\<close>

definition hush_getnotarizedheight ::
    "hush_env \<Rightarrow> hush_params \<Rightarrow> chain_view \<Rightarrow> u32 \<Rightarrow> int \<Rightarrow> buffer \<Rightarrow> vout_ctx \<Rightarrow> hush_world \<Rightarrow> int \<times> hush_world" where
  "hush_getnotarizedheight E G ch timestamp height script x w =
     (if script_fits script
      then
        let (nid, x, w) = hush_voutupdate E G ch True (bmem_of script (stk_local E ''scriptbuf'')) (length script) height 0 1 1 0 1 0
              timestamp (x\<lparr>vx_notaryid := 0\<rparr>) w
        in (if nid \<noteq> -2 then 0 else vx_notarizedheight x, w)
      else (0, w))"

definition pubkey_script :: "pubkey33 \<Rightarrow> buffer" where
  "pubkey_script key = 33 # key @ [0xac]"

text \<open>
  The coinbase outputs that pay the notaries, and their total; no outputs when nothing is paid. The keys are those of the set in force,
  an array of zeros when there is none.
\<close>

definition notary_keys :: "hush_params \<Rightarrow> chain_view \<Rightarrow> int \<Rightarrow> u32 \<Rightarrow> pubkey33 list" where
  "notary_keys G ch height timestamp =
     (case hush_notaries G ch height timestamp of Some ks \<Rightarrow> ks | None \<Rightarrow> replicate 64 (replicate 33 0))"

definition hush_notarypay ::
    "hush_env \<Rightarrow> hush_params \<Rightarrow> emission_params \<Rightarrow> chain_view \<Rightarrow> nat list \<Rightarrow> u32 \<Rightarrow> int \<Rightarrow> buffer \<Rightarrow> vout_ctx \<Rightarrow> hush_world
      \<Rightarrow> (u64 \<times> tx_out list) \<times> hush_world" where
  "hush_notarypay E G P ch NotarizationNotaries timestamp height script x w =
     (let notarypubkeys = notary_keys G ch height timestamp in
      if hd (hd notarypubkeys) = 0 then ((0, []), w)
      else
        let (notarizedheight, w) = hush_getnotarizedheight E G ch timestamp height script x w
        in if notarizedheight = 0 then ((0, []), w)
           else
             let AmountToPay = hush_notarypayamount G P height (length NotarizationNotaries)
             in if AmountToPay = 0 then ((0, []), w)
                else
                  let vouts = map (\<lambda>n. \<lparr>to_scriptPubKey = pubkey_script (notarypubkeys ! n), to_nValue = AmountToPay\<rparr>) NotarizationNotaries
                  in ((sum_list (map to_nValue vouts), vouts), w))"

text \<open>
  The notaries whose outputs a transaction spends, in input order. The number of notaries is an \<open>int8_t\<close>, -1 when there is no
  set. The first \<^const>\<open>None\<close> is the return value false, the second a read beyond the outputs of the spent transaction.
\<close>

definition spent_notaries :: "pubkey33 list \<Rightarrow> int \<Rightarrow> buffer \<Rightarrow> nat list" where
  "spent_notaries notarypubkeys numNN script =
     filter (\<lambda>i. length script = 35 \<and> script ! 0 = 33 \<and> script ! 34 = 0xac \<and> take 33 (drop 1 script) = notarypubkeys ! i)
       [0..<nat numNN]"

fun notaries_of_vins ::
    "(uint256 \<Rightarrow> block_tx option) \<Rightarrow> pubkey33 list \<Rightarrow> int \<Rightarrow> (uint256 \<times> u32) list \<Rightarrow> nat list option option" where
  "notaries_of_vins gt notarypubkeys numNN [] = Some (Some [])"
| "notaries_of_vins gt notarypubkeys numNN ((hash, n) # vins) =
     (case gt hash of
        None \<Rightarrow> Some None
      | Some tx1 \<Rightarrow>
          if unat n < length (tx_vout tx1) \<or> numNN \<le> 0
          then let here = (if numNN \<le> 0 then [] else spent_notaries notarypubkeys numNN (to_scriptPubKey (tx_vout tx1 ! unat n)))
               in map_option (map_option (\<lambda>rest. here @ rest)) (notaries_of_vins gt notarypubkeys numNN vins)
          else None)"

definition GetNotarizationNotaries ::
    "(uint256 \<Rightarrow> block_tx option) \<Rightarrow> pubkey33 list \<Rightarrow> int \<Rightarrow> (uint256 \<times> u32) list \<Rightarrow> nat list option option" where
  "GetNotarizationNotaries gt notarypubkeys numNN vin =
     (if hd (hd notarypubkeys) = 0 then Some None else notaries_of_vins gt notarypubkeys numNN vin)"

text \<open>
  The comparison of the coinbase outputs with the notaries, from output \<open>n\<close> (an \<open>int8_t\<close>) on: number of matches and what they are paid.
  \<^const>\<open>None\<close> is the read beyond the list of notaries, which a further pay-to-pubkey output causes.
\<close>

fun match_vouts ::
    "pubkey33 list \<Rightarrow> nat list \<Rightarrow> u64 \<Rightarrow> tx_out list \<Rightarrow> byte \<Rightarrow> tx_out list \<Rightarrow> byte \<times> u64 \<Rightarrow> (byte \<times> u64) option" where
  "match_vouts keys ids amount vouts n [] (matches, paid) = Some (matches, paid)"
| "match_vouts keys ids amount vouts n (txout # rest) (matches, paid) =
     (if n = 0 then match_vouts keys ids amount vouts 1 rest (matches, paid)
      else
        let script = to_scriptPubKey txout in
        if length script = 35 \<and> script ! 0 = 33 \<and> script ! 34 = 0xac
        then
          if sint n < 1 \<or> sint n > int (length ids) then None
          else if take 33 (drop 1 script) = keys ! (ids ! nat (sint n - 1)) \<and> to_nValue (vouts ! nat (sint n)) = amount
          then match_vouts keys ids amount vouts (n + 1) rest (matches + 1, paid + to_nValue txout)
          else match_vouts keys ids amount vouts (n + 1) rest (matches, paid)
        else match_vouts keys ids amount vouts (n + 1) rest (matches, paid))"

text \<open>The amount notaries are paid by the coinbase of a block whose second transaction is a notarisation; 0 when it is not right,
  \<^const>\<open>None\<close> for a read out of bounds.\<close>

definition hush_checknotarypay ::
    "hush_env \<Rightarrow> hush_params \<Rightarrow> emission_params \<Rightarrow> chain_view \<Rightarrow> (uint256 \<Rightarrow> block_tx option) \<Rightarrow> u32 \<Rightarrow> block_tx list \<Rightarrow> int
      \<Rightarrow> vout_ctx \<Rightarrow> hush_world \<Rightarrow> u64 option \<times> hush_world" where
  "hush_checknotarypay E G P ch gt nTime vtx height x w =
     (let keys = notary_keys G ch height nTime;
          numSN = (case hush_notaries G ch height nTime of Some ks \<Rightarrow> int (length ks) | None \<Rightarrow> -1)
      in case GetNotarizationNotaries gt keys numSN (tx_vin (vtx ! 1)) of
           None \<Rightarrow> (None, w)
         | Some None \<Rightarrow> (Some 0, w)
         | Some (Some ids) \<Rightarrow>
             if \<not> distinct ids then (Some 0, w)
             else
               let nvouts = tx_vout (vtx ! 1) in
               if length nvouts = 2 \<and> to_nValue (nvouts ! 1) = 0
               then
                 let script = to_scriptPubKey (nvouts ! 1) in
                 if script = [] then (None, w)
                 else if hd script \<noteq> 0x6a then (Some 0, w)
                 else
                   let ((totalsats, pays), w) = hush_notarypay E G P ch ids nTime height script x w
                   in if totalsats = 0 then (Some 0, w)
                      else case match_vouts keys ids (to_nValue (pays ! 0)) (tx_vout (vtx ! 0)) 0 (tx_vout (vtx ! 0)) (0, 0) of
                          None \<Rightarrow> (None, w)
                        | Some (matches, paid) \<Rightarrow>
                            (if matches \<noteq> 0 \<and> sint matches = int (length ids) \<and> totalsats = paid then (Some totalsats, w)
                             else (Some 0, w))
               else (Some 0, w))"

section \<open>The main chain\<close>

lemma hush3_commission:
  "the_commission stk (hush3_emission magic) pblock h c =
     (if hush_commission 340000 h < 10000 then 0 else hush_commission 340000 h, snd (GetBlockSubsidy (hush3_emission magic) h c))"
  by (simp add: the_commission_def hush3_emission_def is_hush3_def case_prod_unfold)

definition commission_table :: "(int \<times> nat) list" where
  "commission_table =
     [(129, 0), (340000, 125000000), (2020000, 31250000), (3700000, 15625000), (5380000, 7812500), (7060000, 3906250),
      (8740000, 1953125), (10420000, 976562), (12100000, 488281), (15460000, 244140), (17140000, 122070),
      (18820000, 61035), (23860000, 30517)]"

lemma hush3_commission_table: "unat (fst (the_commission stk (hush3_emission magic) pblock h c)) = step_value commission_table h"
  unfolding hush3_commission by (simp add: hush_commission_def commission_table_def)

definition paid_table :: "(int \<times> nat) list" where
  "paid_table =
     [(128, 0), (340000, 1125000000), (2020000, 281250000), (3700000, 140625000), (5380000, 70312500),
      (7060000, 35156250), (8740000, 17578125), (10420000, 8789062), (10844222, 4394531)]"

lemma paid_table: "step_value paid_table h = (if h < 10844222 then step_value subsidy_table h else 0)"
  by (simp add: paid_table_def subsidy_table_def)

lemma hush3_premine: "unat (6178674 * COIN + ucast (magic AND 0xffffff :: u32)) = 617867400000000 + unat (magic AND 0xffffff)"
proof -
  have "magic AND 0xffffff \<le> 0xffffff" by (rule word_and_le1)
  then have "unat (magic AND 0xffffff) \<le> 0xffffff" by (simp add: word_le_nat_alt)
  then have "unat (word_of_nat (617867400000000 + unat (magic AND 0xffffff)) :: u64) = 617867400000000 + unat (magic AND 0xffffff)"
    by (intro unat_word_of_nat64) simp
  moreover have "(word_of_nat (617867400000000 + unat (magic AND 0xffffff)) :: u64) = 6178674 * COIN + ucast (magic AND 0xffffff)"
    by (simp add: COIN_def)
  ultimately show ?thesis by simp
qed

lemma hush3_subsidy_table:
  assumes "0 \<le> h" and "h < 2 ^ 31"
  shows "unat (fst (hush_sc_block_subsidy (hush3_emission magic) h c)) =
     (if h = 1 then 617867400000000 + unat (magic AND 0xffffff) else 0) + step_value paid_table h"
proof -
  have "step_value paid_table 1 = 0" by (simp add: paid_table_def)
  then show ?thesis
    unfolding hush3_subsidy_eq [OF assms] by (simp add: hush3_premine paid_table subsidy_table)
qed

text \<open>C15 All the coins of the main chain, over every height an \<open>int32_t\<close> can hold and whatever the blocks contain: the premine, the
  miner subsidies and the developer commissions add up to 20802673.24609882 coins and the magic dust of block 1, which is less than 21 million.\<close>
theorem hush3_total_supply:
  "(\<Sum>h\<in>{0..<2 ^ 31}. unat (fst (GetBlockSubsidy (hush3_emission magic) h (c h))) +
      unat (fst (the_commission stk (hush3_emission magic) (pblock h) h (c h)))) = 2080267324609882 + unat (magic AND 0xffffff) \<and>
   2080267324609882 + unat (magic AND 0xffffff) \<le> 21000000 * 100000000"
proof -
  let ?M = "unat (magic AND 0xffffff)"
  have "magic AND 0xffffff \<le> 0xffffff" by (rule word_and_le1)
  then have M: "?M \<le> 0xffffff" by (simp add: word_le_nat_alt)
  have one: "(\<Sum>h\<in>{0..<2 ^ 31 :: int}. if h = 1 then 617867400000000 + ?M else 0) = 617867400000000 + ?M"
    by (subst sum.delta) simp_all
  have "(\<Sum>h\<in>{0..<2 ^ 31}. unat (fst (GetBlockSubsidy (hush3_emission magic) h (c h)))) =
      (\<Sum>h\<in>{0..<2 ^ 31}. (if h = 1 then 617867400000000 + ?M else 0) + step_value paid_table h)"
    by (rule sum.cong) (simp_all add: GetBlockSubsidy_def hush3_subsidy_table)
  also have "\<dots> = 617867400000000 + ?M + step_total 0 paid_table"
    unfolding sum.distrib one by (subst sum_step_value) (simp_all add: paid_table_def)
  finally have "(\<Sum>h\<in>{0..<2 ^ 31}. unat (fst (GetBlockSubsidy (hush3_emission magic) h (c h)))) =
      617867400000000 + ?M + step_total 0 paid_table" .
  moreover have "(\<Sum>h\<in>{0..<2 ^ 31}. unat (fst (the_commission stk (hush3_emission magic) (pblock h) h (c h)))) = step_total 0 commission_table"
    unfolding hush3_commission_table by (rule sum_step_value) (simp_all add: commission_table_def)
  moreover have "step_total 0 paid_table = 1314454630889882" "step_total 0 commission_table = 147945293720000"
    by (simp_all add: paid_table_def commission_table_def)
  ultimately show ?thesis using M by (simp add: sum.distrib)
qed

lemma devtax_late: "1605555 \<le> h \<Longrightarrow> h < 2 ^ 31 \<Longrightarrow>
    devtax_scriptpub_for_height (hush3_emission magic) (word_of_int h) = snd (DEVTAX_DATA ! nat (h mod 20))"
proof -
  assume h: "1605555 \<le> h" "h < 2 ^ 31"
  then have u: "uint (word_of_int h :: u32) = h" by (simp add: unsigned_of_int take_bit_int_eq_self)
  then have "devtax_fork_height (hush3_emission magic) \<le> word_of_int h"
    using h by (simp add: devtax_fork_height_def is_hush3_def hush3_emission_def nHushHardforkHeight4_def word_le_def)
  moreover have "unat (word_of_int h mod 20 :: u32) = nat (h mod 20)" by (simp add: unat_eq_nat_uint uint_mod u)
  ultimately show ?thesis by (simp add: devtax_scriptpub_for_height_def is_hush3_def hush3_emission_def)
qed

lemma DEVTAX_length: "n < 20 \<Longrightarrow> length (snd (DEVTAX_DATA ! n)) = 50"
proof -
  assume "n < 20"
  moreover have "list_all (\<lambda>d. length (snd d) = 50) DEVTAX_DATA" "length DEVTAX_DATA = 20" by (simp_all add: DEVTAX_DATA_def)
  ultimately show ?thesis by (simp add: list_all_length)
qed

lemma checkcommission_late:
  assumes h: "1605555 \<le> h" "h < 2 ^ 31"
    and run: "hush_checkcommission stk (hush3_emission magic) K vtx h c = (Some v, c')" and v: "v \<noteq> -1"
  shows "v = (if h < 23860000 then uint (hush_commission 340000 h) else 0) \<and>
     (h < 23860000 \<longrightarrow> length (tx_vout (vtx ! 0)) \<ge> 2 \<and> to_nValue (tx_vout (vtx ! 0) ! 1) = hush_commission 340000 h \<and>
        to_scriptPubKey (tx_vout (vtx ! 0) ! 1) = hex_script 25 (snd (DEVTAX_DATA ! nat (h mod 20))))"
proof -
  let ?C = "if hush_commission 340000 h < 10000 then 0 else hush_commission 340000 h"
  have C: "?C = (if h < 23860000 then hush_commission 340000 h else 0)" and s: "sint ?C = uint ?C"
    and z: "(sint ?C = 0) = (23860000 \<le> h)" and big: "h < 23860000 \<Longrightarrow> 10000 \<le> sint ?C"
    using h(1) by (simp_all add: hush_commission_def)
  have len: "length (snd (DEVTAX_DATA ! nat (h mod 20))) = 50" by (rule DEVTAX_length) simp
  have com: "ASSETCHAINS_COMMISSION (hush3_emission magic) \<noteq> 0" by (simp add: hush3_emission_def)
  have match: "commission_matched K (snd (DEVTAX_DATA ! nat (h mod 20))) sc \<longleftrightarrow>
      sc = hex_script 25 (snd (DEVTAX_DATA ! nat (h mod 20))) \<and> length sc = 25" for sc
    by (auto simp: commission_matched_def len Let_def)
  show ?thesis
    using run v unfolding hush_checkcommission_def hush3_commission devtax_late [OF h] Let_def prod.case match
    using C s z big com by (auto split: if_splits)
qed

text \<open>C34 The developer commission is enforced: from the fork height on, a block of the main chain passes the check only when its
  coinbase pays exactly the commission of its height in its second output, to the script of the twenty that is due at that
  height; from block 23860000 on nothing is due.\<close>
theorem devtax_enforced:
  assumes h: "1605555 \<le> h" "h < 2 ^ 31"
    and run: "hush_checkcommission stk (hush3_emission magic) K vtx h c = (Some v, c')" and v: "v \<noteq> -1"
  shows "v = (if h < 23860000 then uint (hush_commission 340000 h) else 0) \<and>
     (h < 23860000 \<longrightarrow> length (tx_vout (vtx ! 0)) \<ge> 2 \<and> to_nValue (tx_vout (vtx ! 0) ! 1) = hush_commission 340000 h \<and>
        to_scriptPubKey (tx_vout (vtx ! 0) ! 1) = hex_script 25 (snd (DEVTAX_DATA ! nat (h mod 20))))"
  by (rule checkcommission_late [OF assms])

definition devtax_example :: "block_tx list" where
  "devtax_example = [\<lparr>tx_hash = 1, tx_vin = [], tx_vout =
     [\<lparr>to_scriptPubKey = [], to_nValue = 281250000\<rparr>,
      \<lparr>to_scriptPubKey = [0x76, 0xa9, 0x14, 0xae, 0x21, 0x64, 0xe5, 0x0f, 0xd8, 0x14, 0xfa, 0xa8, 0x62, 0x99, 0x07, 0x67, 0x9a,
         0xf2, 0x66, 0x8f, 0x8f, 0xd0, 0x83, 0x88, 0xac], to_nValue = 31250000\<rparr>]\<rparr>]"

theorem devtax_enforced_witness:
  "hush_checkcommission 0 (hush3_emission 7) \<lparr>ASSETCHAINS_OVERRIDE_PUBKEY33 = [], ASSETCHAINS_OVERRIDE_PUBKEYHASH = []\<rparr> devtax_example
     1605555 subsidy_cache0 = (Some 31250000, subsidy_cache0) \<and>
   to_scriptPubKey (tx_vout (devtax_example ! 0) ! 1) = hex_script 25 (snd (DEVTAX_DATA ! nat (1605555 mod 20)))"
proof -
  have run: "hush_checkcommission 0 (hush3_emission 7) \<lparr>ASSETCHAINS_OVERRIDE_PUBKEY33 = [], ASSETCHAINS_OVERRIDE_PUBKEYHASH = []\<rparr> devtax_example
     1605555 subsidy_cache0 = (Some 31250000, subsidy_cache0)" by code_simp
  then show ?thesis using devtax_enforced [OF _ _ run] by simp
qed

section \<open>Paying the notaries\<close>

text \<open>Coinbase output \<open>k\<close> pays notary number \<open>k - 1\<close> of the list.\<close>

definition pays_notary :: "pubkey33 list \<Rightarrow> nat list \<Rightarrow> u64 \<Rightarrow> tx_out list \<Rightarrow> nat \<Rightarrow> bool" where
  "pays_notary keys ids amount vouts k \<longleftrightarrow>
     k < length vouts \<and> to_nValue (vouts ! k) = amount \<and> to_scriptPubKey (vouts ! k) = pubkey_script (keys ! (ids ! (k - 1)))"

lemma pubkey_script_eq:
  assumes "length sc = 35" and "sc ! 0 = 33" and "sc ! 34 = 0xac"
  shows "sc = pubkey_script (take 33 (drop 1 sc))"
proof (rule nth_equalityI)
  fix i
  assume "i < length sc"
  then show "sc ! i = pubkey_script (take 33 (drop 1 sc)) ! i"
    using assms by (cases i) (auto simp: pubkey_script_def nth_append less_Suc_eq numeral_eq_Suc)
qed (use assms in \<open>simp add: pubkey_script_def\<close>)

text \<open>The matches are distinct positions among the first \<open>length ids\<close> outputs after the miner's.\<close>

lemma match_vouts_positions:
  assumes "match_vouts keys ids amount vouts (word_of_nat n) rest (m, p) = Some (m', p')"
    and "rest = drop n vouts" and "1 \<le> n" and "length vouts \<le> 127"
  shows "\<exists>S. finite S \<and> S \<subseteq> {n..<length vouts} \<inter> {1..length ids} \<and> m' = m + word_of_nat (card S) \<and> p' = p + word_of_nat (card S) * amount \<and>
     (\<forall>k\<in>S. pays_notary keys ids amount vouts k)"
  using assms
proof (induction rest arbitrary: n m p)
  case Nil
  then show ?case by (intro exI [of _ "{}"]) simp
next
  case (Cons t rest)
  have n: "n < length vouts" using Cons.prems(2) by (metis drop_eq_Nil linorder_not_le list.distinct(1))
  then have t: "t = vouts ! n" and rest: "rest = drop (Suc n) vouts" using Cons.prems(2) by (metis Cons_nth_drop_Suc list.inject)+
  have u: "unat (word_of_nat n :: byte) = n" using n Cons.prems(4) by (simp add: unat_of_nat)
  then have nz: "(word_of_nat n :: byte) \<noteq> 0" using Cons.prems(3) by (metis unat_0 not_one_le_zero)
  have sn: "sint (word_of_nat n :: byte) = int n"
    using n Cons.prems(4) by (simp add: sint_uint unsigned_of_nat signed_take_bit_int_eq_self take_bit_nat_eq_self)
  have nxt: "(word_of_nat n :: byte) + 1 = word_of_nat (Suc n)" by simp
  note IH = Cons.IH [OF _ rest _ Cons.prems(4)]
  let ?sc = "to_scriptPubKey t"
  show ?case
  proof (cases "length ?sc = 35 \<and> ?sc ! 0 = 33 \<and> ?sc ! 34 = 0xac \<and> take 33 (drop 1 ?sc) = keys ! (ids ! (n - 1)) \<and> to_nValue t = amount")
    case True
    then have "n \<le> length ids" and step: "match_vouts keys ids amount vouts (word_of_nat (Suc n)) rest (m + 1, p + amount) = Some (m', p')"
      using Cons.prems(1,3) nz unfolding match_vouts.simps Let_def nxt sn t by (auto split: if_splits simp: nat_diff_distrib)
    obtain S where S: "finite S" "S \<subseteq> {Suc n..<length vouts} \<inter> {1..length ids}" "m' = m + 1 + word_of_nat (card S)"
      "p' = p + amount + word_of_nat (card S) * amount" "\<forall>k\<in>S. pays_notary keys ids amount vouts k"
      using IH [OF step] by auto
    have "n \<notin> S" using S(2) by auto
    moreover have "pays_notary keys ids amount vouts n"
      using True n t pubkey_script_eq [of ?sc] by (simp add: pays_notary_def)
    moreover have "insert n S \<subseteq> {n..<length vouts} \<inter> {1..length ids}"
      using S(2) n \<open>n \<le> length ids\<close> Cons.prems(3) by auto
    moreover have "m' = m + word_of_nat (card (insert n S))" "p' = p + word_of_nat (card (insert n S)) * amount"
      using S(1,3,4) \<open>n \<notin> S\<close> by (simp_all add: distrib_right)
    ultimately show ?thesis
      using S(1,5) by (intro exI [of _ "insert n S"] conjI) simp_all
  next
    case False
    then have "match_vouts keys ids amount vouts (word_of_nat (Suc n)) rest (m, p) = Some (m', p')"
      using Cons.prems(1,3) nz unfolding match_vouts.simps Let_def nxt sn t by (auto split: if_splits simp: nat_diff_distrib)
    then obtain S where "finite S" "S \<subseteq> {Suc n..<length vouts} \<inter> {1..length ids}" "m' = m + word_of_nat (card S)"
      "p' = p + word_of_nat (card S) * amount" "\<forall>k\<in>S. pays_notary keys ids amount vouts k"
      using IH by auto
    then show ?thesis by (intro exI [of _ S]) auto
  qed
qed

text \<open>C16 Notary pay is exact: when the check of a block with at most 127 coinbase outputs returns an amount, the signers of the
  notarisation are pairwise different, each of them is paid the same share in the output at his position, with a plain
  pay-to-pubkey script of his key, and the amount returned is the sum of these shares.\<close>
theorem notarypay_exact:
  assumes run: "hush_checknotarypay E G P ch gt nTime vtx height x w = (Some v, w')" and v: "v \<noteq> 0"
    and few: "length (tx_vout (vtx ! 0)) \<le> 127"
  shows "\<exists>ids numSN. GetNotarizationNotaries gt (notary_keys G ch height nTime) numSN (tx_vin (vtx ! 1)) = Some (Some ids) \<and>
     distinct ids \<and> ids \<noteq> [] \<and> v = word_of_nat (length ids) * hush_notarypayamount G P height (length ids) \<and>
     (\<forall>k. 1 \<le> k \<and> k \<le> length ids \<longrightarrow>
        pays_notary (notary_keys G ch height nTime) ids (hush_notarypayamount G P height (length ids)) (tx_vout (vtx ! 0)) k)"
proof -
  define keys where "keys = notary_keys G ch height nTime"
  define numSN where "numSN = (case hush_notaries G ch height nTime of Some ks \<Rightarrow> int (length ks) | None \<Rightarrow> -1)"
  let ?vouts = "tx_vout (vtx ! 0)" and ?script = "to_scriptPubKey (tx_vout (vtx ! 1) ! 1)"
  note run' = run [unfolded hush_checknotarypay_def Let_def, folded keys_def numSN_def]
  obtain ids where ids: "GetNotarizationNotaries gt keys numSN (tx_vin (vtx ! 1)) = Some (Some ids)" "distinct ids"
    using run' v by (auto split: option.splits if_splits)
  define r where "r = hush_notarypay E G P ch ids nTime height ?script x w"
  have fst_r: "fst (fst r) = v" and m: "\<exists>m. match_vouts keys ids (to_nValue (snd (fst r) ! 0)) ?vouts 0 ?vouts (0, 0) = Some (m, v) \<and>
      sint m = int (length ids) \<and> m \<noteq> 0"
    using run' v unfolding ids r_def by (auto simp: case_prod_unfold split: option.splits if_splits)
  let ?a = "hush_notarypayamount G P height (length ids)"
  have "fst r = (sum_list (map to_nValue (map (\<lambda>n. \<lparr>to_scriptPubKey = pubkey_script (keys ! n), to_nValue = ?a\<rparr>) ids)),
      map (\<lambda>n. \<lparr>to_scriptPubKey = pubkey_script (keys ! n), to_nValue = ?a\<rparr>) ids)"
    using fst_r v unfolding r_def hush_notarypay_def Let_def keys_def by (auto simp: case_prod_unfold split: if_splits)
  moreover obtain m where "match_vouts keys ids (to_nValue (snd (fst r) ! 0)) ?vouts 0 ?vouts (0, 0) = Some (m, v)"
      and ml: "sint m = int (length ids)" and "m \<noteq> 0" using m by blast
  moreover have ne: "ids \<noteq> []" using ml \<open>m \<noteq> 0\<close> by (auto simp: signed_eq_0_iff)
  ultimately have match: "match_vouts keys ids ?a ?vouts 0 ?vouts (0, 0) = Some (m, v)" by (simp add: hd_conv_nth [symmetric] hd_map)
  have "\<exists>S. finite S \<and> S \<subseteq> {1..<length ?vouts} \<inter> {1..length ids} \<and> m = word_of_nat (card S) \<and> v = word_of_nat (card S) * ?a \<and>
      (\<forall>k\<in>S. pays_notary keys ids ?a ?vouts k)"
  proof (cases ?vouts)
    case Nil
    then show ?thesis using match \<open>m \<noteq> 0\<close> by simp
  next
    case (Cons t rest)
    then have "match_vouts keys ids ?a ?vouts (word_of_nat 1) rest (0, 0) = Some (m, v)" using match by simp
    from match_vouts_positions [OF this] Cons few show ?thesis by simp
  qed
  then obtain S where S: "finite S" "S \<subseteq> {1..<length ?vouts} \<inter> {1..length ids}" "m = word_of_nat (card S)"
    "v = word_of_nat (card S) * ?a" "\<forall>k\<in>S. pays_notary keys ids ?a ?vouts k" by blast
  have "card S \<le> card {1..<length ?vouts}" using S(2) by (intro card_mono) auto
  then have "card S < 128" using few by simp
  then have "sint (word_of_nat (card S) :: byte) = int (card S)"
    by (simp add: sint_uint unsigned_of_nat signed_take_bit_int_eq_self take_bit_nat_eq_self)
  then have c: "card S = length ids" using ml S(3) by simp
  then have "S = {1..length ids}" using S(2) by (intro card_subset_eq) auto
  then have "\<forall>k. 1 \<le> k \<and> k \<le> length ids \<longrightarrow> pays_notary keys ids ?a ?vouts k" using S(5) by auto
  then show ?thesis using ids ne S(4) unfolding c keys_def by blast
qed

lemma spent_notaries_key:
  assumes "distinct ks" and "i < length ks" and "length (ks ! i) = 33"
  shows "spent_notaries ks (int (length ks)) (pubkey_script (ks ! i)) = [i]"
proof -
  have "filter (\<lambda>j. ks ! i = ks ! j) [0..<length ks] = filter (\<lambda>j. j = i) [0..<length ks]"
    by (rule filter_cong) (use assms in \<open>auto simp: nth_eq_iff_index_eq\<close>)
  also have "\<dots> = [i]" using assms(2) by (induction ks rule: rev_induct) (auto simp: less_Suc_eq filter_empty_conv)
  finally show ?thesis using assms(3) by (simp add: spent_notaries_def pubkey_script_def nth_append)
qed

definition notarypay_params :: hush_params where
  "notarypay_params = hush3_params\<lparr>ASSETCHAINS_NOTARY_PAY := [5000, 5000, 5000]\<rparr>"

definition notarypay_chain :: chain_view where
  "notarypay_chain = empty_chain\<lparr>IsInitialBlockDownload := True\<rparr>"

definition notarypay_key :: pubkey33 where
  "notarypay_key = hush_pubkeys 7 ! 3"

definition notarypay_script :: buffer where
  "notarypay_script = 0x6a # 74 # le_bytes 32 (1 :: uint256) @ le_i32 5 @ le_bytes 32 (2 :: uint256) @ bytes_of ''HUSH3'' @ [0]"

definition notarypay_block :: "block_tx list" where
  "notarypay_block =
     [\<lparr>tx_hash = 1, tx_vin = [], tx_vout =
        [\<lparr>to_scriptPubKey = [], to_nValue = 1\<rparr>, \<lparr>to_scriptPubKey = pubkey_script notarypay_key, to_nValue = 5000\<rparr>]\<rparr>,
      \<lparr>tx_hash = 2, tx_vin = [(7, 0)], tx_vout =
        [\<lparr>to_scriptPubKey = [], to_nValue = 1\<rparr>, \<lparr>to_scriptPubKey = notarypay_script, to_nValue = 0\<rparr>]\<rparr>]"

lemma notarypay_height:
  "hush_getnotarizedheight E notarypay_params notarypay_chain 0 400000 notarypay_script x w = (5, w)"
proof -
  let ?m = "bmem_of notarypay_script (stk_local E ''scriptbuf'')" and ?ch = notarypay_chain
  have len: "length notarypay_script = 76" by (simp add: notarypay_script_def)
  have pos: "vout_opretlen ?m = (74, 2)" by (simp add: vout_opretlen_def notarypay_script_def bmem_of_def)
  have sl: "bslice ?m 34 4 = le_i32 5" "cstr_is ?m 70 ''HUSH3''" "bslice ?m 2 32 = le_bytes 32 (1 :: uint256)"
    by (simp_all add: cstr_is_def bslice_bmem_of len) (simp_all add: notarypay_script_def)
  have "?m 2 = bslice ?m 2 32 ! 0" by (simp add: bslice_def numeral_2_eq_2)
  also have "\<dots> = 1" by (simp add: sl nth_le_bytes)
  finally have m2: "?m 2 = 1" .
  have tag: "?m 0 = 0x6a" "?m 2 \<noteq> 0x4b" unfolding m2 by (simp_all add: bmem_of_def notarypay_script_def)
  have valid: "hush_validate_chain notarypay_params ?ch 1 5 w = (1, w)"
    by (simp add: hush_validate_chain_def notarypay_chain_def Let_def)
  have sym: "SMART_CHAIN_SYMBOL notarypay_params = ''HUSH3''" by (simp add: notarypay_params_def hush3_params_def)
  show ?thesis
    by (simp add: hush_getnotarizedheight_def script_fits_def len hush_voutupdate_def vout_pubkey_def vout_opret_def
        vout_notarization_def pos tag sl sym valid is_i32_def case_prod_unfold Let_def del: bmem_of_nth)
qed

theorem notarypay_exact_witness:
  "\<forall>E x w. \<exists>ids numSN. GetNotarizationNotaries
       (\<lambda>_. Some \<lparr>tx_hash = 7, tx_vin = [], tx_vout = [\<lparr>to_scriptPubKey = pubkey_script notarypay_key, to_nValue = 9\<rparr>]\<rparr>)
       (notary_keys notarypay_params notarypay_chain 400000 0) numSN (tx_vin (notarypay_block ! 1)) = Some (Some ids) \<and>
     distinct ids \<and> ids \<noteq> [] \<and> 5000 = word_of_nat (length ids) * hush_notarypayamount notarypay_params (hush3_emission 7) 400000 (length ids) \<and>
     (\<forall>k. 1 \<le> k \<and> k \<le> length ids \<longrightarrow>
        pays_notary (notary_keys notarypay_params notarypay_chain 400000 0) ids
          (hush_notarypayamount notarypay_params (hush3_emission 7) 400000 (length ids)) (tx_vout (notarypay_block ! 0)) k)"
proof (intro allI notarypay_exact)
  fix E x w
  let ?G = notarypay_params and ?ch = notarypay_chain and ?ks = "hush_pubkeys 7"
  let ?gt = "\<lambda>_ :: uint256. Some \<lparr>tx_hash = 7 :: uint256, tx_vin = [] :: (uint256 \<times> u32) list,
      tx_vout = [\<lparr>to_scriptPubKey = pubkey_script notarypay_key, to_nValue = 9\<rparr>]\<rparr>"
  have ks: "hush_notaries ?G ?ch 400000 0 = Some ?ks"
    by (rule hush_notaries_late) (simp_all add: notarypay_params_def hush3_params_def)
  then have nk: "notary_keys ?G ?ch 400000 0 = ?ks" by (simp add: notary_keys_def)
  have l: "length ?ks = 64" "length (?ks ! 3) = 33" using hush_pubkeys_shape [of 7] by simp_all
  have "hd ?ks = decode_key (snd (notaries_season6 ! 0))"
    by (simp add: hush_pubkeys_late notaries_season6_def)
  also have "hd \<dots> \<noteq> 0" unfolding notaries_season6_def by (simp, code_simp)
  finally have h0: "hd (hd ?ks) \<noteq> 0" .
  have gn: "GetNotarizationNotaries ?gt ?ks 64 [(7, 0)] = Some (Some [3])"
    using spent_notaries_key [OF distinct_hush_pubkeys_7, of 3] h0 l by (simp add: GetNotarizationNotaries_def notarypay_key_def)
  have amount: "hush_notarypayamount ?G (hush3_emission 7) 400000 1 = 5000"
    by (simp add: hush_notarypayamount_def era_search.simps hush3_emission_def notarypay_params_def)
  have pay: "hush_notarypay E ?G (hush3_emission 7) ?ch [3] 0 400000 notarypay_script x w =
      ((5000, [\<lparr>to_scriptPubKey = pubkey_script (?ks ! 3), to_nValue = 5000\<rparr>]), w)"
    by (simp add: hush_notarypay_def nk h0 notarypay_height amount [simplified])
  show "hush_checknotarypay E ?G (hush3_emission 7) ?ch ?gt 0 notarypay_block 400000 x w = (Some 5000, w)"
  proof -
    have block: "tx_vin (notarypay_block ! 1) = [(7, 0)]" "tx_vout (notarypay_block ! 1) ! 1 = \<lparr>to_scriptPubKey = notarypay_script, to_nValue = 0\<rparr>"
      "length (tx_vout (notarypay_block ! 1)) = 2"
      "tx_vout (notarypay_block ! 0) = [\<lparr>to_scriptPubKey = [], to_nValue = 1\<rparr>, \<lparr>to_scriptPubKey = pubkey_script (?ks ! 3), to_nValue = 5000\<rparr>]"
      by (simp_all add: notarypay_block_def notarypay_key_def)
    have script: "notarypay_script \<noteq> []" "hd notarypay_script = 0x6a" by (simp_all add: notarypay_script_def)
    have "match_vouts ?ks [3] 5000 (tx_vout (notarypay_block ! 0)) 0 (tx_vout (notarypay_block ! 0)) (0, 0) = Some (1, 5000)"
      unfolding block using l by (simp add: pubkey_script_def nth_append)
    then show ?thesis
      unfolding hush_checknotarypay_def Let_def nk ks block using gn pay l script by (simp del: match_vouts.simps)
  qed
qed (simp_all add: notarypay_block_def)

end
