(* ===== verification/Hush_Arith.thy ===== *)
theory Hush_Arith
  imports Hush_Prelude
begin

unbundle bit_operations_syntax

text \<open>
  The 256-bit arithmetic of proof of work, \<open>arith_uint256.h\<close> and \<open>arith_uint256.cpp\<close>. A \<open>base_uint\<close> is the list of its
  32-bit limbs, least significant first; the operations are generic in the number of limbs (\<open>WIDTH\<close>, the length of
  the list), as the class template is, and follow the loops of the code limb by limb. The value of
  a list of limbs is \<open>av\<close>; every operation is shown to compute on values what its operator says, modulo \<open>2^BITS\<close>, and the
  type \<open>uint256\<close> of the other theories is this class at eight limbs. The compact encoding of targets
  (\<open>SetCompact\<close>, \<open>GetCompact\<close>) is at the end.
\<close>

section \<open>Operations\<close>

type_synonym limbs = "u32 list"

definition WIDTH :: nat where
  "WIDTH = 8"

definition limbs_of_u64 :: "nat \<Rightarrow> u64 \<Rightarrow> limbs" where
  "limbs_of_u64 W b = ucast b # ucast (drop_bit 32 b) # replicate (W - 2) 0"

definition base_not :: "limbs \<Rightarrow> limbs" where
  "base_not pn = map NOT pn"

text \<open>\<open>while (++pn[i] == 0 && i < WIDTH-1) i++;\<close>\<close>

primrec base_inc :: "limbs \<Rightarrow> limbs" where
  "base_inc [] = []"
| "base_inc (x # pn) = (x + 1) # (if x + 1 = 0 then base_inc pn else pn)"

definition base_neg :: "limbs \<Rightarrow> limbs" where
  "base_neg pn = base_inc (map NOT pn)"

text \<open>The loop of \<open>operator+=\<close>: \<open>n\<close> and the carry are 64 bits wide.\<close>

fun add_loop :: "u64 \<Rightarrow> limbs \<Rightarrow> limbs \<Rightarrow> limbs" where
  "add_loop carry (x # pn) (y # b) =
     (let n = carry + ucast x + ucast y in ucast (n AND 0xffffffff) # add_loop (drop_bit 32 n) pn b)"
| "add_loop carry pn b = pn"

definition base_add :: "limbs \<Rightarrow> limbs \<Rightarrow> limbs" where
  "base_add a b = add_loop 0 a b"

definition base_sub :: "limbs \<Rightarrow> limbs \<Rightarrow> limbs" where
  "base_sub a b = base_add a (base_neg b)"

text \<open>One round of the loops of \<open>operator<<=\<close> and \<open>operator>>=\<close>, with \<open>k\<close> limbs and \<open>shift\<close> bits; \<open>pn\<close> starts as zero.\<close>

definition shl_step :: "limbs \<Rightarrow> nat \<Rightarrow> nat \<Rightarrow> limbs \<Rightarrow> nat \<Rightarrow> limbs" where
  "shl_step a k shift pn i =
     (let pn = (if i + k + 1 < length a \<and> shift \<noteq> 0
                then pn[i + k + 1 := pn ! (i + k + 1) OR drop_bit (32 - shift) (a ! i)] else pn)
      in if i + k < length a then pn[i + k := pn ! (i + k) OR push_bit shift (a ! i)] else pn)"

definition base_shl :: "limbs \<Rightarrow> nat \<Rightarrow> limbs" where
  "base_shl a shift =
     foldl (shl_step a (shift div 32) (shift mod 32)) (replicate (length a) 0) [0..<length a]"

definition shr_step :: "limbs \<Rightarrow> nat \<Rightarrow> nat \<Rightarrow> limbs \<Rightarrow> nat \<Rightarrow> limbs" where
  "shr_step a k shift pn i =
     (let pn = (if k + 1 \<le> i \<and> shift \<noteq> 0
                then pn[i - k - 1 := pn ! (i - k - 1) OR push_bit (32 - shift) (a ! i)] else pn)
      in if k \<le> i then pn[i - k := pn ! (i - k) OR drop_bit shift (a ! i)] else pn)"

definition base_shr :: "limbs \<Rightarrow> nat \<Rightarrow> limbs" where
  "base_shr a shift =
     foldl (shr_step a (shift div 32) (shift mod 32)) (replicate (length a) 0) [0..<length a]"

text \<open>Multiplication by a 32-bit factor, and by another number: row \<open>j\<close> of the school method adds
  \<open>a[j] * b\<close> to the limbs from \<open>j\<close> on.\<close>

fun mul32_loop :: "u32 \<Rightarrow> u64 \<Rightarrow> limbs \<Rightarrow> limbs" where
  "mul32_loop b32 carry [] = []"
| "mul32_loop b32 carry (x # pn) =
     (let n = carry + ucast b32 * ucast x in ucast (n AND 0xffffffff) # mul32_loop b32 (drop_bit 32 n) pn)"

definition base_mul32 :: "limbs \<Rightarrow> u32 \<Rightarrow> limbs" where
  "base_mul32 a b32 = mul32_loop b32 0 a"

fun mul_row :: "u32 \<Rightarrow> u64 \<Rightarrow> limbs \<Rightarrow> limbs \<Rightarrow> limbs" where
  "mul_row aj carry (p # pn) (y # b) =
     (let n = carry + ucast p + ucast aj * ucast y
      in ucast (n AND 0xffffffff) # mul_row aj (drop_bit 32 n) pn b)"
| "mul_row aj carry pn b = pn"

definition mul_step :: "limbs \<Rightarrow> limbs \<Rightarrow> limbs \<Rightarrow> nat \<Rightarrow> limbs" where
  "mul_step a b pn j = take j pn @ mul_row (a ! j) 0 (drop j pn) b"

definition base_mul :: "limbs \<Rightarrow> limbs \<Rightarrow> limbs" where
  "base_mul a b = foldl (mul_step a b) (replicate (length a) 0) [0..<length a]"

text \<open>\<open>CompareTo\<close> from the top limb down: the sign of the first difference. Its test for objects in the first page of
  memory never applies.\<close>

fun compare_loop :: "limbs \<Rightarrow> limbs \<Rightarrow> int" where
  "compare_loop (x # pn) (y # b) = (if x < y then - 1 else if y < x then 1 else compare_loop pn b)"
| "compare_loop pn b = 0"

definition CompareTo :: "limbs \<Rightarrow> limbs \<Rightarrow> int" where
  "CompareTo a b = compare_loop (rev a) (rev b)"

text \<open>\<open>bits()\<close>: position of the highest bit plus one. The inner loop counts from 31 down to 1.\<close>

fun limb_bits :: "u32 \<Rightarrow> nat \<Rightarrow> nat" where
  "limb_bits x 0 = 1"
| "limb_bits x (Suc n) = (if bit x (Suc n) then Suc n + 1 else limb_bits x n)"

fun bits_loop :: "limbs \<Rightarrow> nat" where
  "bits_loop [] = 0"
| "bits_loop (x # pn) = (if x \<noteq> 0 then 32 * length pn + limb_bits x 31 else bits_loop pn)"

definition base_bits :: "limbs \<Rightarrow> nat" where
  "base_bits a = bits_loop (rev a)"

text \<open>Shift-and-subtract division: one round of the loop, then the loop from \<open>shift\<close> down to 0. A zero divisor throws.\<close>

definition div_step :: "limbs \<times> limbs \<times> limbs \<Rightarrow> nat \<Rightarrow> limbs \<times> limbs \<times> limbs" where
  "div_step s shift =
     (case s of (num, dv, q) \<Rightarrow>
       let (num, q) = (if CompareTo num dv \<ge> 0
                       then (base_sub num dv, q[shift div 32 := q ! (shift div 32) OR push_bit (shift mod 32) 1])
                       else (num, q))
       in (num, base_shr dv 1, q))"

definition base_div :: "limbs \<Rightarrow> limbs \<Rightarrow> limbs option" where
  "base_div a b =
     (let num_bits = base_bits a; div_bits = base_bits b; zero = replicate (length a) 0
      in if div_bits = 0 then None
         else if num_bits < div_bits then Some zero
         else case foldl div_step (a, base_shl b (num_bits - div_bits), zero) (rev [0..<num_bits - div_bits + 1]) of
                (num, dv, q) \<Rightarrow> Some q)"

definition GetLow64 :: "limbs \<Rightarrow> u64" where
  "GetLow64 a = ucast (a ! 0) OR push_bit 32 (ucast (a ! 1))"

definition EqualTo :: "limbs \<Rightarrow> u64 \<Rightarrow> bool" where
  "EqualTo a b \<longleftrightarrow> (\<forall>x \<in> set (drop 2 a). x = 0) \<and> ucast (a ! 1) = drop_bit 32 b \<and> ucast (a ! 0) = b AND 0xffffffff"

section \<open>Values\<close>

primrec av :: "limbs \<Rightarrow> nat" where
  "av [] = 0"
| "av (x # pn) = unat x + 2 ^ 32 * av pn"

lemma unat32_lt: "unat (x :: u32) < 4294967296"
  using unsigned_less [of x] by simp

lemma unat64_lt: "unat (x :: u64) < 18446744073709551616"
  using unsigned_less [of x] by simp

lemma av_less: "av pn < 2 ^ (32 * length pn)"
proof (induction pn)
  case (Cons x pn)
  have "unat x + 2 ^ 32 * av pn < 2 ^ 32 * (av pn + 1)"
    using unat32_lt [of x] by simp
  also have "\<dots> \<le> 2 ^ 32 * 2 ^ (32 * length pn)"
    using Cons.IH by (intro mult_le_mono2) simp
  finally show ?case
    by (simp add: power_add)
qed simp

lemma av_append: "av (xs @ ys) = av xs + 2 ^ (32 * length xs) * av ys"
  by (induction xs) (simp_all add: power_add algebra_simps)

lemma av_zero [simp]: "av (replicate n 0) = 0"
  by (induction n) simp_all

lemma av_eq_0: "av pn = 0 \<longleftrightarrow> (\<forall>x \<in> set pn. x = 0)"
  by (induction pn) (auto simp: unat_eq_zero)

lemma av_inj: "length xs = length ys \<Longrightarrow> av xs = av ys \<Longrightarrow> xs = ys"
proof (induction xs ys rule: list_induct2)
  case (Cons x xs y ys)
  have "unat x + 2 ^ 32 * av xs = unat y + 2 ^ 32 * av ys"
    using Cons.prems by simp
  moreover from this have "unat x = unat y"
    using unat32_lt [of x] unat32_lt [of y] by (auto dest: arg_cong [where f = "\<lambda>k. k mod 2 ^ 32"])
  ultimately show ?case
    using Cons.IH by (simp add: word_unat_eq_iff)
qed simp

text \<open>A limb and the rest: what one round of a carry loop leaves.\<close>

lemma carry_split:
  fixes n :: u64
  shows "unat (ucast (n AND 0xffffffff) :: u32) + 2 ^ 32 * unat (drop_bit 32 n) = unat n"
    and "unat (drop_bit 32 n) < 2 ^ 32"
proof -
  have "unat (ucast (n AND 0xffffffff) :: u32) = unat n mod 2 ^ 32"
  proof -
    have m: "(0xffffffff :: u64) = mask 32"
      by (simp add: mask_eq_exp_minus_1)
    have "ucast (n AND 0xffffffff) = (ucast n :: u32)"
      unfolding m by (intro bit_word_eqI) (auto simp: bit_simps)
    then show ?thesis
      by (simp add: unsigned_ucast_eq take_bit_eq_mod)
  qed
  moreover have "unat (drop_bit 32 n) = unat n div 2 ^ 32"
    unfolding unat_drop_bit_eq by (rule drop_bit_eq_div)
  ultimately show "unat (ucast (n AND 0xffffffff) :: u32) + 2 ^ 32 * unat (drop_bit 32 n) = unat n"
    by simp
  show "unat (drop_bit 32 n) < 2 ^ 32"
    using \<open>unat (drop_bit 32 n) = unat n div 2 ^ 32\<close> unat64_lt [of n] by (simp add: less_mult_imp_div_less)
qed


lemma limb_mod:
  assumes "l < (2 :: nat) ^ 32"
  shows "l + 2 ^ 32 * (k mod m) = (l + 2 ^ 32 * k) mod (2 ^ 32 * m)"
proof -
  have "(l + 2 ^ 32 * k) mod (2 ^ 32 * m) = 2 ^ 32 * ((l + 2 ^ 32 * k) div 2 ^ 32 mod m) + (l + 2 ^ 32 * k) mod 2 ^ 32"
    by (rule mod_mult2_eq)
  then show ?thesis
    using assms by simp
qed

lemma unat_u64_add: "unat a + unat b < 2 ^ 64 \<Longrightarrow> unat (a + b :: u64) = unat a + unat b"
  by (simp add: unat_word_ariths)

lemma unat_ucast64 [simp]: "unat (ucast (x :: u32) :: u64) = unat x"
  using unat32_lt [of x] by (simp add: unsigned_ucast_eq take_bit_nat_eq_self)

lemma unat_u32_mult: "unat (ucast (x :: u32) * ucast (y :: u32) :: u64) = unat x * unat y"
proof -
  have "unat x * unat y < 2 ^ 32 * 2 ^ 32"
    using unat32_lt by (intro mult_strict_mono) simp_all
  then show ?thesis
    by (simp add: unat_word_ariths)
qed

text \<open>The rule that all carry loops share: if a round computes \<open>n\<close> of value \<open>v\<close> and the rest of the loop is correct for the carry
  that \<open>n\<close> leaves, the loop is correct.\<close>

lemma carry_round:
  fixes n :: u64
  assumes "unat n = v" and "av rest = (unat (drop_bit 32 n) + r) mod m"
  shows "av (ucast (n AND 0xffffffff) # rest) = (v + 2 ^ 32 * r) mod (2 ^ 32 * m)"
proof -
  have "av (ucast (n AND 0xffffffff) # rest)
      = (unat (ucast (n AND 0xffffffff) :: u32) + 2 ^ 32 * (unat (drop_bit 32 n) + r)) mod (2 ^ 32 * m)"
    using unat32_lt unfolding av.simps assms(2) by (intro limb_mod) simp
  also have "unat (ucast (n AND 0xffffffff) :: u32) + 2 ^ 32 * (unat (drop_bit 32 n) + r) = v + 2 ^ 32 * r"
    using carry_split(1) [of n] assms(1) by simp
  finally show ?thesis .
qed

section \<open>Addition and subtraction\<close>

lemma length_add_loop [simp]: "length (add_loop c pn b) = length pn"
  by (induction c pn b rule: add_loop.induct) (simp_all add: Let_def)

lemma av_add_loop:
  "length pn = length b \<Longrightarrow> unat c < 2 ^ 32 \<Longrightarrow>
     av (add_loop c pn b) = (unat c + (av pn + av b)) mod 2 ^ (32 * length pn)"
proof (induction c pn b rule: add_loop.induct)
  case (1 c x pn y b)
  let ?n = "c + ucast x + ucast y :: u64"
  have n: "unat ?n = unat c + unat x + unat y"
    using unat32_lt [of x] unat32_lt [of y] 1(3) by (simp add: unat_u64_add)
  have "av (add_loop (drop_bit 32 ?n) pn b) = (unat (drop_bit 32 ?n) + (av pn + av b)) mod 2 ^ (32 * length pn)"
    using 1 carry_split(2) by simp
  from carry_round [OF n this] show ?case
    by (simp add: Let_def power_add algebra_simps)
qed simp_all

lemma base_add_value: "length a = length b \<Longrightarrow> av (base_add a b) = (av a + av b) mod 2 ^ (32 * length a)"
  by (simp add: base_add_def av_add_loop)

lemma length_base_add [simp]: "length (base_add a b) = length a"
  by (simp add: base_add_def)

lemma length_base_inc [simp]: "length (base_inc a) = length a"
  by (induction a) simp_all

lemma base_inc_value: "av (base_inc a) = (av a + 1) mod 2 ^ (32 * length a)"
proof (induction a)
  case (Cons x a)
  show ?case
  proof (cases "x + 1 = 0")
    case True
    then have "x = - 1"
      by (simp add: eq_neg_iff_add_eq_0)
    then have x: "unat x = 2 ^ 32 - 1"
      by (simp add: unsigned_minus_1_eq_mask mask_eq_exp_minus_1)
    then have "av (x # a) + 1 = 2 ^ 32 * (av a + 1)"
      by simp
    then show ?thesis
      using True Cons.IH by (simp add: power_add mult_mod_right)
  next
    case False
    then have "unat (x + 1) = unat x + 1"
      by (metis Suc_eq_plus1 add.commute unatSuc)
    moreover have "av (x # a) + 1 < 2 ^ (32 * length (x # a))"
    proof -
      have "av (x # a) + 1 = av ((x + 1) # a)"
        using \<open>unat (x + 1) = unat x + 1\<close> by simp
      then show ?thesis
        using av_less [of "(x + 1) # a"] by simp
    qed
    ultimately show ?thesis
      using False by simp
  qed
qed simp

lemma av_not: "av (map NOT a) = 2 ^ (32 * length a) - 1 - av a"
proof (induction a)
  case (Cons x a)
  have "unat (NOT x) = 2 ^ 32 - 1 - unat x"
  proof -
    have "NOT x = - 1 - x"
      by (simp add: not_eq_complement)
    then show ?thesis
      by (simp add: unat_sub unsigned_minus_1_eq_mask mask_eq_exp_minus_1)
  qed
  moreover have "av a < 2 ^ (32 * length a)"
    by (rule av_less)
  ultimately show ?case
    using Cons.IH unat32_lt [of x] by (simp add: power_add)
qed simp

lemma base_neg_value: "av (base_neg a) = (2 ^ (32 * length a) - av a) mod 2 ^ (32 * length a)"
  using av_less [of a] by (simp add: base_neg_def base_inc_value av_not Suc_diff_Suc)

lemma length_base_neg [simp]: "length (base_neg a) = length a"
  by (simp add: base_neg_def)

lemma base_sub_value:
  assumes "length a = length b" "av b \<le> av a"
  shows "av (base_sub a b) = av a - av b"
proof -
  have "av (base_sub a b) = (av a + (2 ^ (32 * length a) - av b)) mod 2 ^ (32 * length a)"
    using assms by (simp add: base_sub_def base_add_value base_neg_value mod_add_right_eq)
  also have "av a + (2 ^ (32 * length a) - av b) = (av a - av b) + 2 ^ (32 * length a)"
    using assms av_less [of b] by simp
  finally show ?thesis
    using av_less [of a] by simp
qed

lemma length_base_sub [simp]: "length (base_sub a b) = length a"
  by (simp add: base_sub_def)


section \<open>Shifts\<close>

lemma bit_av: "bit (av pn) n \<longleftrightarrow> n div 32 < length pn \<and> bit (pn ! (n div 32)) (n mod 32)"
proof (induction pn arbitrary: n)
  case (Cons x pn)
  have lo: "take_bit 32 (av (x # pn)) = unat x" and hi: "drop_bit 32 (av (x # pn)) = av pn"
    using unat32_lt [of x] by (simp_all add: take_bit_eq_mod drop_bit_eq_div)
  show ?case
  proof (cases "n < 32")
    case True
    then have "bit (av (x # pn)) n = bit (take_bit 32 (av (x # pn))) n"
      by (simp add: bit_take_bit_iff)
    then show ?thesis
      using True unfolding lo by (simp add: bit_unsigned_iff)
  next
    case False
    then have "bit (av (x # pn)) n = bit (drop_bit 32 (av (x # pn))) (n - 32)"
      by (simp add: bit_drop_bit_eq)
    then show ?thesis
      using False unfolding hi Cons.IH by (simp add: le_div_geq le_mod_geq)
  qed
qed simp

lemma bit_av_at: "j < 32 \<Longrightarrow> bit (av pn) (32 * m + j) \<longleftrightarrow> m < length pn \<and> bit (pn ! m) j"
  by (simp add: bit_av)

text \<open>The limbs that the loops build.\<close>

definition shl_limb :: "limbs \<Rightarrow> nat \<Rightarrow> nat \<Rightarrow> nat \<Rightarrow> nat \<Rightarrow> u32" where
  "shl_limb a k s n m =
     (if k \<le> m \<and> m - k < n then push_bit s (a ! (m - k)) else 0) OR
     (if s \<noteq> 0 \<and> k + 1 \<le> m \<and> m - k - 1 < n then drop_bit (32 - s) (a ! (m - k - 1)) else 0)"

definition shr_limb :: "limbs \<Rightarrow> nat \<Rightarrow> nat \<Rightarrow> nat \<Rightarrow> nat \<Rightarrow> u32" where
  "shr_limb a k s n m =
     (if m + k < n then drop_bit s (a ! (m + k)) else 0) OR
     (if s \<noteq> 0 \<and> m + k + 1 < n then push_bit (32 - s) (a ! (m + k + 1)) else 0)"

lemma shl_limb_Suc:
  "shl_limb a k s (Suc n) m =
     shl_limb a k s n m OR (if s \<noteq> 0 \<and> m = n + k + 1 then drop_bit (32 - s) (a ! n) else 0)
       OR (if m = n + k then push_bit s (a ! n) else 0)"
proof -
  consider "m = n + k" | "m = n + k + 1" | "m \<noteq> n + k" "m \<noteq> n + k + 1"
    by blast
  then show ?thesis
  proof cases
    case 3
    then have "(k \<le> m \<and> m - k < Suc n) = (k \<le> m \<and> m - k < n)"
      "(s \<noteq> 0 \<and> k + 1 \<le> m \<and> m - k - 1 < Suc n) = (s \<noteq> 0 \<and> k + 1 \<le> m \<and> m - k - 1 < n)"
      by linarith+
    then show ?thesis
      using 3 by (simp add: shl_limb_def)
  qed (simp_all add: shl_limb_def or.commute)
qed

lemma shr_limb_Suc:
  "shr_limb a k s (Suc n) m =
     shr_limb a k s n m OR (if s \<noteq> 0 \<and> n = m + k + 1 then push_bit (32 - s) (a ! n) else 0)
       OR (if n = m + k then drop_bit s (a ! n) else 0)"
proof -
  consider "n = m + k" | "n = m + k + 1" | "n \<noteq> m + k" "n \<noteq> m + k + 1"
    by blast
  then show ?thesis
  proof cases
    case 3
    then have "(m + k < Suc n) = (m + k < n)" "(m + k + 1 < Suc n) = (m + k + 1 < n)"
      by linarith+
    then show ?thesis
      using 3 by (simp add: shr_limb_def)
  qed (simp_all add: shr_limb_def)
qed

lemma shl_step_nth:
  assumes "length pn = length a" "m < length a"
  shows "shl_step a k s pn n ! m =
     pn ! m OR (if s \<noteq> 0 \<and> m = n + k + 1 then drop_bit (32 - s) (a ! n) else 0)
       OR (if m = n + k then push_bit s (a ! n) else 0)"
  using assms by (simp add: shl_step_def Let_def nth_list_update)

lemma shr_step_nth:
  assumes "length pn = length a" "m < length a" "n < length a"
  shows "shr_step a k s pn n ! m =
     pn ! m OR (if s \<noteq> 0 \<and> n = m + k + 1 then push_bit (32 - s) (a ! n) else 0)
       OR (if n = m + k then drop_bit s (a ! n) else 0)"
proof -
  have "(k + 1 \<le> n \<and> n - k - 1 = m) = (n = m + k + 1)" "(k \<le> n \<and> n - k = m) = (n = m + k)"
    by linarith+
  then show ?thesis
    using assms by (auto simp: shr_step_def Let_def nth_list_update)
qed

lemma length_steps [simp]:
  "length (shl_step a k s pn n) = length pn" "length (shr_step a k s pn n) = length pn"
  by (simp_all add: shl_step_def shr_step_def Let_def)

lemma shl_loop:
  "n \<le> length a \<Longrightarrow>
     foldl (shl_step a k s) (replicate (length a) 0) [0..<n] = map (shl_limb a k s n) [0..<length a]"
proof (induction n)
  case 0
  show ?case
    by (simp add: shl_limb_def map_replicate_const)
next
  case (Suc n)
  have "shl_step a k s (map (shl_limb a k s n) [0..<length a]) n = map (shl_limb a k s (Suc n)) [0..<length a]"
    by (intro nth_equalityI) (simp_all add: shl_step_nth shl_limb_Suc)
  then show ?case
    using Suc by simp
qed

lemma shr_loop:
  "n \<le> length a \<Longrightarrow>
     foldl (shr_step a k s) (replicate (length a) 0) [0..<n] = map (shr_limb a k s n) [0..<length a]"
proof (induction n)
  case 0
  show ?case
    by (simp add: shr_limb_def map_replicate_const)
next
  case (Suc n)
  have "shr_step a k s (map (shr_limb a k s n) [0..<length a]) n = map (shr_limb a k s (Suc n)) [0..<length a]"
    using Suc.prems by (intro nth_equalityI) (simp_all add: shr_step_nth shr_limb_Suc)
  then show ?case
    using Suc by simp
qed


lemma bit_shl_limb:
  assumes "s < 32" "m < length a" "j < 32"
  shows "bit (shl_limb a k s (length a) m) j \<longleftrightarrow> 32 * k + s \<le> 32 * m + j \<and> bit (av a) (32 * m + j - (32 * k + s))"
proof (cases "s \<le> j")
  case True
  have "32 * k + s \<le> 32 * m + j \<longleftrightarrow> k \<le> m"
    using assms True by linarith
  moreover have "bit (av a) (32 * m + j - (32 * k + s)) \<longleftrightarrow> bit (a ! (m - k)) (j - s)" if "k \<le> m"
  proof -
    have "32 * m + j - (32 * k + s) = 32 * (m - k) + (j - s)"
      using that True by linarith
    then show ?thesis
      using assms bit_av_at [of "j - s" a "m - k"] by (simp add: less_imp_diff_less)
  qed
  moreover have "\<not> bit (drop_bit (32 - s) (a ! (m - k - 1))) j"
    using True by (auto simp: bit_drop_bit_eq dest: bit_imp_le_length)
  ultimately show ?thesis
    using assms True by (cases "s = 0") (simp_all add: shl_limb_def bit_or_iff bit_push_bit_iff less_imp_diff_less)
next
  case False
  have "32 * k + s \<le> 32 * m + j \<longleftrightarrow> k + 1 \<le> m"
    using assms False by linarith
  moreover have "bit (av a) (32 * m + j - (32 * k + s)) \<longleftrightarrow> bit (a ! (m - k - 1)) (32 - s + j)" if "k + 1 \<le> m"
  proof -
    have "32 * m + j - (32 * k + s) = 32 * (m - k - 1) + (32 - s + j)"
      using that False assms by linarith
    then show ?thesis
      using assms False bit_av_at [of "32 - s + j" a "m - k - 1"] by (simp add: less_imp_diff_less)
  qed
  moreover have "\<not> bit (push_bit s w) j" for w :: u32
    using False by (simp add: bit_push_bit_iff)
  ultimately show ?thesis
    using assms False by (simp add: shl_limb_def bit_or_iff bit_drop_bit_eq less_imp_diff_less)
qed

lemma bit_shr_limb:
  assumes "s < 32" "m < length a" "j < 32"
  shows "bit (shr_limb a k s (length a) m) j \<longleftrightarrow> bit (av a) (32 * m + j + (32 * k + s))"
proof (cases "j + s < 32")
  case True
  have "32 * m + j + (32 * k + s) = 32 * (m + k) + (s + j)"
    by simp
  then have "bit (av a) (32 * m + j + (32 * k + s)) \<longleftrightarrow> m + k < length a \<and> bit (a ! (m + k)) (s + j)"
    using True bit_av_at [of "s + j" a "m + k"] by (simp only: add.commute)
  moreover have "\<not> bit (push_bit (32 - s) (a ! (m + k + 1))) j"
  proof -
    have "\<not> 32 - s \<le> j"
      using True by linarith
    then show ?thesis
      by (simp add: bit_push_bit_iff)
  qed
  ultimately show ?thesis
    using True by (simp add: shr_limb_def bit_or_iff bit_drop_bit_eq)
next
  case False
  have "32 * m + j + (32 * k + s) = 32 * (m + k + 1) + (j - (32 - s))"
    using False assms(1) by (simp add: algebra_simps)
  then have "bit (av a) (32 * m + j + (32 * k + s)) \<longleftrightarrow> m + k + 1 < length a \<and> bit (a ! (m + k + 1)) (j - (32 - s))"
    using assms bit_av_at [of "j - (32 - s)" a "m + k + 1"] by (simp only: less_imp_diff_less)
  moreover have "\<not> bit (drop_bit s (a ! (m + k))) j"
    using False by (auto simp: bit_drop_bit_eq dest: bit_imp_le_length)
  moreover have "32 - s \<le> j"
    using False by linarith
  ultimately show ?thesis
    using assms False by (simp add: shr_limb_def bit_or_iff bit_push_bit_iff)
qed

lemma length_base_shl [simp]: "length (base_shl a n) = length a" "length (base_shr a n) = length a"
  by (simp_all add: base_shl_def base_shr_def shl_loop shr_loop)

lemma base_shl_value: "av (base_shl a sh) = (av a * 2 ^ sh) mod 2 ^ (32 * length a)"
proof -
  have "av (base_shl a sh) = take_bit (32 * length a) (push_bit sh (av a))"
  proof (rule bit_eqI)
    fix n :: nat
    have d: "32 * (sh div 32) + sh mod 32 = sh" "32 * (n div 32) + n mod 32 = n"
      by simp_all
    have "n div 32 < length a \<longleftrightarrow> n < 32 * length a"
      by (simp add: less_mult_imp_div_less div_less_iff_less_mult mult.commute)
    then show "bit (av (base_shl a sh)) n = bit (take_bit (32 * length a) (push_bit sh (av a))) n"
      using bit_shl_limb [of "sh mod 32" "n div 32" a "n mod 32" "sh div 32"]
      unfolding bit_av [of "base_shl a sh"] d
      by (auto simp: base_shl_def shl_loop bit_simps)
  qed
  then show ?thesis
    by (simp add: take_bit_eq_mod push_bit_eq_mult)
qed

lemma base_shr_value: "av (base_shr a sh) = av a div 2 ^ sh"
proof -
  have "av (base_shr a sh) = drop_bit sh (av a)"
  proof (rule bit_eqI)
    fix n :: nat
    have d: "32 * (sh div 32) + sh mod 32 = sh" "32 * (n div 32) + n mod 32 = n"
      by simp_all
    have "length a \<le> n div 32 \<Longrightarrow> length a \<le> (n + sh) div 32"
      using div_le_mono [of n "n + sh" 32] by simp
    then show "bit (av (base_shr a sh)) n = bit (drop_bit sh (av a)) n"
      using bit_shr_limb [of "sh mod 32" "n div 32" a "n mod 32" "sh div 32"]
      unfolding bit_av [of "base_shr a sh"] d
      by (auto simp: base_shr_def shr_loop bit_simps bit_av [of a "n + sh"] add.commute not_less)
  qed
  then show ?thesis
    by (simp add: drop_bit_eq_div)
qed


section \<open>Multiplication\<close>

lemma length_mul32_loop [simp]: "length (mul32_loop b32 c pn) = length pn"
  by (induction b32 c pn rule: mul32_loop.induct) (simp_all add: Let_def)

lemma mul_carry_bound:
  fixes x y p c :: nat
  assumes "x < 2 ^ 32" "y < 2 ^ 32" "p < 2 ^ 32" "c < 2 ^ 32"
  shows "c + p + x * y < 2 ^ 64"
proof -
  have "x * y \<le> (2 ^ 32 - 1) * (2 ^ 32 - 1)"
    using assms by (intro mult_le_mono) simp_all
  then show ?thesis
    using assms by simp
qed

lemma av_mul32_loop:
  "unat c < 2 ^ 32 \<Longrightarrow> av (mul32_loop b32 c pn) = (unat c + unat b32 * av pn) mod 2 ^ (32 * length pn)"
proof (induction b32 c pn rule: mul32_loop.induct)
  case (2 b32 c x pn)
  let ?n = "c + ucast b32 * ucast x :: u64"
  have "unat c + 0 + unat b32 * unat x < 2 ^ 64"
    using 2(2) unat32_lt by (intro mul_carry_bound) simp_all
  then have n: "unat ?n = unat c + unat b32 * unat x"
    by (simp add: unat_u64_add unat_u32_mult)
  have "av (mul32_loop b32 (drop_bit 32 ?n) pn) = (unat (drop_bit 32 ?n) + unat b32 * av pn) mod 2 ^ (32 * length pn)"
    using 2 carry_split(2) by simp
  from carry_round [OF n this] show ?case
    by (simp add: Let_def power_add algebra_simps)
qed simp

lemma base_mul32_value: "av (base_mul32 a b) = av a * unat b mod 2 ^ (32 * length a)"
  by (simp add: base_mul32_def av_mul32_loop mult.commute)

lemma length_base_mul32 [simp]: "length (base_mul32 a b) = length a"
  by (simp add: base_mul32_def)

lemma length_mul_row [simp]: "length (mul_row aj c pn b) = length pn"
  by (induction aj c pn b rule: mul_row.induct) (simp_all add: Let_def)

lemma av_mul_row:
  "length pn \<le> length b \<Longrightarrow> unat c < 2 ^ 32 \<Longrightarrow>
     av (mul_row aj c pn b) = (unat c + (av pn + unat aj * av b)) mod 2 ^ (32 * length pn)"
proof (induction aj c pn b rule: mul_row.induct)
  case (1 aj c p pn y b)
  let ?n = "c + ucast p + ucast aj * ucast y :: u64"
  have "unat c + unat p + unat aj * unat y < 2 ^ 64"
    using 1(3) unat32_lt by (intro mul_carry_bound) simp_all
  then have n: "unat ?n = unat c + unat p + unat aj * unat y"
    by (simp add: unat_u64_add unat_u32_mult)
  have "av (mul_row aj (drop_bit 32 ?n) pn b)
      = (unat (drop_bit 32 ?n) + (av pn + unat aj * av b)) mod 2 ^ (32 * length pn)"
    using 1 carry_split(2) by simp
  from carry_round [OF n this] show ?case
    by (simp add: Let_def power_add algebra_simps)
qed simp_all

lemma length_mul_step [simp]: "length (mul_step a b pn j) = length pn"
  by (simp add: mul_step_def)

lemma av_split: "av pn = av (take j pn) + 2 ^ (32 * min j (length pn)) * av (drop j pn)"
  using av_append [of "take j pn" "drop j pn"] by (simp add: min.commute)

lemma av_take_Suc: "j < length a \<Longrightarrow> av (take (Suc j) a) = av (take j a) + 2 ^ (32 * j) * unat (a ! j)"
  by (simp add: take_Suc_conv_app_nth av_append)

text \<open>After \<open>j\<close> rows the product of the first \<open>j\<close> limbs of \<open>a\<close> with \<open>b\<close> is there.\<close>

lemma mul_rows:
  assumes "length b = length a" "j \<le> length a"
  shows "length (foldl (mul_step a b) (replicate (length a) 0) [0..<j]) = length a \<and>
     av (foldl (mul_step a b) (replicate (length a) 0) [0..<j]) = av (take j a) * av b mod 2 ^ (32 * length a)"
  using assms(2)
proof (induction j)
  case (Suc j)
  let ?pn = "foldl (mul_step a b) (replicate (length a) 0) [0..<j]" and ?M = "2 ^ (32 * length a) :: nat"
  have IH: "length ?pn = length a" "av ?pn = av (take j a) * av b mod ?M"
    using Suc by simp_all
  have M: "?M = 2 ^ (32 * j) * 2 ^ (32 * (length a - j))"
    using Suc.prems by (simp flip: power_add)
  have row: "av (mul_row (a ! j) 0 (drop j ?pn) b)
      = (av (drop j ?pn) + unat (a ! j) * av b) mod 2 ^ (32 * (length a - j))"
    using av_mul_row [of "drop j ?pn" b 0 "a ! j"] assms(1) IH(1) by simp
  have "av (mul_step a b ?pn j) = av (take j ?pn) + 2 ^ (32 * j) * ((av (drop j ?pn) + unat (a ! j) * av b) mod 2 ^ (32 * (length a - j)))"
    using Suc.prems IH by (simp add: mul_step_def av_append row min_def)
  also have "\<dots> = (av (take j ?pn) + 2 ^ (32 * j) * (av (drop j ?pn) + unat (a ! j) * av b)) mod ?M"
  proof -
    have "av (take j ?pn) < 2 ^ (32 * j)"
      using av_less [of "take j ?pn"] Suc.prems IH by (simp add: min_def)
    then show ?thesis
      unfolding M mod_mult2_eq by simp
  qed
  also have "av (take j ?pn) + 2 ^ (32 * j) * (av (drop j ?pn) + unat (a ! j) * av b)
      = av ?pn + 2 ^ (32 * j) * unat (a ! j) * av b"
    using av_split [of ?pn j] Suc.prems IH by (simp add: min_def algebra_simps)
  also have "\<dots> mod ?M = (av (take j a) * av b + 2 ^ (32 * j) * unat (a ! j) * av b) mod ?M"
    unfolding IH by (rule mod_add_left_eq)
  also have "av (take j a) * av b + 2 ^ (32 * j) * unat (a ! j) * av b = av (take (Suc j) a) * av b"
    using Suc.prems by (simp add: av_take_Suc algebra_simps)
  finally show ?case
    using IH by simp
qed simp

lemma base_mul_value: "length b = length a \<Longrightarrow> av (base_mul a b) = av a * av b mod 2 ^ (32 * length a)"
  using mul_rows [of b a "length a"] by (simp add: base_mul_def)

lemma length_base_mul [simp]: "length b = length a \<Longrightarrow> length (base_mul a b) = length a"
  using mul_rows [of b a "length a"] by (simp add: base_mul_def)


section \<open>Comparison and bit length\<close>

lemma compare_loop_value:
  "length xs = length ys \<Longrightarrow> compare_loop (rev xs) (rev ys) = (if av xs < av ys then - 1 else if av ys < av xs then 1 else 0)"
proof (induction xs arbitrary: ys rule: rev_induct)
  case (snoc x xs)
  obtain y zs where ys: "ys = zs @ [y]" "length xs = length zs"
    using snoc.prems by (cases ys rule: rev_cases) auto
  have lt: "u < v \<Longrightarrow> av us < 2 ^ (32 * n) \<Longrightarrow> av us + 2 ^ (32 * n) * u < av vs + 2 ^ (32 * n) * v"
    for u v n :: nat and us vs
  proof -
    assume a: "u < v" "av us < 2 ^ (32 * n)"
    then have "av us + 2 ^ (32 * n) * u < 2 ^ (32 * n) * (u + 1)"
      by simp
    also have "\<dots> \<le> 2 ^ (32 * n) * v"
      using a by (intro mult_le_mono2) simp
    finally show ?thesis
      by simp
  qed
  consider "unat x < unat y" | "unat y < unat x" | "x = y"
    by (metis linorder_neqE_nat word_unat_eq_iff)
  then show ?case
  proof cases
    case 1
    then show ?thesis
      using lt [OF 1 av_less [of xs]] ys by (simp add: av_append word_less_nat_alt)
  next
    case 2
    then show ?thesis
      using lt [OF 2 av_less [of zs], of xs] ys by (simp add: av_append word_less_nat_alt less_not_sym)
  next
    case 3
    then show ?thesis
      using snoc.IH [of zs] ys by (simp add: av_append)
  qed
qed simp

lemma CompareTo_value:
  "length a = length b \<Longrightarrow> CompareTo a b = (if av a < av b then - 1 else if av b < av a then 1 else 0)"
  by (simp add: CompareTo_def compare_loop_value)

lemma limb_bits_bound:
  "x \<noteq> 0 \<Longrightarrow> unat x < 2 ^ Suc n \<Longrightarrow> 2 ^ (limb_bits x n - 1) \<le> unat x \<and> unat x < 2 ^ limb_bits x n \<and> 0 < limb_bits x n"
proof (induction n)
  case 0
  then show ?case
    by (simp add: unat_gt_0 Suc_le_eq word_neq_0_conv)
next
  case (Suc n)
  show ?case
  proof (cases "bit x (Suc n)")
    case True
    have "2 ^ Suc n \<le> unat x"
    proof (rule ccontr)
      assume "\<not> 2 ^ Suc n \<le> unat x"
      then have "take_bit (Suc n) (unat x) = unat x"
        by (simp add: take_bit_nat_eq_self)
      then have "\<not> bit (unat x) (Suc n)"
        by (metis bit_take_bit_iff less_irrefl)
      then show False
        using True by (simp add: bit_unsigned_iff)
    qed
    then show ?thesis
      using True Suc.prems by simp
  next
    case False
    have "unat x < 2 ^ Suc n"
    proof -
      have "unat x = take_bit (Suc n) (unat x)"
      proof (rule bit_eqI)
        fix m
        have hi: "\<not> bit (unat x) m" if "Suc (Suc n) \<le> m"
          using Suc.prems(2) that
          by (metis bit_take_bit_iff not_less take_bit_nat_eq_self)
        consider "m \<le> n" | "m = Suc n" | "Suc (Suc n) \<le> m"
          by linarith
        then show "bit (unat x) m = bit (take_bit (Suc n) (unat x)) m"
          using False hi by cases (simp_all add: bit_take_bit_iff bit_unsigned_iff)
      qed
      then show ?thesis
        by (metis take_bit_nat_less_exp)
    qed
    then show ?thesis
      using False Suc.IH Suc.prems by simp
  qed
qed

lemma bits_loop_bound:
  "av (rev xs) \<noteq> 0 \<Longrightarrow>
     0 < bits_loop xs \<and> bits_loop xs \<le> 32 * length xs \<and> 2 ^ (bits_loop xs - 1) \<le> av (rev xs) \<and> av (rev xs) < 2 ^ bits_loop xs"
proof (induction xs)
  case (Cons x xs)
  show ?case
  proof (cases "x = 0")
    case True
    then show ?thesis
      using Cons by (auto simp: av_append)
  next
    case False
    let ?n = "limb_bits x 31" and ?l = "length xs"
    have b: "2 ^ (?n - 1) \<le> unat x" "unat x < 2 ^ ?n" "0 < ?n"
      using limb_bits_bound [OF False, of 31] unat32_lt [of x] by simp_all
    have "?n \<le> 32"
    proof (rule ccontr)
      assume "\<not> ?n \<le> 32"
      then have "(2 :: nat) ^ 32 \<le> 2 ^ (?n - 1)"
        by (intro power_increasing) simp_all
      then show False
        using b(1) unat32_lt [of x] by simp
    qed
    moreover have "2 ^ (32 * ?l + ?n - 1) \<le> av (rev xs) + 2 ^ (32 * ?l) * unat x"
    proof -
      have "2 ^ (32 * ?l + ?n - 1) = 2 ^ (32 * ?l) * (2 ^ (?n - 1) :: nat)"
        using b(3) by (simp flip: power_add)
      also have "\<dots> \<le> 2 ^ (32 * ?l) * unat x"
        using b(1) by simp
      finally show ?thesis
        by simp
    qed
    moreover have "av (rev xs) + 2 ^ (32 * ?l) * unat x < 2 ^ (32 * ?l + ?n)"
    proof -
      have "av (rev xs) + 2 ^ (32 * ?l) * unat x < 2 ^ (32 * ?l) * (unat x + 1)"
        using av_less [of "rev xs"] by simp
      also have "\<dots> \<le> 2 ^ (32 * ?l) * 2 ^ ?n"
        using b(2) by (intro mult_le_mono2) simp
      finally show ?thesis
        by (simp add: power_add)
    qed
    ultimately show ?thesis
      using False b(3) by (simp add: av_append)
  qed
qed simp

lemma base_bits_bound:
  assumes "av a \<noteq> 0"
  shows "0 < base_bits a" "base_bits a \<le> 32 * length a" "2 ^ (base_bits a - 1) \<le> av a" "av a < 2 ^ base_bits a"
  using bits_loop_bound [of "rev a"] assms by (simp_all add: base_bits_def)

lemma base_bits_zero: "base_bits a = 0 \<longleftrightarrow> av a = 0"
proof
  assume "av a = 0"
  then have "\<forall>x \<in> set xs. x = 0 \<Longrightarrow> bits_loop xs = 0" for xs
    by (induction xs) auto
  then show "base_bits a = 0"
    using \<open>av a = 0\<close> by (simp add: base_bits_def av_eq_0)
qed (use base_bits_bound(1) in fastforce)


section \<open>Division\<close>

text \<open>With \<open>shift\<close> rounds to go the remainder is below \<open>2^shift\<close> divisors, the divisor has been shifted by one place less, and
  the bits of the quotient below \<open>shift\<close> are still clear.\<close>

definition div_inv :: "nat \<Rightarrow> nat \<Rightarrow> nat \<Rightarrow> nat \<Rightarrow> limbs \<times> limbs \<times> limbs \<Rightarrow> bool" where
  "div_inv W A B shift s = (case s of (num, dv, q) \<Rightarrow>
     length num = W \<and> length dv = W \<and> length q = W \<and> av num + av q * B = A \<and> av num < 2 ^ shift * B \<and>
     av dv = 2 ^ shift * B div 2 \<and> 2 ^ shift dvd av q)"

lemma av_set_bit:
  assumes "shift < 32 * length q" and "2 ^ Suc shift dvd av q"
  shows "av (q[shift div 32 := q ! (shift div 32) OR push_bit (shift mod 32) 1]) = av q + 2 ^ shift"
proof -
  let ?k = "shift div 32" and ?s = "shift mod 32"
  have k: "?k < length q"
    using assms(1) by (simp add: less_mult_imp_div_less mult.commute)
  have "\<not> bit (av q) shift"
    using assms(2) by (auto simp: bit_iff_odd dvd_def)
  then have "\<not> bit (q ! ?k) ?s"
    using k by (simp add: bit_av)
  then have bitv: "unat (q ! ?k OR push_bit ?s 1) = unat (q ! ?k) + 2 ^ ?s"
  proof -
    assume nb: "\<not> bit (q ! ?k) ?s"
    have "push_bit ?s (1 :: u32) = 2 ^ ?s"
      by (simp add: push_bit_eq_mult)
    moreover from this have "unat (q ! ?k OR push_bit ?s 1) = unat (q ! ?k) OR 2 ^ ?s"
    proof -
      have "unat (2 ^ ?s :: u32) = 2 ^ ?s"
        by (rule bit_eqI) (auto simp: bit_simps)
      then show ?thesis
        using \<open>push_bit ?s (1 :: u32) = 2 ^ ?s\<close> by (simp add: unsigned_or_eq)
    qed
    moreover have "unat (q ! ?k) + 2 ^ ?s = unat (q ! ?k) OR 2 ^ ?s"
      using nb by (intro disjunctive_add_eq_or bit_eqI) (auto simp: bit_simps)
    ultimately show ?thesis
      by simp
  qed
  have upd: "av (q[?k := x]) + 2 ^ (32 * ?k) * unat (q ! ?k) = av q + 2 ^ (32 * ?k) * unat x" for x
    using k by (subst (2) id_take_nth_drop [OF k])
      (simp add: upd_conv_take_nth_drop av_append algebra_simps)
  have "(2 :: nat) ^ shift = 2 ^ (32 * ?k) * 2 ^ ?s"
    by (simp flip: power_add)
  then show ?thesis
    using upd [of "q ! ?k OR push_bit ?s 1"] unfolding bitv by (simp add: distrib_left)
qed


lemma div_step_inv:
  assumes "div_inv W A B (Suc shift) s" "shift < 32 * W"
  shows "div_inv W A B shift (div_step s shift)"
proof -
  obtain num dv q where s: "s = (num, dv, q)"
    by (cases s) auto
  have inv: "length num = W" "length dv = W" "length q = W" "av num + av q * B = A" "av num < 2 ^ Suc shift * B"
    "av dv = 2 ^ shift * B" "2 ^ Suc shift dvd av q"
    using assms(1) by (simp_all add: div_inv_def s)
  have half: "2 ^ shift dvd av q"
    using inv(7) by (metis dvd_mult_right power_Suc)
  have shr: "av (base_shr dv (Suc 0)) = 2 ^ shift * B div 2"
    by (simp add: base_shr_value inv)
  show ?thesis
  proof (cases "av dv \<le> av num")
    case True
    then have "CompareTo num dv \<ge> 0"
      using inv by (simp add: CompareTo_value)
    moreover have "av (base_sub num dv) = av num - 2 ^ shift * B"
      using True inv by (simp add: base_sub_value)
    moreover have "av (q[shift div 32 := q ! (shift div 32) OR push_bit (shift mod 32) 1]) = av q + 2 ^ shift"
      using inv assms(2) by (intro av_set_bit) simp_all
    moreover have "av num - 2 ^ shift * B + (av q + 2 ^ shift) * B = A"
      using True inv by (simp add: algebra_simps)
    moreover have "av num - 2 ^ shift * B < 2 ^ shift * B"
      using True inv by simp
    ultimately show ?thesis
      using inv half by (simp add: s div_step_def div_inv_def shr)
  next
    case False
    then have "\<not> CompareTo num dv \<ge> 0"
      using inv by (simp add: CompareTo_value)
    then show ?thesis
      using False inv half by (simp add: s div_step_def div_inv_def shr)
  qed
qed

lemma div_loop_inv:
  "div_inv W A B n s \<Longrightarrow> n \<le> 32 * W \<Longrightarrow> div_inv W A B 0 (foldl div_step s (rev [0..<n]))"
proof (induction n arbitrary: s)
  case (Suc n)
  then have "div_inv W A B n (div_step s n)"
    by (intro div_step_inv) simp_all
  then show ?case
    using Suc by simp
qed simp

lemma fewer_bits:
  assumes "base_bits a < base_bits b" "av b \<noteq> 0"
  shows "av a < av b"
proof (cases "av a = 0")
  case False
  have "av a < 2 ^ base_bits a"
    using False by (rule base_bits_bound)
  also have "\<dots> \<le> 2 ^ (base_bits b - 1)"
    using assms(1) by (intro power_increasing) simp_all
  also have "\<dots> \<le> av b"
    using assms(2) by (rule base_bits_bound)
  finally show ?thesis .
qed (use assms(2) in simp)

lemma div_start:
  assumes len: "length b = length a" and nz: "av b \<noteq> 0" and nb: "base_bits a = sh + base_bits b"
  shows "div_inv (length a) (av a) (av b) (Suc sh) (a, base_shl b sh, replicate (length a) 0)" "sh < 32 * length a"
proof -
  have pos: "0 < base_bits b"
    using nz by (rule base_bits_bound)
  then have a0: "av a \<noteq> 0"
    using nb by (metis add_is_0 base_bits_zero less_not_refl)
  have top: "base_bits a \<le> 32 * length a"
    using a0 by (rule base_bits_bound)
  then show "sh < 32 * length a"
    using nb pos by simp
  have "av b * 2 ^ sh < 2 ^ base_bits b * 2 ^ sh"
    using base_bits_bound(4) [OF nz] by simp
  also have "\<dots> \<le> 2 ^ (32 * length a)"
    using top by (simp add: nb add.commute flip: power_add)
  finally have fits: "av b * 2 ^ sh < 2 ^ (32 * length a)" .
  have "av a < 2 ^ base_bits a"
    using a0 by (rule base_bits_bound)
  also have "\<dots> = 2 ^ Suc sh * 2 ^ (base_bits b - 1)"
    using nb pos by (simp flip: power_add power_Suc)
  also have "\<dots> \<le> 2 ^ Suc sh * av b"
    using base_bits_bound(3) [OF nz] by simp
  finally show "div_inv (length a) (av a) (av b) (Suc sh) (a, base_shl b sh, replicate (length a) 0)"
    using len fits by (simp add: div_inv_def base_shl_value mult.commute)
qed

lemma base_div_spec:
  assumes len: "length b = length a" and nz: "av b \<noteq> 0"
  obtains q where "base_div a b = Some q" "av q = av a div av b" "length q = length a"
proof (cases "base_bits a < base_bits b")
  case True
  then show ?thesis
    using nz fewer_bits [OF True nz] that [of "replicate (length a) 0"] by (simp add: base_div_def base_bits_zero)
next
  case False
  define sh where "sh = base_bits a - base_bits b"
  have "base_bits a = sh + base_bits b"
    using False by (simp add: sh_def)
  note start = div_start [OF len nz this]
  obtain num dv q where r: "foldl div_step (a, base_shl b sh, replicate (length a) 0) (rev [0..<Suc sh]) = (num, dv, q)"
    using prod_cases3 by blast
  have "div_inv (length a) (av a) (av b) 0 (num, dv, q)"
    unfolding r [symmetric] using start by (intro div_loop_inv) simp_all
  then have eq: "av num + av q * av b = av a" and "av num < av b" "length q = length a"
    by (simp_all add: div_inv_def)
  then have "av q = av a div av b"
    using nz by (simp flip: eq)
  moreover have "base_div a b = Some q"
    using False nz r by (simp add: base_div_def base_bits_zero Let_def sh_def)
  ultimately show ?thesis
    using that \<open>length q = length a\<close> by blast
qed

lemma base_div_zero: "av b = 0 \<Longrightarrow> base_div a b = None"
  by (simp add: base_div_def base_bits_zero)


section \<open>The 256-bit type\<close>

text \<open>\<open>UintToArith256\<close> and \<open>ArithToUint256\<close> copy limbs from and to the little-endian bytes of a \<open>uint256\<close>.\<close>

definition UintToArith256 :: "uint256 \<Rightarrow> limbs" where
  "UintToArith256 a = map (\<lambda>x. le_word (le_bytes 4 (drop_bit (32 * x) a))) [0..<WIDTH]"

definition ArithToUint256 :: "limbs \<Rightarrow> uint256" where
  "ArithToUint256 a = le_word (concat (map (le_bytes 4) a))"

lemma length_UintToArith256 [simp]: "length (UintToArith256 w) = WIDTH"
  by (simp add: UintToArith256_def)

lemma UintToArith256_value: "av (UintToArith256 w) = unat w"
proof (rule bit_eqI)
  fix n :: nat
  have "le_word (le_bytes 4 (drop_bit (32 * x) w)) = (ucast (drop_bit (32 * x) w) :: u32)" for x
  proof (rule bit_word_eqI)
    fix j :: nat
    assume "j < LENGTH(32)"
    then show "bit (le_word (le_bytes 4 (drop_bit (32 * x) w)) :: u32) j = bit (ucast (drop_bit (32 * x) w) :: u32) j"
      by (auto simp: bit_le_word nth_le_bytes bit_simps add.commute)
  qed
  then show "bit (av (UintToArith256 w)) n = bit (unat w) n"
  proof (cases "n < 256")
    case True
    then have "n div 32 < 8"
      by (simp add: less_mult_imp_div_less)
    then show ?thesis
      using \<open>\<And>x. le_word (le_bytes 4 (drop_bit (32 * x) w)) = (ucast (drop_bit (32 * x) w) :: u32)\<close>
      by (simp add: bit_av UintToArith256_def WIDTH_def bit_unsigned_iff bit_ucast_iff bit_drop_bit_eq)
  next
    case False
    then have "\<not> n div 32 < 8"
      by linarith
    then show ?thesis
      using False by (auto simp: bit_av UintToArith256_def WIDTH_def bit_unsigned_iff dest: bit_imp_le_length)
  qed
qed

lemma le_word_append: "(le_word (bs @ cs) :: 'a::len word) = le_word bs OR push_bit (8 * length bs) (le_word cs)"
proof (induction bs)
  case (Cons b bs)
  show ?case
    unfolding append_Cons le_word.simps Cons.IH
    by (rule bit_word_eqI) (auto simp: bit_simps diff_diff_add add.commute)
qed simp

lemma ArithToUint256_value: "ArithToUint256 a = word_of_nat (av a)"
  unfolding ArithToUint256_def
proof (induction a)
  case (Cons x a)
  have x: "(le_word (le_bytes 4 x) :: uint256) = ucast x"
  proof (rule bit_word_eqI)
    fix j :: nat
    show "bit (le_word (le_bytes 4 x) :: uint256) j = bit (ucast x :: uint256) j" if "j < LENGTH(256)"
    proof (cases "j < 32")
      case True
      then have "j div 8 < 4"
        by (simp add: less_mult_imp_div_less)
      then show ?thesis
        using True by (simp add: bit_le_word nth_le_bytes bit_ucast_iff bit_drop_bit_eq)
    next
      case False
      then show ?thesis
        using bit_imp_le_length [of x j] by (auto simp: bit_le_word bit_ucast_iff)
    qed
  qed
  have "(word_of_nat (unat x + 2 ^ 32 * av a) :: uint256) = ucast x + push_bit 32 (word_of_nat (av a))"
    by (simp add: push_bit_eq_mult mult.commute)
  also have "\<dots> = ucast x OR push_bit 32 (word_of_nat (av a))"
    by (intro disjunctive_add_eq_or bit_word_eqI) (auto simp: bit_simps dest: bit_imp_le_length [of x])
  finally show ?case
    using Cons.IH by (simp add: le_word_append x)
qed simp


lemma ArithToUint256_inverse [simp]: "ArithToUint256 (UintToArith256 w) = w"
  by (simp add: ArithToUint256_value UintToArith256_value)

lemma unat_ArithToUint256: "length a = WIDTH \<Longrightarrow> unat (ArithToUint256 a) = av a"
  using av_less [of a] by (simp add: ArithToUint256_value WIDTH_def unat_of_nat)

lemma word256_mod: "word_of_nat (k mod 2 ^ 256) = (word_of_nat k :: uint256)"
  by (rule word_unat_eq_iff [THEN iffD2]) (simp add: unat_of_nat)

lemma arith_add: "length a = WIDTH \<Longrightarrow> length b = WIDTH \<Longrightarrow> ArithToUint256 (base_add a b) = ArithToUint256 a + ArithToUint256 b"
  using word256_mod [of "av a + av b"] by (simp add: ArithToUint256_value base_add_value WIDTH_def)

lemma arith_neg: "length b = WIDTH \<Longrightarrow> ArithToUint256 (base_neg b) = - ArithToUint256 b"
proof -
  assume b: "length b = WIDTH"
  have "ArithToUint256 (base_neg b) + ArithToUint256 b = word_of_nat ((2 ^ 256 - av b) + av b)"
    using b word256_mod [of "2 ^ 256 - av b"] by (simp add: ArithToUint256_value base_neg_value WIDTH_def)
  also have "(2 ^ 256 - av b) + av b = 2 ^ 256"
    using av_less [of b] b by (simp add: WIDTH_def)
  also have "(word_of_nat (2 ^ 256) :: uint256) = 0"
    using of_nat_2p [where 'a = 256] by simp
  finally show ?thesis
    by (simp add: eq_neg_iff_add_eq_0)
qed

lemma arith_mul: "length a = WIDTH \<Longrightarrow> length b = WIDTH \<Longrightarrow> ArithToUint256 (base_mul a b) = ArithToUint256 a * ArithToUint256 b"
  using word256_mod [of "av a * av b"] by (simp add: ArithToUint256_value base_mul_value WIDTH_def)

lemma arith_mul32: "length a = WIDTH \<Longrightarrow> ArithToUint256 (base_mul32 a c) = ArithToUint256 a * ucast c"
  using word256_mod [of "av a * unat c"] by (simp add: ArithToUint256_value base_mul32_value WIDTH_def)

lemma arith_shl: "length a = WIDTH \<Longrightarrow> ArithToUint256 (base_shl a n) = push_bit n (ArithToUint256 a)"
  using word256_mod [of "av a * 2 ^ n"] by (simp add: ArithToUint256_value base_shl_value WIDTH_def push_bit_eq_mult)

lemma arith_shr: "length a = WIDTH \<Longrightarrow> ArithToUint256 (base_shr a n) = drop_bit n (ArithToUint256 a)"
  by (rule word_unat_eq_iff [THEN iffD2])
    (simp add: unat_ArithToUint256 base_shr_value unat_drop_bit_eq drop_bit_eq_div [where 'a = nat])

lemma arith_div:
  assumes "length a = WIDTH" "length b = WIDTH"
  shows "map_option ArithToUint256 (base_div a b) =
    (if ArithToUint256 b = 0 then None else Some (ArithToUint256 a div ArithToUint256 b))"
proof (cases "av b = 0")
  case True
  then show ?thesis
    by (simp add: base_div_zero ArithToUint256_value)
next
  case False
  then obtain q where q: "base_div a b = Some q" "av q = av a div av b" "length q = length a"
    using assms base_div_spec by metis
  have "ArithToUint256 b \<noteq> 0"
    using False assms(2) unat_ArithToUint256 [of b] by auto
  moreover have "ArithToUint256 q = ArithToUint256 a div ArithToUint256 b"
    using q assms by (intro word_unat_eq_iff [THEN iffD2]) (simp add: unat_ArithToUint256 unat_div_distrib)
  ultimately show ?thesis
    using q by simp
qed

text \<open>The arithmetic of \<open>uint256\<close> words is what the limb loops compute.\<close>

lemma arith_compare:
  "length a = WIDTH \<Longrightarrow> length b = WIDTH \<Longrightarrow>
     CompareTo a b = (if ArithToUint256 a < ArithToUint256 b then - 1 else if ArithToUint256 b < ArithToUint256 a then 1 else 0)"
  by (simp add: CompareTo_value word_less_nat_alt unat_ArithToUint256)

text \<open>C9. The limb arithmetic of \<open>arith_uint256\<close> is exact arithmetic of 256-bit words: addition and subtraction with
  their carry loops, both multiplications, both shifts, the comparison from the top limb, and shift-and-subtract
  division, which returns the quotient for every divisor but zero, where it throws.\<close>

theorem arith_uint256_exact:
  assumes "length a = WIDTH" "length b = WIDTH"
  shows "ArithToUint256 (base_add a b) = ArithToUint256 a + ArithToUint256 b
    \<and> ArithToUint256 (base_sub a b) = ArithToUint256 a - ArithToUint256 b
    \<and> ArithToUint256 (base_mul a b) = ArithToUint256 a * ArithToUint256 b
    \<and> ArithToUint256 (base_mul32 a c) = ArithToUint256 a * ucast c
    \<and> ArithToUint256 (base_shl a n) = push_bit n (ArithToUint256 a)
    \<and> ArithToUint256 (base_shr a n) = drop_bit n (ArithToUint256 a)
    \<and> CompareTo a b = (if ArithToUint256 a < ArithToUint256 b then - 1
                       else if ArithToUint256 b < ArithToUint256 a then 1 else 0)
    \<and> map_option ArithToUint256 (base_div a b) =
        (if ArithToUint256 b = 0 then None else Some (ArithToUint256 a div ArithToUint256 b))"
  using assms
  by (simp add: arith_add arith_neg arith_mul arith_mul32 arith_shl arith_shr arith_compare arith_div base_sub_def)

theorem arith_uint256_exact_witness:
  "map_option ArithToUint256 (base_div [0, 5, 0, 0, 0, 0, 0, 0] [7, 0, 0, 0, 0, 0, 0, 0]) = Some 0xB6DB6DB6 \<and>
   ArithToUint256 (base_sub [0, 5, 0, 0, 0, 0, 0, 0] [7, 0, 0, 0, 0, 0, 0, 0]) = 0x4FFFFFFF9"
  using arith_uint256_exact [of "[0, 5, 0, 0, 0, 0, 0, 0]" "[7, 0, 0, 0, 0, 0, 0, 0]" 0 0]
  by (simp add: WIDTH_def ArithToUint256_value)


section \<open>Compact targets\<close>

text \<open>\<open>SetCompact\<close> and the two flags it reports through its pointer arguments; \<open>nWord\<close> has been shifted down when they are
  computed. \<open>GetCompact\<close> is called with \<open>fNegative = false\<close> everywhere; a failed assertion is \<open>None\<close>.\<close>

definition SetCompact :: "u32 \<Rightarrow> uint256" where
  "SetCompact nCompact =
     (let nSize = unat (drop_bit 24 nCompact); nWord = nCompact AND 0x007fffff
      in if nSize \<le> 3 then ucast (drop_bit (8 * (3 - nSize)) nWord) else push_bit (8 * (nSize - 3)) (ucast nWord))"

definition SetCompact_flags :: "u32 \<Rightarrow> bool \<times> bool" where
  "SetCompact_flags nCompact =
     (let nSize = unat (drop_bit 24 nCompact);
          nWord = (if nSize \<le> 3 then drop_bit (8 * (3 - nSize)) (nCompact AND 0x007fffff) else nCompact AND 0x007fffff)
      in (nWord \<noteq> 0 \<and> bit nCompact 23,
          nWord \<noteq> 0 \<and> (34 < nSize \<or> 0xff < nWord \<and> 33 < nSize \<or> 0xffff < nWord \<and> 32 < nSize)))"

definition compact_assert :: "u32 \<Rightarrow> nat \<Rightarrow> u32 option" where
  "compact_assert nCompact nSize =
     (if nCompact AND NOT 0x007fffff = 0 \<and> nSize < 256 then Some (nCompact OR push_bit 24 (word_of_nat nSize)) else None)"

definition compact_word :: "limbs \<Rightarrow> nat \<Rightarrow> u32" where
  "compact_word a nSize =
     (if nSize \<le> 3 then ucast (push_bit (8 * (3 - nSize)) (GetLow64 a))
      else ucast (GetLow64 (base_shr a (8 * (nSize - 3)))))"

definition GetCompact :: "limbs \<Rightarrow> u32 option" where
  "GetCompact a =
     (let nSize = (base_bits a + 7) div 8; nCompact = compact_word a nSize
      in if bit nCompact 23 then compact_assert (drop_bit 8 nCompact) (nSize + 1) else compact_assert nCompact nSize)"

lemma GetLow64_value: "2 \<le> length a \<Longrightarrow> unat (GetLow64 a) = av a mod 2 ^ 64"
proof -
  assume "2 \<le> length a"
  then obtain x y r where a: "a = x # y # r"
    by (metis One_nat_def Suc_le_length_iff numeral_2_eq_2)
  have "unat (ucast x OR push_bit 32 (ucast y) :: u64) = take_bit 64 (av a)"
  proof (rule bit_eqI)
    fix n :: nat
    consider "n < 32" | "32 \<le> n" "n < 64" | "64 \<le> n"
      by linarith
    then show "bit (unat (ucast x OR push_bit 32 (ucast y) :: u64)) n = bit (take_bit 64 (av a)) n"
    proof cases
      case 1
      then show ?thesis
        by (simp add: bit_av a bit_simps del: av.simps)
    next
      case 2
      then have "n div 32 = 1" "n mod 32 = n - 32"
        by (simp_all add: le_div_geq le_mod_geq)
      then show ?thesis
        using 2 bit_imp_le_length [of x n] by (auto simp: bit_av a bit_simps simp del: av.simps)
    qed (auto simp: bit_simps dest: bit_imp_le_length)
  qed
  then show ?thesis
    by (simp add: GetLow64_def a take_bit_eq_mod)
qed

lemma shifted_bounds:
  fixes v :: nat
  assumes "2 ^ (n - 1) \<le> v" "v < 2 ^ n" "k < n"
  shows "2 ^ (n - 1 - k) \<le> v div 2 ^ k" "v div 2 ^ k < 2 ^ (n - k)"
proof -
  have "(2 :: nat) ^ (n - 1) = 2 ^ (n - 1 - k) * 2 ^ k"
    using assms(3) by (simp flip: power_add)
  then show "2 ^ (n - 1 - k) \<le> v div 2 ^ k"
    using assms(1) by (simp add: less_eq_div_iff_mult_less_eq)
  have "(2 :: nat) ^ n = 2 ^ (n - k) * 2 ^ k"
    using assms(3) by (simp flip: power_add)
  then show "v div 2 ^ k < 2 ^ (n - k)"
    using assms(2) by (simp add: div_less_iff_less_mult)
qed

text \<open>The mantissa of a number of \<open>n\<close> bits at \<open>s\<close> bytes, three bytes wide.\<close>

definition mantissa :: "nat \<Rightarrow> nat \<Rightarrow> nat" where
  "mantissa v s = (if s \<le> 3 then v * 256 ^ (3 - s) else v div 256 ^ (s - 3))"

lemma mantissa_bounds:
  assumes "2 ^ (n - 1) \<le> v" "v < 2 ^ n" "0 < n" "n \<le> 8 * s" "8 * s < n + 16"
  shows "2 ^ (n + 23 - 8 * s) \<le> mantissa v s" "mantissa v s < 2 ^ (n + 24 - 8 * s)"
proof -
  have p: "(256 :: nat) ^ k = 2 ^ (8 * k)" for k
    by (simp add: power_mult)
  show "2 ^ (n + 23 - 8 * s) \<le> mantissa v s"
  proof (cases "s \<le> 3")
    case True
    then have "(2 :: nat) ^ (n + 23 - 8 * s) = 2 ^ (n - 1) * 2 ^ (8 * (3 - s))"
      using assms by (simp flip: power_add)
    then show ?thesis
      using True assms(1) by (simp add: mantissa_def p)
  next
    case False
    have e: "n + 23 - 8 * s = n - 1 - 8 * (s - 3)" "8 * (s - 3) < n"
      using False assms(3,4,5) by linarith+
    then show ?thesis
      using False shifted_bounds(1) [OF assms(1,2) e(2)] by (simp add: mantissa_def p)
  qed
  show "mantissa v s < 2 ^ (n + 24 - 8 * s)"
  proof (cases "s \<le> 3")
    case True
    then have "(2 :: nat) ^ (n + 24 - 8 * s) = 2 ^ n * 2 ^ (8 * (3 - s))"
      using assms by (simp flip: power_add)
    then show ?thesis
      using True assms(2) by (simp add: mantissa_def p)
  next
    case False
    have e: "n + 24 - 8 * s = n - 8 * (s - 3)" "8 * (s - 3) < n"
      using False assms(3,4,5) by linarith+
    then show ?thesis
      using False shifted_bounds(2) [OF assms(1,2) e(2)] by (simp add: mantissa_def p)
  qed
qed


lemma mantissa_Suc: "mantissa v s div 256 = mantissa v (Suc s)"
proof -
  consider "s \<le> 2" | "s = 3" | "3 < s"
    by linarith
  then show ?thesis
  proof cases
    case 1
    then have "3 - s = Suc (3 - Suc s)"
      by linarith
    then show ?thesis
      using 1 by (simp add: mantissa_def)
  next
    case 3
    then have "Suc s - 3 = Suc (s - 3)"
      by linarith
    then have "v div 256 ^ (Suc s - 3) = v div 256 ^ (s - 3) div 256"
      by (simp only: power_Suc2 div_mult2_eq)
    then show ?thesis
      using 3 by (simp add: mantissa_def)
  qed (simp add: mantissa_def)
qed

lemma top_mantissa_bit: "unat (c :: u32) < 2 ^ 24 \<Longrightarrow> bit c 23 \<longleftrightarrow> 2 ^ 23 \<le> unat c"
proof -
  assume c: "unat c < 2 ^ 24"
  have "bit c 23 \<longleftrightarrow> bit (unat c) 23"
    by (simp add: bit_unsigned_iff)
  also have "\<dots> \<longleftrightarrow> odd (unat c div 2 ^ 23)"
    by (simp add: bit_iff_odd)
  also have "unat c div 2 ^ 23 = (if 2 ^ 23 \<le> unat c then 1 else 0)"
  proof (cases "2 ^ 23 \<le> unat c")
    case True
    then have "unat c div 2 ^ 23 = 1"
      using c by (intro div_nat_eqI) simp_all
    then show ?thesis
      using True by simp
  qed simp
  finally show ?thesis
    by (simp split: if_splits)
qed

lemma compact_assert_value:
  assumes "unat c < 2 ^ 23" "s < 256"
  shows "compact_assert c s = Some (word_of_nat (unat c + s * 2 ^ 24))"
proof -
  have hi: "j < 23" if "bit c j" for j
  proof -
    have "take_bit 23 (unat c) = unat c"
      using assms(1) by (simp add: take_bit_nat_eq_self)
    then show ?thesis
      using that bit_take_bit_iff [of 23 "unat c" j] bit_imp_le_length [of c j] by (auto simp: bit_unsigned_iff)
  qed
  have m: "(0x007fffff :: u32) = mask 23"
    by (simp add: mask_eq_exp_minus_1)
  have "c AND NOT 0x007fffff = 0"
    unfolding m by (intro bit_word_eqI) (auto simp: bit_simps dest: hi)
  moreover have "c OR push_bit 24 (word_of_nat s) = word_of_nat (unat c + s * 2 ^ 24)"
  proof -
    have "c OR push_bit 24 (word_of_nat s) = c + push_bit 24 (word_of_nat s)"
      by (intro disjunctive_add_eq_or [symmetric] bit_word_eqI) (auto simp: bit_simps dest: hi)
    then show ?thesis
      by (simp add: push_bit_eq_mult)
  qed
  ultimately show ?thesis
    using assms(2) by (simp add: compact_assert_def)
qed

definition compact_size :: "limbs \<Rightarrow> nat" where
  "compact_size a = base_bits a div 8 + 1"

lemma compact_word_value:
  assumes "length a = WIDTH" "mantissa (av a) s < 2 ^ 24"
  shows "unat (compact_word a s) = mantissa (av a) s"
proof (cases "s \<le> 3")
  case True
  have "av a \<le> mantissa (av a) s"
    using True by (simp add: mantissa_def)
  then have "unat (GetLow64 a) = av a"
    using assms by (simp add: GetLow64_value WIDTH_def)
  moreover have "unat (ucast (push_bit k g :: u64) :: u32) = unat g * 2 ^ k mod 2 ^ 32" for k and g :: u64
  proof -
    have "unat (ucast (push_bit k g :: u64) :: u32) = take_bit 32 (push_bit k (unat g))"
      by (rule bit_eqI) (auto simp: bit_simps)
    then show ?thesis
      by (simp add: take_bit_eq_mod push_bit_eq_mult)
  qed
  ultimately show ?thesis
    using True assms(2) by (simp add: compact_word_def mantissa_def power_mult)
next
  case False
  have "av (base_shr a (8 * (s - 3))) = mantissa (av a) s"
    using False by (simp add: base_shr_value mantissa_def power_mult)
  then have "unat (GetLow64 (base_shr a (8 * (s - 3)))) = mantissa (av a) s"
    using assms by (simp add: GetLow64_value WIDTH_def)
  moreover have "unat (ucast g :: u32) = unat g mod 2 ^ 32" for g :: u64
    by (simp add: unsigned_ucast_eq take_bit_eq_mod)
  ultimately show ?thesis
    using False assms(2) by (simp add: compact_word_def)
qed

lemma mantissa_top:
  assumes "2 ^ (n - 1) \<le> v" "v < 2 ^ n" "0 < n" "n \<le> 8 * s" "8 * s < n + 8"
  shows "mantissa v s < 2 ^ 24" "2 ^ 23 \<le> mantissa v s \<longleftrightarrow> n = 8 * s"
proof -
  have "8 * s < n + 16"
    using assms(5) by simp
  note mb = mantissa_bounds [OF assms(1-4) this]
  have "(2 :: nat) ^ (n + 24 - 8 * s) \<le> 2 ^ 24"
    using assms(4) by (intro power_increasing) simp_all
  then show "mantissa v s < 2 ^ 24"
    using mb(2) by simp
  have "(2 :: nat) ^ (n + 24 - 8 * s) \<le> 2 ^ 23" if "n \<noteq> 8 * s"
    using assms(4) that by (intro power_increasing) simp_all
  then show "2 ^ 23 \<le> mantissa v s \<longleftrightarrow> n = 8 * s"
    using mb by fastforce
qed

lemma GetCompact_value:
  assumes len: "length a = WIDTH" and nz: "av a \<noteq> 0"
  shows "GetCompact a = Some (word_of_nat (mantissa (av a) (compact_size a) + compact_size a * 2 ^ 24))"
    and "mantissa (av a) (compact_size a) < 2 ^ 23"
proof -
  define n where "n = base_bits a"
  define s where "s = (n + 7) div 8"
  have b: "2 ^ (n - 1) \<le> av a" "av a < 2 ^ n" "0 < n" "n \<le> 256"
    using base_bits_bound [OF nz] len by (simp_all add: n_def WIDTH_def)
  have s: "n \<le> 8 * s" "8 * s < n + 8" "s < 255"
    using b(4) by (simp_all add: s_def)
  note top = mantissa_top [OF b(1-3) s(1,2)]
  have c: "unat (compact_word a s) = mantissa (av a) s"
    using len top(1) by (rule compact_word_value)
  have bit: "bit (compact_word a s) 23 \<longleftrightarrow> n = 8 * s"
    using top_mantissa_bit [of "compact_word a s"] top c by simp
  have size: "compact_size a = (if n = 8 * s then s + 1 else s)"
    using b(3) s by (auto simp: compact_size_def n_def [symmetric])
  show small: "mantissa (av a) (compact_size a) < 2 ^ 23"
    using top size mantissa_Suc [of "av a" s] by auto
  have eq: "GetCompact a = (if n = 8 * s then compact_assert (drop_bit 8 (compact_word a s)) (s + 1)
      else compact_assert (compact_word a s) s)"
    using bit by (simp add: GetCompact_def Let_def n_def [symmetric] s_def [symmetric])
  show "GetCompact a = Some (word_of_nat (mantissa (av a) (compact_size a) + compact_size a * 2 ^ 24))"
  proof (cases "n = 8 * s")
    case True
    then have "unat (drop_bit 8 (compact_word a s)) = mantissa (av a) (compact_size a)"
      using c mantissa_Suc [of "av a" s] size by (simp add: unat_drop_bit_eq drop_bit_eq_div [where 'a = nat])
    then show ?thesis
      using True eq small s(3) size compact_assert_value [of "drop_bit 8 (compact_word a s)" "s + 1"] by simp
  next
    case False
    then show ?thesis
      using eq small c s(3) size compact_assert_value [of "compact_word a s" s] by simp
  qed
qed

lemma GetCompact_zero: "length a = WIDTH \<Longrightarrow> av a = 0 \<Longrightarrow> GetCompact a = Some 0"
proof -
  assume "length a = WIDTH" "av a = 0"
  then have "GetLow64 a = 0"
    using GetLow64_value [of a] by (simp add: WIDTH_def unat_eq_zero)
  then show ?thesis
    using \<open>av a = 0\<close> by (simp add: GetCompact_def compact_word_def compact_assert_def base_bits_zero [THEN iffD2])
qed

text \<open>\<open>SetCompact\<close> on what \<open>GetCompact\<close> produces.\<close>

lemma SetCompact_parts:
  assumes "m < 2 ^ 23" "s < 256"
  defines "c \<equiv> word_of_nat (m + s * 2 ^ 24) :: u32"
  shows "unat (drop_bit 24 c) = s" "unat (c AND 0x007fffff) = m" "\<not> bit c 23"
proof -
  have lt: "m + s * 2 ^ 24 < 2 ^ 32"
    using assms(1,2) by simp
  then have c: "unat c = m + s * 2 ^ 24"
    unfolding c_def unat_of_nat by simp
  show "unat (drop_bit 24 c) = s"
    using assms(1) unfolding unat_drop_bit_eq c by (simp add: drop_bit_eq_div)
  have mask: "(0x007fffff :: u32) = mask 23"
    by (simp add: mask_eq_exp_minus_1)
  show "unat (c AND 0x007fffff) = m"
  proof -
    have "unat (c AND mask 23) = take_bit 23 (unat c)"
      by (rule bit_eqI) (auto simp: bit_simps)
    moreover have "(m + s * 2 ^ 24) mod 2 ^ 23 = m"
    proof -
      have "m + s * 2 ^ 24 = m + 2 ^ 23 * (2 * s)"
        by simp
      then show ?thesis
        using assms(1) by (simp only: mod_mult_self2) simp
    qed
    ultimately show ?thesis
      unfolding mask c by (simp only: take_bit_eq_mod)
  qed
  have "bit c 23 \<longleftrightarrow> odd ((m + s * 2 ^ 24) div 2 ^ 23)"
  proof -
    have "bit c 23 \<longleftrightarrow> bit (unat c) 23"
      by (simp add: bit_unsigned_iff)
    then show ?thesis
      unfolding c bit_iff_odd .
  qed
  moreover have "(m + s * 2 ^ 24) div 2 ^ 23 = 2 * s"
    using assms(1) by simp
  ultimately show "\<not> bit c 23"
    by simp
qed


lemma SetCompact_value:
  assumes "m < 2 ^ 23" "s < 256"
  shows "unat (SetCompact (word_of_nat (m + s * 2 ^ 24)))
    = (if s \<le> 3 then m div 256 ^ (3 - s) else m * 256 ^ (s - 3) mod 2 ^ 256)"
proof -
  let ?c = "word_of_nat (m + s * 2 ^ 24) :: u32"
  have p: "(256 :: nat) ^ k = 2 ^ (8 * k)" for k
    by (simp add: power_mult)
  note parts = SetCompact_parts [OF assms]
  have m: "unat (ucast (?c AND 0x007fffff) :: uint256) = m"
    using parts(2) assms(1) by (simp only: unsigned_ucast_eq) (simp add: take_bit_nat_eq_self)
  show ?thesis
  proof (cases "s \<le> 3")
    case True
    have "unat (ucast (drop_bit k (?c AND 0x007fffff)) :: uint256) = m div 2 ^ k" for k
    proof -
      have "unat (drop_bit k (?c AND 0x007fffff)) = m div 2 ^ k"
        unfolding unat_drop_bit_eq parts(2) by (rule drop_bit_eq_div)
      moreover have "m div 2 ^ k < 2 ^ 256"
        using assms(1) by (intro le_less_trans [OF div_le_dividend]) simp
      ultimately show ?thesis
        by (simp only: unsigned_ucast_eq) (simp add: take_bit_nat_eq_self)
    qed
    then show ?thesis
      using True parts(1) by (simp only: SetCompact_def Let_def p if_True)
  next
    case False
    have "unat (push_bit k (ucast (?c AND 0x007fffff)) :: uint256) = m * 2 ^ k mod 2 ^ 256" for k
    proof -
      have "unat (push_bit k w) = take_bit 256 (push_bit k (unat w))" for w :: uint256
        by (rule bit_eqI) (auto simp: bit_simps)
      then show ?thesis
        using m by (simp only: take_bit_eq_mod push_bit_eq_mult)
    qed
    then show ?thesis
      using False parts(1) by (simp only: SetCompact_def Let_def p if_False)
  qed
qed

text \<open>Decoding an encoded target clears the low bytes that do not fit the mantissa.\<close>

definition compact_cut :: "limbs \<Rightarrow> nat" where
  "compact_cut a = 8 * (compact_size a - 3)"

lemma compact_decode:
  assumes len: "length a = WIDTH" and nz: "av a \<noteq> 0" and c: "GetCompact a = Some c"
  shows "unat (SetCompact c) = av a div 2 ^ compact_cut a * 2 ^ compact_cut a"
proof -
  let ?s = "compact_size a"
  have s: "?s < 256"
    using base_bits_bound(2) [OF nz] len by (simp add: compact_size_def WIDTH_def)
  have c': "c = word_of_nat (mantissa (av a) ?s + ?s * 2 ^ 24)"
    using GetCompact_value(1) [OF len nz] c by simp
  have p: "(256 :: nat) ^ k = 2 ^ (8 * k)" for k
    by (simp add: power_mult)
  note v = SetCompact_value [OF GetCompact_value(2) [OF len nz] s]
  show ?thesis
  proof (cases "?s \<le> 3")
    case True
    then show ?thesis
      unfolding c' v by (simp add: mantissa_def compact_cut_def)
  next
    case False
    have "av a div 2 ^ compact_cut a * 2 ^ compact_cut a < 2 ^ 256"
      using av_less [of a] len
      by (intro le_less_trans [OF div_times_less_eq_dividend]) (simp add: WIDTH_def)
    then show ?thesis
      unfolding c' v using False by (simp add: mantissa_def compact_cut_def p)
  qed
qed

lemma bits_unique:
  assumes "2 ^ (m - 1) \<le> (v :: nat)" "v < 2 ^ m" "2 ^ (n - 1) \<le> v" "v < 2 ^ n"
  shows "m = n"
proof -
  have "m - 1 < n" "n - 1 < m"
    using assms by (meson le_less_trans nat_power_less_imp_less zero_less_numeral)+
  then show ?thesis
    by linarith
qed


lemma cut_small:
  assumes "av a \<noteq> 0"
  shows "compact_cut a + 16 \<le> base_bits a + 7 \<or> compact_cut a = 0"
  by (auto simp: compact_cut_def compact_size_def)

text \<open>The number that is decoded has as many bits as the one encoded, so encoding it again gives the same target.\<close>

lemma compact_again:
  assumes len: "length a = WIDTH" and nz: "av a \<noteq> 0" and c: "GetCompact a = Some c"
  shows "GetCompact (UintToArith256 (SetCompact c)) = Some c"
proof -
  let ?b = "UintToArith256 (SetCompact c)" and ?k = "compact_cut a" and ?n = "base_bits a"
  have b: "av ?b = av a div 2 ^ ?k * 2 ^ ?k"
    using compact_decode [OF assms] by (simp add: UintToArith256_value)
  note bd = base_bits_bound [OF nz]
  have k: "?k < ?n"
    using cut_small [OF nz] bd(1) by linarith
  have lo: "2 ^ (?n - 1) \<le> av ?b"
  proof -
    have "(2 :: nat) ^ (?n - 1) = 2 ^ (?n - 1 - ?k) * 2 ^ ?k"
      using k by (simp flip: power_add)
    then show ?thesis
      using shifted_bounds(1) [OF bd(3,4) k] b by simp
  qed
  have hi: "av ?b < 2 ^ ?n"
    unfolding b using bd(4) div_times_less_eq_dividend [of "av a" "2 ^ ?k"] by (rule le_less_trans [rotated])
  have nzb: "av ?b \<noteq> 0"
    using lo by (metis less_numeral_extra(3) less_le_trans zero_less_numeral zero_less_power)
  have n: "base_bits ?b = ?n"
    using lo hi base_bits_bound(3,4) [OF nzb] by (rule bits_unique [symmetric])
  then have s: "compact_size ?b = compact_size a"
    by (simp add: compact_size_def)
  have "mantissa (av ?b) (compact_size a) = mantissa (av a) (compact_size a)"
  proof (cases "compact_size a \<le> 3")
    case True
    then have "av ?b = av a"
      using b by (simp add: compact_cut_def)
    then show ?thesis
      by simp
  next
    case False
    have "(256 :: nat) ^ (compact_size a - 3) = 2 ^ ?k"
      by (simp add: compact_cut_def power_mult)
    then show ?thesis
      using False b by (simp add: mantissa_def)
  qed
  then show ?thesis
    using GetCompact_value(1) [of ?b] GetCompact_value(1) [OF len nz] nzb c s by simp
qed

lemma compact_flags:
  assumes len: "length a = WIDTH" and nz: "av a \<noteq> 0" and c: "GetCompact a = Some c"
  shows "SetCompact_flags c = (False, False)"
proof -
  let ?s = "compact_size a"
  have s: "?s < 34" "?s < 256"
    using base_bits_bound(2) [OF nz] len by (simp_all add: compact_size_def WIDTH_def)
  have cv: "c = word_of_nat (mantissa (av a) ?s + ?s * 2 ^ 24)"
    using GetCompact_value(1) [OF len nz] c by simp
  note parts = SetCompact_parts [OF GetCompact_value(2) [OF len nz] s(2), folded cv]
  have "\<not> 0xffff < c AND 0x007fffff" if "32 < ?s"
  proof -
    have "base_bits a = 256"
      using that base_bits_bound(2) [OF nz] len by (simp add: compact_size_def WIDTH_def)
    then have "mantissa (av a) ?s < 2 ^ 16"
      using mantissa_bounds(2) [OF base_bits_bound(3,4,1) [OF nz], of ?s] by (simp add: compact_size_def)
    then show ?thesis
      using parts(2) by (simp add: word_less_nat_alt)
  qed
  then show ?thesis
    using parts(1,3) s by (auto simp: SetCompact_flags_def Let_def)
qed

lemma compact_precision:
  assumes "av a \<noteq> 0"
  shows "compact_cut a = 0 \<or> 2 ^ (compact_cut a + 15) \<le> av a"
proof -
  have "compact_cut a = 0 \<or> compact_cut a + 15 \<le> base_bits a - 1"
    using base_bits_bound(1) [OF assms] by (auto simp: compact_cut_def compact_size_def)
  then show ?thesis
  proof
    assume "compact_cut a + 15 \<le> base_bits a - 1"
    then have "(2 :: nat) ^ (compact_cut a + 15) \<le> 2 ^ (base_bits a - 1)"
      by (intro power_increasing) simp_all
    then show ?thesis
      using base_bits_bound(3) [OF assms] by linarith
  qed simp
qed

lemma compact_spec:
  assumes "length a = WIDTH"
  obtains c k where "GetCompact a = Some c" "SetCompact_flags c = (False, False)"
    "unat (SetCompact c) = av a div 2 ^ k * 2 ^ k" "k = 0 \<or> 2 ^ (k + 15) \<le> av a"
    "GetCompact (UintToArith256 (SetCompact c)) = Some c"
proof (cases "av a = 0")
  case True
  then have "GetCompact (UintToArith256 0) = Some 0"
    by (intro GetCompact_zero) (simp_all add: UintToArith256_value)
  then show ?thesis
    using True assms that [of 0 0] by (simp add: GetCompact_zero SetCompact_def SetCompact_flags_def)
next
  case False
  then obtain c where c: "GetCompact a = Some c"
    using GetCompact_value(1) [OF assms False] by blast
  then show ?thesis
    using compact_flags [OF assms False c] compact_precision [OF False] compact_decode [OF assms False c]
      compact_again [OF assms False c] that by blast
qed

text \<open>C25. The compact encoding of targets. Every 256-bit number has one (the assertions of \<open>GetCompact\<close> hold), decoding it
  raises neither flag and gives the number rounded down to a multiple of a power of 2, of which at least 15 bits
  are kept; small numbers are kept exactly; encoding the decoded number gives the same encoding.\<close>

theorem compact_roundtrip:
  assumes "length a = WIDTH"
  shows "\<exists>c k. GetCompact a = Some c \<and> SetCompact_flags c = (False, False) \<and>
     unat (SetCompact c) = av a div 2 ^ k * 2 ^ k \<and> (k = 0 \<or> 2 ^ (k + 15) \<le> av a) \<and>
     GetCompact (UintToArith256 (SetCompact c)) = Some c"
  using compact_spec [OF assms] by metis

theorem compact_roundtrip_witness:
  "GetCompact [0x3456789A, 0x12, 0, 0, 0, 0, 0, 0] = Some 0x05123456 \<and> SetCompact 0x05123456 = 0x1234560000 \<and>
   GetCompact (UintToArith256 0x1234560000) = Some 0x05123456"
proof -
  let ?a = "[0x3456789A, 0x12, 0, 0, 0, 0, 0, 0] :: limbs"
  have c: "GetCompact ?a = Some 0x05123456" and d: "SetCompact 0x05123456 = 0x1234560000"
    by code_simp+
  have "GetCompact (UintToArith256 (SetCompact 0x05123456)) = Some 0x05123456"
    using compact_roundtrip [of ?a] c by (auto simp: WIDTH_def)
  then show ?thesis
    using c d by simp
qed

end
