(* ===== verification/Hush_Chain.thy ===== *)
theory Hush_Chain
  imports Hush_Coinbase Hush_Arith
begin

text \<open>
  How the notarisation state protects the chain (\<open>hush_bitcoind.h\<close> and the fork checks of \<open>main.cpp\<close>): the checkpoint
  test on headers, the checks of proof of work, commission and notary pay on a block, and which notary mined
  a block. Loading a block from disk, the script solver, the Equihash verifier and the network's longest chain
  are parameters.
\<close>

section \<open>Checkpoints\<close>

text \<open>The value returned and \<open>*notarized_heightp\<close>, which is not written when there is no tip.\<close>

definition hush_checkpoint ::
    "hush_params \<Rightarrow> chain_view \<Rightarrow> int \<Rightarrow> uint256 \<Rightarrow> hush_world \<Rightarrow> (int \<times> int option) \<times> hush_world" where
  "hush_checkpoint G ch nHeight hash w =
     (case chain_LastTip ch of
        None \<Rightarrow> ((-1, None), w)
      | Some pindex \<Rightarrow>
          let ((notarized_height, notarized_hash, _), w) = hush_notarizeddata G (bi_height pindex) w
          in if notarized_height \<ge> 0 \<and> notarized_height \<le> bi_height pindex
             then (case map_of (mapBlockIndex ch) notarized_hash of
                     None \<Rightarrow> ((0, Some notarized_height), w)
                   | Some notary \<Rightarrow>
                       if bi_height notary = notarized_height
                       then if nHeight < notarized_height then ((-1, Some notarized_height), w)
                            else if nHeight = notarized_height \<and> hash \<noteq> notarized_hash then ((-1, Some notarized_height), w)
                            else ((0, Some notarized_height), w)
                       else ((0, Some notarized_height), w))
             else ((0, Some notarized_height), w))"

text \<open>
  The fork checks at the end of \<open>ContextualCheckBlockHeader\<close>, with checkpoints enabled: return true, an error, or go on. The
  compiled-in checkpoints are the two parameters.
\<close>

datatype header_verdict = Header_true | Header_error | Header_continue

definition header_fork_check ::
    "hush_params \<Rightarrow> chain_view \<Rightarrow> (int \<Rightarrow> uint256 \<Rightarrow> bool) \<Rightarrow> block_index option \<Rightarrow> int \<Rightarrow> uint256 \<Rightarrow> hush_world
      \<Rightarrow> header_verdict \<times> hush_world" where
  "header_fork_check G ch CheckBlock pcheckpoint nHeight hash w =
     (let same = (case chain_at ch nHeight of Some heightblock \<Rightarrow> bi_hash heightblock = hash | None \<Rightarrow> False) in
      if \<not> CheckBlock nHeight hash then (Header_error, w)
      else if nHeight = 1 \<and> (case chain_LastTip ch of Some tip \<Rightarrow> bi_height tip > 1 | None \<Rightarrow> False)
      then (if same then Header_true else Header_error, w)
      else if nHeight \<noteq> 0
      then
        if (case pcheckpoint of Some cp \<Rightarrow> nHeight < bi_height cp | None \<Rightarrow> False) then (Header_error, w)
        else
          let ((r, _), w) = hush_checkpoint G ch nHeight hash w
          in if r < 0 then (if same then Header_true else Header_error, w) else (Header_continue, w)
      else (Header_continue, w))"

section \<open>Who mined a block\<close>

definition hush_block2pubkey33 ::
    "(buffer \<Rightarrow> buffer option) \<Rightarrow> (buffer \<Rightarrow> bool) \<Rightarrow> bool \<Rightarrow> block_tx list \<Rightarrow> int \<times> pubkey33" where
  "hush_block2pubkey33 Solver IsValid HUSH_LOADINGBLOCKS vtx =
     (case tx_vout (vtx ! 0) of
        [] \<Rightarrow> (0, replicate 33 (if HUSH_LOADINGBLOCKS then 0 else 0xff))
      | v # _ \<Rightarrow>
          (case Solver (to_scriptPubKey v) of
             Some vch \<Rightarrow> if IsValid vch then (1, take 33 vch) else (0, replicate 33 0)
           | None \<Rightarrow> (0, replicate 33 0)))"

text \<open>
  The notary index of the miner of each of the 66 blocks from \<open>height\<close> down; -1 for no notary, no block or a block that cannot be loaded.
\<close>

definition miner_id ::
    "(block_index \<Rightarrow> block_tx list option) \<Rightarrow> (block_tx list \<Rightarrow> pubkey33) \<Rightarrow> pubkey33 list \<Rightarrow> block_index option \<Rightarrow> int" where
  "miner_id blockload pubkey notarypubs33 pindex =
     (case pindex of
        None \<Rightarrow> -1
      | Some p \<Rightarrow> (case blockload p of None \<Rightarrow> -1 | Some vtx \<Rightarrow> find_index (\<lambda>k. k = pubkey vtx) notarypubs33 0))"

text \<open>The value returned, \<open>mids\<close> and \<open>*nonzpkeysp\<close>.\<close>

definition hush_eligiblenotary ::
    "hush_params \<Rightarrow> chain_view \<Rightarrow> (block_index \<Rightarrow> block_tx list option) \<Rightarrow> (block_tx list \<Rightarrow> pubkey33) \<Rightarrow> int \<Rightarrow> int
      \<Rightarrow> int \<times> int list \<times> int" where
  "hush_eligiblenotary G ch blockload pubkey nonzpkeys height =
     (let notarypubs33 = (case hush_notaries G ch height 0 of Some ks \<Rightarrow> ks | None \<Rightarrow> []);
          mids = map (\<lambda>i. miner_id blockload pubkey notarypubs33 (hush_chainactive ch (height - int i))) [0..<66];
          nonzpkeys = nonzpkeys + int (length (filter (\<lambda>k. k \<ge> 0) mids));
          duplicate = length (filter (\<lambda>i. mids ! 0 \<ge> 0 \<and> hush_chainactive ch (height - int i) \<noteq> None \<and> mids ! i = mids ! 0) [1..<66])
      in (if duplicate = 0 \<and> (height > 186233 \<or> nonzpkeys > 0) then 1 else 0, mids, nonzpkeys))"

text \<open>The miners of the \<open>width\<close> blocks up to \<open>height\<close>, the number of notaries standing for any other miner; nothing when the notaries are not known.\<close>

fun minerids_loop ::
    "chain_view \<Rightarrow> (block_index \<Rightarrow> block_tx list option) \<Rightarrow> (block_tx list \<Rightarrow> pubkey33) \<Rightarrow> pubkey33 list \<Rightarrow> int \<Rightarrow> int \<Rightarrow> nat list
      \<Rightarrow> byte list" where
  "minerids_loop ch blockload pubkey notarypubs33 height width [] = []"
| "minerids_loop ch blockload pubkey notarypubs33 height width (i # is) =
     (if height - int i \<le> 0 then minerids_loop ch blockload pubkey notarypubs33 height width is
      else
        (case hush_chainactive ch (height - width + int i + 1) of
           None \<Rightarrow> []
         | Some pindex \<Rightarrow>
             (case blockload pindex of
                None \<Rightarrow> []
              | Some vtx \<Rightarrow>
                  let j = find_index (\<lambda>k. k = pubkey vtx) notarypubs33 0
                  in [word_of_int (if j < 0 then int (length notarypubs33) else j)])) @
        minerids_loop ch blockload pubkey notarypubs33 height width is)"

definition hush_minerids ::
    "hush_params \<Rightarrow> chain_view \<Rightarrow> (block_index \<Rightarrow> block_tx list option) \<Rightarrow> (block_tx list \<Rightarrow> pubkey33) \<Rightarrow> int \<Rightarrow> int \<Rightarrow> byte list" where
  "hush_minerids G ch blockload pubkey height width =
     (case hush_notaries G ch height 0 of
        None \<Rightarrow> []
      | Some notarypubs33 \<Rightarrow> minerids_loop ch blockload pubkey notarypubs33 height width [0..<nat width])"

definition hush_nextheight :: "chain_view \<Rightarrow> int \<Rightarrow> int" where
  "hush_nextheight ch longestchain =
     (case chain_LastTip ch of
        Some pindex \<Rightarrow> if bi_height pindex > 0 then bi_height pindex + 1 else longestchain + 1
      | None \<Rightarrow> longestchain + 1)"

text \<open>The value returned and \<open>*hushheightp\<close>.\<close>

definition hush_isrealtime :: "chain_view \<Rightarrow> int \<Rightarrow> hush_world \<Rightarrow> int \<times> int" where
  "hush_isrealtime ch longestchain w =
     (case chain_LastTip ch of Some pindex \<Rightarrow> if bi_height pindex \<ge> longestchain then 1 else 0 | None \<Rightarrow> 0,
      CURRENT_HEIGHT (st_get w (hush_stateptrget ''HUSH3'')))"

section \<open>Block checks\<close>








section \<open>A notarisation becomes a checkpoint\<close>

lemma eventadd_points: "states_ok w \<Longrightarrow> sp < 34 \<Longrightarrow> NPOINTS (st_get (hush_eventadd G sp h s ty d w) sp) = NPOINTS (st_get w sp)"
  by (simp add: hush_eventadd_def Let_def states_ok_def st_get_def st_upd_def)

lemma st_get_file: "st_get (w\<lparr>hushstate_file := x\<rparr>) sp = st_get w sp"
  by (simp add: st_get_def)

text \<open>The last record of a call without other arguments.\<close>

lemma stateupdate_notarizes:
  assumes G: "plain_chain G" and ok: "states_ok w" "state_fp w" and h: "0 < h" "NOTARIZED_HEIGHT (st_get w (hush_stateptr G)) < h"
  defines "st \<equiv> st_get w (hush_stateptr G)"
  shows "NPOINTS (st_get (hush_stateupdate E G (su_none h) w) (hush_stateptr G)) =
     NPOINTS st @ [checkpoint_of h (NOTARIZED_HEIGHT st) (NOTARIZED_HASH st) (NOTARIZED_DESTTXID st) (MoM st) (MoMdepth st)]"
proof -
  let ?sp = "hush_stateptr G"
  let ?ev = "hush_eventadd G ?sp h (chain_symbol G) HUSH_EVENT_NOTARIZED
     (notarized_bytes (NOTARIZED_HASH st) (NOTARIZED_DESTTXID st) (MoM st) (NOTARIZED_HEIGHT st) (MoMdepth st) (chain_dest G)) w"
  have sym: "chain_symbol G = SMART_CHAIN_SYMBOL G" "SMART_CHAIN_SYMBOL G \<noteq> []" "IS_HUSH_NOTARY G = 0"
    using G by (simp_all add: plain_chain_def chain_symbol_def hush_nameset_def)
  have "snd (stateupdate_write E G (su_none h) w) =
      st_upd ?sp (hush_notarized_update h (NOTARIZED_HEIGHT st) (NOTARIZED_HASH st) (NOTARIZED_DESTTXID st) (MoM st) (MoMdepth st)) ?ev"
    using h sym by (simp add: stateupdate_write_def su_none_def hush_eventadd_notarized_def st_def Let_def)
  then have "st_get (hush_stateupdate E G (su_none h) w) ?sp =
      hush_notarized_update h (NOTARIZED_HEIGHT st) (NOTARIZED_HASH st) (NOTARIZED_DESTTXID st) (MoM st) (MoMdepth st) (st_get ?ev ?sp)"
    using ok by (simp add: hush_stateupdate_def stateupdate_open_def case_prod_unfold Let_def st_get_file)
  then show ?thesis using h ok by (simp add: hush_notarized_update_def eventadd_points st_def)
qed

lemma notarization_new:
  assumes G: "plain_chain G" and ok: "states_ok w" "state_fp w"
    and w': "w' = snd (snd (vout_notarization E G ch c m ol oo mt h nz sm x w))"
    and new: "notarized_ht G w' \<noteq> notarized_ht G w"
  obtains u q where "w' = hush_stateupdate E G (su_none h)
      (st_upd (hush_stateptr G) (set_notarized (rd_i32 (bslice m (oo + 32) 4)) (le_word (bslice m oo 32)) (le_word (bslice m (oo + 36) 32)) q) u)"
    and "HUSH_STATES u = HUSH_STATES w" and "state_fp u"
proof -
  define nh where "nh = rd_i32 (bslice m (oo + 32) 4)"
  define src :: uint256 where "src = le_word (bslice m oo 32)"
  define v where "v = (if mt then hush_validate_chain G ch src nh w else (1, w))"
  have v: "HUSH_STATES (snd v) = HUSH_STATES w" "state_fp (snd v) = state_fp w"
    by (simp_all add: v_def validate_chain_frame)
  then have vw: "notarized_ht G (snd v) = notarized_ht G w" by (simp add: notarized_ht_def st_get_def)
  define u where "u = read_fault (vout_read_end G (cstr_at m (oo + (if mt then 68 else 36))) m
      (oo + (if mt then 68 else 36) + length (cstr_at m (oo + (if mt then 68 else 36))) + 1) oo ol) (snd v)"
  have u: "HUSH_STATES u = HUSH_STATES w" "state_fp u" "notarized_ht G u = notarized_ht G w" using v ok vw by (simp_all add: u_def)
  have "w' = snd v \<or> w' = u \<or> (\<exists>q. w' = hush_stateupdate E G (su_none h)
      (st_upd (hush_stateptr G) (set_notarized nh src (le_word (bslice m (oo + 36) 32)) q) u))"
    unfolding w' vout_notarization_def Let_def nh_def [symmetric] src_def [symmetric] v_def [symmetric] case_prod_unfold
      u_def [symmetric] by auto
  then show ?thesis using new vw u that unfolding nh_def src_def by metis
qed

lemma voutupdate_checkpoint:
  assumes G: "plain_chain G" and ok: "states_ok w" "state_fp w"
    and run: "hush_voutupdate E G ch c m n h tx i j val nz sm t x w = (nid, x', w')"
    and new: "notarized_ht G w' \<noteq> notarized_ht G w" and pos: "vout_opretlen m = (ol, off)" and h: "0 < h" "notarized_ht G w' < h"
  shows "\<exists>dest mom depth. NPOINTS (st_get w' (hush_stateptr G)) =
     NPOINTS (st_get w (hush_stateptr G)) @ [checkpoint_of h (notarized_ht G w') (le_word (bslice m off 32)) dest mom depth]"
proof -
  let ?sp = "hush_stateptr G"
  from voutupdate_notarization [OF G ok run new pos] obtain y v where
    v: "HUSH_STATES v = HUSH_STATES w" "states_ok v" "state_fp v" "notarized_ht G v = notarized_ht G w" and
    w': "w' = snd (snd (vout_notarization E G ch c m ol off
      (SMART_CHAIN_SYMBOL G \<noteq> [] \<and> cstr_is m (off + 68) (SMART_CHAIN_SYMBOL G)) h nz sm y v))" .
  have "notarized_ht G w' \<noteq> notarized_ht G v" using new v(4) by simp
  from notarization_new [OF G v(2,3) w' this] obtain u q where
    w'': "w' = hush_stateupdate E G (su_none h)
      (st_upd ?sp (set_notarized (rd_i32 (bslice m (off + 32) 4)) (le_word (bslice m off 32)) (le_word (bslice m (off + 36) 32)) q) u)"
    and u: "HUSH_STATES u = HUSH_STATES v" "state_fp u" by blast
  let ?w = "st_upd ?sp (set_notarized (rd_i32 (bslice m (off + 32) 4)) (le_word (bslice m off 32)) (le_word (bslice m (off + 36) 32)) q) u"
  have uo: "states_ok u" "st_get u ?sp = st_get w ?sp" using u v by (simp_all add: states_ok_def st_get_def)
  then have nh: "notarized_ht G w' = rd_i32 (bslice m (off + 32) 4)" unfolding w'' using G u(2) by (intro notarized_ht_stored)
  have "NPOINTS (st_get ?w ?sp) = NPOINTS (st_get w ?sp)" "NOTARIZED_HEIGHT (st_get ?w ?sp) = notarized_ht G w'"
    "NOTARIZED_HASH (st_get ?w ?sp) = le_word (bslice m off 32)"
    using uo nh by (simp_all add: set_notarized_def Let_def split: option.split)
  then show ?thesis
    using stateupdate_notarizes [OF G, of ?w h E] uo(1) u(2) h unfolding w'' [symmetric] by auto
qed


text \<open>What the checkpoint test answers once the newest checkpoint is buried and its block is known at the notarised height.\<close>

lemma checkpoint_verdict:
  assumes pts: "NPOINTS (st_get w (hush_stateptr G)) = pts @ [p]" and srt: "sorted (map np_nHeight (pts @ [p]))"
    and tip: "chain_LastTip ch = Some tip" "np_nHeight p < bi_height tip"
    and nh: "0 \<le> np_notarized_height p" "np_notarized_height p < np_nHeight p"
    and b: "map_of (mapBlockIndex ch) (np_notarized_hash p) = Some b" "bi_height b = np_notarized_height p"
  shows "fst (hush_checkpoint G ch k hash w) =
     (if k < np_notarized_height p \<or> k = np_notarized_height p \<and> hash \<noteq> np_notarized_hash p then -1 else 0, Some (np_notarized_height p))"
proof -
  have "fst (hush_notarizeddata G (bi_height tip) w) = (np_notarized_height p, np_notarized_hash p, np_notarized_desttxid p)"
    using hush_notarizeddata_sorted [of w G "bi_height tip"] srt unfolding pts by (simp add: notarized_at_append tip(2))
  then obtain v where "hush_notarizeddata G (bi_height tip) w = ((np_notarized_height p, np_notarized_hash p, np_notarized_desttxid p), v)"
    by (metis prod.collapse)
  then show ?thesis using tip nh b by (simp add: hush_checkpoint_def)
qed

lemma find_index_same:
  assumes "a \<in> set xs"
  shows "0 \<le> find_index (\<lambda>k. k = a) xs 0" and "find_index (\<lambda>k. k = b) xs 0 = find_index (\<lambda>k. k = a) xs 0 \<longleftrightarrow> b = a"
proof -
  have ge: "0 \<le> find_index (\<lambda>k. k = a) xs 0"
    using find_index_none [of 0 "\<lambda>k. k = a" xs] find_index_ge [of 0 "\<lambda>k. k = a" xs] assms by fastforce
  then show "0 \<le> find_index (\<lambda>k. k = a) xs 0" .
  have "b = a" if eq: "find_index (\<lambda>k. k = b) xs 0 = find_index (\<lambda>k. k = a) xs 0"
  proof -
    obtain i where i: "xs ! i = a" "find_index (\<lambda>k. k = a) xs 0 = 0 + int i" by (rule find_index_hit [OF order.refl ge])
    have "0 \<le> find_index (\<lambda>k. k = b) xs 0" using eq ge by simp
    then obtain j where "xs ! j = b" "find_index (\<lambda>k. k = b) xs 0 = 0 + int j" by (rule find_index_hit [OF order.refl])
    then show ?thesis using i eq by simp
  qed
  then show "find_index (\<lambda>k. k = b) xs 0 = find_index (\<lambda>k. k = a) xs 0 \<longleftrightarrow> b = a" by auto
qed

section \<open>Properties\<close>

text \<open>C4 dPoW finality: once an output has notarised a block and the block that carries it is below the tip,
  the checkpoint test refuses exactly the headers below the notarised height and those at it with another hash, for as long
  as that block is known at that height; and the header check rejects every such header that is not already in the active chain. The
  checkpoints recorded before have to be in order, none above the connecting block.\<close>
theorem dpow_finality:
  assumes G: "plain_chain G" and ok: "states_ok w" "state_fp w" and w0: "0 \<le> notarized_ht G w"
    and srt: "sorted (map np_nHeight (NPOINTS (st_get w (hush_stateptr G))))" "\<forall>p\<in>set (NPOINTS (st_get w (hush_stateptr G))). np_nHeight p \<le> h"
    and run: "hush_voutupdate E G ch c m n h tx i j val nz sm t x w = (nid, x', w')"
    and new: "notarized_ht G w' \<noteq> notarized_ht G w" and pos: "vout_opretlen m = (ol, off)" and src: "src = le_word (bslice m off 32)"
    and tip: "chain_LastTip ch' = Some tip" "h < bi_height tip"
    and b: "hush_getblockindex ch' src = Some b" "bi_height b = notarized_ht G w'"
  shows "fst (fst (hush_checkpoint G ch' k hash w')) =
       (if k < notarized_ht G w' \<or> k = notarized_ht G w' \<and> hash \<noteq> src then -1 else 0) \<and>
     (0 < k \<and> (k < notarized_ht G w' \<or> k = notarized_ht G w' \<and> hash \<noteq> src) \<and> map_option bi_hash (chain_at ch' k) \<noteq> Some hash \<longrightarrow>
       fst (header_fork_check G ch' CheckBlock cp k hash w') = Header_error)"
proof -
  from voutupdate_notarization [OF G ok run new pos] obtain y v where
    v: "states_ok v" "state_fp v" "notarized_ht G v = notarized_ht G w" and
    w': "w' = snd (snd (vout_notarization E G ch c m ol off
      (SMART_CHAIN_SYMBOL G \<noteq> [] \<and> cstr_is m (off + 68) (SMART_CHAIN_SYMBOL G)) h nz sm y v))" .
  have h: "notarized_ht G w < notarized_ht G w'" "notarized_ht G w' < h"
    using vout_notarization_accepts [OF G v(1,2) w'] new v(3) by simp_all
  have "0 < h" using h w0 by simp
  from voutupdate_checkpoint [OF G ok run new pos this h(2)] obtain dest mom depth where
    pts: "NPOINTS (st_get w' (hush_stateptr G)) =
      NPOINTS (st_get w (hush_stateptr G)) @ [checkpoint_of h (notarized_ht G w') src dest mom depth]"
    unfolding src by blast
  have v: "fst (hush_checkpoint G ch' k hash w') =
      (if k < notarized_ht G w' \<or> k = notarized_ht G w' \<and> hash \<noteq> src then -1 else 0, Some (notarized_ht G w'))"
    using checkpoint_verdict [OF pts _ tip(1), where b = b and k = k and hash = hash] srt tip(2) h w0 b
    by (simp add: checkpoint_of_def sorted_append hush_getblockindex_def)
  then obtain u where u: "hush_checkpoint G ch' k hash w' =
      ((if k < notarized_ht G w' \<or> k = notarized_ht G w' \<and> hash \<noteq> src then -1 else 0, Some (notarized_ht G w')), u)"
    by (metis prod.collapse)
  have "fst (header_fork_check G ch' CheckBlock cp k hash w') = Header_error"
    if k: "0 < k" "k < notarized_ht G w' \<or> k = notarized_ht G w' \<and> hash \<noteq> src" "map_option bi_hash (chain_at ch' k) \<noteq> Some hash"
  proof -
    have "(case chain_at ch' k of Some heightblock \<Rightarrow> bi_hash heightblock = hash | None \<Rightarrow> False) = False"
      using k(3) by (auto split: option.split)
    then show ?thesis unfolding header_fork_check_def Let_def u if_P [OF k(2)] using k(1) by (auto split: if_splits)
  qed
  then show ?thesis using v by simp
qed

text \<open>The notarising output of \<open>notarization_example\<close> is in block 8; the chain has grown to block 9.\<close>

definition final_chain :: chain_view where
  "final_chain = \<lparr>mapBlockIndex = [(1, \<lparr>bi_hash = 1, bi_height = 5, bi_nTime = 9, bi_hashMerkleRoot = 0\<rparr>)],
     chainActive = map (\<lambda>k. \<lparr>bi_hash = word_of_nat (100 + k), bi_height = int k, bi_nTime = 9, bi_hashMerkleRoot = 0\<rparr>) [0..<10],
     IsInitialBlockDownload = False\<rparr>"

theorem dpow_finality_witness:
  "\<forall>E. \<exists>x' w'. hush_voutupdate E hsc_params notarization_chain False (bmem_of notarization_script (\<lambda>_. 0)) 76 8 3 1 1 0 1 0 0
       vout_ctx0 notarization_world = (-1, x', w') \<and>
     fst (header_fork_check hsc_params final_chain (\<lambda>_ _. True) None 3 77 w') = Header_error \<and>
     fst (fst (hush_checkpoint hsc_params final_chain 6 77 w')) = 0"
proof
  fix E
  let ?m = "bmem_of notarization_script (\<lambda>_. 0)" and ?w = notarization_world
  obtain x' w' where run: "hush_voutupdate E hsc_params notarization_chain False ?m 76 8 3 1 1 0 1 0 0 vout_ctx0 ?w = (-1, x', w')"
    and nh: "notarized_ht hsc_params w' = 5" using notarization_example by blast
  have G: "plain_chain hsc_params" by code_simp
  have ok: "states_ok ?w" "state_fp ?w" by (simp_all add: notarization_world_def states_ok_def hush_world0_def)
  have st: "st_get ?w (hush_stateptr hsc_params) = hush_state0" by (simp add: notarization_world_def st_get_def hush_world0_def)
  then have w0: "notarized_ht hsc_params ?w = 0" "NPOINTS (st_get ?w (hush_stateptr hsc_params)) = []"
    by (simp_all add: notarized_ht_def hush_state0_def)
  have len: "length notarization_script = 76" by (simp add: notarization_script_def)
  have sl: "bslice ?m 2 32 = le_bytes 32 (1 :: uint256)" by (simp add: bslice_bmem_of len) (simp add: notarization_script_def)
  have pos: "vout_opretlen ?m = (74, 2)" by (simp add: vout_opretlen_def notarization_script_def bmem_of_def)
  have ch: "chain_LastTip final_chain = Some \<lparr>bi_hash = 109, bi_height = 9, bi_nTime = 9, bi_hashMerkleRoot = 0\<rparr>"
    "hush_getblockindex final_chain 1 = Some \<lparr>bi_hash = 1, bi_height = 5, bi_nTime = 9, bi_hashMerkleRoot = 0\<rparr>"
    "map_option bi_hash (chain_at final_chain 3) \<noteq> Some 77"
    by code_simp+
  have "fst (fst (hush_checkpoint hsc_params final_chain k 77 w')) = (if k < 5 \<or> k = 5 \<and> 77 \<noteq> (1 :: uint256) then -1 else 0) \<and>
     (0 < k \<and> (k < 5 \<or> k = 5 \<and> 77 \<noteq> (1 :: uint256)) \<and> map_option bi_hash (chain_at final_chain k) \<noteq> Some 77 \<longrightarrow>
       fst (header_fork_check hsc_params final_chain (\<lambda>_ _. True) None k 77 w') = Header_error)" for k
    using dpow_finality [OF G ok _ _ _ run _ pos _ ch(1) _ ch(2), where k = k and hash = 77 and CheckBlock = "\<lambda>_ _. True" and cp = None]
      nh w0 sl by simp
  from this [of 3] this [of 6] show "\<exists>x' w'. hush_voutupdate E hsc_params notarization_chain False ?m 76 8 3 1 1 0 1 0 0 vout_ctx0 ?w = (-1, x', w') \<and>
     fst (header_fork_check hsc_params final_chain (\<lambda>_ _. True) None 3 77 w') = Header_error \<and>
     fst (fst (hush_checkpoint hsc_params final_chain 6 77 w')) = 0" using run ch(3) by auto
qed




text \<open>Mining eligibility: at a height where all 66 blocks can be loaded, the test succeeds above block 186233 if and only if the notary that
  mined the block, when a notary did, mined none of the 65 blocks before it.\<close>
theorem eligible_notary:
  assumes "186233 < height" and "hush_notaries G ch height 0 = Some ks"
    and "\<And>i. i < 66 \<Longrightarrow> hush_chainactive ch (height - int i) = Some (p i) \<and> blockload (p i) = Some (vtx i)"
  shows "fst (hush_eligiblenotary G ch blockload pubkey nonz height) = 1 \<longleftrightarrow>
     pubkey (vtx 0) \<notin> set ks \<or> (\<forall>i\<in>{1..<66}. pubkey (vtx i) \<noteq> pubkey (vtx 0))"
proof -
  let ?id = "\<lambda>i. find_index (\<lambda>k. k = pubkey (vtx i)) ks 0"
  have mids: "map (\<lambda>i. miner_id blockload pubkey ks (hush_chainactive ch (height - int i))) [0..<66] = map ?id [0..<66]"
    using assms(3) by (auto simp: miner_id_def)
  have same: "?id i = ?id 0 \<longleftrightarrow> pubkey (vtx i) = pubkey (vtx 0)" "0 \<le> ?id 0" if "pubkey (vtx 0) \<in> set ks" for i
    using find_index_same [OF that] by simp_all
  have none: "\<not> 0 \<le> ?id 0" if "pubkey (vtx 0) \<notin> set ks"
    using that find_index_none [of 0 "\<lambda>k. k = pubkey (vtx 0)" ks] by auto
  have nth: "map ?id [0..<66] ! i = ?id i" if "i < 66" for i using that by simp
  have "(length (filter (\<lambda>i. map ?id [0..<66] ! 0 \<ge> 0 \<and> hush_chainactive ch (height - int i) \<noteq> None \<and>
        map ?id [0..<66] ! i = map ?id [0..<66] ! 0) [1..<66]) = 0) =
      (\<forall>i\<in>{1..<66}. \<not> (0 \<le> ?id 0 \<and> ?id i = ?id 0))"
    unfolding length_0_conv filter_empty_conv set_upt using nth assms(3) by (intro ball_cong refl) auto
  then show ?thesis
    unfolding hush_eligiblenotary_def assms(2) option.case Let_def mids using assms(1) same none by auto
qed


text \<open>Notary 0 mined the tip; whether it mined another of the last 66 blocks decides.\<close>

definition mined_chain :: chain_view where
  "mined_chain = \<lparr>mapBlockIndex = [], chainActive = map (\<lambda>k. \<lparr>bi_hash = word_of_nat k, bi_height = int k, bi_nTime = 9, bi_hashMerkleRoot = 0\<rparr>) [0..<400001],
     IsInitialBlockDownload = False\<rparr>"

lemma mined_chain_at: "0 \<le> h \<Longrightarrow> h \<le> 400000 \<Longrightarrow> hush_chainactive mined_chain h =
    Some \<lparr>bi_hash = word_of_nat (nat h), bi_height = h, bi_nTime = 9, bi_hashMerkleRoot = 0\<rparr>"
  unfolding hush_chainactive_def chain_LastTip_def chain_at_def mined_chain_def by (simp add: last_map nat_less_iff)

definition mined_pubkey :: "int \<Rightarrow> block_tx list \<Rightarrow> pubkey33" where
  "mined_pubkey again vtx =
     (if vtx = [] then hush_pubkeys 7 ! 0 else if int (length vtx) = again then hush_pubkeys 7 ! 0 else replicate 33 0)"

definition mined_load :: "block_index \<Rightarrow> block_tx list option" where
  "mined_load p = Some (replicate (nat (400000 - bi_height p)) \<lparr>tx_hash = 0, tx_vin = [], tx_vout = []\<rparr>)"

theorem eligible_notary_witness:
  "fst (hush_eligiblenotary hush3_params mined_chain mined_load (mined_pubkey 70) 0 400000) = 1 \<and>
   fst (hush_eligiblenotary hush3_params mined_chain mined_load (mined_pubkey 65) 0 400000) \<noteq> 1"
proof -
  have ks: "hush_notaries hush3_params mined_chain 400000 0 = Some (hush_pubkeys 7)"
    by (rule hush_notaries_late) (simp_all add: hush3_params_def)
  have l: "length (hush_pubkeys 7) = 64" using hush_pubkeys_shape [of 7] by simp
  have "hush_pubkeys 7 ! 0 = decode_key (snd (notaries_season6 ! 0))" by (simp add: hush_pubkeys_late notaries_season6_def)
  also have "\<dots> ! 0 \<noteq> 0" unfolding notaries_season6_def by (simp, code_simp)
  finally have ne: "hush_pubkeys 7 ! 0 \<noteq> replicate 33 0" by auto
  let ?vtx = "\<lambda>i. replicate i \<lparr>tx_hash = 0 :: uint256, tx_vin = [], tx_vout = []\<rparr>"
  have load: "hush_chainactive mined_chain (400000 - int i) =
        Some \<lparr>bi_hash = word_of_nat (nat (400000 - int i)), bi_height = 400000 - int i, bi_nTime = 9, bi_hashMerkleRoot = 0\<rparr> \<and>
      mined_load \<lparr>bi_hash = word_of_nat (nat (400000 - int i)), bi_height = 400000 - int i, bi_nTime = 9, bi_hashMerkleRoot = 0\<rparr> = Some (?vtx i)"
    if "i < 66" for i
    using that by (simp add: mined_chain_at mined_load_def)
  have e: "fst (hush_eligiblenotary hush3_params mined_chain mined_load (mined_pubkey again) 0 400000) = 1 \<longleftrightarrow>
      mined_pubkey again (?vtx 0) \<notin> set (hush_pubkeys 7) \<or> (\<forall>i\<in>{1..<66}. mined_pubkey again (?vtx i) \<noteq> mined_pubkey again (?vtx 0))" for again
    by (rule eligible_notary [OF _ ks load]) simp_all
  show ?thesis unfolding e using l ne by (auto simp: mined_pubkey_def intro!: bexI [of _ 65])
qed

end
