(* ===== verification/Hush_Merkle.thy ===== *)
theory Hush_Merkle
  imports Hush_Structs
begin

text \<open>
  Merkle trees: the flat tree of \<open>primitives/block.cpp\<close> with its branches, the checks of branches of
  \<open>primitives/block.cpp\<close> and \<open>cc/eval.cpp\<close>, concatenated branches (\<open>MerkleBranch\<close> of \<open>cc/eval.h\<close>) and the partial trees
  of \<open>merkleblock.cpp\<close>. The hash of two nodes, double SHA-256 of their 64 bytes, is the parameter \<open>Hash\<close>: no definition and no
  theorem depends on which function it is, and what a theorem needs of it (no second preimage of the nodes of one
  tree) is a hypothesis. Sizes and positions are natural numbers; trees have fewer than \<open>2\<^sup>3\<^sup>1\<close> leaves.
\<close>

type_synonym node_hash = "uint256 \<Rightarrow> uint256 \<Rightarrow> uint256"

section \<open>The flat tree\<close>

text \<open>One level: from position \<open>i\<close> of the \<open>nSize\<close> nodes at offset \<open>j\<close>, two by two, the parents are pushed at the end.\<close>

function merkle_row :: "node_hash \<Rightarrow> nat \<Rightarrow> nat \<Rightarrow> nat \<Rightarrow> uint256 list \<times> bool \<Rightarrow> uint256 list \<times> bool" where
  "merkle_row Hash nSize j i (vMerkleTree, mutated) =
     (if i < nSize
      then
        let i2 = min (i + 1) (nSize - 1);
            mutated = (mutated \<or> i2 = i + 1 \<and> i2 + 1 = nSize \<and> vMerkleTree ! (j + i) = vMerkleTree ! (j + i2))
        in merkle_row Hash nSize j (i + 2) (vMerkleTree @ [Hash (vMerkleTree ! (j + i)) (vMerkleTree ! (j + i2))], mutated)
      else (vMerkleTree, mutated))"
  by pat_completeness auto
termination by (relation "measure (\<lambda>(_, nSize, _, i, _). nSize - i)") auto

function merkle_rows :: "node_hash \<Rightarrow> nat \<Rightarrow> nat \<Rightarrow> uint256 list \<times> bool \<Rightarrow> uint256 list \<times> bool" where
  "merkle_rows Hash nSize j r =
     (if nSize > 1 then merkle_rows Hash ((nSize + 1) div 2) (j + nSize) (merkle_row Hash nSize j 0 r) else r)"
  by pat_completeness auto
termination by (relation "measure (\<lambda>(_, nSize, _). nSize)") auto

declare merkle_row.simps [simp del] merkle_rows.simps [simp del]

text \<open>The root, \<open>*fMutated\<close> and \<open>vMerkleTree\<close>.\<close>

definition BuildMerkleTree :: "node_hash \<Rightarrow> uint256 list \<Rightarrow> uint256 \<times> bool \<times> uint256 list" where
  "BuildMerkleTree Hash leaves =
     (let (vMerkleTree, mutated) = merkle_rows Hash (length leaves) 0 (leaves, False)
      in (if vMerkleTree = [] then 0 else last vMerkleTree, mutated, vMerkleTree))"

definition GetMerkleRoot :: "node_hash \<Rightarrow> uint256 list \<Rightarrow> uint256" where
  "GetMerkleRoot Hash vLeaves = fst (BuildMerkleTree Hash vLeaves)"

function merkle_branch :: "nat \<Rightarrow> nat \<Rightarrow> nat \<Rightarrow> uint256 list \<Rightarrow> uint256 list" where
  "merkle_branch nIndex nSize j vMerkleTree =
     (if nSize > 1
      then vMerkleTree ! (j + min (nIndex XOR 1) (nSize - 1)) #
           merkle_branch (nIndex div 2) ((nSize + 1) div 2) (j + nSize) vMerkleTree
      else [])"
  by pat_completeness auto
termination by (relation "measure (\<lambda>(_, nSize, _). nSize)") auto

declare merkle_branch.simps [simp del]

definition GetMerkleBranch :: "nat \<Rightarrow> nat \<Rightarrow> uint256 list \<Rightarrow> uint256 list" where
  "GetMerkleBranch nIndex nLeaves vMerkleTree = merkle_branch nIndex nLeaves 0 vMerkleTree"

section \<open>Checking a branch\<close>

fun check_branch :: "node_hash \<Rightarrow> uint256 \<Rightarrow> uint256 list \<Rightarrow> int \<Rightarrow> uint256" where
  "check_branch Hash hash [] nIndex = hash"
| "check_branch Hash hash (it # its) nIndex =
     check_branch Hash (if odd nIndex then Hash it hash else Hash hash it) its (nIndex div 2)"

definition CheckMerkleBranch :: "node_hash \<Rightarrow> uint256 \<Rightarrow> uint256 list \<Rightarrow> int \<Rightarrow> uint256" where
  "CheckMerkleBranch Hash hash vMerkleBranch nIndex = (if nIndex = -1 then 0 else check_branch Hash hash vMerkleBranch nIndex)"

text \<open>The check that refuses a node equal to its left sibling.\<close>

fun safe_check_branch :: "node_hash \<Rightarrow> uint256 \<Rightarrow> uint256 list \<Rightarrow> int \<Rightarrow> uint256" where
  "safe_check_branch Hash hash [] nIndex = hash"
| "safe_check_branch Hash hash (it # its) nIndex =
     (if odd nIndex \<and> it = hash then 0
      else safe_check_branch Hash (if odd nIndex then Hash it hash else Hash hash it) its (nIndex div 2))"

definition SafeCheckMerkleBranch :: "node_hash \<Rightarrow> uint256 \<Rightarrow> uint256 list \<Rightarrow> int \<Rightarrow> uint256" where
  "SafeCheckMerkleBranch Hash hash vMerkleBranch nIndex = (if nIndex = -1 then 0 else safe_check_branch Hash hash vMerkleBranch nIndex)"

record MerkleBranch =
  mb_nIndex :: int
  mb_branch :: "uint256 list"

definition MerkleBranch_Exec :: "node_hash \<Rightarrow> MerkleBranch \<Rightarrow> uint256 \<Rightarrow> uint256" where
  "MerkleBranch_Exec Hash b hash = SafeCheckMerkleBranch Hash hash (mb_branch b) (mb_nIndex b)"

text \<open>The operator \<open><<\<close>; a shift of 32 places or more is undefined.\<close>

definition MerkleBranch_append :: "MerkleBranch \<Rightarrow> MerkleBranch \<Rightarrow> MerkleBranch option" where
  "MerkleBranch_append b a =
     (if length (mb_branch b) < 32
      then Some \<lparr>mb_nIndex = wrap32 (mb_nIndex b + wrap32 (mb_nIndex a * 2 ^ length (mb_branch b))), mb_branch = mb_branch b @ mb_branch a\<rparr>
      else None)"

section \<open>Partial trees\<close>

record CPartialMerkleTree =
  nTransactions :: nat
  vBits :: "bool list"
  vHash :: "uint256 list"
  fBad :: bool

definition CalcTreeWidth :: "nat \<Rightarrow> nat \<Rightarrow> nat" where
  "CalcTreeWidth n height = (n + 2 ^ height - 1) div 2 ^ height"

lemma CalcTreeWidth_0 [simp]: "CalcTreeWidth n 0 = n"
  by (simp add: CalcTreeWidth_def)

lemma CalcTreeWidth_Suc: "CalcTreeWidth n (Suc h) = (CalcTreeWidth n h + 1) div 2"
proof -
  have "n + 2 ^ Suc h - 1 = (n + 2 ^ h - 1) + 2 ^ h" by simp
  then have "CalcTreeWidth n (Suc h) = ((n + 2 ^ h - 1) + 2 ^ h) div 2 ^ h div 2"
    by (simp only: CalcTreeWidth_def power_Suc2 div_mult2_eq)
  also have "((n + 2 ^ h - 1) + 2 ^ h) div 2 ^ h = CalcTreeWidth n h + 1" unfolding CalcTreeWidth_def by (rule div_add_self2) simp
  finally show ?thesis .
qed

text \<open>The loop that finds the height of the tree.\<close>

function tree_height :: "nat \<Rightarrow> nat \<Rightarrow> nat" where
  "tree_height n nHeight = (if CalcTreeWidth n nHeight > 1 then tree_height n (nHeight + 1) else nHeight)"
  by pat_completeness auto
termination by (relation "measure (\<lambda>(n, h). CalcTreeWidth n h)") (auto simp: CalcTreeWidth_Suc)

declare tree_height.simps [simp del]

fun CalcHash :: "node_hash \<Rightarrow> uint256 list \<Rightarrow> nat \<Rightarrow> nat \<Rightarrow> uint256" where
  "CalcHash Hash vTxid 0 pos = vTxid ! pos"
| "CalcHash Hash vTxid (Suc height) pos =
     (let left = CalcHash Hash vTxid height (pos * 2);
          right = (if pos * 2 + 1 < CalcTreeWidth (length vTxid) height then CalcHash Hash vTxid height (pos * 2 + 1) else left)
      in Hash left right)"

definition parent_of_match :: "bool list \<Rightarrow> nat \<Rightarrow> nat \<Rightarrow> bool" where
  "parent_of_match vMatch height pos = list_ex (\<lambda>p. vMatch ! p) [pos * 2 ^ height ..< min ((pos + 1) * 2 ^ height) (length vMatch)]"

text \<open>The bits and hashes pushed by the traversal.\<close>

fun TraverseAndBuild :: "node_hash \<Rightarrow> uint256 list \<Rightarrow> bool list \<Rightarrow> nat \<Rightarrow> nat \<Rightarrow> bool list \<times> uint256 list" where
  "TraverseAndBuild Hash vTxid vMatch 0 pos = ([parent_of_match vMatch 0 pos], [CalcHash Hash vTxid 0 pos])"
| "TraverseAndBuild Hash vTxid vMatch (Suc height) pos =
     (if \<not> parent_of_match vMatch (Suc height) pos then ([False], [CalcHash Hash vTxid (Suc height) pos])
      else
        let (bl, hl) = TraverseAndBuild Hash vTxid vMatch height (pos * 2);
            (br, hr) = (if pos * 2 + 1 < CalcTreeWidth (length vTxid) height
                        then TraverseAndBuild Hash vTxid vMatch height (pos * 2 + 1) else ([], []))
        in (True # bl @ br, hl @ hr))"

definition mk_CPartialMerkleTree :: "node_hash \<Rightarrow> uint256 list \<Rightarrow> bool list \<Rightarrow> CPartialMerkleTree" where
  "mk_CPartialMerkleTree Hash vTxid vMatch =
     (let (bits, hashes) = TraverseAndBuild Hash vTxid vMatch (tree_height (length vTxid) 0) 0
      in \<lparr>nTransactions = length vTxid, vBits = bits, vHash = hashes, fBad = False\<rparr>)"

text \<open>The state of the extraction: \<open>nBitsUsed\<close>, \<open>nHashUsed\<close>, \<open>vMatch\<close>, \<open>fBad\<close>.\<close>

record extract_state =
  nBitsUsed :: nat
  nHashUsed :: nat
  vMatched :: "uint256 list"
  ex_fBad :: bool

definition extract_leaf :: "uint256 list \<Rightarrow> bool \<Rightarrow> extract_state \<Rightarrow> uint256 \<times> extract_state" where
  "extract_leaf hashes matched st =
     (if nHashUsed st \<ge> length hashes then (0, st\<lparr>ex_fBad := True\<rparr>)
      else
        let hash = hashes ! nHashUsed st
        in (hash, st\<lparr>nHashUsed := nHashUsed st + 1, vMatched := vMatched st @ (if matched then [hash] else [])\<rparr>))"

fun TraverseAndExtract :: "node_hash \<Rightarrow> CPartialMerkleTree \<Rightarrow> nat \<Rightarrow> nat \<Rightarrow> extract_state \<Rightarrow> uint256 \<times> extract_state" where
  "TraverseAndExtract Hash t 0 pos st =
     (if nBitsUsed st \<ge> length (vBits t) then (0, st\<lparr>ex_fBad := True\<rparr>)
      else extract_leaf (vHash t) (vBits t ! nBitsUsed st) (st\<lparr>nBitsUsed := nBitsUsed st + 1\<rparr>))"
| "TraverseAndExtract Hash t (Suc height) pos st =
     (if nBitsUsed st \<ge> length (vBits t) then (0, st\<lparr>ex_fBad := True\<rparr>)
      else if \<not> vBits t ! nBitsUsed st then extract_leaf (vHash t) False (st\<lparr>nBitsUsed := nBitsUsed st + 1\<rparr>)
      else
        let (left, st) = TraverseAndExtract Hash t height (pos * 2) (st\<lparr>nBitsUsed := nBitsUsed st + 1\<rparr>)
        in if pos * 2 + 1 < CalcTreeWidth (nTransactions t) height
           then let (right, st) = TraverseAndExtract Hash t height (pos * 2 + 1) st
                in (Hash left right, if right = left then st\<lparr>ex_fBad := True\<rparr> else st)
           else (Hash left left, st))"

definition MAX_BLOCK_SIZE :: "int \<Rightarrow> int \<Rightarrow> int" where
  "MAX_BLOCK_SIZE saplinght height = (if height \<le> 0 \<or> saplinght > 0 \<and> height \<ge> saplinght then 4096 * 1024 else 2000000)"

text \<open>The root, or 0 on failure, and the matched transactions; \<open>saplinght\<close> is the activation height of Sapling.\<close>

definition ExtractMatches :: "int \<Rightarrow> node_hash \<Rightarrow> CPartialMerkleTree \<Rightarrow> uint256 \<times> uint256 list" where
  "ExtractMatches saplinght Hash t =
     (if nTransactions t = 0 then (0, [])
      else if int (nTransactions t) > MAX_BLOCK_SIZE saplinght 10000000 div 60 then (0, [])
      else if length (vHash t) > nTransactions t then (0, [])
      else if length (vBits t) < length (vHash t) then (0, [])
      else
        let (hashMerkleRoot, st) = TraverseAndExtract Hash t (tree_height (nTransactions t) 0) 0
              \<lparr>nBitsUsed = 0, nHashUsed = 0, vMatched = [], ex_fBad = fBad t\<rparr>
        in if ex_fBad st then (0, vMatched st)
           else if (nBitsUsed st + 7) div 8 \<noteq> (length (vBits t) + 7) div 8 then (0, vMatched st)
           else if nHashUsed st \<noteq> length (vHash t) then (0, vMatched st)
           else (hashMerkleRoot, vMatched st))"

text \<open>The flag bits on the wire, eight to a byte, the first in the lowest place.\<close>

definition bits_bytes :: "bool list \<Rightarrow> buffer" where
  "bits_bytes bits = map (\<lambda>k. foldr (\<lambda>q b. b OR (if 8 * k + q < length bits \<and> bits ! (8 * k + q) then push_bit q 1 else 0)) [0..<8] 0)
     [0..<(length bits + 7) div 8]"

definition bytes_bits :: "buffer \<Rightarrow> bool list" where
  "bytes_bits vBytes = map (\<lambda>p. vBytes ! (p div 8) AND push_bit (p mod 8) 1 \<noteq> 0) [0..<8 * length vBytes]"

section \<open>Levels\<close>

text \<open>The reference: each level is the list of hashes of the pairs of the level below, the last node of an odd level pairing with itself.\<close>

fun pairs_of :: "'a list \<Rightarrow> ('a \<times> 'a) list" where
  "pairs_of [] = []"
| "pairs_of [x] = [(x, x)]"
| "pairs_of (x # y # zs) = (x, y) # pairs_of zs"

definition level_up :: "node_hash \<Rightarrow> uint256 list \<Rightarrow> uint256 list" where
  "level_up Hash xs = map (\<lambda>(a, b). Hash a b) (pairs_of xs)"

lemma length_pairs_of [simp]: "length (pairs_of xs) = (length xs + 1) div 2"
  by (induction xs rule: pairs_of.induct) auto

lemma pairs_of_nil [simp]: "pairs_of xs = [] \<longleftrightarrow> xs = []" "[] = pairs_of xs \<longleftrightarrow> xs = []"
  by (cases xs rule: pairs_of.cases; simp)+

lemma length_level_up [simp]: "length (level_up Hash xs) = (length xs + 1) div 2"
  by (simp add: level_up_def)

lemma nth_pairs_of: "2 * k < length xs \<Longrightarrow> pairs_of xs ! k = (xs ! (2 * k), xs ! min (2 * k + 1) (length xs - 1))"
proof (induction xs arbitrary: k rule: pairs_of.induct)
  case (3 x y zs)
  then show ?case by (cases k) (auto simp: min_def nth_Cons')
qed auto

lemma nth_level_up:
  "2 * k < length xs \<Longrightarrow> level_up Hash xs ! k = Hash (xs ! (2 * k)) (xs ! min (2 * k + 1) (length xs - 1))"
  by (simp add: level_up_def nth_pairs_of)

function merkle_levels :: "node_hash \<Rightarrow> uint256 list \<Rightarrow> uint256 list list" where
  "merkle_levels Hash xs = xs # (if length xs > 1 then merkle_levels Hash (level_up Hash xs) else [])"
  by pat_completeness auto
termination by (relation "measure (\<lambda>(_, xs). length xs)") auto

declare merkle_levels.simps [simp del]

text \<open>Two equal nodes at the end of a level.\<close>

definition twin_end :: "uint256 list \<Rightarrow> bool" where
  "twin_end xs \<longleftrightarrow> xs \<noteq> [] \<and> even (length xs) \<and> xs ! (length xs - 2) = xs ! (length xs - 1)"

lemma twin_end_step:
  assumes "i < length xs" and "even i"
  defines "i2 \<equiv> min (i + 1) (length xs - 1)"
  shows "(m \<or> i2 = i + 1 \<and> i2 + 1 = length xs \<and> xs ! i = xs ! i2) \<or> i + 2 < length xs \<and> twin_end xs \<longleftrightarrow> m \<or> twin_end xs"
proof -
  consider "length xs = i + 1" | "length xs = i + 2" | "i + 2 < length xs" using assms(1) by linarith
  then show ?thesis
  proof cases
    case 2
    then have "twin_end xs \<longleftrightarrow> xs ! i = xs ! (i + 1)" using assms(2) by (auto simp: twin_end_def)
    then show ?thesis using 2 by (simp add: i2_def)
  qed (use assms(2) in \<open>auto simp: twin_end_def i2_def\<close>)
qed

lemma merkle_row_spec:
  assumes "even i" and "i \<le> length xs + 1"
  shows "merkle_row Hash (length xs) (length pre) i (pre @ xs @ acc, m) =
     (pre @ xs @ acc @ drop (i div 2) (level_up Hash xs), m \<or> i < length xs \<and> twin_end xs)"
  using assms
proof (induction "length xs - i" arbitrary: i acc m rule: less_induct)
  case less
  show ?case
  proof (cases "i < length xs")
    case True
    obtain k where i: "i = 2 * k" using less.prems(1) by (auto elim: evenE)
    let ?i2 = "min (i + 1) (length xs - 1)"
    have "i < length xs" "?i2 < length xs" using True by auto
    then have nth: "(xs @ acc) ! i = xs ! i" "(xs @ acc) ! ?i2 = xs ! ?i2" by (simp_all only: nth_append if_True)
    have "drop k (level_up Hash xs) = level_up Hash xs ! k # drop (k + 1) (level_up Hash xs)"
      using True i Cons_nth_drop_Suc [of k "level_up Hash xs"] by simp
    moreover have "level_up Hash xs ! k = Hash (xs ! i) (xs ! ?i2)" using True i by (simp add: nth_level_up)
    moreover have "(m \<or> ?i2 = i + 1 \<and> ?i2 + 1 = length xs \<and> xs ! i = xs ! ?i2) \<or> i + 2 < length xs \<and> twin_end xs \<longleftrightarrow> m \<or> twin_end xs"
      using twin_end_step [OF True less.prems(1)] by simp
    ultimately show ?thesis
      using less.hyps [of "i + 2" "acc @ [Hash (xs ! i) (xs ! ?i2)]" "m \<or> ?i2 = i + 1 \<and> ?i2 + 1 = length xs \<and> xs ! i = xs ! ?i2"] True less.prems i
      by (subst merkle_row.simps) (simp add: Let_def nth [unfolded i] nth [unfolded i, simplified])
  next
    case False
    then show ?thesis using less.prems by (subst merkle_row.simps) auto
  qed
qed

lemma merkle_row_all:
  "merkle_row Hash (length xs) (length pre) 0 (pre @ xs, m) = (pre @ xs @ level_up Hash xs, m \<or> twin_end xs)"
  using merkle_row_spec [of 0 xs Hash pre "[]" m] by (auto simp: twin_end_def)

definition merkle_mutated :: "node_hash \<Rightarrow> uint256 list \<Rightarrow> bool" where
  "merkle_mutated Hash xs \<longleftrightarrow> list_ex twin_end (merkle_levels Hash xs)"

lemma merkle_rows_spec:
  "merkle_rows Hash (length xs) (length pre) (pre @ xs, m) = (pre @ concat (merkle_levels Hash xs), m \<or> merkle_mutated Hash xs)"
proof (induction Hash xs arbitrary: pre m rule: merkle_levels.induct)
  case (1 Hash xs)
  show ?case
  proof (cases "length xs > 1")
    case True
    have "merkle_rows Hash (length (level_up Hash xs)) (length (pre @ xs)) ((pre @ xs) @ level_up Hash xs, m \<or> twin_end xs) =
        ((pre @ xs) @ concat (merkle_levels Hash (level_up Hash xs)), (m \<or> twin_end xs) \<or> merkle_mutated Hash (level_up Hash xs))"
      using True by (rule 1)
    then show ?thesis
      using True by (subst merkle_rows.simps, subst merkle_levels.simps)
        (simp add: merkle_row_all merkle_mutated_def merkle_levels.simps [of Hash xs])
  next
    case False
    then show ?thesis
      by (subst merkle_rows.simps, subst merkle_levels.simps) (auto simp: merkle_mutated_def merkle_levels.simps [of Hash xs] twin_end_def numeral_2_eq_2 not_less le_Suc_eq)
  qed
qed

lemma BuildMerkleTree_levels:
  "BuildMerkleTree Hash leaves =
     (if leaves = [] then 0 else last (concat (merkle_levels Hash leaves)), merkle_mutated Hash leaves, concat (merkle_levels Hash leaves))"
proof -
  have "concat (merkle_levels Hash leaves) = [] \<longleftrightarrow> leaves = []" by (subst merkle_levels.simps) auto
  then show ?thesis using merkle_rows_spec [of Hash leaves "[]" False] by (simp add: BuildMerkleTree_def)
qed

text \<open>The root, level by level.\<close>

lemma root_up: "length xs > 1 \<Longrightarrow> GetMerkleRoot Hash xs = GetMerkleRoot Hash (level_up Hash xs)"
proof -
  assume *: "length xs > 1"
  then have "length (level_up Hash xs) > 0" by simp
  then have "level_up Hash xs \<noteq> []" by (rule length_greater_0_conv [THEN iffD1])
  then have "concat (merkle_levels Hash (level_up Hash xs)) \<noteq> []" by (simp add: merkle_levels.simps [of Hash "level_up Hash xs"])
  then show ?thesis using * \<open>level_up Hash xs \<noteq> []\<close>
    by (auto simp: GetMerkleRoot_def BuildMerkleTree_levels merkle_levels.simps [of Hash xs])
qed

lemma root_one: "GetMerkleRoot Hash [x] = x"
  by (simp add: GetMerkleRoot_def BuildMerkleTree_levels merkle_levels.simps [of Hash "[x]"])

section \<open>Branches\<close>

lemma branch_node:
  assumes "i < length xs" and "length xs > 1"
  defines "s \<equiv> xs ! min (i XOR 1) (length xs - 1)"
  shows "level_up Hash xs ! (i div 2) = (if odd i then Hash s (xs ! i) else Hash (xs ! i) s)"
proof -
  have "i XOR 1 = (if odd i then i - 1 else i + 1)" by (simp add: xor_Suc_0_eq)
  then show ?thesis
  proof (cases "odd i")
    case True
    then have "2 * (i div 2) = i - 1" "i XOR 1 = i - 1" using \<open>i XOR 1 = _\<close> by (auto elim: oddE)
    then show ?thesis using True assms by (subst nth_level_up) (auto simp: s_def min_def)
  next
    case False
    then have "2 * (i div 2) = i" "i XOR 1 = i + 1" using \<open>i XOR 1 = _\<close> by (auto elim: evenE)
    then show ?thesis using False assms by (subst nth_level_up) (auto simp: s_def min_def)
  qed
qed

lemma check_branch_levels:
  assumes "i < length xs"
  shows "check_branch Hash (xs ! i) (merkle_branch i (length xs) (length pre) (pre @ concat (merkle_levels Hash xs))) (int i) = GetMerkleRoot Hash xs"
  using assms
proof (induction Hash xs arbitrary: i pre rule: merkle_levels.induct)
  case (1 Hash xs)
  show ?case
  proof (cases "length xs > 1")
    case True
    let ?s = "xs ! min (i XOR 1) (length xs - 1)"
    let ?t = "pre @ concat (merkle_levels Hash xs)"
    have t: "?t = (pre @ xs) @ concat (merkle_levels Hash (level_up Hash xs))" using True by (simp add: merkle_levels.simps [of Hash xs])
    have "?t ! (length pre + min (i XOR 1) (length xs - 1)) = ?s" using True unfolding t by (simp add: nth_append min_def) linarith
    then have "merkle_branch i (length xs) (length pre) ?t =
        ?s # merkle_branch (i div 2) (length (level_up Hash xs)) (length (pre @ xs)) ?t"
      using True by (subst merkle_branch.simps) simp
    moreover have "i div 2 < length (level_up Hash xs)" using 1(2) by simp
    note 1(1) [OF True this, of "pre @ xs", folded t]
    ultimately show ?thesis
      using branch_node [OF 1(2) True, of Hash] root_up [OF True, of Hash]
      by (cases "odd i") (simp_all add: zdiv_int del: length_level_up)
  next
    case False
    then obtain x where "xs = [x]" using 1(2) by (cases xs) (auto simp: not_less le_Suc_eq)
    then show ?thesis using 1(2) by (subst merkle_branch.simps) (simp add: root_one)
  qed
qed

text \<open>C19 Merkle branches are complete: for every leaf of a list, the branch read from the flat tree and the leaf's position check to
  the root of the list, whatever the hash function and however often the last node of a level was duplicated.\<close>
theorem merkle_branch_proves:
  assumes "i < length leaves" and "BuildMerkleTree Hash leaves = (root, mutated, vMerkleTree)"
  shows "CheckMerkleBranch Hash (leaves ! i) (GetMerkleBranch i (length leaves) vMerkleTree) (int i) = root"
  using check_branch_levels [OF assms(1), of Hash "[]"] assms(2)
  by (simp add: CheckMerkleBranch_def GetMerkleBranch_def GetMerkleRoot_def BuildMerkleTree_levels)

theorem merkle_branch_proves_witness:
  "CheckMerkleBranch (\<lambda>a b. 3 * a + b) 9 (GetMerkleBranch 2 3 [7, 8, 9, 29, 36, 123]) 2 = 123"
proof -
  have "BuildMerkleTree (\<lambda>a b. 3 * a + b) [7, 8, 9] = (123, False, [7, 8, 9, 29, 36, 123])" by code_simp
  from merkle_branch_proves [OF _ this, of 2] show ?thesis by (simp add: numeral_3_eq_3)
qed

section \<open>Distinguishing lists by their root\<close>

text \<open>The pairs of nodes that are hashed to build the tree, and that none of them has another preimage.\<close>

function hashed_pairs :: "node_hash \<Rightarrow> uint256 list \<Rightarrow> (uint256 \<times> uint256) list" where
  "hashed_pairs Hash xs = (if length xs > 1 then pairs_of xs @ hashed_pairs Hash (level_up Hash xs) else [])"
  by pat_completeness auto
termination by (relation "measure (\<lambda>(_, xs). length xs)") auto

declare hashed_pairs.simps [simp del]

definition no_second_preimage :: "node_hash \<Rightarrow> uint256 list \<Rightarrow> bool" where
  "no_second_preimage Hash xs \<longleftrightarrow> (\<forall>c d. (c, d) \<in> set (hashed_pairs Hash xs) \<longrightarrow> (\<forall>a b. Hash a b = Hash c d \<longrightarrow> a = c \<and> b = d))"

lemma no_second_preimage_up:
  "no_second_preimage Hash xs \<Longrightarrow> length xs > 1 \<Longrightarrow> no_second_preimage Hash (level_up Hash xs)"
  by (simp add: no_second_preimage_def hashed_pairs.simps [of Hash xs])

lemma no_second_preimage_pair:
  "no_second_preimage Hash xs \<Longrightarrow> length xs > 1 \<Longrightarrow> (c, d) \<in> set (pairs_of xs) \<Longrightarrow> Hash a b = Hash c d \<Longrightarrow> a = c \<and> b = d"
  unfolding no_second_preimage_def hashed_pairs.simps [of Hash xs] by auto

lemma CalcTreeWidth_shift: "CalcTreeWidth n (Suc h) = CalcTreeWidth ((n + 1) div 2) h"
  by (induction h) (simp_all add: CalcTreeWidth_Suc)

lemma tree_height_shift: "tree_height n (Suc h) = Suc (tree_height ((n + 1) div 2) h)"
proof (induction "(n + 1) div 2" h arbitrary: n rule: tree_height.induct)
  case (1 h)
  then show ?case
    by (subst (1 2) tree_height.simps) (simp add: CalcTreeWidth_shift)
qed

lemma tree_height_up: "n > 1 \<Longrightarrow> tree_height n 0 = Suc (tree_height ((n + 1) div 2) 0)"
  by (subst tree_height.simps) (simp add: tree_height_shift)

lemma tree_height_leaf: "n \<le> 1 \<Longrightarrow> tree_height n 0 = 0"
  by (subst tree_height.simps) simp

lemma twin_end_Cons: "zs \<noteq> [] \<Longrightarrow> twin_end (x # y # zs) \<longleftrightarrow> twin_end zs"
  by (cases "length zs"; cases "length zs - 1") (auto simp: twin_end_def)

lemma pairs_of_eq:
  "pairs_of xs = pairs_of ys \<Longrightarrow> \<not> twin_end xs \<Longrightarrow> \<not> twin_end ys \<Longrightarrow> xs = ys"
proof (induction xs arbitrary: ys rule: pairs_of.induct)
  case 1
  then show ?case by (cases ys rule: pairs_of.cases) auto
next
  case (2 x)
  then show ?case by (cases ys rule: pairs_of.cases) (auto simp: twin_end_def)
next
  case (3 x y zs)
  then obtain ws where ys: "ys = x # y # ws \<and> pairs_of zs = pairs_of ws \<or> ys = [x] \<and> x = y \<and> pairs_of zs = []"
    by (cases ys rule: pairs_of.cases) auto
  show ?case
  proof (cases "zs = [] \<or> ws = []")
    case True
    then show ?thesis using ys True 3(3) by (auto simp: twin_end_def)
  next
    case False
    then show ?thesis using ys False 3 by (auto simp: twin_end_Cons)
  qed
qed

lemma level_up_eq:
  assumes "no_second_preimage Hash xs" and "length xs > 1" and eq: "level_up Hash xs = level_up Hash ys"
  shows "pairs_of xs = pairs_of ys"
proof (rule nth_equalityI)
  have "length (level_up Hash xs) = length (level_up Hash ys)" using eq by simp
  then show len: "length (pairs_of xs) = length (pairs_of ys)" by simp
  fix k assume k: "k < length (pairs_of xs)"
  obtain a b c d where ab: "pairs_of xs ! k = (a, b)" "pairs_of ys ! k = (c, d)" by fastforce
  have "level_up Hash xs ! k = level_up Hash ys ! k" using eq by simp
  then have "Hash c d = Hash a b" using ab k len by (simp add: level_up_def del: length_pairs_of)
  moreover have "(a, b) \<in> set (pairs_of xs)" using ab k by (metis nth_mem)
  ultimately show "pairs_of xs ! k = pairs_of ys ! k"
    using no_second_preimage_pair [OF assms(1,2), of a b c d] ab by simp
qed

lemma root_determines:
  assumes "xs \<noteq> []" "ys \<noteq> []" and "tree_height (length xs) 0 = tree_height (length ys) 0"
    and "no_second_preimage Hash xs" and "\<not> merkle_mutated Hash xs" "\<not> merkle_mutated Hash ys"
    and "GetMerkleRoot Hash xs = GetMerkleRoot Hash ys"
  shows "xs = ys"
  using assms
proof (induction Hash xs arbitrary: ys rule: merkle_levels.induct)
  case (1 Hash xs)
  show ?case
  proof (cases "length xs > 1")
    case True
    have ys: "length ys > 1" using 1(4) True tree_height_up [OF True] tree_height_leaf [of "length ys"] by (cases "length ys > 1") auto
    have tw: "\<not> twin_end xs" "\<not> twin_end ys" "\<not> merkle_mutated Hash (level_up Hash xs)" "\<not> merkle_mutated Hash (level_up Hash ys)"
      using 1(6,7) True ys by (simp_all add: merkle_mutated_def merkle_levels.simps [of Hash xs] merkle_levels.simps [of Hash ys])
    have "level_up Hash xs = level_up Hash ys"
    proof (rule 1(1) [OF True])
      have "length (level_up Hash xs) > 0" "length (level_up Hash ys) > 0" using True ys by simp_all
      then show "level_up Hash xs \<noteq> []" "level_up Hash ys \<noteq> []" by (metis length_greater_0_conv)+
      show "tree_height (length (level_up Hash xs)) 0 = tree_height (length (level_up Hash ys)) 0"
        using 1(4) tree_height_up [OF True] tree_height_up [OF ys] by simp
      show "GetMerkleRoot Hash (level_up Hash xs) = GetMerkleRoot Hash (level_up Hash ys)"
        using 1(8) root_up [OF True, of Hash] root_up [OF ys, of Hash] by simp
    qed (use tw no_second_preimage_up [OF 1(5) True] in simp_all)
    then show ?thesis using level_up_eq [OF 1(5) True] pairs_of_eq tw(1,2) by blast
  next
    case False
    then obtain x where x: "xs = [x]" using 1(2) by (cases xs) (auto simp: not_less le_Suc_eq)
    then have "\<not> length ys > 1" using 1(4) tree_height_up [of "length ys"] tree_height_leaf [of 1] by auto
    then obtain y where "ys = [y]" using 1(3) by (cases ys) (auto simp: not_less le_Suc_eq)
    then show ?thesis using x 1(8) by (simp add: root_one)
  qed
qed

section \<open>Nodes of partial trees\<close>

definition level_at :: "node_hash \<Rightarrow> uint256 list \<Rightarrow> nat \<Rightarrow> uint256 list" where
  "level_at Hash xs h = (level_up Hash ^^ h) xs"

lemma level_at_0 [simp]: "level_at Hash xs 0 = xs"
  by (simp add: level_at_def)

lemma level_at_Suc: "level_at Hash xs (Suc h) = level_up Hash (level_at Hash xs h)"
  by (simp add: level_at_def)

lemma level_at_shift: "level_at Hash xs (Suc h) = level_at Hash (level_up Hash xs) h"
  by (simp add: level_at_def funpow_swap1)

lemma length_level_at [simp]: "length (level_at Hash xs h) = CalcTreeWidth (length xs) h"
  by (induction h) (simp_all add: level_at_Suc CalcTreeWidth_Suc)

lemma width_iff: "p < CalcTreeWidth n h \<longleftrightarrow> p * 2 ^ h < n"
proof -
  have "p < CalcTreeWidth n h \<longleftrightarrow> (p + 1) * 2 ^ h \<le> n + 2 ^ h - 1"
    unfolding CalcTreeWidth_def by (simp add: Suc_le_eq [symmetric] less_eq_div_iff_mult_less_eq)
  also have "\<dots> \<longleftrightarrow> p * 2 ^ h < n"
  proof -
    have "(1 :: nat) \<le> 2 ^ h" by simp
    then show ?thesis unfolding add_mult_distrib by linarith
  qed
  finally show ?thesis .
qed

lemma CalcHash_level: "pos < CalcTreeWidth (length xs) h \<Longrightarrow> CalcHash Hash xs h pos = level_at Hash xs h ! pos"
proof (induction h arbitrary: pos)
  case (Suc h)
  let ?w = "CalcTreeWidth (length xs) h"
  have w: "2 * pos < ?w" using Suc.prems by (simp add: CalcTreeWidth_Suc)
  then have "level_at Hash xs (Suc h) ! pos = Hash (level_at Hash xs h ! (2 * pos)) (level_at Hash xs h ! min (2 * pos + 1) (?w - 1))"
    by (simp add: level_at_Suc nth_level_up)
  moreover have "CalcHash Hash xs h (pos * 2) = level_at Hash xs h ! (2 * pos)" using Suc.IH [of "2 * pos"] w by (simp add: mult.commute)
  moreover have "min (2 * pos + 1) (?w - 1) = (if pos * 2 + 1 < ?w then 2 * pos + 1 else 2 * pos)" using w by auto
  then have "level_at Hash xs h ! min (2 * pos + 1) (?w - 1) =
      (if pos * 2 + 1 < ?w then CalcHash Hash xs h (pos * 2 + 1) else CalcHash Hash xs h (pos * 2))"
    using Suc.IH [of "2 * pos + 1"] Suc.IH [of "2 * pos"] w by (simp add: mult.commute)
  ultimately show ?case by (simp add: Let_def)
qed simp

lemma merkle_levels_at: "merkle_levels Hash xs = map (level_at Hash xs) [0..<Suc (tree_height (length xs) 0)]"
proof (induction Hash xs rule: merkle_levels.induct)
  case (1 Hash xs)
  show ?case
  proof (cases "length xs > 1")
    case True
    have "map (level_at Hash xs) [0..<Suc (Suc k)] = xs # map (level_at Hash (level_up Hash xs)) [0..<Suc k]" for k
      by (simp add: upt_conv_Cons map_Suc_upt [symmetric] level_at_shift o_def del: upt_Suc)
    then show ?thesis using 1 [OF True] True tree_height_up [OF True] by (subst merkle_levels.simps) simp
  next
    case False
    then show ?thesis by (subst merkle_levels.simps) (simp add: tree_height_leaf)
  qed
qed

lemma tree_height_width: "CalcTreeWidth n (tree_height n h) \<le> 1"
  by (induction n h rule: tree_height.induct) (subst tree_height.simps, simp)

lemma tree_height_below: "k < tree_height n 0 \<Longrightarrow> CalcTreeWidth n k > 1"
proof (induction k arbitrary: n)
  case 0
  then show ?case by (cases "n > 1") (auto simp: tree_height_leaf)
next
  case (Suc k)
  then have "n > 1" by (cases "n > 1") (auto simp: tree_height_leaf)
  then show ?case using Suc tree_height_up [of n] by (simp add: CalcTreeWidth_shift)
qed

lemma root_CalcHash:
  assumes "xs \<noteq> []"
  shows "CalcHash Hash xs (tree_height (length xs) 0) 0 = GetMerkleRoot Hash xs"
  using assms
proof (induction Hash xs rule: merkle_levels.induct)
  case (1 Hash xs)
  let ?h = "tree_height (length xs) 0"
  have pos: "0 < CalcTreeWidth (length xs) ?h" using 1(2) by (simp add: width_iff)
  show ?case
  proof (cases "length xs > 1")
    case True
    have "length (level_up Hash xs) > 0" using True by simp
    then have ne: "level_up Hash xs \<noteq> []" by (rule length_greater_0_conv [THEN iffD1])
    have "0 < CalcTreeWidth (length (level_up Hash xs)) (tree_height (length (level_up Hash xs)) 0)"
      using True by (simp add: width_iff)
    from CalcHash_level [OF this, of Hash] show ?thesis
      using 1(1) [OF True ne] CalcHash_level [OF pos, of Hash] tree_height_up [OF True] root_up [OF True, of Hash] by (simp add: level_at_shift)
  next
    case False
    then obtain x where "xs = [x]" using 1(2) by (cases xs) (auto simp: not_less le_Suc_eq)
    then show ?thesis by (simp add: root_one tree_height_leaf)
  qed
qed

text \<open>No two siblings of the tree are equal.\<close>

definition siblings_differ :: "node_hash \<Rightarrow> uint256 list \<Rightarrow> bool" where
  "siblings_differ Hash xs \<longleftrightarrow> list_all (\<lambda>lvl. list_all (\<lambda>k. lvl ! (2 * k) \<noteq> lvl ! (2 * k + 1)) [0..<length lvl div 2]) (merkle_levels Hash xs)"

lemma siblings_differ_at:
  assumes "siblings_differ Hash xs" and "pos * 2 + 1 < CalcTreeWidth (length xs) h" and "h < tree_height (length xs) 0"
  shows "CalcHash Hash xs h (pos * 2 + 1) \<noteq> CalcHash Hash xs h (pos * 2)"
proof -
  have "level_at Hash xs h \<in> set (merkle_levels Hash xs)" using assms(3) by (simp add: merkle_levels_at del: upt_Suc)
  then have "\<forall>k. 2 * k + 1 < CalcTreeWidth (length xs) h \<longrightarrow> level_at Hash xs h ! (2 * k) \<noteq> level_at Hash xs h ! (2 * k + 1)"
    using assms(1) by (auto simp: siblings_differ_def list_all_iff)
  then have "level_at Hash xs h ! (2 * pos) \<noteq> level_at Hash xs h ! (2 * pos + 1)" using assms(2) by (simp add: mult.commute)
  then show ?thesis using CalcHash_level [of "pos * 2 + 1" xs h Hash] CalcHash_level [of "pos * 2" xs h Hash] assms(2) by (simp add: mult.commute)
qed

section \<open>Building and extracting\<close>

text \<open>The leaves below a node, and the matched ones among them.\<close>

definition node_range :: "nat \<Rightarrow> nat \<Rightarrow> nat \<Rightarrow> nat list" where
  "node_range n h pos = [pos * 2 ^ h ..< min ((pos + 1) * 2 ^ h) n]"

lemma node_range_split:
  assumes "pos * 2 < CalcTreeWidth n h"
  shows "node_range n (Suc h) pos =
     node_range n h (pos * 2) @ (if pos * 2 + 1 < CalcTreeWidth n h then node_range n h (pos * 2 + 1) else [])"
proof (cases "pos * 2 + 1 < CalcTreeWidth n h")
  case True
  then have "(pos * 2 + 1) * 2 ^ h < n" by (simp add: width_iff)
  moreover have "pos * 2 ^ Suc h \<le> (pos * 2 + 1) * 2 ^ h" "(pos * 2 + 1) * 2 ^ h \<le> min ((pos + 1) * 2 ^ Suc h) n"
    using calculation by (simp_all add: algebra_simps)
  ultimately have "[pos * 2 ^ Suc h ..< min ((pos + 1) * 2 ^ Suc h) n] =
      [pos * 2 ^ Suc h ..< (pos * 2 + 1) * 2 ^ h] @ [(pos * 2 + 1) * 2 ^ h ..< min ((pos + 1) * 2 ^ Suc h) n]"
    by (metis upt_add_eq_append le_add_diff_inverse)
  then show ?thesis using True \<open>(pos * 2 + 1) * 2 ^ h < n\<close> by (simp add: node_range_def min_def algebra_simps)
next
  case False
  then have "n \<le> (pos * 2 + 1) * 2 ^ h" by (simp add: width_iff not_less)
  moreover have "(pos * 2 + 1) * 2 ^ h \<le> (pos + 1) * 2 ^ Suc h" by (simp add: algebra_simps)
  ultimately have "min ((pos + 1) * 2 ^ Suc h) n = n" "min ((pos * 2 + 1) * 2 ^ h) n = n" by linarith+
  then show ?thesis using False unfolding node_range_def by (simp add: mult.assoc)
qed

definition matches_in :: "uint256 list \<Rightarrow> bool list \<Rightarrow> nat \<Rightarrow> nat \<Rightarrow> uint256 list" where
  "matches_in xs vMatch h pos = map ((!) xs) (filter ((!) vMatch) (node_range (length vMatch) h pos))"

lemma matches_in_none: "\<not> parent_of_match vMatch h pos \<Longrightarrow> matches_in xs vMatch h pos = []"
  by (simp add: matches_in_def parent_of_match_def node_range_def list_ex_iff filter_empty_conv)

lemma matches_in_leaf: "pos < length vMatch \<Longrightarrow> matches_in xs vMatch 0 pos = (if parent_of_match vMatch 0 pos then [xs ! pos] else [])"
  by (simp add: matches_in_def parent_of_match_def node_range_def min_def)

lemma matches_in_split:
  "pos * 2 < CalcTreeWidth (length vMatch) h \<Longrightarrow>
   matches_in xs vMatch (Suc h) pos = matches_in xs vMatch h (pos * 2) @
     (if pos * 2 + 1 < CalcTreeWidth (length vMatch) h then matches_in xs vMatch h (pos * 2 + 1) else [])"
  by (simp add: matches_in_def node_range_split)

text \<open>How much the construction stores.\<close>

lemma build_lengths:
  assumes "length vMatch = length xs" and "pos < CalcTreeWidth (length xs) h"
  shows "length (snd (TraverseAndBuild Hash xs vMatch h pos)) \<le> length (node_range (length xs) h pos) \<and>
     length (snd (TraverseAndBuild Hash xs vMatch h pos)) \<le> length (fst (TraverseAndBuild Hash xs vMatch h pos))"
  using assms(2)
proof (induction h arbitrary: pos)
  case 0
  then show ?case by (simp add: node_range_def)
next
  case (Suc h)
  have w: "pos * 2 < CalcTreeWidth (length xs) h" using Suc.prems by (simp add: CalcTreeWidth_Suc)
  then have "0 < length (node_range (length xs) h (pos * 2))" unfolding node_range_def by (simp add: width_iff)
  then show ?case
    using Suc.IH [OF w] Suc.IH [of "pos * 2 + 1"] node_range_split [OF w] by (auto simp: case_prod_unfold Let_def Suc_le_eq)
qed

lemma extract_build:
  assumes len: "length vMatch = length xs" and n: "nTransactions t = length xs" and sib: "siblings_differ Hash xs"
    and "pos < CalcTreeWidth (length xs) h" and "h \<le> tree_height (length xs) 0"
    and "TraverseAndBuild Hash xs vMatch h pos = (bits, hashes)"
    and "vBits t = pb @ bits @ sb" and "vHash t = ph @ hashes @ sh"
  shows "TraverseAndExtract Hash t h pos \<lparr>nBitsUsed = length pb, nHashUsed = length ph, vMatched = ms, ex_fBad = f\<rparr> =
     (CalcHash Hash xs h pos, \<lparr>nBitsUsed = length pb + length bits, nHashUsed = length ph + length hashes,
        vMatched = ms @ matches_in xs vMatch h pos, ex_fBad = f\<rparr>)"
  using assms(4-)
proof (induction h arbitrary: pos bits hashes pb sb ph sh ms)
  case 0
  then show ?case using len by (auto simp: extract_leaf_def matches_in_leaf Let_def)
next
  case (Suc h)
  have w: "pos * 2 < CalcTreeWidth (length xs) h" using Suc.prems(1) by (simp add: CalcTreeWidth_Suc)
  have h: "h \<le> tree_height (length xs) 0" "h < tree_height (length xs) 0" using Suc.prems(2) by simp_all
  show ?case
  proof (cases "parent_of_match vMatch (Suc h) pos")
    case False
    then show ?thesis using Suc.prems by (auto simp: extract_leaf_def matches_in_none)
  next
    case True
    obtain bl hl where l: "TraverseAndBuild Hash xs vMatch h (pos * 2) = (bl, hl)" by fastforce
    note left = Suc.IH [OF w h(1) l]
    show ?thesis
    proof (cases "pos * 2 + 1 < CalcTreeWidth (length xs) h")
      case r: True
      obtain br hr where rb: "TraverseAndBuild Hash xs vMatch h (pos * 2 + 1) = (br, hr)" by fastforce
      have bh: "bits = True # bl @ br" "hashes = hl @ hr" using Suc.prems(3) True l r rb by auto
      have "vBits t = (pb @ [True]) @ bl @ (br @ sb)" "vHash t = ph @ hl @ (hr @ sh)" using Suc.prems(4,5) bh by simp_all
      from left [OF this, of ms]
      have L: "TraverseAndExtract Hash t h (pos * 2) \<lparr>nBitsUsed = Suc (length pb), nHashUsed = length ph, vMatched = ms, ex_fBad = f\<rparr> =
          (CalcHash Hash xs h (pos * 2), \<lparr>nBitsUsed = Suc (length pb + length bl), nHashUsed = length ph + length hl,
            vMatched = ms @ matches_in xs vMatch h (pos * 2), ex_fBad = f\<rparr>)" by simp
      have "vBits t = (pb @ [True] @ bl) @ br @ sb" "vHash t = (ph @ hl) @ hr @ sh" using Suc.prems(4,5) bh by simp_all
      from Suc.IH [OF r h(1) rb this, of "ms @ matches_in xs vMatch h (pos * 2)"]
      have R: "TraverseAndExtract Hash t h (Suc (pos * 2)) \<lparr>nBitsUsed = Suc (length pb + length bl), nHashUsed = length ph + length hl,
            vMatched = ms @ matches_in xs vMatch h (pos * 2), ex_fBad = f\<rparr> =
          (CalcHash Hash xs h (Suc (pos * 2)), \<lparr>nBitsUsed = Suc (length pb + length bl + length br), nHashUsed = length ph + length hl + length hr,
            vMatched = (ms @ matches_in xs vMatch h (pos * 2)) @ matches_in xs vMatch h (Suc (pos * 2)), ex_fBad = f\<rparr>)" by simp
      show ?thesis
        using L R bh Suc.prems(4) n r len siblings_differ_at [OF sib r h(2)] matches_in_split [of pos vMatch h xs] w by simp
    next
      case r: False
      have bh: "bits = True # bl" "hashes = hl" using Suc.prems(3) True l r by auto
      have "vBits t = (pb @ [True]) @ bl @ sb" "vHash t = ph @ hl @ sh" using Suc.prems(4,5) bh by simp_all
      from left [OF this, of ms]
      have L: "TraverseAndExtract Hash t h (pos * 2) \<lparr>nBitsUsed = Suc (length pb), nHashUsed = length ph, vMatched = ms, ex_fBad = f\<rparr> =
          (CalcHash Hash xs h (pos * 2), \<lparr>nBitsUsed = Suc (length pb + length bl), nHashUsed = length ph + length hl,
            vMatched = ms @ matches_in xs vMatch h (pos * 2), ex_fBad = f\<rparr>)" by simp
      show ?thesis using L bh Suc.prems(4) n r len matches_in_split [of pos vMatch h xs] w by (simp add: Let_def)
    qed
  qed
qed

section \<open>Flag bits on the wire\<close>

lemma bits_byte_bit:
  "p < 8 \<Longrightarrow> bit (foldr (\<lambda>q b. b OR (if P q then push_bit q 1 else 0)) [0..<8] (0 :: byte)) p \<longleftrightarrow> P p"
proof -
  have "bit (foldr (\<lambda>q b. b OR (if P q then push_bit q 1 else 0)) qs (0 :: byte)) p \<longleftrightarrow> p \<in> set qs \<and> P p" if "p < 8" for qs
    using that by (induction qs) (auto simp: bit_or_iff bit_exp_iff)
  then show "p < 8 \<Longrightarrow> bit (foldr (\<lambda>q b. b OR (if P q then push_bit q 1 else 0)) [0..<8] (0 :: byte)) p \<longleftrightarrow> P p" by simp
qed

lemma test_bit_and: "(b :: byte) AND 2 ^ q \<noteq> 0 \<longleftrightarrow> bit b q" if "q < 8"
proof -
  have "bit (b AND 2 ^ q) k \<longleftrightarrow> k = q \<and> bit b q" for k
    using that by (auto simp: bit_and_iff bit_exp_iff)
  then show ?thesis by (metis bit_0_eq bot_apply bot_bool_def bit_eqI)
qed

lemma bits_wire: "bytes_bits (bits_bytes bits) = bits @ replicate (8 * ((length bits + 7) div 8) - length bits) False"
proof (rule nth_equalityI)
  let ?n = "(length bits + 7) div 8"
  have le: "length bits \<le> 8 * ?n" by simp
  show "length (bytes_bits (bits_bytes bits)) = length (bits @ replicate (8 * ?n - length bits) False)"
    using le by (simp add: bytes_bits_def bits_bytes_def)
  fix p assume "p < length (bytes_bits (bits_bytes bits))"
  then have p: "p < 8 * ?n" by (simp add: bytes_bits_def bits_bytes_def)
  then have "bytes_bits (bits_bytes bits) ! p \<longleftrightarrow> bit (bits_bytes bits ! (p div 8)) (p mod 8)"
    by (simp add: bytes_bits_def bits_bytes_def test_bit_and)
  also have "\<dots> \<longleftrightarrow> p < length bits \<and> bits ! p"
    using p by (simp add: bits_bytes_def bits_byte_bit less_mult_imp_div_less mult.commute)
  finally show "bytes_bits (bits_bytes bits) ! p = (bits @ replicate (8 * ?n - length bits) False) ! p"
    using p by (auto simp: nth_append)
qed

lemma filter_zip_map: "length ms = length xs \<Longrightarrow> map ((!) xs) (filter ((!) ms) [0..<length ms]) = map fst (filter snd (zip xs ms))"
proof (induction xs ms rule: rev_induct2)
  case (4 x xs m ms)
  have "map ((!) (xs @ [x])) (filter ((!) (ms @ [m])) [0..<length xs]) = map ((!) xs) (filter ((!) ms) [0..<length xs])"
    using 4 by (intro map_cong filter_cong) (auto simp: nth_append)
  moreover have "(ms @ [m]) ! length xs = m" using 4 by (simp add: nth_append)
  ultimately show ?case using 4 by simp
qed simp_all

text \<open>C20 Partial Merkle trees round trip: a tree built for a block's transactions and a selection of them, with its flag bits packed into
  bytes and unpacked again, extracts to the Merkle root of the block and exactly the selected transactions in order.
  Two equal siblings are refused by the extraction, so the tree has to have none.\<close>
theorem partial_merkle_roundtrip:
  assumes "vTxid \<noteq> []" and "length vMatch = length vTxid" and "int (length vTxid) \<le> MAX_BLOCK_SIZE saplinght 10000000 div 60"
    and "siblings_differ Hash vTxid" and t: "t = mk_CPartialMerkleTree Hash vTxid vMatch"
  shows "ExtractMatches saplinght Hash (t\<lparr>vBits := bytes_bits (bits_bytes (vBits t))\<rparr>) =
     (GetMerkleRoot Hash vTxid, map fst (filter snd (zip vTxid vMatch)))"
proof -
  let ?h = "tree_height (length vTxid) 0"
  obtain bits hashes where b: "TraverseAndBuild Hash vTxid vMatch ?h 0 = (bits, hashes)" by fastforce
  define pad where "pad = replicate (8 * ((length bits + 7) div 8) - length bits) False"
  define u where "u = \<lparr>nTransactions = length vTxid, vBits = bits @ pad, vHash = hashes, fBad = False\<rparr>"
  have u: "t\<lparr>vBits := bytes_bits (bits_bytes (vBits t))\<rparr> = u" using b by (simp add: t mk_CPartialMerkleTree_def bits_wire u_def pad_def)
  have w: "0 < CalcTreeWidth (length vTxid) ?h" using assms(1) by (simp add: width_iff)
  have "length vTxid \<le> 2 ^ ?h" using tree_height_width [of "length vTxid" 0] width_iff [of 1 "length vTxid" ?h] by simp
  then have range: "node_range (length vTxid) ?h 0 = [0..<length vTxid]" by (simp add: node_range_def)
  then have all: "matches_in vTxid vMatch ?h 0 = map fst (filter snd (zip vTxid vMatch))"
    using filter_zip_map [OF assms(2)] assms(2) by (simp add: matches_in_def)
  have len: "length hashes \<le> length vTxid" "length hashes \<le> length bits" using build_lengths [OF assms(2) w, of Hash] b range by simp_all
  have ex: "TraverseAndExtract Hash u ?h 0 \<lparr>nBitsUsed = 0, nHashUsed = 0, vMatched = [], ex_fBad = False\<rparr> =
      (GetMerkleRoot Hash vTxid, \<lparr>nBitsUsed = length bits, nHashUsed = length hashes,
        vMatched = map fst (filter snd (zip vTxid vMatch)), ex_fBad = False\<rparr>)"
    using extract_build [OF assms(2) _ assms(4) w order.refl b, of u "[]" pad "[]" "[]" "[]" False] root_CalcHash [OF assms(1), of Hash] all
    by (simp add: u_def)
  have "(length bits + 7) div 8 = (length (bits @ pad) + 7) div 8" by (simp add: pad_def)
  then show ?thesis unfolding u using ex assms(1,3) len by (simp add: ExtractMatches_def u_def)
qed

theorem partial_merkle_roundtrip_witness:
  "let t = mk_CPartialMerkleTree (\<lambda>a b. 3 * a + b) [7, 8, 9] [False, False, True]
   in ExtractMatches 1 (\<lambda>a b. 3 * a + b) (t\<lparr>vBits := bytes_bits (bits_bytes (vBits t))\<rparr>) = (123, [9])"
proof -
  have "GetMerkleRoot (\<lambda>a b. 3 * a + b) [7, 8, 9] = 123" "siblings_differ (\<lambda>a b. 3 * a + b) [7, 8, 9]" by code_simp+
  then show ?thesis
    using partial_merkle_roundtrip [of "[7, 8, 9]" "[False, False, True]" 1 "\<lambda>a b. 3 * a + b"]
    by (simp add: MAX_BLOCK_SIZE_def)
qed

section \<open>Soundness of an extraction\<close>

lemma hashed_pairs_level:
  "CalcTreeWidth (length xs) h > 1 \<Longrightarrow> set (pairs_of (level_at Hash xs h)) \<subseteq> set (hashed_pairs Hash xs)"
proof (induction h arbitrary: xs)
  case 0
  then show ?case by (simp add: hashed_pairs.simps [of Hash xs])
next
  case (Suc h)
  have "1 * 2 ^ Suc h < length xs" using Suc.prems width_iff by blast
  moreover have "(1 :: nat) \<le> 2 ^ Suc h" by (rule one_le_power) simp
  ultimately have "length xs > 1" by linarith
  then show ?case using Suc.IH [of "level_up Hash xs"] Suc.prems
    by (simp add: level_at_shift CalcTreeWidth_shift hashed_pairs.simps [of Hash xs]) blast
qed

lemma CalcHash_inj:
  assumes "no_second_preimage Hash xs" and pos: "pos < CalcTreeWidth (length xs) (Suc h)" and "CalcTreeWidth (length xs) h > 1"
    and eq: "Hash l r = CalcHash Hash xs (Suc h) pos"
  shows "l = CalcHash Hash xs h (pos * 2)"
    and "r = (if pos * 2 + 1 < CalcTreeWidth (length xs) h then CalcHash Hash xs h (pos * 2 + 1) else CalcHash Hash xs h (pos * 2))"
proof -
  let ?w = "CalcTreeWidth (length xs) h"
  let ?r = "if pos * 2 + 1 < ?w then CalcHash Hash xs h (pos * 2 + 1) else CalcHash Hash xs h (pos * 2)"
  have w: "2 * pos < ?w" using pos by (simp add: CalcTreeWidth_Suc)
  have "min (2 * pos + 1) (?w - 1) = (if pos * 2 + 1 < ?w then 2 * pos + 1 else 2 * pos)" using w by auto
  then have "pairs_of (level_at Hash xs h) ! pos = (CalcHash Hash xs h (pos * 2), ?r)"
    using w by (simp add: nth_pairs_of CalcHash_level mult.commute)
  moreover have "pos < length (pairs_of (level_at Hash xs h))" using w by simp
  ultimately have "(CalcHash Hash xs h (pos * 2), ?r) \<in> set (hashed_pairs Hash xs)"
    using hashed_pairs_level [OF assms(3), of Hash] by (metis nth_mem subsetD)
  then have "l = CalcHash Hash xs h (pos * 2) \<and> r = ?r"
    using assms(1) eq unfolding no_second_preimage_def by (simp add: Let_def)
  then show "l = CalcHash Hash xs h (pos * 2)" "r = ?r" by simp_all
qed

lemma extract_bad: "ex_fBad st \<Longrightarrow> ex_fBad (snd (TraverseAndExtract Hash t h pos st))"
  by (induction h arbitrary: pos st) (auto simp: extract_leaf_def Let_def case_prod_unfold)

text \<open>Increasing positions within a range.\<close>

definition picks :: "uint256 list \<Rightarrow> nat \<Rightarrow> nat \<Rightarrow> uint256 list \<Rightarrow> bool" where
  "picks xs a b ms \<longleftrightarrow> (\<exists>ps. ms = map ((!) xs) ps \<and> sorted_wrt (<) ps \<and> (\<forall>p\<in>set ps. a \<le> p \<and> p < b \<and> p < length xs))"

lemma picks_nil: "picks xs a b []"
  by (simp add: picks_def)

lemma picks_append: "picks xs a b ms \<Longrightarrow> picks xs b c ns \<Longrightarrow> a \<le> b \<Longrightarrow> b \<le> c \<Longrightarrow> picks xs a c (ms @ ns)"
proof -
  assume "picks xs a b ms" "picks xs b c ns" "a \<le> b" "b \<le> c"
  then obtain ps qs where "ms = map ((!) xs) ps" "sorted_wrt (<) ps" "\<forall>p\<in>set ps. a \<le> p \<and> p < b \<and> p < length xs"
    "ns = map ((!) xs) qs" "sorted_wrt (<) qs" "\<forall>q\<in>set qs. b \<le> q \<and> q < c \<and> q < length xs" unfolding picks_def by blast
  then show ?thesis using \<open>a \<le> b\<close> \<open>b \<le> c\<close> unfolding picks_def
    by (intro exI [of _ "ps @ qs"]) (fastforce simp: sorted_wrt_append)
qed

lemma picks_mono: "picks xs a b ms \<Longrightarrow> b \<le> c \<Longrightarrow> picks xs a c ms"
proof -
  assume "picks xs a b ms" "b \<le> c"
  then obtain ps where "ms = map ((!) xs) ps" "sorted_wrt (<) ps" "\<forall>p\<in>set ps. a \<le> p \<and> p < b \<and> p < length xs" unfolding picks_def by blast
  then show ?thesis using \<open>b \<le> c\<close> unfolding picks_def by (intro exI [of _ ps]) auto
qed

lemma extract_sound:
  assumes n: "nTransactions t = length xs" and nsp: "no_second_preimage Hash xs"
    and "pos < CalcTreeWidth (length xs) h" and "h \<le> tree_height (length xs) 0"
    and "TraverseAndExtract Hash t h pos st = (CalcHash Hash xs h pos, st')" and "\<not> ex_fBad st'"
  shows "\<exists>ms. vMatched st' = vMatched st @ ms \<and> picks xs (pos * 2 ^ h) ((pos + 1) * 2 ^ h) ms"
  using assms(3-)
proof (induction h arbitrary: pos st st')
  case 0
  have "picks xs pos (Suc pos) [xs ! pos]" using 0(1) unfolding picks_def by (intro exI [of _ "[pos]"]) simp
  then show ?case using 0 by (auto simp: extract_leaf_def Let_def picks_nil split: if_splits)
next
  case (Suc h)
  have w: "pos * 2 < CalcTreeWidth (length xs) h" using Suc.prems(1) by (simp add: CalcTreeWidth_Suc)
  have h: "h \<le> tree_height (length xs) 0" "CalcTreeWidth (length xs) h > 1" using Suc.prems(2) tree_height_below [of h] by simp_all
  show ?case
  proof (cases "vBits t ! nBitsUsed st \<and> nBitsUsed st < length (vBits t)")
    case False
    then show ?thesis using Suc.prems(3,4) by (auto simp: extract_leaf_def Let_def picks_nil split: if_splits)
  next
    case True
    obtain l s1 where l: "TraverseAndExtract Hash t h (pos * 2) (st\<lparr>nBitsUsed := nBitsUsed st + 1\<rparr>) = (l, s1)" by fastforce
    have range: "pos * 2 * 2 ^ h = pos * 2 ^ Suc h" "(pos * 2 + 1 + 1) * 2 ^ h = (pos + 1) * 2 ^ Suc h"
      "(pos * 2 + 1) * 2 ^ h \<le> (pos + 1) * 2 ^ Suc h" by (simp_all add: algebra_simps)
    show ?thesis
    proof (cases "pos * 2 + 1 < CalcTreeWidth (length xs) h")
      case r: True
      obtain q s2 where q: "TraverseAndExtract Hash t h (pos * 2 + 1) s1 = (q, s2)" by fastforce
      have top: "Hash l q = CalcHash Hash xs (Suc h) pos" "\<not> ex_fBad s2" "vMatched st' = vMatched s2"
        using Suc.prems(3,4) True l q n r by (auto split: if_splits)
      have "\<not> ex_fBad s1" using extract_bad [of s1 Hash t h "pos * 2 + 1"] q top(2) by auto
      moreover have lq: "l = CalcHash Hash xs h (pos * 2)" "q = CalcHash Hash xs h (pos * 2 + 1)"
        using CalcHash_inj [OF nsp Suc.prems(1) h(2) top(1)] r by simp_all
      ultimately obtain ms where ms: "vMatched s1 = vMatched st @ ms" "picks xs (pos * 2 * 2 ^ h) ((pos * 2 + 1) * 2 ^ h) ms"
        using Suc.IH [OF w h(1), of "st\<lparr>nBitsUsed := nBitsUsed st + 1\<rparr>" s1] l by auto
      obtain ns where ns: "vMatched s2 = vMatched s1 @ ns" "picks xs ((pos * 2 + 1) * 2 ^ h) ((pos * 2 + 1 + 1) * 2 ^ h) ns"
        using Suc.IH [OF r h(1), of s1 s2] q lq top(2) by auto
      have "picks xs (pos * 2 ^ Suc h) ((pos + 1) * 2 ^ Suc h) (ms @ ns)"
        using picks_append [OF ms(2) ns(2)] range by (simp add: algebra_simps)
      then show ?thesis using ms(1) ns(1) top(3) by simp
    next
      case r: False
      have top: "Hash l l = CalcHash Hash xs (Suc h) pos" "st' = s1" using Suc.prems(3) True l n r by auto
      then have "l = CalcHash Hash xs h (pos * 2)" using CalcHash_inj(1) [OF nsp Suc.prems(1) h(2)] by blast
      then obtain ms where "vMatched s1 = vMatched st @ ms" "picks xs (pos * 2 * 2 ^ h) ((pos * 2 + 1) * 2 ^ h) ms"
        using Suc.IH [OF w h(1), of "st\<lparr>nBitsUsed := nBitsUsed st + 1\<rparr>" s1] l Suc.prems(4) top(2) by auto
      then show ?thesis using top(2) picks_mono range by metis
    qed
  qed
qed

section \<open>Concatenated branches\<close>

lemma branch_index_step:
  fixes i k :: int
  shows "odd (i + k * 2 ^ Suc n) \<longleftrightarrow> odd i" and "(i + k * 2 ^ Suc n) div 2 = i div 2 + k * 2 ^ n"
proof -
  have "i + k * 2 ^ Suc n = i + (k * 2 ^ n) * 2" by simp
  then show "odd (i + k * 2 ^ Suc n) \<longleftrightarrow> odd i" "(i + k * 2 ^ Suc n) div 2 = i div 2 + k * 2 ^ n" by simp_all
qed

lemma check_branch_append:
  "0 \<le> i \<Longrightarrow> i < 2 ^ length b \<Longrightarrow>
   check_branch Hash hash (b @ c) (i + k * 2 ^ length b) = check_branch Hash (check_branch Hash hash b i) c k"
proof (induction b arbitrary: hash i)
  case (Cons x b)
  then show ?case using branch_index_step [of i k "length b"] Cons.IH [of "i div 2"] by (simp del: power_Suc) simp
next
  case Nil
  then have "i = 0" by simp
  then show ?case by simp
qed

text \<open>No node on the way is equal to its left sibling.\<close>

fun branch_ok :: "node_hash \<Rightarrow> uint256 \<Rightarrow> uint256 list \<Rightarrow> int \<Rightarrow> bool" where
  "branch_ok Hash hash [] i = True"
| "branch_ok Hash hash (x # b) i = (\<not> (odd i \<and> x = hash) \<and> branch_ok Hash (if odd i then Hash x hash else Hash hash x) b (i div 2))"

lemma safe_check_branch_eq: "safe_check_branch Hash hash b i = (if branch_ok Hash hash b i then check_branch Hash hash b i else 0)"
  by (induction b arbitrary: hash i) auto

lemma branch_ok_append:
  "0 \<le> i \<Longrightarrow> i < 2 ^ length b \<Longrightarrow>
   branch_ok Hash hash (b @ c) (i + k * 2 ^ length b) \<longleftrightarrow> branch_ok Hash hash b i \<and> branch_ok Hash (check_branch Hash hash b i) c k"
proof (induction b arbitrary: hash i)
  case (Cons x b)
  then show ?case using branch_index_step [of i k "length b"] Cons.IH [of "i div 2"] by (simp del: power_Suc) auto
next
  case Nil
  then have "i = 0" by simp
  then show ?case by simp
qed

lemma siblings_differ_up: "siblings_differ Hash xs \<Longrightarrow> length xs > 1 \<Longrightarrow> siblings_differ Hash (level_up Hash xs)"
  by (simp add: siblings_differ_def merkle_levels.simps [of Hash xs])

lemma siblings_differ_leaf:
  assumes "siblings_differ Hash xs" and "i < length xs" and "odd i"
  shows "xs ! (i - 1) \<noteq> xs ! i"
proof -
  obtain k where "i = 2 * k + 1" using assms(3) by (auto elim: oddE)
  moreover have "\<forall>k < length xs div 2. xs ! (2 * k) \<noteq> xs ! (2 * k + 1)"
    using assms(1) by (simp add: siblings_differ_def merkle_levels.simps [of Hash xs] list_all_iff)
  ultimately show ?thesis using assms(2) by auto
qed

lemma branch_ok_levels:
  assumes "siblings_differ Hash xs" and "i < length xs"
  shows "branch_ok Hash (xs ! i) (merkle_branch i (length xs) (length pre) (pre @ concat (merkle_levels Hash xs))) (int i)"
  using assms
proof (induction Hash xs arbitrary: i pre rule: merkle_levels.induct)
  case (1 Hash xs)
  show ?case
  proof (cases "length xs > 1")
    case True
    let ?s = "xs ! min (i XOR 1) (length xs - 1)"
    let ?t = "pre @ concat (merkle_levels Hash xs)"
    have t: "?t = (pre @ xs) @ concat (merkle_levels Hash (level_up Hash xs))" using True by (simp add: merkle_levels.simps [of Hash xs])
    have "?t ! (length pre + min (i XOR 1) (length xs - 1)) = ?s" using True unfolding t by (simp add: nth_append min_def) linarith
    then have b: "merkle_branch i (length xs) (length pre) ?t =
        ?s # merkle_branch (i div 2) (length (level_up Hash xs)) (length (pre @ xs)) ?t"
      using True by (subst merkle_branch.simps) simp
    have "odd i \<Longrightarrow> ?s \<noteq> xs ! i" using siblings_differ_leaf [OF 1(2,3)] 1(3) by (auto simp: xor_Suc_0_eq min_def)
    moreover have "i div 2 < length (level_up Hash xs)" using 1(3) by simp
    note 1(1) [OF True siblings_differ_up [OF 1(2) True] this, of "pre @ xs", folded t]
    ultimately show ?thesis
      using branch_node [OF 1(3) True, of Hash] by (cases "odd i") (simp_all add: b zdiv_int del: length_level_up)
  next
    case False
    then show ?thesis by (subst merkle_branch.simps) simp
  qed
qed

lemma length_merkle_branch: "length (merkle_branch i n j t) = tree_height n 0"
proof (induction i n j t rule: merkle_branch.induct)
  case (1 i n j t)
  then show ?case by (subst merkle_branch.simps) (simp add: tree_height_up tree_height_leaf)
qed

lemma less_tree_height: "i < n \<Longrightarrow> i < 2 ^ tree_height n 0"
  using tree_height_width [of n 0] width_iff [of 1 n "tree_height n 0"] by simp

text \<open>All about the branch of one leaf.\<close>

lemma branch_of_leaf:
  assumes "i < length xs"
    and b_def: "b = GetMerkleBranch i (length xs) (snd (snd (BuildMerkleTree Hash xs)))"
  shows "check_branch Hash (xs ! i) b (int i) = GetMerkleRoot Hash xs" and "length b = tree_height (length xs) 0"
    and "int i < 2 ^ length b" and "siblings_differ Hash xs \<Longrightarrow> branch_ok Hash (xs ! i) b (int i)"
proof -
  have b: "b = merkle_branch i (length xs) 0 (concat (merkle_levels Hash xs))"
    by (simp add: b_def GetMerkleBranch_def BuildMerkleTree_levels)
  show "check_branch Hash (xs ! i) b (int i) = GetMerkleRoot Hash xs" using check_branch_levels [OF assms(1), of Hash "[]"] by (simp add: b)
  show len: "length b = tree_height (length xs) 0" by (simp add: b length_merkle_branch)
  show "int i < 2 ^ length b" using less_tree_height [OF assms(1)] by (simp add: len)
  show "siblings_differ Hash xs \<Longrightarrow> branch_ok Hash (xs ! i) b (int i)" using branch_ok_levels [OF _ assms(1), of Hash "[]"] by (simp add: b)
qed

lemma concat_index_bound:
  fixes j k :: int
  assumes "0 \<le> j" "j < 2 ^ m" "0 \<le> k" "k < 2 ^ n" "m + n \<le> 31"
  shows "0 \<le> j + k * 2 ^ m" and "j + k * 2 ^ m < 2 ^ 31" and "k * 2 ^ m < 2 ^ 31"
proof -
  have "k * 2 ^ m \<le> (2 ^ n - 1) * 2 ^ m" using assms(4) by (intro mult_right_mono) auto
  also have "\<dots> = 2 ^ (m + n) - 2 ^ m" by (simp add: power_add algebra_simps)
  finally have "j + k * 2 ^ m < 2 ^ (m + n)" using assms(2) by simp
  also have "(2 :: int) ^ (m + n) \<le> 2 ^ 31" using assms(5) by (intro power_increasing) auto
  finally show "j + k * 2 ^ m < 2 ^ 31" .
  then show "k * 2 ^ m < 2 ^ 31" using assms(1) by simp
  show "0 \<le> j + k * 2 ^ m" using assms(1,3) by simp
qed

section \<open>Properties\<close>

text \<open>C14 A block's transactions are determined by its Merkle root: two lists of transactions with trees of the same
  height and the same root, neither of them flagged as mutated, are equal, as long as no node of the first tree has a second
  preimage. So the flag catches every way of padding a list with repeated transactions.\<close>
theorem merkle_root_unique:
  assumes "xs \<noteq> []" and "ys \<noteq> []" and "tree_height (length xs) 0 = tree_height (length ys) 0" and "no_second_preimage Hash xs"
    and "BuildMerkleTree Hash xs = (root, False, t)" and "BuildMerkleTree Hash ys = (root, False, u)"
  shows "xs = ys"
proof (rule root_determines [OF assms(1-4)])
  show "\<not> merkle_mutated Hash xs" "\<not> merkle_mutated Hash ys" using assms(5,6) by (simp_all add: BuildMerkleTree_levels)
  show "GetMerkleRoot Hash xs = GetMerkleRoot Hash ys" using assms(5,6) by (simp add: GetMerkleRoot_def)
qed

text \<open>A hash under which three transactions have no second preimages.\<close>

definition sample_hash :: node_hash where
  "sample_hash a b = (if a = 7 \<and> b = 8 then 29 else if a = 9 \<and> b = 9 then 36 else if a = 29 \<and> b = 36 then 123 else 0)"

lemma sample_hash_tree:
  "BuildMerkleTree sample_hash [7, 8, 9] = (123, False, [7, 8, 9, 29, 36, 123])" "no_second_preimage sample_hash [7, 8, 9]"
proof -
  show "BuildMerkleTree sample_hash [7, 8, 9] = (123, False, [7, 8, 9, 29, 36, 123])" by code_simp
  have p: "hashed_pairs sample_hash [7, 8, 9] = [(7, 8), (9, 9), (29, 36)]" by code_simp
  show "no_second_preimage sample_hash [7, 8, 9]"
    unfolding no_second_preimage_def p by (auto simp: sample_hash_def split: if_splits)
qed

theorem merkle_root_unique_witness:
  "BuildMerkleTree sample_hash [7, 8, 9, 9] \<noteq> (123, False, [7, 8, 9, 9, 29, 36, 123]) \<and> no_second_preimage sample_hash [7, 8, 9] \<and>
   fst (BuildMerkleTree sample_hash [7, 8, 9, 9]) = fst (BuildMerkleTree sample_hash [7, 8, 9])"
proof -
  have "tree_height (length [7, 8, 9 :: uint256]) 0 = tree_height (length [7, 8, 9, 9 :: uint256]) 0" by code_simp
  then have "BuildMerkleTree sample_hash [7, 8, 9, 9] \<noteq> (123, False, [7, 8, 9, 9, 29, 36, 123])"
    using merkle_root_unique [OF _ _ _ sample_hash_tree(2,1), of "[7, 8, 9, 9]"] by blast
  moreover have "fst (BuildMerkleTree sample_hash [7, 8, 9, 9]) = fst (BuildMerkleTree sample_hash [7, 8, 9])" by code_simp
  ultimately show ?thesis using sample_hash_tree(2) by blast
qed

text \<open>C17 Partial Merkle trees are sound: whatever bits and hashes a peer supplies for a block of known size, if the extraction
  returns the block's Merkle root, then every transaction it reports is in the block, in block order and none twice, as long as no node of the block's
  tree has a second preimage.\<close>
theorem partial_merkle_sound:
  assumes "ExtractMatches saplinght Hash t = (GetMerkleRoot Hash xs, ms)" and "GetMerkleRoot Hash xs \<noteq> 0"
    and "nTransactions t = length xs" and "no_second_preimage Hash xs"
  shows "\<exists>ps. ms = map ((!) xs) ps \<and> sorted_wrt (<) ps \<and> (\<forall>p\<in>set ps. p < length xs)"
proof -
  let ?h = "tree_height (length xs) 0"
  obtain r st where ex: "TraverseAndExtract Hash t ?h 0 \<lparr>nBitsUsed = 0, nHashUsed = 0, vMatched = [], ex_fBad = fBad t\<rparr> = (r, st)" by fastforce
  have ok: "r = GetMerkleRoot Hash xs" "\<not> ex_fBad st" "ms = vMatched st" "xs \<noteq> []"
    using assms(1-3) ex by (auto simp: ExtractMatches_def Let_def split: if_splits)
  have w: "0 < CalcTreeWidth (length xs) ?h" using ok(4) by (simp add: width_iff)
  have "TraverseAndExtract Hash t ?h 0 \<lparr>nBitsUsed = 0, nHashUsed = 0, vMatched = [], ex_fBad = fBad t\<rparr> = (CalcHash Hash xs ?h 0, st)"
    using ex ok(1) root_CalcHash [OF ok(4), of Hash] by simp
  from extract_sound [OF assms(3,4) w order.refl this ok(2)] show ?thesis unfolding picks_def ok(3) by auto
qed

theorem partial_merkle_sound_witness:
  "ExtractMatches 1 sample_hash \<lparr>nTransactions = 3, vBits = [True, False, True, True], vHash = [29, 9], fBad = False\<rparr> = (123, [9]) \<and>
   (\<exists>ps. [9] = map ((!) [7, 8, 9 :: uint256]) ps \<and> sorted_wrt (<) ps \<and> (\<forall>p\<in>set ps. p < length [7, 8, 9 :: uint256]))"
proof -
  let ?t = "\<lparr>nTransactions = 3, vBits = [True, False, True, True], vHash = [29, 9], fBad = False\<rparr>"
  have e: "ExtractMatches 1 sample_hash ?t = (123, [9])" by code_simp
  have "GetMerkleRoot sample_hash [7, 8, 9] = 123" using sample_hash_tree(1) by (simp add: GetMerkleRoot_def)
  then show ?thesis using partial_merkle_sound [OF _ _ _ sample_hash_tree(2), of 1 ?t "[9]"] e by simp
qed

end
