(* ===== verification/Hush_NotaryDB.thy ===== *)
theory Hush_NotaryDB
  imports Hush_Coinbase
begin

text \<open>
  The notarisation database (\<open>notarizationdb.cpp\<close>, with \<open>ConnectNotarizations\<close> and \<open>DisconnectNotarizations\<close> of \<open>main.cpp\<close>): the
  payload of a notarisation and its wire format (\<open>cc/eval.h\<close>), the \<open>OP_RETURN\<close> it is in (\<open>script/script.h\<close>, \<open>script/cc.cpp\<close>), the
  notaries' authority over a transaction (\<open>crosschain_authority.cpp\<close>, \<open>cc/eval.cpp\<close>) and the entries written and
  erased with the blocks. The transaction database is the parameter \<open>gt\<close>.
\<close>

section \<open>The payload in the script\<close>

text \<open>One operation of a script: opcode, data and the rest of the script.\<close>

definition op_size :: "byte \<Rightarrow> buffer \<Rightarrow> (nat \<times> buffer) option" where
  "op_size opcode pc =
     (if opcode < 0x4c then Some (unat opcode, pc)
      else if opcode = 0x4c then (if length pc < 1 then None else Some (unat (pc ! 0), drop 1 pc))
      else if opcode = 0x4d then (if length pc < 2 then None else Some (unat (le_word (take 2 pc) :: u16), drop 2 pc))
      else if length pc < 4 then None else Some (unat (le_word (take 4 pc) :: u32), drop 4 pc))"

definition GetOp2 :: "buffer \<Rightarrow> (byte \<times> buffer \<times> buffer) option" where
  "GetOp2 pc =
     (case pc of
        [] \<Rightarrow> None
      | opcode # pc \<Rightarrow>
          if opcode \<le> 0x4e
          then case op_size opcode pc of
              None \<Rightarrow> None
            | Some (nSize, pc) \<Rightarrow> if length pc < nSize then None else Some (opcode, take nSize pc, drop nSize pc)
          else Some (opcode, [], pc))"

definition GetOpReturnData :: "buffer \<Rightarrow> buffer option" where
  "GetOpReturnData sig =
     (case GetOp2 sig of
        Some (opcode, _, pc) \<Rightarrow>
          if opcode = 0x6a
          then case GetOp2 pc of
              Some (opcode, data, _) \<Rightarrow> if 0 < opcode \<and> opcode \<le> 0x4e then Some data else None
            | None \<Rightarrow> None
          else None
      | None \<Rightarrow> None)"

section \<open>Notarisation data\<close>

record NotarizationData =
  IsBackNotarization :: int
  nd_blockHash :: uint256
  nd_height :: u32
  nd_txHash :: uint256
  nd_symbol :: string
  nd_MoM :: uint256
  nd_MoMDepth :: u16
  nd_ccId :: u16
  nd_MoMoM :: uint256
  nd_MoMoMDepth :: u32

definition NotarizationData0 :: NotarizationData where
  "NotarizationData0 = \<lparr>IsBackNotarization = 2, nd_blockHash = 0, nd_height = 0, nd_txHash = 0, nd_symbol = [], nd_MoM = 0, nd_MoMDepth = 0,
     nd_ccId = 0, nd_MoMoM = 0, nd_MoMoMDepth = 0\<rparr>"

text \<open>Writing; the stream is never empty where its size is tested.\<close>

definition nd_write :: "NotarizationData \<Rightarrow> buffer" where
  "nd_write d =
     (let IsBack = (if IsBackNotarization d = 2 then nd_txHash d \<noteq> 0 else IsBackNotarization d \<noteq> 0) in
      le_bytes 32 (nd_blockHash d) @ le_bytes 4 (nd_height d) @ (if IsBack then le_bytes 32 (nd_txHash d) else []) @
      bytes_of (nd_symbol d) @ [0] @ le_bytes 32 (nd_MoM d) @ le_bytes 2 (nd_MoMDepth d) @ le_bytes 2 (nd_ccId d) @
      (if IsBack then le_bytes 32 (nd_MoMoM d) @ le_bytes 4 (nd_MoMoMDepth d) else []))"

text \<open>Reading a field; a short stream throws.\<close>

definition nd_field :: "nat \<Rightarrow> buffer \<Rightarrow> (buffer \<times> buffer) option" where
  "nd_field n s = (if length s < n then None else Some (take n s, drop n s))"

definition nd_readsymbol :: "buffer \<Rightarrow> (string \<times> buffer) option" where
  "nd_readsymbol s =
     (let readlen = min 64 (length s); k = length (takeWhile (\<lambda>b. b \<noteq> 0) (take readlen s))
      in if k < readlen then Some (cstr (take (k + 1) s), drop (k + 1) s) else None)"

text \<open>Bytes after the end of the stream are \<open>junk\<close>.\<close>

definition DetectBackNotarization :: "hush_params \<Rightarrow> bmem \<Rightarrow> buffer \<Rightarrow> bool" where
  "DetectBackNotarization G junk s \<longleftrightarrow>
     SMART_CHAIN_SYMBOL G \<noteq> [] \<or>
     length s \<ge> 72 \<and> (cstr_is (bmem_of s junk) 68 ''BTC'' \<or> cstr_is (bmem_of s junk) 68 ''HUSH3'')"

text \<open>The record read and the rest of the stream.\<close>

definition nd_read :: "hush_params \<Rightarrow> bmem \<Rightarrow> NotarizationData \<Rightarrow> buffer \<Rightarrow> (NotarizationData \<times> buffer) option" where
  "nd_read G junk d s =
     (let IsBack = (if IsBackNotarization d = 2 then DetectBackNotarization G junk s else IsBackNotarization d \<noteq> 0) in
      Option.bind (nd_field 32 s) (\<lambda>(h, s).
      Option.bind (nd_field 4 s) (\<lambda>(ht, s).
      Option.bind (if IsBack then nd_field 32 s else Some (le_bytes 32 (nd_txHash d), s)) (\<lambda>(tx, s).
      Option.bind (nd_readsymbol s) (\<lambda>(sy, s).
      let d = d\<lparr>nd_blockHash := le_word h, nd_height := le_word ht, nd_txHash := le_word tx, nd_symbol := sy\<rparr> in
      if s = [] then Some (d, s)
      else
        Option.bind (nd_field 32 s) (\<lambda>(mom, s).
        Option.bind (nd_field 2 s) (\<lambda>(dep, s).
        Option.bind (nd_field 2 s) (\<lambda>(cc, s).
        let d = d\<lparr>nd_MoM := le_word mom, nd_MoMDepth := le_word dep, nd_ccId := le_word cc\<rparr> in
        if s = [] then Some (d, s)
        else if IsBack
        then
          Option.bind (nd_field 32 s) (\<lambda>(mm, s).
          Option.bind (nd_field 4 s) (\<lambda>(md, s).
          Some (d\<lparr>nd_MoMoM := le_word mm, nd_MoMoMDepth := le_word md\<rparr>, s)))
        else Some (d, s)))))))))"

text \<open>\<open>E_UNMARSHAL\<close> wants the whole payload used up.\<close>

definition ParseNotarizationOpReturn :: "hush_params \<Rightarrow> bmem \<Rightarrow> block_tx \<Rightarrow> NotarizationData option" where
  "ParseNotarizationOpReturn G junk tx =
     (if length (tx_vout tx) < 2 then None
      else case GetOpReturnData (to_scriptPubKey (tx_vout tx ! 1)) of
          None \<Rightarrow> None
        | Some vdata \<Rightarrow>
            (case nd_read G junk NotarizationData0 vdata of
               Some (data, s) \<Rightarrow> if s = [] then Some data else None
             | None \<Rightarrow> None))"

section \<open>Authority\<close>

definition CROSSCHAIN_HUSH :: int where
  "CROSSCHAIN_HUSH = 1"

definition GetSymbolAuthority :: "string \<Rightarrow> int" where
  "GetSymbolAuthority sy = CROSSCHAIN_HUSH"

record CrosschainAuthority =
  au_notaries :: "pubkey33 list"
  au_requiredSigs :: int

text \<open>
  Each input in turn takes the first notary with its key that was not seen before. The test for the output number lets the number of
  outputs through, and then the script is read past the end: \<open>None\<close>.
\<close>

fun authority_loop :: "(uint256 \<Rightarrow> block_tx option) \<Rightarrow> pubkey33 list \<Rightarrow> nat list \<Rightarrow> (uint256 \<times> u32) list \<Rightarrow> bool option" where
  "authority_loop gt notaries seen [] = Some True"
| "authority_loop gt notaries seen ((hash, n) # vins) =
     (case gt hash of
        None \<Rightarrow> Some False
      | Some tx \<Rightarrow>
          if length (tx_vout tx) < unat n then Some False
          else if length (tx_vout tx) = unat n then None
          else
            let spk = to_scriptPubKey (tx_vout tx ! unat n) in
            if length spk \<noteq> 35 then Some False
            else if spk ! 0 \<noteq> 33 then Some False
            else if spk ! 34 \<noteq> 0xac then Some False
            else case List.find (\<lambda>i. i \<notin> set seen \<and> take 33 (drop 1 spk) = notaries ! i) [0..<length notaries] of
                None \<Rightarrow> Some False
              | Some i \<Rightarrow> authority_loop gt notaries (i # seen) vins)"

definition CheckTxAuthority :: "(uint256 \<Rightarrow> block_tx option) \<Rightarrow> block_tx \<Rightarrow> CrosschainAuthority \<Rightarrow> bool option" where
  "CheckTxAuthority gt tx auth =
     (if int (length (tx_vin tx)) < au_requiredSigs auth then Some False else authority_loop gt (au_notaries auth) [] (tx_vin tx))"

text \<open>When the notaries are not known the size is -1 and no input is a notary's.\<close>

definition CheckNotaryInputs ::
    "hush_params \<Rightarrow> chain_view \<Rightarrow> (uint256 \<Rightarrow> block_tx option) \<Rightarrow> block_tx \<Rightarrow> int \<Rightarrow> u32 \<Rightarrow> bool option" where
  "CheckNotaryInputs G ch gt tx height timestamp =
     (if length (tx_vin tx) < 11 then Some False
      else CheckTxAuthority gt tx
        \<lparr>au_notaries = (case hush_notaries G ch height timestamp of Some ks \<Rightarrow> ks | None \<Rightarrow> []), au_requiredSigs = 11\<rparr>)"

section \<open>The database\<close>

type_synonym Notarization = "uint256 \<times> NotarizationData"

text \<open>
  The sizes in front of vectors (\<open>serialize.h\<close>): a size that is not in its shortest form, or above \<open>MAX_SIZE\<close>, throws.
\<close>

definition MAX_SIZE :: nat where
  "MAX_SIZE = 0x02000000"

definition WriteCompactSize :: "nat \<Rightarrow> buffer" where
  "WriteCompactSize n =
     (if n < 253 then [word_of_nat n]
      else if n \<le> 0xFFFF then 253 # le_bytes 2 (word_of_nat n :: u16)
      else if n \<le> 0xFFFFFFFF then 254 # le_bytes 4 (word_of_nat n :: u32)
      else 255 # le_bytes 8 (word_of_nat n :: u64))"

definition ReadCompactSize :: "buffer \<Rightarrow> (nat \<times> buffer) option" where
  "ReadCompactSize s =
     (case s of
        [] \<Rightarrow> None
      | chSize # s \<Rightarrow>
          Option.bind
            (if chSize < 253 then Some (unat chSize, s)
             else if chSize = 253
             then Option.bind (nd_field 2 s) (\<lambda>(b, s). let n = unat (le_word b :: u16) in if n < 253 then None else Some (n, s))
             else if chSize = 254
             then Option.bind (nd_field 4 s) (\<lambda>(b, s). let n = unat (le_word b :: u32) in if n < 0x10000 then None else Some (n, s))
             else Option.bind (nd_field 8 s) (\<lambda>(b, s). let n = unat (le_word b :: u64) in if n < 0x100000000 then None else Some (n, s)))
            (\<lambda>(n, s). if n > MAX_SIZE then None else Some (n, s)))"

text \<open>
  One key space for two kinds of entries, both kept as bytes: the notarisations of a block under its hash, and a back-notarisation under the hash
  of the transaction it refers to. Reading an entry that does not deserialise fails (\<open>dbwrapper.h\<close>); bytes after the value are ignored. A
  notarisation is written with its \<open>txHash\<close> only if that is not null, but read with it on every named chain.
\<close>

type_synonym NotarizationDB = "uint256 \<Rightarrow> buffer option"

definition nota_write :: "Notarization \<Rightarrow> buffer" where
  "nota_write n = le_bytes 32 (fst n) @ nd_write (snd n)"

definition nota_read :: "hush_params \<Rightarrow> bmem \<Rightarrow> buffer \<Rightarrow> (Notarization \<times> buffer) option" where
  "nota_read G junk s =
     Option.bind (nd_field 32 s) (\<lambda>(h, s). map_option (\<lambda>(d, s). ((le_word h, d), s)) (nd_read G junk NotarizationData0 s))"

definition notas_write :: "Notarization list \<Rightarrow> buffer" where
  "notas_write ns = WriteCompactSize (length ns) @ concat (map nota_write ns)"

fun notas_loop :: "hush_params \<Rightarrow> bmem \<Rightarrow> nat \<Rightarrow> buffer \<Rightarrow> Notarization list option" where
  "notas_loop G junk 0 s = Some []"
| "notas_loop G junk (Suc n) s = Option.bind (nota_read G junk s) (\<lambda>(x, s). map_option (Cons x) (notas_loop G junk n s))"

definition notas_read :: "hush_params \<Rightarrow> bmem \<Rightarrow> buffer \<Rightarrow> Notarization list option" where
  "notas_read G junk s = Option.bind (ReadCompactSize s) (\<lambda>(n, s). notas_loop G junk n s)"

text \<open>\<open>startheight\<close> is the argument \<open>-dpow-start-height\<close>, 365420 by default. \<open>None\<close> is a read out of bounds.\<close>

fun scan_txs ::
    "hush_params \<Rightarrow> chain_view \<Rightarrow> (uint256 \<Rightarrow> block_tx option) \<Rightarrow> bmem \<Rightarrow> int \<Rightarrow> u32 \<Rightarrow> block_tx list \<Rightarrow> Notarization list option" where
  "scan_txs G ch gt junk nHeight nTime [] = Some []"
| "scan_txs G ch gt junk nHeight nTime (tx # vtx) =
     (case ParseNotarizationOpReturn G junk tx of
        None \<Rightarrow> scan_txs G ch gt junk nHeight nTime vtx
      | Some data \<Rightarrow>
          if nd_symbol data = [] then scan_txs G ch gt junk nHeight nTime vtx
          else
            (case (if GetSymbolAuthority (nd_symbol data) = CROSSCHAIN_HUSH then CheckNotaryInputs G ch gt tx nHeight nTime else Some True) of
               None \<Rightarrow> None
             | Some False \<Rightarrow> scan_txs G ch gt junk nHeight nTime vtx
             | Some True \<Rightarrow> map_option (Cons (tx_hash tx, data)) (scan_txs G ch gt junk nHeight nTime vtx)))"

definition ScanBlockNotarizations ::
    "hush_params \<Rightarrow> chain_view \<Rightarrow> (uint256 \<Rightarrow> block_tx option) \<Rightarrow> bmem \<Rightarrow> int \<Rightarrow> u32 \<Rightarrow> block_tx list \<Rightarrow> int \<Rightarrow> Notarization list option" where
  "ScanBlockNotarizations G ch gt junk startheight nTime vtx nHeight =
     (if take 5 (SMART_CHAIN_SYMBOL G) = ''HUSH3'' \<and> nHeight \<le> startheight then Some []
      else scan_txs G ch gt junk nHeight nTime vtx)"

definition GetBlockNotarizations :: "hush_params \<Rightarrow> bmem \<Rightarrow> NotarizationDB \<Rightarrow> uint256 \<Rightarrow> Notarization list option" where
  "GetBlockNotarizations G junk db blockHash = Option.bind (db blockHash) (notas_read G junk)"

definition GetBackNotarization :: "hush_params \<Rightarrow> bmem \<Rightarrow> NotarizationDB \<Rightarrow> uint256 \<Rightarrow> Notarization option" where
  "GetBackNotarization G junk db notarizationHash = map_option fst (Option.bind (db notarizationHash) (nota_read G junk))"

definition WriteBackNotarizations :: "Notarization list \<Rightarrow> NotarizationDB \<Rightarrow> NotarizationDB" where
  "WriteBackNotarizations notarizations db =
     fold (\<lambda>n db. if nd_txHash (snd n) \<noteq> 0 then db(nd_txHash (snd n) := Some (nota_write n)) else db) notarizations db"

definition EraseBackNotarizations :: "Notarization list \<Rightarrow> NotarizationDB \<Rightarrow> NotarizationDB" where
  "EraseBackNotarizations notarizations db =
     fold (\<lambda>n db. if nd_txHash (snd n) \<noteq> 0 then db(nd_txHash (snd n) := None) else db) notarizations db"

definition ConnectNotarizations ::
    "hush_params \<Rightarrow> chain_view \<Rightarrow> (uint256 \<Rightarrow> block_tx option) \<Rightarrow> bmem \<Rightarrow> int \<Rightarrow> uint256 \<Rightarrow> u32 \<Rightarrow> block_tx list \<Rightarrow> int \<Rightarrow> NotarizationDB
      \<Rightarrow> NotarizationDB option" where
  "ConnectNotarizations G ch gt junk startheight hash nTime vtx height db =
     (case ScanBlockNotarizations G ch gt junk startheight nTime vtx height of
        None \<Rightarrow> None
      | Some notarizations \<Rightarrow>
          Some (if notarizations \<noteq> [] then WriteBackNotarizations notarizations (db(hash := Some (notas_write notarizations))) else db))"

definition DisconnectNotarizations :: "hush_params \<Rightarrow> bmem \<Rightarrow> uint256 \<Rightarrow> NotarizationDB \<Rightarrow> NotarizationDB" where
  "DisconnectNotarizations G junk hash db =
     (case GetBlockNotarizations G junk db hash of
        None \<Rightarrow> db
      | Some nibs \<Rightarrow> EraseBackNotarizations nibs (db(hash := None)))"

text \<open>The backward search for a symbol: height found, or 0, and the notarisation. A missing block is a crash.\<close>

fun scandb_loop :: "hush_params \<Rightarrow> bmem \<Rightarrow> chain_view \<Rightarrow> NotarizationDB \<Rightarrow> string \<Rightarrow> int \<Rightarrow> nat list \<Rightarrow> (int \<times> Notarization option) option" where
  "scandb_loop G junk ch db sy height [] = Some (0, None)"
| "scandb_loop G junk ch db sy height (i # is) =
     (if int i > height then Some (0, None)
      else case chain_at ch (height - int i) of
          None \<Rightarrow> None
        | Some pindex \<Rightarrow>
            (case GetBlockNotarizations G junk db (bi_hash pindex) of
               None \<Rightarrow> scandb_loop G junk ch db sy height is
             | Some notarizations \<Rightarrow>
                 (case List.find (\<lambda>n. nd_symbol (snd n) = sy) notarizations of
                    Some nota \<Rightarrow> Some (height - int i, Some nota)
                  | None \<Rightarrow> scandb_loop G junk ch db sy height is)))"

definition ScanNotarizationsDB :: "hush_params \<Rightarrow> bmem \<Rightarrow> chain_view \<Rightarrow> NotarizationDB \<Rightarrow> int \<Rightarrow> string \<Rightarrow> int \<Rightarrow> (int \<times> Notarization option) option" where
  "ScanNotarizationsDB G junk ch db height sy scanLimitBlocks =
     (if height < 0 \<or> height > int (length (chainActive ch)) - 1 then Some (0, None)
      else scandb_loop G junk ch db sy height [0..<nat scanLimitBlocks])"

section \<open>Lemmas\<close>

text \<open>An input that spends a pay-to-pubkey output of a notary.\<close>

definition spends_key :: "(uint256 \<Rightarrow> block_tx option) \<Rightarrow> pubkey33 list \<Rightarrow> uint256 \<times> u32 \<Rightarrow> nat \<Rightarrow> bool" where
  "spends_key gt ks vin i \<longleftrightarrow>
     i < length ks \<and> (case gt (fst vin) of
        None \<Rightarrow> False
      | Some tx \<Rightarrow> unat (snd vin) < length (tx_vout tx) \<and> to_scriptPubKey (tx_vout tx ! unat (snd vin)) = pubkey_script (ks ! i))"

lemma pubkey_script_iff:
  assumes "length key = 33"
  shows "spk = pubkey_script key \<longleftrightarrow> length spk = 35 \<and> spk ! 0 = 33 \<and> spk ! 34 = 0xac \<and> take 33 (drop 1 spk) = key"
proof
  assume "spk = pubkey_script key"
  then show "length spk = 35 \<and> spk ! 0 = 33 \<and> spk ! 34 = 0xac \<and> take 33 (drop 1 spk) = key"
    using assms by (simp add: pubkey_script_def nth_append)
next
  assume *: "length spk = 35 \<and> spk ! 0 = 33 \<and> spk ! 34 = 0xac \<and> take 33 (drop 1 spk) = key"
  then obtain a r where r: "spk = a # r" by (cases spk) auto
  have "length r = 34" "a = 33" "take 33 r = key" "r ! 33 = 0xac" using * r by (simp_all add: nth_Cons')
  moreover have "r = take 33 r @ [r ! 33]" using \<open>length r = 34\<close> take_Suc_conv_app_nth [of 33 r] by simp
  ultimately show "spk = pubkey_script key" using r by (simp add: pubkey_script_def)
qed

lemma authority_loop_iff:
  assumes ks: "distinct ks" "\<forall>k\<in>set ks. length k = 33"
  shows "authority_loop gt ks seen vins = Some True \<longleftrightarrow>
     (\<exists>ids. distinct ids \<and> set ids \<inter> set seen = {} \<and> list_all2 (spends_key gt ks) vins ids)"
proof (induction vins arbitrary: seen)
  case (Cons vin vins)
  obtain hash n where vin: "vin = (hash, n)" by fastforce
  have uniq: "i = j" if "spends_key gt ks vin i" "spends_key gt ks vin j" for i j
    using that ks by (auto simp: spends_key_def pubkey_script_def nth_eq_iff_index_eq split: option.splits)
  let ?P = "\<lambda>i. i \<notin> set seen \<and> spends_key gt ks vin i"
  have step: "authority_loop gt ks seen (vin # vins) = Some True \<longleftrightarrow> (\<exists>i. ?P i \<and> authority_loop gt ks (i # seen) vins = Some True)"
  proof (cases "gt hash")
    case None
    then show ?thesis by (simp add: vin spends_key_def)
  next
    case (Some tx)
    let ?spk = "to_scriptPubKey (tx_vout tx ! unat n)"
    show ?thesis
    proof (cases "unat n < length (tx_vout tx) \<and> length ?spk = 35 \<and> ?spk ! 0 = 33 \<and> ?spk ! 34 = 0xac")
      case True
      have sp: "spends_key gt ks vin i \<longleftrightarrow> i < length ks \<and> take 33 (drop 1 ?spk) = ks ! i" for i
        using True Some ks(2) pubkey_script_iff [of "ks ! i" ?spk] by (auto simp: spends_key_def vin)
      have "authority_loop gt ks seen (vin # vins) =
          (case List.find ?P [0..<length ks] of None \<Rightarrow> Some False | Some i \<Rightarrow> authority_loop gt ks (i # seen) vins)"
      proof -
        have "List.find (\<lambda>i. i \<notin> set seen \<and> take 33 (drop 1 ?spk) = ks ! i) [0..<length ks] = List.find ?P [0..<length ks]"
          by (rule find_cong) (auto simp: sp)
        then show ?thesis using True Some by (simp add: vin Let_def)
      qed
      then show ?thesis
      proof (cases "List.find ?P [0..<length ks]")
        case None
        then have "\<not> (\<exists>i. ?P i)" by (auto simp: find_None_iff spends_key_def)
        then show ?thesis using None \<open>authority_loop gt ks seen (vin # vins) = _\<close> by auto
      next
        case (Some i)
        then have "?P i" by (auto simp: find_Some_iff)
        then show ?thesis using Some uniq \<open>authority_loop gt ks seen (vin # vins) = _\<close> by auto
      qed
    next
      case False
      then have "authority_loop gt ks seen (vin # vins) \<noteq> Some True" using Some by (auto simp: vin Let_def)
      moreover have "\<not> spends_key gt ks vin i" for i
        using False Some ks(2) pubkey_script_iff [of "ks ! i" ?spk] by (auto simp: spends_key_def vin)
      ultimately show ?thesis by blast
    qed
  qed
  show ?case
  proof
    assume "authority_loop gt ks seen (vin # vins) = Some True"
    then obtain i ids where "?P i" "distinct ids" "set ids \<inter> set (i # seen) = {}" "list_all2 (spends_key gt ks) vins ids"
      using step Cons.IH by blast
    then show "\<exists>ids. distinct ids \<and> set ids \<inter> set seen = {} \<and> list_all2 (spends_key gt ks) (vin # vins) ids"
      by (intro exI [of _ "i # ids"]) auto
  next
    assume "\<exists>ids. distinct ids \<and> set ids \<inter> set seen = {} \<and> list_all2 (spends_key gt ks) (vin # vins) ids"
    then obtain i ids where "distinct (i # ids)" "set (i # ids) \<inter> set seen = {}" "spends_key gt ks vin i" "list_all2 (spends_key gt ks) vins ids"
      by (auto simp: list_all2_Cons1)
    then have "?P i" "distinct ids \<and> set ids \<inter> set (i # seen) = {} \<and> list_all2 (spends_key gt ks) vins ids" by auto
    then show "authority_loop gt ks seen (vin # vins) = Some True" using step Cons.IH by blast
  qed
qed simp

text \<open>The whole payload of a notarisation is read back.\<close>

lemma nd_field_append [simp]: "length a = n \<Longrightarrow> nd_field n (a @ r) = Some (a, r)"
  by (simp add: nd_field_def)

lemma nd_field_exact [simp]: "length a = n \<Longrightarrow> nd_field n a = Some (a, [])"
  by (simp add: nd_field_def)

lemma nd_readsymbol_write:
  assumes "nul \<notin> set sy" and "length sy < 64"
  shows "nd_readsymbol (bytes_of sy @ 0 # r) = Some (sy, r)"
proof -
  have nz: "\<forall>b\<in>set (bytes_of sy). b \<noteq> 0" using bytes_of_nz [OF assms(1)] by auto
  have "take (min 64 (length (bytes_of sy @ 0 # r))) (bytes_of sy @ 0 # r) = bytes_of sy @ 0 # take (min 64 (length sy + 1 + length r) - length sy - 1) r"
    using assms(2) by (simp add: take_Cons')
  then have k: "length (takeWhile (\<lambda>b. b \<noteq> 0) (take (min 64 (length (bytes_of sy @ 0 # r))) (bytes_of sy @ 0 # r))) = length sy"
    using nz by (simp add: takeWhile_append2)
  moreover have "take (length sy + 1) (bytes_of sy @ 0 # r) = bytes_of sy @ 0 # []" by simp
  then have "cstr (take (length sy + 1) (bytes_of sy @ 0 # r)) = sy" using cstr_bytes_of [OF assms(1), of "[]"] by simp
  ultimately show ?thesis using assms(2) unfolding nd_readsymbol_def Let_def k by simp
qed

lemma nd_read_write:
  assumes "SMART_CHAIN_SYMBOL G \<noteq> []" and "IsBackNotarization d = 2" and "nd_txHash d \<noteq> 0"
    and "nul \<notin> set (nd_symbol d)" and "length (nd_symbol d) < 64"
  shows "nd_read G junk NotarizationData0 (nd_write d @ r) = Some (d, r)"
proof -
  have w: "nd_write d @ r = le_bytes 32 (nd_blockHash d) @ le_bytes 4 (nd_height d) @ le_bytes 32 (nd_txHash d) @ bytes_of (nd_symbol d) @ 0 #
      le_bytes 32 (nd_MoM d) @ le_bytes 2 (nd_MoMDepth d) @ le_bytes 2 (nd_ccId d) @ le_bytes 32 (nd_MoMoM d) @ le_bytes 4 (nd_MoMoMDepth d) @ r"
    using assms(2,3) by (simp add: nd_write_def)
  have b: "IsBackNotarization NotarizationData0 = 2" "DetectBackNotarization G junk s" for s
    using assms(1) by (simp_all add: NotarizationData0_def DetectBackNotarization_def)
  have ne: "le_bytes 32 x \<noteq> []" for x :: uint256
  proof -
    have "length (le_bytes 32 x) = 32" by simp
    then show ?thesis by (metis list.size(3) zero_neq_numeral)
  qed
  show ?thesis
    unfolding w nd_read_def Let_def
    using assms(2) ne b(2) by (simp add: nd_readsymbol_write [OF assms(4,5)] NotarizationData0_def)
qed

text \<open>Sizes and entries of the database read back what was written, up to the null \<open>txHash\<close>.\<close>

lemma ReadCompactSize_write: "n \<le> MAX_SIZE \<Longrightarrow> ReadCompactSize (WriteCompactSize n @ r) = Some (n, r)"
proof -
  assume n: "n \<le> MAX_SIZE"
  have "unat (word_of_nat n :: byte) = n" "(word_of_nat n :: byte) < 253" if "n < 253"
    using that by (simp_all add: unat_of_nat word_less_nat_alt)
  moreover have "unat (word_of_nat n :: u16) = n" if "n \<le> 0xFFFF"
    using that by (simp add: unat_of_nat)
  moreover have "unat (word_of_nat n :: u32) = n"
    using n by (simp add: unat_of_nat MAX_SIZE_def)
  ultimately show ?thesis
    using n by (auto simp: ReadCompactSize_def WriteCompactSize_def MAX_SIZE_def Let_def)
qed

definition nota_ok :: "Notarization \<Rightarrow> bool" where
  "nota_ok n \<longleftrightarrow> IsBackNotarization (snd n) = 2 \<and> nul \<notin> set (nd_symbol (snd n)) \<and> length (nd_symbol (snd n)) < 64"

lemma nota_read_write:
  "SMART_CHAIN_SYMBOL G \<noteq> [] \<Longrightarrow> nota_ok n \<Longrightarrow> nd_txHash (snd n) \<noteq> 0 \<Longrightarrow> nota_read G junk (nota_write n @ r) = Some (n, r)"
  using nd_read_write [of G "snd n" junk r] by (simp add: nota_read_def nota_write_def nota_ok_def)

lemma notas_read_write:
  assumes "SMART_CHAIN_SYMBOL G \<noteq> []" "\<forall>n \<in> set ns. nota_ok n \<and> nd_txHash (snd n) \<noteq> 0" "length ns \<le> MAX_SIZE"
  shows "notas_read G junk (notas_write ns) = Some ns"
proof -
  have "notas_loop G junk (length ns) (concat (map nota_write ns)) = Some ns"
    using assms(2)
  proof (induction ns)
    case (Cons n ns)
    then show ?case
      using nota_read_write [OF assms(1), of n junk] by simp
  qed simp
  then show ?thesis
    using ReadCompactSize_write [OF assms(3)] by (simp add: notas_read_def notas_write_def)
qed

lemma cstr_props: "nul \<notin> set (cstr bs) \<and> length (cstr bs) \<le> length bs"
proof -
  have "char_of (unat b) \<noteq> nul" if "b \<noteq> 0" for b :: byte
  proof
    assume "char_of (unat b) = nul"
    then have "of_char (char_of (unat b) :: char) = (0 :: nat)"
      by (simp add: nul_def)
    moreover have "unat b < 256"
      using unsigned_less [of b] by simp
    ultimately show False
      using that by (simp add: unat_eq_zero)
  qed
  then have "nul \<notin> set (cstr bs)"
    unfolding cstr_def by (auto dest!: set_takeWhileD) metis
  then show ?thesis
    by (simp add: cstr_def length_takeWhile_le)
qed

lemma takeWhile_of_take: "takeWhile P (take m xs) = take m (takeWhile P xs)"
  by (induction xs arbitrary: m) (auto simp: take_Cons')

lemma readsymbol_props:
  assumes "nd_readsymbol s = Some (sy, r)"
  shows "nul \<notin> set sy \<and> length sy < 64"
proof -
  let ?n = "min 64 (length s)"
  let ?k = "length (takeWhile (\<lambda>b. b \<noteq> 0) (take ?n s))"
  have sy: "sy = cstr (take (?k + 1) s)" "?k < ?n"
    using assms by (auto simp: nd_readsymbol_def Let_def split: if_splits)
  have "take (?k + 1) s = take (?k + 1) (take ?n s)"
    using sy(2) by (simp add: min_def)
  then have "length sy = ?k"
    unfolding sy(1) by (simp add: cstr_def takeWhile_of_take)
  then show ?thesis
    using sy cstr_props by simp
qed

lemma bind_SomeE: "Option.bind m f = Some y \<Longrightarrow> (\<And>x. m = Some x \<Longrightarrow> f x = Some y \<Longrightarrow> thesis) \<Longrightarrow> thesis"
  by (cases m) auto

lemma nd_read_ok: "nd_read G junk NotarizationData0 s = Some (d, r) \<Longrightarrow> nota_ok (h, d)"
proof -
  assume "nd_read G junk NotarizationData0 s = Some (d, r)"
  moreover have "IsBackNotarization NotarizationData0 = 2"
    by (simp add: NotarizationData0_def)
  ultimately show ?thesis
    unfolding nd_read_def Let_def case_prod_unfold nota_ok_def
    by (elim bind_SomeE) (auto elim!: bind_SomeE split: if_splits dest!: readsymbol_props)
qed

lemma scan_txs_ok: "scan_txs G ch gt junk nHeight nTime vtx = Some ns \<Longrightarrow> \<forall>n \<in> set ns. nota_ok n"
proof (induction vtx arbitrary: ns)
  case (Cons tx vtx)
  have "nota_ok (h, d)" if "ParseNotarizationOpReturn G junk tx = Some d" for d h
    using that nd_read_ok by (auto simp: ParseNotarizationOpReturn_def split: if_splits option.splits)
  then show ?case
    using Cons by (fastforce split: option.splits if_splits bool.splits)
qed simp

text \<open>What the two batches do to one key.\<close>

definition back_keys :: "Notarization list \<Rightarrow> uint256 set" where
  "back_keys ns = (\<lambda>n. nd_txHash (snd n)) ` set ns - {0}"

lemma WriteBack_other: "k \<notin> back_keys ns \<Longrightarrow> WriteBackNotarizations ns db k = db k"
  unfolding WriteBackNotarizations_def back_keys_def by (induction ns arbitrary: db) auto

lemma EraseBack_at: "EraseBackNotarizations ns db k = (if k \<in> back_keys ns then None else db k)"
  unfolding EraseBackNotarizations_def back_keys_def by (induction ns arbitrary: db) auto

lemma parse_pushed:
  assumes "SMART_CHAIN_SYMBOL G \<noteq> []" and "IsBackNotarization d = 2" and "nd_txHash d \<noteq> 0"
    and "nul \<notin> set (nd_symbol d)" and "length (nd_symbol d) < 64"
  shows "Option.bind (GetOpReturnData (0x6a # 0x4c # word_of_nat (length (nd_write d)) # nd_write d)) (nd_read G junk NotarizationData0) = Some (d, [])"
proof -
  have "length (nd_write d) < 256" using assms(5) by (simp add: nd_write_def Let_def)
  then have n: "unat (word_of_nat (length (nd_write d)) :: byte) = length (nd_write d)" by (simp add: unat_of_nat)
  have "GetOpReturnData (0x6a # 0x4c # word_of_nat (length (nd_write d)) # nd_write d) = Some (nd_write d)"
    unfolding GetOpReturnData_def GetOp2_def op_size_def by (simp add: n)
  then show ?thesis using nd_read_write [OF assms, of junk "[]"] by simp
qed

lemma ParseNotarization_bind:
  "tx_vout tx = v0 # v1 # vs \<Longrightarrow> Option.bind (GetOpReturnData (to_scriptPubKey v1)) (nd_read G junk NotarizationData0) = Some (d, []) \<Longrightarrow>
   ParseNotarizationOpReturn G junk tx = Some d"
  by (cases "GetOpReturnData (to_scriptPubKey v1)") (simp_all add: ParseNotarizationOpReturn_def)

section \<open>An example\<close>

text \<open>A transaction of the first eleven notaries that notarises block 5 of \<open>ZDEEX\<close>.\<close>

definition sample_data :: NotarizationData where
  "sample_data = NotarizationData0\<lparr>nd_blockHash := 1, nd_height := 5, nd_txHash := 77, nd_symbol := ''ZDEEX'', nd_MoM := 9, nd_MoMDepth := 3\<rparr>"

definition notary_outputs :: "uint256 \<Rightarrow> block_tx option" where
  "notary_outputs h = Some \<lparr>tx_hash = h, tx_vin = [], tx_vout = map (\<lambda>k. \<lparr>to_scriptPubKey = pubkey_script k, to_nValue = 9\<rparr>) (hush_pubkeys 7)\<rparr>"

definition notary_tx :: block_tx where
  "notary_tx = \<lparr>tx_hash = 6, tx_vin = map (\<lambda>k. (5, word_of_nat k)) [0..<11],
     tx_vout = [\<lparr>to_scriptPubKey = [], to_nValue = 0\<rparr>,
       \<lparr>to_scriptPubKey = 0x6a # 0x4c # word_of_nat (length (nd_write sample_data)) # nd_write sample_data, to_nValue = 0\<rparr>]\<rparr>"

lemma notary_tx_spends: "list_all2 (spends_key notary_outputs (hush_pubkeys 7)) (tx_vin notary_tx) [0..<11]"
proof -
  have "length (hush_pubkeys 7) = 64" using hush_pubkeys_shape [of 7] by simp
  moreover have "unat (word_of_nat k :: u32) = k" if "k < 11" for k using that by (simp add: unat_of_nat)
  ultimately have "spends_key notary_outputs (hush_pubkeys 7) (5, word_of_nat k) k" if "k < 11" for k
    using that by (simp add: spends_key_def notary_outputs_def)
  then show ?thesis by (simp add: notary_tx_def list_all2_map1 list_all2_same del: upt_rec_numeral)
qed

lemma notary_tx_parsed: "ParseNotarizationOpReturn hush3_params junk notary_tx = Some sample_data"
proof (rule ParseNotarization_bind)
  show "tx_vout notary_tx = \<lparr>to_scriptPubKey = [], to_nValue = 0\<rparr> #
      \<lparr>to_scriptPubKey = 0x6a # 0x4c # word_of_nat (length (nd_write sample_data)) # nd_write sample_data, to_nValue = 0\<rparr> # []"
    by (simp add: notary_tx_def)
  have "SMART_CHAIN_SYMBOL hush3_params \<noteq> []" "IsBackNotarization sample_data = 2" "nd_txHash sample_data \<noteq> 0"
    "nul \<notin> set (nd_symbol sample_data)" "length (nd_symbol sample_data) < 64"
    by (simp_all add: sample_data_def NotarizationData0_def hush3_params_def nul_def)
  from parse_pushed [OF this, of junk] show "Option.bind (GetOpReturnData (to_scriptPubKey
      \<lparr>to_scriptPubKey = 0x6a # 0x4c # word_of_nat (length (nd_write sample_data)) # nd_write sample_data, to_nValue = 0\<rparr>))
      (nd_read hush3_params junk NotarizationData0) = Some (sample_data, [])" by simp
qed

lemma notary_tx_scanned:
  "ScanBlockNotarizations hush3_params ch notary_outputs junk 365420 t [notary_tx] 400000 = Some [(6, sample_data)]"
proof -
  have "\<forall>k\<in>set (hush_pubkeys 7). length k = 33" using hush_pubkeys_shape [of 7] by simp
  then have "authority_loop notary_outputs (hush_pubkeys 7) [] (tx_vin notary_tx) = Some True"
    using authority_loop_iff [OF distinct_hush_pubkeys_7] notary_tx_spends by (metis distinct_upt inf_bot_right list.set(1))
  moreover have "hush_notaries hush3_params ch 400000 t = Some (hush_pubkeys 7)" by (rule hush_notaries_late) (simp_all add: hush3_params_def)
  moreover have "length (tx_vin notary_tx) = 11" by (simp add: notary_tx_def)
  ultimately have "CheckNotaryInputs hush3_params ch notary_outputs notary_tx 400000 t = Some True"
    by (simp add: CheckNotaryInputs_def CheckTxAuthority_def)
  then show ?thesis
    by (simp add: ScanBlockNotarizations_def notary_tx_parsed GetSymbolAuthority_def) (simp add: notary_tx_def sample_data_def)
qed

section \<open>Properties\<close>

text \<open>C21 Authority of the notaries: on the main chain above block 340000 the inputs of a transaction pass if and only if there are at least 11 and
  they spend pay-to-pubkey outputs of pairwise different notaries of the set in force.\<close>
theorem notary_inputs:
  assumes "take 5 (SMART_CHAIN_SYMBOL G) = ''HUSH3''" and "340000 < height"
  shows "CheckNotaryInputs G ch gt tx height timestamp = Some True \<longleftrightarrow>
     11 \<le> length (tx_vin tx) \<and> (\<exists>ids. distinct ids \<and> list_all2 (spends_key gt (hush_pubkeys 7)) (tx_vin tx) ids)"
proof -
  have "\<forall>k\<in>set (hush_pubkeys 7). length k = 33" using hush_pubkeys_shape [of 7] by simp
  from authority_loop_iff [OF distinct_hush_pubkeys_7 this, of gt "[]"] show ?thesis
    by (auto simp: CheckNotaryInputs_def CheckTxAuthority_def hush_notaries_late [OF assms])
qed

theorem notary_inputs_witness: "\<forall>ch t. CheckNotaryInputs hush3_params ch notary_outputs notary_tx 400000 t = Some True"
proof (intro allI)
  fix ch t
  have "11 \<le> length (tx_vin notary_tx)" "distinct [0..<11]" by (simp_all add: notary_tx_def)
  then show "CheckNotaryInputs hush3_params ch notary_outputs notary_tx 400000 t = Some True"
    using notary_inputs [of hush3_params 400000 ch notary_outputs notary_tx t] notary_tx_spends by (auto simp: hush3_params_def)
qed

text \<open>A notarisation read back: the payload of a back-notarisation, pushed after \<open>OP_RETURN\<close> in the second output of a transaction, is parsed to
  the same data on every named chain, whatever follows in memory.\<close>
theorem notarization_data_roundtrip:
  assumes "SMART_CHAIN_SYMBOL G \<noteq> []" and "IsBackNotarization d = 2" and "nd_txHash d \<noteq> 0"
    and "nul \<notin> set (nd_symbol d)" and "length (nd_symbol d) < 64"
    and "tx_vout tx = v0 # \<lparr>to_scriptPubKey = 0x6a # 0x4c # word_of_nat (length (nd_write d)) # nd_write d, to_nValue = val\<rparr> # vs"
  shows "ParseNotarizationOpReturn G junk tx = Some d"
  by (rule ParseNotarization_bind [OF assms(6)]) (simp add: parse_pushed [OF assms(1-5)])

theorem notarization_data_roundtrip_witness: "\<forall>junk. ParseNotarizationOpReturn hush3_params junk notary_tx = Some sample_data"
  using notarization_data_roundtrip [of hush3_params sample_data notary_tx "\<lparr>to_scriptPubKey = [], to_nValue = 0\<rparr>" 0 "[]"]
  by (simp add: notary_tx_def sample_data_def NotarizationData0_def hush3_params_def nul_def)

text \<open>C39 On a named chain, disconnecting a block whose notarisations all refer to a transaction undoes the database entries of connecting it if and only if
  connecting it overwrote no entry: an overwritten back-notarisation is erased, not restored. The entries are the bytes that are stored, and the block's own entry is read back from
  them. (The block's own entry must be new, none of its references may be its own hash, and there are at most \<open>MAX_SIZE\<close> of them. For a notarisation with a null reference see
  \<open>null_txhash_unreadable\<close>.)\<close>
theorem notarizationdb_reorg:
  assumes "SMART_CHAIN_SYMBOL G \<noteq> []" and "ScanBlockNotarizations G ch gt junk start nTime vtx height = Some ns" and "db hash = None"
    and "\<forall>n\<in>set ns. nd_txHash (snd n) \<noteq> hash \<and> nd_txHash (snd n) \<noteq> 0" and "length ns \<le> MAX_SIZE"
  shows "map_option (DisconnectNotarizations G junk' hash) (ConnectNotarizations G ch gt junk start hash nTime vtx height db) = Some db \<longleftrightarrow>
     (\<forall>n\<in>set ns. db (nd_txHash (snd n)) = None)"
proof (cases "ns = []")
  case True
  then show ?thesis using assms(2,3) by (simp add: ConnectNotarizations_def DisconnectNotarizations_def GetBlockNotarizations_def)
next
  case False
  let ?c = "WriteBackNotarizations ns (db(hash := Some (notas_write ns)))"
  have "\<forall>n\<in>set ns. nota_ok n"
    using assms(2) scan_txs_ok by (auto simp: ScanBlockNotarizations_def split: if_splits)
  then have "notas_read G junk' (notas_write ns) = Some ns" using notas_read_write [OF assms(1) _ assms(5)] assms(4) by blast
  moreover have "hash \<notin> back_keys ns" using assms(4) by (auto simp: back_keys_def)
  ultimately have "GetBlockNotarizations G junk' ?c hash = Some ns" by (simp add: GetBlockNotarizations_def WriteBack_other)
  then have "DisconnectNotarizations G junk' hash ?c k = (if k \<in> back_keys ns then None else db k)" for k
    using assms(3) WriteBack_other [of k ns "db(hash := Some (notas_write ns))"] by (auto simp: DisconnectNotarizations_def EraseBack_at)
  then have "DisconnectNotarizations G junk' hash ?c = db \<longleftrightarrow> (\<forall>k\<in>back_keys ns. db k = None)" by (auto simp: fun_eq_iff)
  moreover have "ConnectNotarizations G ch gt junk start hash nTime vtx height db = Some ?c" using assms(2) False by (simp add: ConnectNotarizations_def)
  moreover have "(\<forall>k\<in>back_keys ns. db k = None) \<longleftrightarrow> (\<forall>n\<in>set ns. db (nd_txHash (snd n)) = None)"
    using assms(4) by (auto simp: back_keys_def)
  ultimately show ?thesis by simp
qed

theorem notarizationdb_reorg_witness:
  "\<forall>ch junk junk' t. map_option (DisconnectNotarizations hush3_params junk' 3)
       (ConnectNotarizations hush3_params ch notary_outputs junk 365420 3 t [notary_tx] 400000 Map.empty) = Some Map.empty \<and>
     map_option (DisconnectNotarizations hush3_params junk' 3) (ConnectNotarizations hush3_params ch notary_outputs junk 365420 3 t [notary_tx] 400000
       [77 \<mapsto> nota_write (4, sample_data)]) \<noteq> Some [77 \<mapsto> nota_write (4, sample_data)]"
proof (intro allI conjI)
  fix ch junk junk' t
  have s: "nd_txHash sample_data = 77" by (simp add: sample_data_def)
  have named: "SMART_CHAIN_SYMBOL hush3_params \<noteq> []" by (simp add: hush3_params_def)
  show "map_option (DisconnectNotarizations hush3_params junk' 3)
       (ConnectNotarizations hush3_params ch notary_outputs junk 365420 3 t [notary_tx] 400000 Map.empty) = Some Map.empty"
    using notarizationdb_reorg [OF named notary_tx_scanned, of Map.empty 3] s by (simp add: MAX_SIZE_def)
  show "map_option (DisconnectNotarizations hush3_params junk' 3) (ConnectNotarizations hush3_params ch notary_outputs junk 365420 3 t [notary_tx] 400000
       [77 \<mapsto> nota_write (4, sample_data)]) \<noteq> Some [77 \<mapsto> nota_write (4, sample_data)]"
    using notarizationdb_reorg [OF named notary_tx_scanned, of "[77 \<mapsto> nota_write (4, sample_data)]" 3] s by (simp add: MAX_SIZE_def)
qed

text \<open>A notarisation with a null reference is written without it and then not read back on a named chain, so a disconnect leaves the entry of its block in the database.\<close>

lemma null_txhash_unreadable:
  fixes junk
  defines "db \<equiv> [3 \<mapsto> notas_write [(6, sample_data\<lparr>nd_txHash := 0\<rparr>)]]"
  shows "GetBlockNotarizations hush3_params junk db 3 = None \<and> DisconnectNotarizations hush3_params junk 3 db = db"
proof -
  have "nd_read hush3_params junk NotarizationData0 (nd_write (sample_data\<lparr>nd_txHash := 0\<rparr>)) = None"
    by code_simp
  then have "notas_read hush3_params junk (notas_write [(6, sample_data\<lparr>nd_txHash := 0\<rparr>)]) = None"
    by (simp add: notas_read_def notas_write_def ReadCompactSize_write MAX_SIZE_def nota_read_def nota_write_def)
  then show ?thesis
    by (simp add: GetBlockNotarizations_def DisconnectNotarizations_def db_def)
qed

end
