(* ===== verification/Hush_CrossChain.thy ===== *)
theory Hush_CrossChain
  imports Hush_Merkle Hush_NotaryDB Hush_CCdata
begin

text \<open>
  Cross-chain proofs, \<open>crosschain.cpp\<close>: from a transaction to the root over its chain's blocks (MoM) and on to the root over the MoMs of many
  chains (MoMoM), the search for notarisations in the database, and the notaries' approval of a burn. Transactions and their
  blocks come from the parameter \<open>gtb\<close>, blocks on disk from \<open>readblock\<close>; the unmarshalling of a proof of inclusion and the
  addresses of scripts and keys are parameters.
\<close>

section \<open>Searches\<close>

text \<open>
  An exception with its text, or undefined behaviour (a null block, a shift that is too wide).
\<close>

datatype cc_error = cc_throw string | cc_crash

text \<open>
  The limit is computed when the program is loaded, before the chain is named: \<open>SMART_CHAIN_SYMBOL\<close> is still empty.
\<close>

definition NOTARISATION_SCAN_LIMIT_BLOCKS :: int where
  "NOTARISATION_SCAN_LIMIT_BLOCKS = (if take 5 ([] :: string) = ''HUSH3'' then 1152 else 1440)"

text \<open>\<open>seenOwnNotarizations\<close>, \<open>destNotarizationTxid\<close> and whether the seventh own notarisation was met.\<close>

fun own_notarizations :: "string \<Rightarrow> nat \<Rightarrow> uint256 \<Rightarrow> Notarization list \<Rightarrow> nat \<times> uint256 \<times> bool" where
  "own_notarizations sy seen dest [] = (seen, dest, False)"
| "own_notarizations sy seen dest (nota # ns) =
     (if nd_symbol (snd nota) = sy
      then if seen + 1 = 1 then own_notarizations sy (seen + 1) (fst nota) ns
           else if seen + 1 = 7 then (seen + 1, dest, True)
           else own_notarizations sy (seen + 1) dest ns
      else own_notarizations sy seen dest ns)"

text \<open>The scan: \<open>None\<close> inside is running out of blocks.\<close>

fun proofroot_loop ::
    "hush_params \<Rightarrow> bmem \<Rightarrow> chain_view \<Rightarrow> NotarizationDB \<Rightarrow> string \<Rightarrow> u32 \<Rightarrow> int \<Rightarrow> nat \<Rightarrow> uint256 \<Rightarrow> uint256 list \<Rightarrow> nat list \<Rightarrow> cc_error + (uint256 list \<times> uint256) option" where
  "proofroot_loop G junk ch db sy targetCCid hushHeight seen dest moms [] = Inr None"
| "proofroot_loop G junk ch db sy targetCCid hushHeight seen dest moms (i # is) =
     (if int i > hushHeight then Inr None
      else case chain_at ch (hushHeight - int i) of
          None \<Rightarrow> Inl cc_crash
        | Some pindex \<Rightarrow>
            (case GetBlockNotarizations G junk db (bi_hash pindex) of
               None \<Rightarrow> proofroot_loop G junk ch db sy targetCCid hushHeight seen dest moms is
             | Some notarizations \<Rightarrow>
                 let (seen, dest, fin) = own_notarizations sy seen dest notarizations
                 in if fin then Inr (Some (moms, dest))
                    else
                      let moms = (if seen \<ge> 1
                        then moms @ map (\<lambda>n. nd_MoM (snd n)) (filter (\<lambda>n. GetSymbolAuthority (nd_symbol (snd n)) = GetSymbolAuthority sy \<and>
                               ucast (nd_ccId (snd n)) = targetCCid) notarizations)
                        else moms)
                      in proofroot_loop G junk ch db sy targetCCid hushHeight seen dest moms is))"

text \<open>The order of a \<open>std::set<uint256>\<close> is that of \<open>memcmp\<close>.\<close>

definition blob_key :: "uint256 \<Rightarrow> uint256" where
  "blob_key x = le_word (rev (le_bytes 32 x))"

text \<open>The root, \<open>moms\<close> and \<open>destNotarizationTxid\<close>.\<close>

definition CalculateProofRoot ::
    "node_hash \<Rightarrow> hush_params \<Rightarrow> bmem \<Rightarrow> chain_view \<Rightarrow> NotarizationDB \<Rightarrow> string \<Rightarrow> u32 \<Rightarrow> int \<Rightarrow> cc_error + uint256 \<times> uint256 list \<times> uint256" where
  "CalculateProofRoot Hash G junk ch db sy targetCCid hushHeight =
     (if targetCCid < 2 then Inr (0, [], 0)
      else if hushHeight < 0 \<or> hushHeight > int (length (chainActive ch)) - 1 then Inr (0, [], 0)
      else case proofroot_loop G junk ch db sy targetCCid hushHeight 0 0 [] [0..<nat NOTARISATION_SCAN_LIMIT_BLOCKS] of
          Inl e \<Rightarrow> Inl e
        | Inr None \<Rightarrow> Inr (0, [], 0)
        | Inr (Some (tmp_moms, dest)) \<Rightarrow>
            let moms = sort_key blob_key (remdups tmp_moms) in Inr (GetMerkleRoot Hash moms, moms, dest))"

text \<open>The height of the first block from \<open>nHeight\<close> on with a notarisation that passes the test, and that notarisation; height 0 for none.\<close>

fun scan_heights :: "hush_params \<Rightarrow> bmem \<Rightarrow> chain_view \<Rightarrow> NotarizationDB \<Rightarrow> (Notarization \<Rightarrow> bool) \<Rightarrow> int list \<Rightarrow> cc_error + int \<times> Notarization option" where
  "scan_heights G junk ch db f [] = Inr (0, None)"
| "scan_heights G junk ch db f (h # hs) =
     (case chain_at ch h of
        None \<Rightarrow> Inl cc_crash
      | Some pindex \<Rightarrow>
          (case GetBlockNotarizations G junk db (bi_hash pindex) of
             None \<Rightarrow> scan_heights G junk ch db f hs
           | Some notarizations \<Rightarrow>
               (case List.find f notarizations of Some found \<Rightarrow> Inr (h, Some found) | None \<Rightarrow> scan_heights G junk ch db f hs)))"

definition ScanNotarizationsFromHeight ::
    "hush_params \<Rightarrow> bmem \<Rightarrow> chain_view \<Rightarrow> NotarizationDB \<Rightarrow> int \<Rightarrow> (Notarization \<Rightarrow> bool) \<Rightarrow> cc_error + int \<times> Notarization option" where
  "ScanNotarizationsFromHeight G junk ch db nHeight f =
     scan_heights G junk ch db f [max nHeight 1 .. min (nHeight + NOTARISATION_SCAN_LIMIT_BLOCKS) (int (length (chainActive ch)) - 1) - 1]"

section \<open>Proofs\<close>

definition GetTxConfirmed :: "chain_view \<Rightarrow> (uint256 \<Rightarrow> (block_tx \<times> uint256) option) \<Rightarrow> uint256 \<Rightarrow> (block_tx \<times> block_index) option" where
  "GetTxConfirmed ch gtb hash =
     (case gtb hash of
        None \<Rightarrow> None
      | Some (tx, hashBlock) \<Rightarrow>
          if hashBlock = 0 then None else map_option (Pair tx) (map_of (mapBlockIndex ch) hashBlock))"

type_synonym TxProof = "uint256 \<times> MerkleBranch"

fun index_of :: "('a \<Rightarrow> bool) \<Rightarrow> 'a list \<Rightarrow> nat option" where
  "index_of P [] = None"
| "index_of P (x # xs) = (if P x then Some 0 else map_option Suc (index_of P xs))"

definition GetCrossChainProof ::
    "node_hash \<Rightarrow> hush_params \<Rightarrow> bmem \<Rightarrow> chain_view \<Rightarrow> NotarizationDB \<Rightarrow> (uint256 \<Rightarrow> (block_tx \<times> uint256) option) \<Rightarrow> uint256 \<Rightarrow> string \<Rightarrow> u32 \<Rightarrow> TxProof \<Rightarrow> int
      \<Rightarrow> cc_error + TxProof" where
  "GetCrossChainProof Hash G junk ch db gtb txid targetSymbol targetCCid assetChainProof offset =
     (let mom = MerkleBranch_Exec Hash (snd assetChainProof) txid in
      case GetTxConfirmed ch gtb (fst assetChainProof) of
        None \<Rightarrow> Inl (cc_throw ''Notarization not found'')
      | Some (_, blockIdx) \<Rightarrow>
          (case ScanNotarizationsFromHeight G junk ch db (bi_height blockIdx) (\<lambda>n. nd_symbol (snd n) = targetSymbol) of
             Inl e \<Rightarrow> Inl e
           | Inr (hushHeight, _) \<Rightarrow>
               if hushHeight = 0 then Inl (cc_throw ''Cannot find notarization for target inclusive of source'')
               else
                 (case CalculateProofRoot Hash G junk ch db targetSymbol targetCCid (wrap32 (hushHeight + offset)) of
                    Inl e \<Rightarrow> Inl e
                  | Inr (momom, moms, targetChainNotarizationTxid) \<Rightarrow>
                      if momom = 0 then Inl (cc_throw ''No MoMs found'')
                      else
                        (case index_of (\<lambda>m. m = mom) moms of
                           None \<Rightarrow> Inl (cc_throw ''Couldn't find MoM within MoMoM set'')
                         | Some nIndex \<Rightarrow>
                             let vBranch = GetMerkleBranch nIndex (length moms) (snd (snd (BuildMerkleTree Hash moms))) in
                             (case MerkleBranch_append (snd assetChainProof) \<lparr>mb_nIndex = int nIndex, mb_branch = vBranch\<rparr> of
                                None \<Rightarrow> Inl cc_crash
                              | Some newBranch \<Rightarrow>
                                  if MerkleBranch_Exec Hash newBranch txid \<noteq> momom then Inl (cc_throw ''Proof check failed'')
                                  else Inr (targetChainNotarizationTxid, newBranch))))))"

definition IsSameAssetChain :: "hush_params \<Rightarrow> Notarization \<Rightarrow> bool" where
  "IsSameAssetChain G nota \<longleftrightarrow> nd_symbol (snd nota) = SMART_CHAIN_SYMBOL G"

text \<open>\<open>None\<close> is the result false; a found block has a positive height.\<close>

definition GetNextBacknotarization ::
    "hush_params \<Rightarrow> bmem \<Rightarrow> chain_view \<Rightarrow> NotarizationDB \<Rightarrow> (uint256 \<Rightarrow> (block_tx \<times> uint256) option) \<Rightarrow> uint256 \<Rightarrow> cc_error + Notarization option" where
  "GetNextBacknotarization G junk ch db gtb hushNotarizationTxid =
     (case GetBackNotarization G junk db hushNotarizationTxid of
        None \<Rightarrow> Inr None
      | Some bn \<Rightarrow>
          (case GetTxConfirmed ch gtb (fst bn) of
             None \<Rightarrow> Inr None
           | Some (_, block) \<Rightarrow>
               (case ScanNotarizationsFromHeight G junk ch db (bi_height block + 1) (IsSameAssetChain G) of
                  Inl e \<Rightarrow> Inl e
                | Inr (h, found) \<Rightarrow> Inr (if h \<noteq> 0 then found else None))))"

definition CheckMoMoM ::
    "hush_params \<Rightarrow> bmem \<Rightarrow> chain_view \<Rightarrow> NotarizationDB \<Rightarrow> (uint256 \<Rightarrow> (block_tx \<times> uint256) option) \<Rightarrow> uint256 \<Rightarrow> uint256 \<Rightarrow> cc_error + bool" where
  "CheckMoMoM G junk ch db gtb hushNotarizationHash momom =
     (case GetBackNotarization G junk db hushNotarizationHash of
        None \<Rightarrow> Inr False
      | Some bn \<Rightarrow>
          (case GetTxConfirmed ch gtb (fst bn) of
             None \<Rightarrow> Inr False
           | Some (_, block) \<Rightarrow>
               map_sum id (\<lambda>(h, _). h \<noteq> 0) (ScanNotarizationsFromHeight G junk ch db (bi_height block - 100) (\<lambda>n. nd_MoMoM (snd n) = momom))))"

text \<open>The Merkle roots of the blocks from \<open>height\<close> down.\<close>

fun mom_leaves :: "chain_view \<Rightarrow> int \<Rightarrow> nat list \<Rightarrow> uint256 list option" where
  "mom_leaves ch height [] = Some []"
| "mom_leaves ch height (i # is) =
     (case chain_at ch (height - int i) of
        None \<Rightarrow> None
      | Some pindex \<Rightarrow> map_option (Cons (bi_hashMerkleRoot pindex)) (mom_leaves ch height is))"

record disk_block =
  db_hashMerkleRoot :: uint256
  db_vtx :: "block_tx list"

text \<open>The last part: the branch in the block is put before the branch to the MoM.\<close>

definition assetchain_txproof ::
    "node_hash \<Rightarrow> uint256 \<Rightarrow> Notarization \<Rightarrow> int \<Rightarrow> uint256 list \<Rightarrow> disk_block \<Rightarrow> cc_error + TxProof" where
  "assetchain_txproof Hash hash nota nIndex branch block =
     (case index_of (\<lambda>tx. tx_hash tx = hash) (db_vtx block) of
        None \<Rightarrow> Inl (cc_throw ''Error locating tx in block'')
      | Some nTxIndex \<Rightarrow>
          let txids = map tx_hash (db_vtx block);
              txBranch = GetMerkleBranch nTxIndex (length txids) (snd (snd (BuildMerkleTree Hash txids)))
          in if db_hashMerkleRoot block \<noteq> CheckMerkleBranch Hash hash txBranch (int nTxIndex) then Inl (cc_throw ''Failed merkle tx->block'')
             else if length txBranch \<ge> 32 then Inl cc_crash
             else
               let nIndex = wrap32 (wrap32 (nIndex * 2 ^ length txBranch) + int nTxIndex);
                   branch = txBranch @ branch
               in if nd_MoM (snd nota) \<noteq> CheckMerkleBranch Hash hash branch nIndex then Inl (cc_throw ''Failed validating MoM'')
                  else Inr (nd_txHash (snd nota), \<lparr>mb_nIndex = nIndex, mb_branch = branch\<rparr>))"

text \<open>\<open>readblock\<close> fails for a pruned block and for one that cannot be read.\<close>

definition GetAssetchainProof ::
    "node_hash \<Rightarrow> hush_params \<Rightarrow> bmem \<Rightarrow> chain_view \<Rightarrow> NotarizationDB \<Rightarrow> (uint256 \<Rightarrow> (block_tx \<times> uint256) option) \<Rightarrow> (block_index \<Rightarrow> disk_block option)
      \<Rightarrow> uint256 \<Rightarrow> cc_error + TxProof" where
  "GetAssetchainProof Hash G junk ch db gtb readblock hash =
     (case gtb hash of
        None \<Rightarrow> Inl (cc_throw ''cannot find transaction'')
      | Some (_, blockHash) \<Rightarrow>
          if blockHash = 0 then Inl (cc_throw ''tx still in mempool'')
          else case hush_getblockindex ch blockHash of
              None \<Rightarrow> Inl cc_crash
            | Some blockIndex \<Rightarrow>
                (case ScanNotarizationsFromHeight G junk ch db (bi_height blockIndex)
                        (\<lambda>n. IsSameAssetChain G n \<and> nd_height (snd n) \<ge> word_of_int (bi_height blockIndex)) of
                   Inl e \<Rightarrow> Inl e
                 | Inr (_, None) \<Rightarrow> Inl (cc_throw ''backnotarization not yet confirmed'')
                 | Inr (_, Some nota) \<Rightarrow>
                     let nIndex = wrap32 (uint (nd_height (snd nota)) - bi_height blockIndex) in
                     (case mom_leaves ch (uint (nd_height (snd nota))) [0..<unat (nd_MoMDepth (snd nota))] of
                        None \<Rightarrow> Inl cc_crash
                      | Some leaves \<Rightarrow>
                          let branch = GetMerkleBranch (nat nIndex) (length leaves) (snd (snd (BuildMerkleTree Hash leaves))) in
                          if nd_MoM (snd nota) \<noteq> SafeCheckMerkleBranch Hash (bi_hashMerkleRoot blockIndex) branch nIndex
                          then Inl (cc_throw ''Failed merkle block->MoM'')
                          else case readblock blockIndex of
                              None \<Rightarrow> Inl (cc_throw ''Can't read block from disk'')
                            | Some block \<Rightarrow> assetchain_txproof Hash hash nota nIndex branch block)))"

section \<open>Approval by notaries\<close>

definition CheckVinPubKey ::
    "(uint256 \<Rightarrow> (block_tx \<times> uint256) option) \<Rightarrow> (buffer \<Rightarrow> string option) \<Rightarrow> (pubkey33 \<Rightarrow> string) \<Rightarrow> block_tx \<Rightarrow> int \<Rightarrow> pubkey33 \<Rightarrow> bool" where
  "CheckVinPubKey gtb scriptaddr pubaddr sourcetx i pubkey =
     (if i < 0 \<or> i \<ge> int (length (tx_vin sourcetx)) then False
      else let (hash, n) = tx_vin sourcetx ! nat i in
           case gtb hash of
             None \<Rightarrow> False
           | Some (vintx, _) \<Rightarrow>
               unat n < length (tx_vout vintx) \<and>
               (case scriptaddr (to_scriptPubKey (tx_vout vintx ! unat n)) of None \<Rightarrow> False | Some destaddr \<Rightarrow> pubaddr pubkey = destaddr))"

record approval_state =
  ap_pubkeys :: "pubkey33 list"
  ap_alreadySigned :: "pubkey33 list"
  ap_count :: nat

text \<open>
  One transaction of a notary. \<open>unmarshal\<close> gives the Merkle root of the header and the partial tree of a proof of inclusion;
  the key array keeps what it held where the set is smaller than 64.
\<close>

definition approve_tx ::
    "hush_params \<Rightarrow> int \<Rightarrow> node_hash \<Rightarrow> chain_view \<Rightarrow> (uint256 \<Rightarrow> (block_tx \<times> uint256) option) \<Rightarrow> (buffer \<Rightarrow> (uint256 \<times> CPartialMerkleTree) option)
      \<Rightarrow> (block_tx \<Rightarrow> pubkey33 \<Rightarrow> bool) \<Rightarrow> uint256 \<Rightarrow> uint256 \<Rightarrow> approval_state \<Rightarrow> approval_state" where
  "approve_tx G saplinght Hash ch gtb unmarshal signedby burntxid notarytxid st =
     (case GetTxConfirmed ch gtb notarytxid of
        None \<Rightarrow> st
      | Some (notarytx, block) \<Rightarrow>
          if tx_vout notarytx = [] then st
          else case GetOpReturnData (to_scriptPubKey (last (tx_vout notarytx))) of
              None \<Rightarrow> st
            | Some vopret \<Rightarrow>
                (case unmarshal vopret of
                   None \<Rightarrow> st
                 | Some (hashMerkleRoot, txn) \<Rightarrow>
                     let (root, prooftxids) = ExtractMatches saplinght Hash txn in
                     if root \<noteq> hashMerkleRoot \<or> burntxid \<in> set prooftxids
                     then (case hush_notaries G ch (bi_height block) (bi_nTime block) of
                             None \<Rightarrow> st
                           | Some ks \<Rightarrow>
                               let pubkeys = ks @ drop (length ks) (ap_pubkeys st); st = st\<lparr>ap_pubkeys := pubkeys\<rparr> in
                               (case List.find (\<lambda>k. signedby notarytx k \<and> k \<notin> set (ap_alreadySigned st)) pubkeys of
                                  None \<Rightarrow> st
                                | Some k \<Rightarrow> st\<lparr>ap_alreadySigned := ap_alreadySigned st @ [k], ap_count := ap_count st + 1\<rparr>))
                     else st))"

definition CheckNotariesApproval ::
    "hush_params \<Rightarrow> int \<Rightarrow> node_hash \<Rightarrow> chain_view \<Rightarrow> (uint256 \<Rightarrow> (block_tx \<times> uint256) option) \<Rightarrow> (buffer \<Rightarrow> (uint256 \<times> CPartialMerkleTree) option)
      \<Rightarrow> (buffer \<Rightarrow> string option) \<Rightarrow> (pubkey33 \<Rightarrow> string) \<Rightarrow> pubkey33 list \<Rightarrow> uint256 \<Rightarrow> uint256 list \<Rightarrow> bool" where
  "CheckNotariesApproval G saplinght Hash ch gtb unmarshal scriptaddr pubaddr stack burntxid notaryTxids \<longleftrightarrow>
     ap_count (fold (approve_tx G saplinght Hash ch gtb unmarshal (\<lambda>tx. CheckVinPubKey gtb scriptaddr pubaddr tx 0) burntxid) notaryTxids
       \<lparr>ap_pubkeys = stack, ap_alreadySigned = [], ap_count = 0\<rparr>) \<ge> 5"

section \<open>Lemmas\<close>

lemma index_of_Some: "index_of P xs = Some k \<Longrightarrow> k < length xs \<and> P (xs ! k)"
  by (induction xs arbitrary: k) (auto split: if_splits)

lemma index_of_ex: "x \<in> set xs \<Longrightarrow> P x \<Longrightarrow> \<exists>k. index_of P xs = Some k"
  by (induction xs) auto

text \<open>The Merkle roots of a range of blocks, read in two ways.\<close>

definition block_roots :: "chain_view \<Rightarrow> int \<Rightarrow> nat list \<Rightarrow> uint256 list" where
  "block_roots ch height is = map (\<lambda>i. bi_hashMerkleRoot (chainActive ch ! nat (height - int i))) is"

lemma mom_leaves_roots:
  "height < int (length (chainActive ch)) \<Longrightarrow> \<forall>i\<in>set is. int i \<le> height \<Longrightarrow> mom_leaves ch height is = Some (block_roots ch height is)"
  by (induction "is") (auto simp: block_roots_def chain_at_def)

lemma chainactive_at:
  assumes "chain_LastTip ch = Some tip" and "bi_height tip = int (length (chainActive ch)) - 1"
  shows "hush_chainactive ch h = chain_at ch h"
  using assms by (auto simp: hush_chainactive_def chain_at_def)

lemma calcMoM_leaves_roots:
  assumes "chain_LastTip ch = Some tip" and "bi_height tip = int (length (chainActive ch)) - 1" and "height < int (length (chainActive ch))"
    and "int (i + n) \<le> height + 1"
  shows "calcMoM_leaves ch height i n = Some (block_roots ch height [i..<i + n])"
  using assms(4)
proof (induction n arbitrary: i)
  case (Suc n)
  have "[i..<i + Suc n] = i # [i + 1..<i + 1 + n]" by (simp add: upt_conv_Cons)
  moreover have "chain_at ch (height - int i) = Some (chainActive ch ! nat (height - int i))" using Suc.prems assms(3) by (simp add: chain_at_def)
  ultimately show ?case using Suc.IH [of "i + 1"] Suc.prems by (simp add: chainactive_at [OF assms(1,2)] block_roots_def del: upt_Suc)
qed (simp add: block_roots_def)

lemma calcMoM_roots:
  assumes "chain_LastTip ch = Some tip" and "bi_height tip = int (length (chainActive ch)) - 1" and "height < int (length (chainActive ch))"
    and "int d < height" and "d < 65536"
  shows "hush_calcMoM merkle ch height (int d) = merkle (block_roots ch height [0..<d])"
proof -
  have "int d AND 0xffff = int d"
  proof -
    have "int d AND 0xffff = take_bit 16 (int d)" by (simp add: take_bit_eq_mask mask_eq_exp_minus_1)
    also have "\<dots> = int d" using assms(5) by (simp add: take_bit_int_eq_self)
    finally show ?thesis .
  qed
  then show ?thesis using calcMoM_leaves_roots [OF assms(1-3), of 0 d] assms(4) by (simp add: hush_calcMoM_def)
qed

text \<open>The branch in the block, put before a branch from the block's root to the MoM.\<close>

lemma txproof_exists:
  assumes block: "root = db_hashMerkleRoot block" "root = GetMerkleRoot Hash (map tx_hash (db_vtx block))" "hash \<in> set (map tx_hash (db_vtx block))"
    and br: "check_branch Hash root branch (int k) = nd_MoM (snd nota)" "int k < 2 ^ length branch" "branch_ok Hash root branch (int k)"
    and small: "tree_height (length (db_vtx block)) 0 + length branch \<le> 31"
  obtains p where "assetchain_txproof Hash hash nota (int k) branch block = Inr (nd_txHash (snd nota), p)"
    and "CheckMerkleBranch Hash hash (mb_branch p) (mb_nIndex p) = nd_MoM (snd nota)"
    and "siblings_differ Hash (map tx_hash (db_vtx block)) \<Longrightarrow> MerkleBranch_Exec Hash p hash = nd_MoM (snd nota)"
proof -
  define txids where "txids = map tx_hash (db_vtx block)"
  obtain u where "u \<in> set (db_vtx block)" "tx_hash u = hash" using block(3) by auto
  then obtain j where j: "index_of (\<lambda>tx. tx_hash tx = hash) (db_vtx block) = Some j"
    using index_of_ex [of u "db_vtx block" "\<lambda>tx. tx_hash tx = hash"] by blast
  then have jl: "j < length txids" "txids ! j = hash" using index_of_Some [OF j] by (simp_all add: txids_def)
  define txBranch where "txBranch = GetMerkleBranch j (length txids) (snd (snd (BuildMerkleTree Hash txids)))"
  have tb: "check_branch Hash hash txBranch (int j) = root" "length txBranch = tree_height (length txids) 0"
      "int j < 2 ^ length txBranch" "siblings_differ Hash txids \<Longrightarrow> branch_ok Hash hash txBranch (int j)"
    using branch_of_leaf [OF jl(1) txBranch_def] jl(2) block(2) [folded txids_def] by simp_all
  let ?n = "int j + int k * 2 ^ length txBranch"
  have len: "length txBranch + length branch \<le> 31" using small tb(2) by (simp add: txids_def)
  note bound = concat_index_bound [OF of_nat_0_le_iff tb(3) of_nat_0_le_iff br(2) len]
  have "0 \<le> int k * 2 ^ length txBranch" by simp
  then have "is_i32 (int k * 2 ^ length txBranch)" "is_i32 ?n" unfolding is_i32_def using bound by linarith+
  then have wr: "wrap32 (wrap32 (int k * 2 ^ length txBranch) + int j) = ?n" by (simp add: add.commute)
  have n: "?n \<noteq> -1" using bound(1) by linarith
  have chk: "check_branch Hash hash (txBranch @ branch) ?n = nd_MoM (snd nota)"
    using check_branch_append [OF of_nat_0_le_iff tb(3), of Hash hash branch "int k"] tb(1) br(1) by simp
  show thesis
  proof (rule that [of "\<lparr>mb_nIndex = ?n, mb_branch = txBranch @ branch\<rparr>"])
    show "assetchain_txproof Hash hash nota (int k) branch block = Inr (nd_txHash (snd nota), \<lparr>mb_nIndex = ?n, mb_branch = txBranch @ branch\<rparr>)"
      unfolding assetchain_txproof_def j option.case Let_def txids_def [symmetric] txBranch_def [symmetric] wr
      using tb(1) len block(1) n chk by (simp add: CheckMerkleBranch_def)
  qed (use chk n branch_ok_append [OF of_nat_0_le_iff tb(3), of Hash hash branch "int k"] tb(1,4) br(3)
      in \<open>simp_all add: CheckMerkleBranch_def MerkleBranch_Exec_def SafeCheckMerkleBranch_def safe_check_branch_eq txids_def\<close>)
qed

text \<open>The branch from a covered block to the MoM.\<close>

lemma mom_branch:
  assumes tip: "chain_LastTip ch = Some tip" "bi_height tip = int (length (chainActive ch)) - 1" and b: "chain_at ch (bi_height b) = Some b"
    and H: "bi_height b \<le> H" "H < bi_height b + int d" "H \<le> bi_height tip" "int d < H" "d < 65536"
    and differ: "siblings_differ Hash (block_roots ch H [0..<d])"
  defines "k \<equiv> nat (H - bi_height b)"
  obtains branch where "branch = GetMerkleBranch k d (snd (snd (BuildMerkleTree Hash (block_roots ch H [0..<d]))))"
    and "check_branch Hash (bi_hashMerkleRoot b) branch (int k) = hush_calcMoM (GetMerkleRoot Hash) ch H (int d)"
    and "int k < 2 ^ length branch" and "branch_ok Hash (bi_hashMerkleRoot b) branch (int k)" and "length branch = tree_height d 0"
proof -
  define leaves where "leaves = block_roots ch H [0..<d]"
  have k: "k < d" "int k = H - bi_height b" using H(1,2) by (auto simp: k_def)
  have lens: "length leaves = d" by (simp add: leaves_def block_roots_def)
  have lk: "leaves ! k = bi_hashMerkleRoot b" using k b by (auto simp: leaves_def block_roots_def chain_at_def split: if_splits)
  have mom: "hush_calcMoM (GetMerkleRoot Hash) ch H (int d) = GetMerkleRoot Hash leaves"
    using calcMoM_roots [OF tip, of H d "GetMerkleRoot Hash"] H(3-5) tip(2) by (simp add: leaves_def)
  have kl: "k < length leaves" using k(1) lens by simp
  show thesis
    by (rule that [of "GetMerkleBranch k d (snd (snd (BuildMerkleTree Hash leaves)))"])
      (use branch_of_leaf [OF kl refl, of Hash] lk lens mom differ in \<open>simp_all add: leaves_def\<close>)
qed

lemma proofroot_merkle:
  "CalculateProofRoot Hash G junk ch db sy cc h = Inr (root, moms, dest) \<Longrightarrow> root \<noteq> 0 \<Longrightarrow> root = GetMerkleRoot Hash moms"
  by (auto simp: CalculateProofRoot_def Let_def split: if_splits sum.splits option.splits)

text \<open>A confirmed transaction of one notary whose proof of inclusion does not lead to the root of its own header.\<close>

definition bad_proof ::
    "int \<Rightarrow> node_hash \<Rightarrow> chain_view \<Rightarrow> (uint256 \<Rightarrow> (block_tx \<times> uint256) option) \<Rightarrow> (buffer \<Rightarrow> (uint256 \<times> CPartialMerkleTree) option)
      \<Rightarrow> (block_tx \<Rightarrow> pubkey33 \<Rightarrow> bool) \<Rightarrow> uint256 \<Rightarrow> pubkey33 \<Rightarrow> bool" where
  "bad_proof saplinght Hash ch gtb unmarshal signedby txid key \<longleftrightarrow>
     (\<exists>tx block vopret root t. GetTxConfirmed ch gtb txid = Some (tx, block) \<and> 340000 < bi_height block \<and> tx_vout tx \<noteq> [] \<and>
        GetOpReturnData (to_scriptPubKey (last (tx_vout tx))) = Some vopret \<and> unmarshal vopret = Some (root, t) \<and>
        fst (ExtractMatches saplinght Hash t) \<noteq> root \<and> key \<in> set (hush_pubkeys 7) \<and> (\<forall>k\<in>set (hush_pubkeys 7). signedby tx k \<longleftrightarrow> k = key))"

lemma find_unique:
  assumes "x \<in> set xs" and "P x" and uniq: "\<forall>y\<in>set xs. P y \<longrightarrow> y = x"
  shows "List.find P xs = Some x"
proof (cases "List.find P xs")
  case (Some y)
  have "P y" "y \<in> set xs" using Some by (auto simp: find_Some_iff)
  then show ?thesis using Some uniq by blast
next
  case None
  then show ?thesis using assms(1,2) unfolding find_None_iff by blast
qed

lemma approve_bad:
  assumes "take 5 (SMART_CHAIN_SYMBOL G) = ''HUSH3''" and "bad_proof saplinght Hash ch gtb unmarshal signedby txid key"
    and "length (ap_pubkeys st) = 64" and "key \<notin> set (ap_alreadySigned st)"
  shows "approve_tx G saplinght Hash ch gtb unmarshal signedby burntxid txid st =
     \<lparr>ap_pubkeys = hush_pubkeys 7, ap_alreadySigned = ap_alreadySigned st @ [key], ap_count = ap_count st + 1\<rparr>"
proof -
  from assms(2) obtain tx block vopret root t where b: "GetTxConfirmed ch gtb txid = Some (tx, block)" "340000 < bi_height block" "tx_vout tx \<noteq> []"
      "GetOpReturnData (to_scriptPubKey (last (tx_vout tx))) = Some vopret" "unmarshal vopret = Some (root, t)"
      "fst (ExtractMatches saplinght Hash t) \<noteq> root" "key \<in> set (hush_pubkeys 7)" "\<forall>k\<in>set (hush_pubkeys 7). signedby tx k \<longleftrightarrow> k = key"
    unfolding bad_proof_def by blast
  have "length (hush_pubkeys 7) = 64" using hush_pubkeys_shape [of 7] by simp
  moreover have "List.find (\<lambda>k. signedby tx k \<and> k \<notin> set (ap_alreadySigned st)) (hush_pubkeys 7) = Some key"
    by (rule find_unique) (use b(7,8) assms(4) in auto)
  ultimately show ?thesis
    using b assms(3) hush_notaries_late [OF assms(1) b(2)] by (simp add: approve_tx_def case_prod_unfold)
qed

lemma approve_all_bad:
  assumes "take 5 (SMART_CHAIN_SYMBOL G) = ''HUSH3''" and "list_all2 (bad_proof saplinght Hash ch gtb unmarshal signedby) txids keys"
    and "length (ap_pubkeys st) = 64" and "distinct keys" and "set keys \<inter> set (ap_alreadySigned st) = {}"
  shows "ap_count (fold (approve_tx G saplinght Hash ch gtb unmarshal signedby burntxid) txids st) = ap_count st + length txids"
  using assms(2-)
proof (induction txids keys arbitrary: st rule: list_all2_induct)
  case (Cons txid txids key keys)
  have "length (hush_pubkeys 7) = 64" using hush_pubkeys_shape [of 7] by simp
  moreover have "approve_tx G saplinght Hash ch gtb unmarshal signedby burntxid txid st =
      \<lparr>ap_pubkeys = hush_pubkeys 7, ap_alreadySigned = ap_alreadySigned st @ [key], ap_count = ap_count st + 1\<rparr>"
    using approve_bad [OF assms(1) Cons.hyps(1)] Cons.prems by simp
  ultimately show ?case using Cons.IH Cons.prems by simp
qed simp

section \<open>Properties\<close>

text \<open>C13 Proofs to the MoM always exist: for a transaction of a block covered by the notarisation that the scan finds, when that notarisation carries the MoM that
  \<open>hush_calcMoM\<close> computes, the proof is built, leads from the transaction to the MoM, and is also accepted by the strict
  check when no two siblings of the block's tree are equal. (The block's root is that of its transactions, no two
  siblings among the covered block roots are equal, and the index fits 31 bits.)\<close>
theorem assetchain_proof_exists:
  assumes tx: "gtb hash = Some (tx, bh)" "bh \<noteq> 0" "hush_getblockindex ch bh = Some b" "chain_at ch (bi_height b) = Some b"
    and tip: "chain_LastTip ch = Some tip" "bi_height tip = int (length (chainActive ch)) - 1"
    and scan: "ScanNotarizationsFromHeight G junk ch db (bi_height b) (\<lambda>n. IsSameAssetChain G n \<and> nd_height (snd n) \<ge> word_of_int (bi_height b)) =
      Inr (h, Some nota)"
    and H: "H = uint (nd_height (snd nota))" "d = unat (nd_MoMDepth (snd nota))"
      "bi_height b \<le> H" "H < bi_height b + int d" "H \<le> bi_height tip" "int d < H"
    and mom: "nd_MoM (snd nota) = hush_calcMoM (GetMerkleRoot Hash) ch H (int d)"
    and block: "readblock b = Some block" "bi_hashMerkleRoot b = db_hashMerkleRoot block"
      "db_hashMerkleRoot block = GetMerkleRoot Hash (map tx_hash (db_vtx block))" "hash \<in> set (map tx_hash (db_vtx block))"
    and differ: "siblings_differ Hash (block_roots ch H [0..<d])"
    and small: "tree_height (length (db_vtx block)) 0 + tree_height d 0 \<le> 31"
  shows "\<exists>p. GetAssetchainProof Hash G junk ch db gtb readblock hash = Inr (nd_txHash (snd nota), p) \<and>
     CheckMerkleBranch Hash hash (mb_branch p) (mb_nIndex p) = nd_MoM (snd nota) \<and>
     (siblings_differ Hash (map tx_hash (db_vtx block)) \<longrightarrow> MerkleBranch_Exec Hash p hash = nd_MoM (snd nota))"
proof -
  define k where "k = nat (H - bi_height b)"
  have k: "k < d" "int k = H - bi_height b" using H(3,4) by (auto simp: k_def)
  have d: "d < 65536" unfolding H(2) using unsigned_less [of "nd_MoMDepth (snd nota)"] by simp
  have ml: "mom_leaves ch H [0..<d] = Some (block_roots ch H [0..<d])" by (rule mom_leaves_roots) (use H(5,6) tip(2) in auto)
  obtain branch where br: "branch = GetMerkleBranch k d (snd (snd (BuildMerkleTree Hash (block_roots ch H [0..<d]))))"
      "check_branch Hash (bi_hashMerkleRoot b) branch (int k) = nd_MoM (snd nota)" "int k < 2 ^ length branch"
      "branch_ok Hash (bi_hashMerkleRoot b) branch (int k)" "length branch = tree_height d 0"
    using mom_branch [OF tip tx(4) H(3-6) d differ] mom unfolding k_def [symmetric] by metis
  have "bi_hashMerkleRoot b = GetMerkleRoot Hash (map tx_hash (db_vtx block))" using block(2,3) by simp
  from txproof_exists [OF block(2) this block(4) br(2-4)] small br(5) obtain p where
    p: "assetchain_txproof Hash hash nota (int k) branch block = Inr (nd_txHash (snd nota), p)"
      "CheckMerkleBranch Hash hash (mb_branch p) (mb_nIndex p) = nd_MoM (snd nota)"
      "siblings_differ Hash (map tx_hash (db_vtx block)) \<Longrightarrow> MerkleBranch_Exec Hash p hash = nd_MoM (snd nota)" by metis
  have "is_i32 (int k)" using k(1) d by (simp add: is_i32_def)
  then have "wrap32 (uint (nd_height (snd nota)) - bi_height b) = int k" unfolding H(1) [symmetric] k(2) [symmetric] by (rule wrap32_id)
  moreover have "length (block_roots ch H [0..<d]) = d" by (simp add: block_roots_def)
  ultimately have "GetAssetchainProof Hash G junk ch db gtb readblock hash = Inr (nd_txHash (snd nota), p)"
    using tx scan ml br(2,4) block(1) p(1)
    by (simp add: GetAssetchainProof_def H(1,2) [symmetric] br(1) [symmetric] SafeCheckMerkleBranch_def safe_check_branch_eq)
  then show ?thesis using p(2,3) by blast
qed

text \<open>C18 Proofs to the MoMoM always exist: when the source's MoM, reached by its proof, is among the MoMs of the window of the target chain, the proof is
  extended to one that the strict check leads from the transaction to the MoMoM.\<close>
theorem crosschain_proof_exists:
  assumes conf: "GetTxConfirmed ch gtb (fst prf) = Some (tx, blk)"
    and scan: "ScanNotarizationsFromHeight G junk ch db (bi_height blk) (\<lambda>n. nd_symbol (snd n) = target) = Inr (h, found)" "h \<noteq> 0"
    and root: "CalculateProofRoot Hash G junk ch db target ccid (wrap32 (h + offset)) = Inr (momom, moms, dest)" "momom \<noteq> 0"
    and mom: "MerkleBranch_Exec Hash (snd prf) txid \<in> set moms" "MerkleBranch_Exec Hash (snd prf) txid \<noteq> 0"
    and idx: "0 \<le> mb_nIndex (snd prf)" "mb_nIndex (snd prf) < 2 ^ length (mb_branch (snd prf))"
      "length (mb_branch (snd prf)) + tree_height (length moms) 0 \<le> 31"
    and differ: "siblings_differ Hash moms"
  shows "\<exists>p. GetCrossChainProof Hash G junk ch db gtb txid target ccid prf offset = Inr (dest, p) \<and> MerkleBranch_Exec Hash p txid = momom"
proof -
  let ?b = "mb_branch (snd prf)" and ?i = "mb_nIndex (snd prf)"
  define m where "m = MerkleBranch_Exec Hash (snd prf) txid"
  have m: "branch_ok Hash txid ?b ?i" "check_branch Hash txid ?b ?i = m"
    using mom(2) idx(1) by (auto simp: m_def MerkleBranch_Exec_def SafeCheckMerkleBranch_def safe_check_branch_eq split: if_splits)
  obtain j where j: "index_of (\<lambda>x. x = m) moms = Some j" using mom(1) index_of_ex [of m moms "\<lambda>x. x = m"] by (auto simp: m_def)
  then have jl: "j < length moms" "moms ! j = m" using index_of_Some by auto
  define v where "v = GetMerkleBranch j (length moms) (snd (snd (BuildMerkleTree Hash moms)))"
  note vb = branch_of_leaf [OF jl(1) v_def, unfolded jl(2)]
  let ?n = "?i + int j * 2 ^ length ?b" and ?p = "\<lparr>mb_nIndex = ?i + int j * 2 ^ length ?b, mb_branch = ?b @ v\<rparr>"
  have len: "length ?b + length v \<le> 31" using idx(3) vb(2) by simp
  note bound = concat_index_bound [OF idx(1,2) of_nat_0_le_iff vb(3) len]
  have "0 \<le> int j * 2 ^ length ?b" by simp
  then have "is_i32 (int j * 2 ^ length ?b)" "is_i32 ?n" unfolding is_i32_def using bound by linarith+
  then have app: "MerkleBranch_append (snd prf) \<lparr>mb_nIndex = int j, mb_branch = v\<rparr> = Some ?p"
    using len by (simp add: MerkleBranch_append_def)
  have ex: "MerkleBranch_Exec Hash ?p txid = momom"
    using check_branch_append [OF idx(1,2), of Hash txid v "int j"] branch_ok_append [OF idx(1,2), of Hash txid v "int j"] m vb(1) vb(4) [OF differ]
      bound(1) proofroot_merkle [OF root] by (auto simp: MerkleBranch_Exec_def SafeCheckMerkleBranch_def safe_check_branch_eq)
  have "GetCrossChainProof Hash G junk ch db gtb txid target ccid prf offset = Inr (dest, ?p)"
    unfolding GetCrossChainProof_def Let_def m_def [symmetric] using conf scan root j app ex by (simp add: v_def [symmetric])
  then show ?thesis using ex by blast
qed

text \<open>C38 The notaries' approval accepts proofs that fail: five confirmed transactions of different notaries whose proofs of inclusion do not
  even lead to the root of their own header approve every burn, whether or not it is in them.\<close>
theorem approval_of_bad_proofs:
  assumes "take 5 (SMART_CHAIN_SYMBOL G) = ''HUSH3''" and "length stack = 64" and "distinct keys" and "5 \<le> length txids"
    and "list_all2 (bad_proof saplinght Hash ch gtb unmarshal (\<lambda>tx. CheckVinPubKey gtb scriptaddr pubaddr tx 0)) txids keys"
  shows "CheckNotariesApproval G saplinght Hash ch gtb unmarshal scriptaddr pubaddr stack burntxid txids"
  using approve_all_bad [OF assms(1,5), of "\<lparr>ap_pubkeys = stack, ap_alreadySigned = [], ap_count = 0\<rparr>"] assms(2-4)
  by (simp add: CheckNotariesApproval_def)

section \<open>Examples\<close>

definition cc_block :: "nat \<Rightarrow> block_index" where
  "cc_block k = \<lparr>bi_hash = word_of_nat (100 + k), bi_height = int k, bi_nTime = 9, bi_hashMerkleRoot = (if k = 4 then 45 else word_of_nat k)\<rparr>"

definition cc_chain :: chain_view where
  "cc_chain = \<lparr>mapBlockIndex = [(104, cc_block 4)], chainActive = map cc_block [0..<8], IsInitialBlockDownload = False\<rparr>"

definition cc_nota :: Notarization where
  "cc_nota = (200, NotarizationData0\<lparr>nd_height := 5, nd_txHash := 77, nd_symbol := ''ZDEEX'', nd_MoM := 192, nd_MoMDepth := 3, nd_ccId := 2\<rparr>)"

definition cc_tx :: "uint256 \<Rightarrow> block_tx" where
  "cc_tx h = \<lparr>tx_hash = h, tx_vin = [], tx_vout = []\<rparr>"

lemma cc_heights:
  "[max 4 1 .. min (4 + NOTARISATION_SCAN_LIMIT_BLOCKS) (int (length (chainActive cc_chain)) - 1) - 1] = [4, 5, 6]" "bi_height (cc_block 4) = 4"
  "chain_at cc_chain 3 = Some (cc_block 3)" "chain_at cc_chain 4 = Some (cc_block 4)" "chain_at cc_chain 5 = Some (cc_block 5)"
  "bi_hash (cc_block 3) = 103" "bi_hash (cc_block 4) = 104" "bi_hash (cc_block 5) = 105"
  by code_simp+

lemma cc_nota_stored [simp]: "GetBlockNotarizations hsc_params junk [105 \<mapsto> notas_write [cc_nota]] k = (if k = 105 then Some [cc_nota] else None)"
proof -
  have "notas_read hsc_params junk (notas_write [cc_nota]) = Some [cc_nota]"
    by (rule notas_read_write) (simp_all add: hsc_params_def cc_nota_def nota_ok_def NotarizationData0_def nul_def MAX_SIZE_def)
  then show ?thesis by (simp add: GetBlockNotarizations_def)
qed

theorem assetchain_proof_exists_witness:
  "\<exists>p. GetAssetchainProof (\<lambda>a b. 3 * a + b) hsc_params (\<lambda>_. 0) cc_chain [105 \<mapsto> notas_write [cc_nota]] (\<lambda>h. Some (cc_tx h, 104))
       (\<lambda>_. Some \<lparr>db_hashMerkleRoot = 45, db_vtx = [cc_tx 11, cc_tx 12]\<rparr>) 12 = Inr (77, p) \<and>
     MerkleBranch_Exec (\<lambda>a b. 3 * a + b) p 12 = 192"
proof -
  let ?H = "\<lambda>a b :: uint256. 3 * a + b" and ?db = "[105 \<mapsto> notas_write [cc_nota]]"
  have h: "hush_getblockindex cc_chain 104 = Some (cc_block 4)" "chain_at cc_chain (bi_height (cc_block 4)) = Some (cc_block 4)"
    "chain_LastTip cc_chain = Some (cc_block 7)" "bi_height (cc_block 7) = int (length (chainActive cc_chain)) - 1"
    "5 = uint (nd_height (snd cc_nota))" "3 = unat (nd_MoMDepth (snd cc_nota))"
    "nd_MoM (snd cc_nota) = hush_calcMoM (GetMerkleRoot ?H) cc_chain 5 (int 3)"
    "siblings_differ ?H (block_roots cc_chain 5 [0..<3])" "tree_height (length [cc_tx 11, cc_tx 12]) 0 + tree_height 3 0 \<le> 31" "GetMerkleRoot ?H [11, 12] = 45"
    "siblings_differ ?H [11, 12]"
    by code_simp+
  have "IsSameAssetChain hsc_params cc_nota \<and> nd_height (snd cc_nota) \<ge> word_of_int (bi_height (cc_block 4))"
    by code_simp
  then have scan: "ScanNotarizationsFromHeight hsc_params (\<lambda>_. 0) cc_chain ?db (bi_height (cc_block 4))
      (\<lambda>n. IsSameAssetChain hsc_params n \<and> nd_height (snd n) \<ge> word_of_int (bi_height (cc_block 4))) = Inr (5, Some cc_nota)"
    unfolding ScanNotarizationsFromHeight_def cc_heights(1,2) by (simp add: cc_heights)
  have "\<exists>p. GetAssetchainProof ?H hsc_params (\<lambda>_. 0) cc_chain ?db (\<lambda>h. Some (cc_tx h, 104))
       (\<lambda>_. Some \<lparr>db_hashMerkleRoot = 45, db_vtx = [cc_tx 11, cc_tx 12]\<rparr>) 12 = Inr (nd_txHash (snd cc_nota), p) \<and>
     CheckMerkleBranch ?H 12 (mb_branch p) (mb_nIndex p) = nd_MoM (snd cc_nota) \<and>
     (siblings_differ ?H (map tx_hash (db_vtx \<lparr>db_hashMerkleRoot = 45, db_vtx = [cc_tx 11, cc_tx 12]\<rparr>)) \<longrightarrow>
       MerkleBranch_Exec ?H p 12 = nd_MoM (snd cc_nota))"
    by (rule assetchain_proof_exists [OF _ _ h(1-4) scan h(5,6) _ _ _ _ h(7) _ _ _ _ h(8)])
      (use h(9,10) in \<open>simp_all add: cc_tx_def cc_block_def\<close>)
  moreover have "nd_txHash (snd cc_nota) = 77" "nd_MoM (snd cc_nota) = 192"
    "map tx_hash (db_vtx \<lparr>db_hashMerkleRoot = 45, db_vtx = [cc_tx 11, cc_tx 12]\<rparr>) = [11, 12]"
    by (simp_all add: cc_nota_def cc_tx_def)
  ultimately show ?thesis using h(11) by metis
qed

text \<open>The window of \<open>CHAINB\<close> on a chain of ten blocks: seven own notarisations, and the MoM of \<open>cc_nota\<close> among the others.\<close>

definition own_nota :: "nat \<Rightarrow> Notarization" where
  "own_nota k = (word_of_nat (300 + k), NotarizationData0\<lparr>nd_txHash := word_of_nat (400 + k), nd_symbol := ''CHAINB'', nd_MoM := word_of_nat (20 + k), nd_ccId := 2\<rparr>)"

definition window_db :: NotarizationDB where
  "window_db = [105 \<mapsto> notas_write [cc_nota, own_nota 0], 104 \<mapsto> notas_write (map own_nota [1, 2, 3]), 103 \<mapsto> notas_write (map own_nota [4, 5, 6])]"

lemma window_stored:
  "GetBlockNotarizations hsc_params junk window_db 105 = Some [cc_nota, own_nota 0]"
  "GetBlockNotarizations hsc_params junk window_db 104 = Some [own_nota 1, own_nota 2, own_nota 3]"
  "GetBlockNotarizations hsc_params junk window_db 103 = Some [own_nota 4, own_nota 5, own_nota 6]"
proof -
  have ok: "nota_ok (own_nota k) \<and> nd_txHash (snd (own_nota k)) \<noteq> 0" if "k < 10" for k
  proof -
    have "unat (word_of_nat (400 + k) :: uint256) = 400 + k"
      using that by (subst unat_of_nat) simp
    then have "(word_of_nat (400 + k) :: uint256) \<noteq> 0"
      by (metis add_is_0 unat_0 zero_neq_numeral)
    then show ?thesis by (simp add: own_nota_def nota_ok_def NotarizationData0_def nul_def)
  qed
  have "nota_ok cc_nota \<and> nd_txHash (snd cc_nota) \<noteq> 0" by (simp add: cc_nota_def nota_ok_def NotarizationData0_def nul_def)
  then have "notas_read hsc_params junk (notas_write ns) = Some ns" if "set ns \<subseteq> {cc_nota} \<union> own_nota ` {..<10}" "length ns < 10" for ns
    using that ok by (intro notas_read_write) (auto simp: hsc_params_def MAX_SIZE_def)
  then show "GetBlockNotarizations hsc_params junk window_db 105 = Some [cc_nota, own_nota 0]"
    "GetBlockNotarizations hsc_params junk window_db 104 = Some [own_nota 1, own_nota 2, own_nota 3]"
    "GetBlockNotarizations hsc_params junk window_db 103 = Some [own_nota 4, own_nota 5, own_nota 6]"
    by (simp_all add: GetBlockNotarizations_def window_db_def)
qed

lemma own_fields: "nd_symbol (snd (own_nota k)) = ''CHAINB''" "nd_ccId (snd (own_nota k)) = 2" "nd_MoM (snd (own_nota k)) = word_of_nat (20 + k)"
    "fst (own_nota k) = word_of_nat (300 + k)"
  by (simp_all add: own_nota_def)

lemma cc_fields: "nd_symbol (snd cc_nota) = ''ZDEEX''" "nd_ccId (snd cc_nota) = 2" "nd_MoM (snd cc_nota) = 192" "fst cc_nota = 200"
  by (simp_all add: cc_nota_def)

lemma blob_key_small: "take_bit 8 x = x \<Longrightarrow> blob_key x = push_bit 248 x"
proof (rule bit_word_eqI)
  fix n assume n: "n < LENGTH(256)" and x: "take_bit 8 x = x"
  have hi: "\<not> bit x m" if "8 \<le> m" for m using x that by (metis bit_take_bit_iff not_le)
  have d: "n div 8 < 32" using n by (simp add: less_mult_imp_div_less)
  have "bit (blob_key x) n = bit (rev (le_bytes 32 x) ! (n div 8)) (n mod 8)" using n d by (simp add: blob_key_def bit_le_word)
  also have "rev (le_bytes 32 x) ! (n div 8) = (ucast (drop_bit (8 * (31 - n div 8)) x) :: byte)" using d by (simp add: rev_nth nth_le_bytes)
  also have "bit (ucast (drop_bit (8 * (31 - n div 8)) x) :: byte) (n mod 8) = bit x (8 * (31 - n div 8) + n mod 8)"
    by (simp add: bit_simps)
  also have "\<dots> = bit (push_bit 248 x) n"
  proof (cases "248 \<le> n")
    case True
    then have "n div 8 = 31" "n mod 8 = n - 248" using n by (simp_all, presburger+)
    then show ?thesis using True n by (simp add: bit_push_bit_iff)
  next
    case False
    then have "8 \<le> 8 * (31 - n div 8)" by simp
    then show ?thesis using False hi by (simp add: bit_push_bit_iff)
  qed
  finally show "bit (blob_key x) n = bit (push_bit 248 x) n" .
qed

lemma window_root:
  "CalculateProofRoot (\<lambda>a b. 3 * a + b) hsc_params (\<lambda>_. 0) cc_chain window_db ''CHAINB'' 2 5 = Inr (4068, [20, 21, 22, 23, 192], 300)"
proof -
  have "\<exists>is. [0..<m] = 0 # 1 # 2 # is" if "3 \<le> m" for m :: nat
    using that upt_conv_Cons [of 0 m] upt_conv_Cons [of 1 m] upt_conv_Cons [of 2 m] by (auto simp: numeral_2_eq_2)
  moreover have "3 \<le> nat NOTARISATION_SCAN_LIMIT_BLOCKS" by (simp add: NOTARISATION_SCAN_LIMIT_BLOCKS_def)
  ultimately obtain "is" where "[0..<nat NOTARISATION_SCAN_LIMIT_BLOCKS] = 0 # 1 # 2 # is" by blast
  moreover have "proofroot_loop hsc_params (\<lambda>_. 0) cc_chain window_db ''CHAINB'' 2 5 0 0 [] (0 # 1 # 2 # is) = Inr (Some ([192, 20, 21, 22, 23], 300))" for "is"
    by (simp add: cc_heights window_stored own_fields cc_fields GetSymbolAuthority_def Let_def)
  moreover have "blob_key 20 = push_bit 248 20" "blob_key 21 = push_bit 248 21" "blob_key 22 = push_bit 248 22" "blob_key 23 = push_bit 248 23"
    "blob_key 192 = push_bit 248 192" by (intro blob_key_small; simp)+
  then have "sort_key blob_key (remdups [192, 20, 21, 22, 23]) = [20, 21, 22, 23, 192]" by simp
  moreover have "GetMerkleRoot (\<lambda>a b. 3 * a + b) [20, 21, 22, 23, 192] = 4068" by code_simp
  moreover have "length (chainActive cc_chain) = 8" by (simp add: cc_chain_def)
  ultimately show ?thesis by (simp add: CalculateProofRoot_def)
qed

theorem crosschain_proof_exists_witness:
  "\<exists>p. GetCrossChainProof (\<lambda>a b. 3 * a + b) hsc_params (\<lambda>_. 0) cc_chain window_db (\<lambda>h. Some (cc_tx h, 104)) 12 ''CHAINB'' 2
       (77, \<lparr>mb_nIndex = 3, mb_branch = [11, 5, 12]\<rparr>) 1 = Inr (300, p) \<and>
     MerkleBranch_Exec (\<lambda>a b. 3 * a + b) p 12 = 4068"
proof -
  let ?H = "\<lambda>a b :: uint256. 3 * a + b" and ?p = "(77 :: uint256, \<lparr>mb_nIndex = 3, mb_branch = [11, 5, 12]\<rparr>)"
  have h: "GetTxConfirmed cc_chain (\<lambda>h. Some (cc_tx h, 104)) (fst ?p) = Some (cc_tx 77, cc_block 4)"
    "MerkleBranch_Exec ?H (snd ?p) 12 = 192" "tree_height (length [20, 21, 22, 23, 192 :: uint256]) 0 = 3" "siblings_differ ?H [20, 21, 22, 23, 192]"
    by code_simp+
  have scan: "ScanNotarizationsFromHeight hsc_params (\<lambda>_. 0) cc_chain window_db (bi_height (cc_block 4)) (\<lambda>n. nd_symbol (snd n) = ''CHAINB'') = Inr (4, Some (own_nota 1))"
    unfolding ScanNotarizationsFromHeight_def cc_heights(1,2) by (simp add: cc_heights window_stored own_fields)
  have r: "CalculateProofRoot ?H hsc_params (\<lambda>_. 0) cc_chain window_db ''CHAINB'' 2 (wrap32 (4 + 1)) = Inr (4068, [20, 21, 22, 23, 192], 300)"
    using window_root by (simp add: is_i32_def)
  have "(4068 :: uint256) \<noteq> 0" "(192 :: uint256) \<noteq> 0" by simp_all
  then show ?thesis
    using crosschain_proof_exists [OF h(1) scan _ r, where txid = 12] unfolding h(2) h(3) using h(4) by simp
qed

definition ascii_addr :: "pubkey33 \<Rightarrow> string" where
  "ascii_addr k = map (\<lambda>b. char_of (unat b)) k"

lemma ascii_addr_inj: "ascii_addr k = ascii_addr k' \<longleftrightarrow> k = k'"
proof -
  have "unat a = unat b" if "char_of (unat a) = (char_of (unat b) :: char)" for a b :: byte
  proof -
    have "(of_char (char_of (unat a) :: char) :: nat) = of_char (char_of (unat b) :: char)" using that by simp
    moreover have "unat c < 256" for c :: byte using unsigned_less [of c] by simp
    ultimately show ?thesis by (simp only: of_char_of) simp
  qed
  then have "inj (\<lambda>b :: byte. char_of (unat b) :: char)" by (intro injI) (simp add: word_unat_eq_iff)
  then show ?thesis by (simp add: ascii_addr_def inj_map_eq_map)
qed

text \<open>Transactions 10 to 14 spend outputs of the first five notaries.\<close>

definition approval_gtb :: "uint256 \<Rightarrow> (block_tx \<times> uint256) option" where
  "approval_gtb h = Some (if h = 5 then the (notary_outputs 5)
     else \<lparr>tx_hash = h, tx_vin = [(5, ucast (h - 10))], tx_vout = [\<lparr>to_scriptPubKey = [0x6a, 1, 7], to_nValue = 0\<rparr>]\<rparr>, 104)"

definition approval_chain :: chain_view where
  "approval_chain = \<lparr>mapBlockIndex = [(104, \<lparr>bi_hash = 104, bi_height = 400000, bi_nTime = 9, bi_hashMerkleRoot = 0\<rparr>)], chainActive = [],
     IsInitialBlockDownload = False\<rparr>"

theorem approval_of_bad_proofs_witness:
  "\<forall>burntxid. CheckNotariesApproval hush3_params 1 (\<lambda>a b. a) approval_chain approval_gtb
     (\<lambda>_. Some (99, \<lparr>nTransactions = 0, vBits = [], vHash = [], fBad = False\<rparr>)) (\<lambda>s. Some (ascii_addr (take 33 (drop 1 s)))) ascii_addr
     (replicate 64 []) burntxid [10, 11, 12, 13, 14]"
proof (intro allI approval_of_bad_proofs)
  let ?U = "\<lambda>_ :: buffer. Some (99 :: uint256, \<lparr>nTransactions = 0, vBits = [], vHash = [], fBad = False\<rparr>)"
  let ?S = "\<lambda>s :: buffer. Some (ascii_addr (take 33 (drop 1 s)))"
  have l: "length (hush_pubkeys 7) = 64" "length (hush_pubkeys 7 ! j) = 33" if "j < 64" for j
    using hush_pubkeys_shape [of 7] that by simp_all
  have bad: "bad_proof 1 (\<lambda>a b. a) approval_chain approval_gtb ?U (\<lambda>tx. CheckVinPubKey approval_gtb ?S ascii_addr tx 0) h (hush_pubkeys 7 ! j)"
    if "j < 64" "unat (ucast (h - 10) :: u32) = j" "h \<noteq> 5" for h j
  proof -
    let ?tx = "\<lparr>tx_hash = h, tx_vin = [(5, ucast (h - 10))], tx_vout = [\<lparr>to_scriptPubKey = [0x6a, 1, 7], to_nValue = 0\<rparr>]\<rparr>"
    have "CheckVinPubKey approval_gtb ?S ascii_addr ?tx 0 k \<longleftrightarrow> k = hush_pubkeys 7 ! j" for k
      using that l [OF that(1)] by (simp add: CheckVinPubKey_def approval_gtb_def notary_outputs_def pubkey_script_def ascii_addr_inj)
    moreover have "GetTxConfirmed approval_chain approval_gtb h = Some (?tx, \<lparr>bi_hash = 104, bi_height = 400000, bi_nTime = 9, bi_hashMerkleRoot = 0\<rparr>)"
      using that by (simp add: GetTxConfirmed_def approval_gtb_def approval_chain_def)
    moreover have "GetOpReturnData [0x6a, 1, 7] = Some [7]" by code_simp
    moreover have "hush_pubkeys 7 ! j \<in> set (hush_pubkeys 7)" using that(1) l(1) [OF that(1)] by simp
    moreover have "fst (ExtractMatches 1 (\<lambda>a b. a) \<lparr>nTransactions = 0, vBits = [], vHash = [], fBad = False\<rparr>) \<noteq> 99"
      by (simp add: ExtractMatches_def)
    ultimately show ?thesis unfolding bad_proof_def
      by (intro exI [of _ ?tx] exI [of _ "\<lparr>bi_hash = 104, bi_height = 400000, bi_nTime = 9, bi_hashMerkleRoot = 0\<rparr>"] exI [of _ "[7]"]
          exI [of _ 99] exI [of _ "\<lparr>nTransactions = 0, vBits = [], vHash = [], fBad = False\<rparr>"]) simp
  qed
  show "list_all2 (bad_proof 1 (\<lambda>a b. a) approval_chain approval_gtb ?U (\<lambda>tx. CheckVinPubKey approval_gtb ?S ascii_addr tx 0)) [10, 11, 12, 13, 14]
      (map ((!) (hush_pubkeys 7)) [0..<5])"
  proof -
    have five: "[0..<5] = [0, 1, 2, 3, 4 :: nat]" by code_simp
    have u: "unat (ucast (10 - 10 :: uint256) :: u32) = 0" "unat (ucast (11 - 10 :: uint256) :: u32) = 1" "unat (ucast (12 - 10 :: uint256) :: u32) = 2"
      "unat (ucast (13 - 10 :: uint256) :: u32) = 3" "unat (ucast (14 - 10 :: uint256) :: u32) = 4" by code_simp+
    show ?thesis unfolding five list.map list_all2_Cons using bad [OF _ u(1)] bad [OF _ u(2)] bad [OF _ u(3)] bad [OF _ u(4)] bad [OF _ u(5)]
      by (intro conjI) simp_all
  qed
  show "distinct (map ((!) (hush_pubkeys 7)) [0..<5])"
    using l(1) [of 0] distinct_hush_pubkeys_7 by (simp add: distinct_map inj_on_def nth_eq_iff_index_eq)
qed (simp_all add: hush3_params_def)

end
