(* ===== verification/Hush_Pow.thy ===== *)
theory Hush_Pow
  imports Hush_Arith
begin

text \<open>
  Difficulty and chain work: \<open>pow.cpp\<close> (the averaging retarget of the main chain, the adaptive rules and the weighted average of smart
  chains, the check of a header's target, the work of a block), \<open>GetMedianTimePast\<close> of \<open>chain.h\<close> and the comparison of chain work of \<open>chain.cpp\<close>.

  A chain is the list of its block index entries from \<open>pindexLast\<close> back to the genesis block, so that \<open>pprev\<close> is the tail
  and the null pointer the empty list. Targets are 256-bit words, whose operations are those of the limb arithmetic
  (\<open>arith_uint256_exact\<close>); \<open>None\<close> is the exception of a division by zero, or a crash. Signed expressions that may leave their range wrap; the block time is positive and
  below 1600 seconds, so that no divisor formed from it is zero.
\<close>

section \<open>State\<close>

record pow_index =
  pi_height :: int
  pi_nTime :: u32
  pi_nBits :: u32

record pow_params =
  powLimit :: uint256
  powAlternate :: uint256
  nPowAveragingWindow :: int
  nPowMaxAdjustDown :: int
  nPowMaxAdjustUp :: int
  nPowTargetSpacing :: int
  nLwmaAjustedWeight :: int
  nMaxFutureBlockTime :: int
  POW_SYMBOL :: string
  ASSETCHAINS_ALGO :: u32
  ASSETCHAINS_ADAPTIVEPOW :: int
  ASSETCHAINS_BLOCKTIME :: int
  POW_STAKED :: bool

definition ASSETCHAINS_EQUIHASH :: u32 where
  "ASSETCHAINS_EQUIHASH = 0"

definition ASSETCHAINS_RANDOMX :: u32 where
  "ASSETCHAINS_RANDOMX = 1"

definition HUSH_MINDIFF_NBITS :: u32 where
  "HUSH_MINDIFF_NBITS = 0x200f0f0f"

definition wrap64 :: "int \<Rightarrow> int" where
  "wrap64 k = sint (word_of_int k :: u64)"

text \<open>\<open>arith_uint256\<close> from a 64-bit integer, and the compact form of a target: the assertions of \<open>GetCompact\<close> hold
  (\<open>compact_total\<close>), the other branch is never taken.\<close>

definition bn :: "int \<Rightarrow> uint256" where
  "bn k = ucast (word_of_int k :: u64)"

definition compact :: "uint256 \<Rightarrow> u32" where
  "compact t = (case GetCompact (UintToArith256 t) of Some c \<Rightarrow> c | None \<Rightarrow> 0)"

section \<open>Parameters of \<open>consensus/params.h\<close> and median time\<close>

definition AveragingWindowTimespan :: "pow_params \<Rightarrow> int" where
  "AveragingWindowTimespan P = nPowAveragingWindow P * nPowTargetSpacing P"

definition MinActualTimespan :: "pow_params \<Rightarrow> int" where
  "MinActualTimespan P = c_div (AveragingWindowTimespan P * (100 - nPowMaxAdjustUp P)) 100"

definition MaxActualTimespan :: "pow_params \<Rightarrow> int" where
  "MaxActualTimespan P = c_div (AveragingWindowTimespan P * (100 + nPowMaxAdjustDown P)) 100"

definition GetBlockTime :: "pow_index \<Rightarrow> int" where
  "GetBlockTime b = int (unat (pi_nTime b))"

definition nMedianTimeSpan :: nat where
  "nMedianTimeSpan = 11"

definition GetMedianTimePast :: "pow_index list \<Rightarrow> int" where
  "GetMedianTimePast ps =
     (let pmedian = sort (map GetBlockTime (take nMedianTimeSpan ps)) in pmedian ! (length pmedian div 2))"

section \<open>The averaging retarget\<close>

text \<open>The function \<open>AveragingWindowTimespan()\<close> of \<open>pow.cpp\<close>, for the main chain.\<close>

definition HUSH3_AWT :: int where
  "HUSH3_AWT = 1275"

definition pow_limit :: "pow_params \<Rightarrow> uint256" where
  "pow_limit P = (if ASSETCHAINS_ALGO P = ASSETCHAINS_EQUIHASH then powLimit P else powAlternate P)"

definition pow_awt :: "pow_params \<Rightarrow> int" where
  "pow_awt P = (if take 5 (POW_SYMBOL P) = ''HUSH3'' then HUSH3_AWT else AveragingWindowTimespan P)"

text \<open>\<open>bnNew *= nActualTimespan\<close> selects the 32-bit multiplication, so the timespan is cut to 32 bits.\<close>

definition actual_timespan :: "pow_params \<Rightarrow> int \<Rightarrow> int \<Rightarrow> int" where
  "actual_timespan P nLastBlockTime nFirstBlockTime =
     (let AWT = pow_awt P; nActualTimespan = AWT + c_div (nLastBlockTime - nFirstBlockTime - AWT) 4
      in if ASSETCHAINS_ADAPTIVEPOW P \<le> 0
         then let nActualTimespan = (if nActualTimespan < MinActualTimespan P then MinActualTimespan P else nActualTimespan)
              in if nActualTimespan > MaxActualTimespan P then MaxActualTimespan P else nActualTimespan
         else nActualTimespan)"

definition CalculateNextWorkRequired :: "uint256 \<Rightarrow> int \<Rightarrow> int \<Rightarrow> pow_params \<Rightarrow> u32 option" where
  "CalculateNextWorkRequired bnAvg nLastBlockTime nFirstBlockTime P =
     (if bn (pow_awt P) = 0 then None
      else
        let bnNew = (bnAvg div bn (pow_awt P)) * ucast (word_of_int (actual_timespan P nLastBlockTime nFirstBlockTime) :: u32)
        in Some (compact (if bnNew > pow_limit P then pow_limit P else bnNew)))"

section \<open>Adaptive rules\<close>

definition pow_K :: int where
  "pow_K = 1000000"

text \<open>\<open>ts\<close> and \<open>ct\<close> are the arrays of 64 timestamps and targets.\<close>

definition RT_CST_RST_outer :: "int \<Rightarrow> u32 \<Rightarrow> uint256 \<Rightarrow> u32 list \<Rightarrow> uint256 list \<Rightarrow> int \<Rightarrow> int \<Rightarrow> nat \<Rightarrow> uint256" where
  "RT_CST_RST_outer T nTime bnTarget ts ct numerator denominator W =
     (let mintarget = bnTarget div 2; cmpval = max 2 (c_div (wrap32 (T * numerator)) denominator)
      in if ts ! 0 - ts ! W < word_of_int cmpval
         then
           let outerK = c_div (wrap64 (pow_K * int (unat (nTime - ts ! 0)) * int (unat (ts ! 0 - ts ! W)) * denominator))
                          (wrap32 (numerator * (T * T)));
               bnTarget = (if outerK < pow_K then (ct ! 0 div bn pow_K) * bn outerK else bnTarget)
           in if bnTarget > mintarget then mintarget else bnTarget
         else bnTarget)"

definition RT_CST_RST_target :: "int \<Rightarrow> u32 \<Rightarrow> u32 list \<Rightarrow> uint256 list \<Rightarrow> nat \<Rightarrow> uint256" where
  "RT_CST_RST_target T nTime ts ct width =
     (let bnTarget = fold (\<lambda>i t. t + ct ! i) [1..<width] (ct ! 0);
          innerK = c_div (wrap64 (pow_K * int (unat (nTime - ts ! 0)) * int (unat (ts ! 0 - ts ! width)))) (wrap32 (int width * T * T))
      in (bnTarget div bn (int width * pow_K)) * bn innerK)"

definition RT_CST_RST_inner :: "int \<Rightarrow> u32 \<Rightarrow> uint256 \<Rightarrow> u32 list \<Rightarrow> uint256 list \<Rightarrow> nat \<Rightarrow> nat \<Rightarrow> uint256" where
  "RT_CST_RST_inner T nTime bnTarget ts ct W outeri =
     (let width = outeri + W; expected = wrap32 ((int width + 1) * T)
      in if sint (ts ! 0 - ts ! width) < expected
         then
           let mintarget = (bnTarget div 101) * 100; t = RT_CST_RST_target T nTime ts ct W
           in if t = bnTarget then mintarget else t
         else bnTarget)"

fun pow3_wrap :: "nat \<Rightarrow> int" where
  "pow3_wrap 0 = 1"
| "pow3_wrap (Suc n) = wrap64 (pow3_wrap n * 3)"

definition zawy_exponential_val360000 :: "int \<Rightarrow> int \<Rightarrow> int" where
  "zawy_exponential_val360000 T num =
     (let n = c_div num T; modval = num - T * n; A = pow3_wrap (nat n);
          B = (if modval \<noteq> 0
               then 3600 * 100 + c_div (wrap32 (3600 * 110 * modval)) T + c_div (wrap32 (3600 * 60 * modval * modval)) (wrap32 (T * T))
               else 3600 * 100)
      in wrap64 (A * B))"

definition zawy_exponential :: "int \<Rightarrow> uint256 \<Rightarrow> int \<Rightarrow> uint256" where
  "zawy_exponential T bnTarget mult = (bnTarget div bn (100 * 3600)) * bn (zawy_exponential_val360000 T mult)"

text \<open>\<open>solvetime\<close> is unsigned; the product is computed in 64 bits and the divisor in 32.\<close>

definition zawy_ctB :: "int \<Rightarrow> uint256 \<Rightarrow> u32 \<Rightarrow> uint256" where
  "zawy_ctB T bnTarget solvetime =
     (let s = int (unat solvetime); num = c_div (wrap64 (1000 * s * s * 1000)) (wrap32 (T * T * 784))
      in if num > 1 then (bnTarget div bn 1000) * bn num else bnTarget)"

definition zawy_TSA_EMA :: "int \<Rightarrow> int \<Rightarrow> uint256 \<Rightarrow> uint256" where
  "zawy_TSA_EMA T tipdiff prevTarget =
     (let tipdiff = (if tipdiff < 4 then 4 else tipdiff); tipdiff = tipdiff - tipdiff mod 2;
          bnTarget = prevTarget div bn (pow_K * T); A = bnTarget * bn T; e = zawy_exponential_val360000 T (c_div tipdiff 2);
          B = (bnTarget div bn 360000) * bn (wrap64 (tipdiff * e)); C = (bnTarget div bn 360000) * bn (wrap64 (T * e))
      in ((A + B - C) div bn tipdiff) * bn (pow_K * T))"


text \<open>The cascade over windows of 1, 2, 3, 6 and 12 blocks when the last block carries no flag, and its result with the
  flag 2 when the target became harder.\<close>

fun outer_cascade :: "(uint256 \<Rightarrow> uint256) list \<Rightarrow> uint256 \<Rightarrow> uint256 \<Rightarrow> uint256 \<times> u32" where
  "outer_cascade [] origtarget bnTarget = (bnTarget, 0)"
| "outer_cascade (f # fs) origtarget bnTarget =
     (let t = f origtarget in if t < origtarget then (t, 2) else outer_cascade fs origtarget t)"

definition adaptive_outer :: "int \<Rightarrow> u32 \<Rightarrow> uint256 \<Rightarrow> u32 list \<Rightarrow> uint256 list \<Rightarrow> uint256 \<times> u32" where
  "adaptive_outer T nTime bnTarget ts ct =
     (let outer = (\<lambda>numerator denominator W t. RT_CST_RST_outer T nTime t ts ct numerator denominator W);
          first = (\<lambda>t. if 60 \<le> T \<and> T < 100 then outer 1 60 1 t else if 100 \<le> T then outer 1 100 1 t else t)
      in outer_cascade [first, outer 15 100 2, outer 1 2 3, outer 7 3 6, outer 12 7 12] bnTarget bnTarget)"

text \<open>The other case: \<open>i\<close> is the distance to the last block with flag 2, at most 50.\<close>

definition inner_round :: "int \<Rightarrow> u32 \<Rightarrow> u32 list \<Rightarrow> uint256 list \<Rightarrow> nat \<Rightarrow> nat \<times> nat \<Rightarrow> uint256 \<Rightarrow> uint256" where
  "inner_round T nTime ts ct i lw bnTarget =
     (case lw of (limit, W) \<Rightarrow>
        if i < limit then let t = RT_CST_RST_inner T nTime bnTarget ts ct W i in if t < bnTarget then t else bnTarget
        else bnTarget)"

definition adaptive_inner :: "int \<Rightarrow> u32 \<Rightarrow> uint256 \<Rightarrow> u32 list \<Rightarrow> u32 list \<Rightarrow> uint256 list \<Rightarrow> uint256 \<times> u32" where
  "adaptive_inner T nTime origtarget zflags ts ct =
     (let i = length (takeWhile (\<lambda>z. z \<noteq> 2) (take 50 zflags));
          bnTarget = (if i < 10 then let t = RT_CST_RST_inner T nTime origtarget ts ct 1 i in if t > origtarget then origtarget else t
                      else origtarget);
          bnTarget = fold (inner_round T nTime ts ct i) [(20, 2), (30, 3), (40, 6), (50, 12)] bnTarget
      in (bnTarget, if bnTarget \<noteq> origtarget then 1 else 0))"

text \<open>What the adaptive rules make of the averaged target: the cascade, then the exponential relief when no block
  has been found for long (\<open>mult > 1\<close>), which may return the minimum difficulty at once.\<close>

definition adaptive_target :: "pow_params \<Rightarrow> u32 \<Rightarrow> int \<Rightarrow> u32 list \<Rightarrow> u32 list \<Rightarrow> uint256 list \<Rightarrow> uint256 \<Rightarrow> u32" where
  "adaptive_target P nTime mult zflags ts ct bnTarget =
     (let T = ASSETCHAINS_BLOCKTIME P; easy = SetCompact (HUSH_MINDIFF_NBITS AND NOT 3);
          (bnTarget, zawyflag) =
            (if zflags ! 0 = 0 \<or> zflags ! 0 = 3 then adaptive_outer T nTime bnTarget ts ct
             else adaptive_inner T nTime bnTarget zflags ts ct)
      in if mult > 1
         then let t = zawy_exponential T bnTarget mult
              in if t < bnTarget \<or> t > easy then HUSH_MINDIFF_NBITS AND NOT 3
                 else (compact t AND 0xfffffffc) OR zawyflag
         else (compact bnTarget AND 0xfffffffc) OR zawyflag)"

section \<open>The next target\<close>

text \<open>The arrays read from the last 64 blocks: flags, targets (corrected by the solve time for flags 1 and 2 when there is a
  block before them) and timestamps.\<close>

definition pow_zflags :: "pow_index list \<Rightarrow> u32 list" where
  "pow_zflags ps = map (\<lambda>i. if i < length ps then pi_nBits (ps ! i) AND 3 else 0) [0..<64]"

definition pow_ts :: "pow_index list \<Rightarrow> u32 list" where
  "pow_ts ps = map (\<lambda>i. if i < length ps then pi_nTime (ps ! i) else 0) [0..<64]"

definition pow_ct :: "int \<Rightarrow> pow_index list \<Rightarrow> uint256 list" where
  "pow_ct T ps =
     (let zflags = pow_zflags ps; ts = pow_ts ps
      in map (\<lambda>i. let c = (if i < length ps then SetCompact (pi_nBits (ps ! i)) else 0)
                  in if 64 < length ps \<and> i < 63 \<and> (zflags ! i = 1 \<or> zflags ! i = 2)
                     then zawy_ctB T c (ts ! i - ts ! (i + 1)) else c) [0..<64])"

text \<open>The loop over the averaging window; it carries \<open>mult\<close> and the sum, and stops at the end of the chain. The flags of
  chains below 64 blocks are zero.\<close>

fun window_loop :: "pow_params \<Rightarrow> u32 option \<Rightarrow> u32 list \<Rightarrow> nat \<Rightarrow> nat \<Rightarrow> pow_index list \<Rightarrow> int \<times> uint256
      \<Rightarrow> (int \<times> uint256) \<times> pow_index list" where
  "window_loop P pblock zflags i 0 ps s = (s, ps)"
| "window_loop P pblock zflags i (Suc n) [] s = (s, [])"
| "window_loop P pblock zflags i (Suc n) (b # ps) (mult, bnTot) =
     (let bnTmp = SetCompact (pi_nBits b);
          (mult, bnTmp) =
            (case pblock of
               Some nTime \<Rightarrow>
                 if ASSETCHAINS_ADAPTIVEPOW P > 0
                 then let diff = wrap32 (sint (nTime - pi_nTime b) - (8 + int i) * ASSETCHAINS_BLOCKTIME P)
                      in (if i < 6 \<and> diff > mult then diff else mult,
                          if zflags ! i \<noteq> 0 \<and> zflags ! 0 = 0 then (bnTmp div 8) * 7 else bnTmp)
                 else (mult, bnTmp)
             | None \<Rightarrow> (mult, bnTmp))
      in window_loop P pblock zflags (i + 1) n ps (mult, bnTot + bnTmp))"

text \<open>The weighted average that chains with other algorithms use.\<close>

fun lwma_loop :: "pow_params \<Rightarrow> int \<Rightarrow> nat \<Rightarrow> pow_index list \<Rightarrow> int \<times> uint256 \<Rightarrow> (int \<times> uint256) \<times> pow_index list" where
  "lwma_loop P j 0 ps s = (s, ps)"
| "lwma_loop P j (Suc n) [] s = (s, [])"
| "lwma_loop P j (Suc n) [b] s = (s, [])"
| "lwma_loop P j (Suc n) (b # b' # ps) (t, sumTarget) =
     lwma_loop P (j - 1) n (b' # ps)
       (wrap64 (t + (GetBlockTime b - GetBlockTime b') * j),
        sumTarget + SetCompact (pi_nBits b) div bn (nLwmaAjustedWeight P * nPowAveragingWindow P * nPowAveragingWindow P))"

definition lwmaCalculateNextWorkRequired :: "pow_index list \<Rightarrow> pow_params \<Rightarrow> u32 option" where
  "lwmaCalculateNextWorkRequired ps P =
     (if bn (nLwmaAjustedWeight P * nPowAveragingWindow P * nPowAveragingWindow P) = 0 \<and> 0 < nPowAveragingWindow P \<and> 2 \<le> length ps
      then None
      else let N = nPowAveragingWindow P; k = nLwmaAjustedWeight P; bnLimit = pow_limit P;
          ((t, sumTarget), pindexFirst) = lwma_loop P (N - 1) (nat N) ps (0, 0)
      in if pindexFirst = [] then Some (compact bnLimit)
         else
           let t = (if t < c_div (N * k) 3 then c_div (N * k) 3 else t);
               nextTarget = bn t * sumTarget
           in Some (compact (if nextTarget > bnLimit then bnLimit else nextTarget)))"

text \<open>The whole function; the first statement reads \<open>pindexLast\<close> before it is compared with the null pointer, which crashes on an empty
  chain. \<open>pblock\<close> is the timestamp of the header being mined or checked, if there is one.\<close>

definition GetNextWorkRequired :: "pow_index list \<Rightarrow> u32 option \<Rightarrow> pow_params \<Rightarrow> u32 option" where
  "GetNextWorkRequired ps pblock P =
     (case ps of [] \<Rightarrow> None
      | pindexLast # _ \<Rightarrow>
        if ASSETCHAINS_ALGO P \<noteq> ASSETCHAINS_EQUIHASH \<and> ASSETCHAINS_ALGO P \<noteq> ASSETCHAINS_RANDOMX
        then lwmaCalculateNextWorkRequired ps P
        else
          let T = ASSETCHAINS_BLOCKTIME P; height = pi_height pindexLast + 1;
              full = (ASSETCHAINS_ADAPTIVEPOW P > 0 \<and> pblock \<noteq> None \<and> height \<ge> 64);
              nTime = (case pblock of Some t \<Rightarrow> t | None \<Rightarrow> 0);
              tipdiff = (if full then sint (nTime - pi_nTime pindexLast) else 0);
              zflags = (if full then pow_zflags ps else replicate 64 0); ts = pow_ts ps; ct = pow_ct T ps
          in if full \<and> ASSETCHAINS_ADAPTIVEPOW P = 2
             then Some (compact (zawy_TSA_EMA T tipdiff (ct ! 0)) AND 0xfffffffc)
             else
               let ((mult, bnTot), pindexFirst) =
                     window_loop P pblock zflags 0 (nat (nPowAveragingWindow P)) ps (if full then wrap32 (tipdiff - 7 * T) else 0, 0)
               in if pindexFirst = [] then Some (compact (pow_limit P))
                  else if bn (nPowAveragingWindow P) = 0 then None
                  else
                    case CalculateNextWorkRequired (bnTot div bn (nPowAveragingWindow P))
                           (GetMedianTimePast ps) (GetMedianTimePast pindexFirst) P of
                      None \<Rightarrow> None
                    | Some nbits \<Rightarrow>
                        if ASSETCHAINS_ADAPTIVEPOW P > 0
                        then if height > 64 \<and> pblock \<noteq> None \<and> tipdiff > 0
                             then Some (adaptive_target P nTime mult zflags ts ct (SetCompact nbits))
                             else Some (compact (SetCompact nbits) AND 0xfffffffc)
                        else Some nbits)"

section \<open>Checks and work\<close>

definition DoesHashQualify :: "uint256 \<Rightarrow> u32 \<Rightarrow> bool" where
  "DoesHashQualify hash nBits \<longleftrightarrow> \<not> hash > SetCompact nBits"

text \<open>\<open>loading\<close> is \<open>HUSH_LOADINGBLOCKS\<close>, \<open>current\<close> the result of \<open>hush_currentheight\<close>. The rejection of a hash above the target is commented
  out in the source.\<close>

definition CheckProofOfWork :: "bool \<Rightarrow> int \<Rightarrow> pow_params \<Rightarrow> uint256 \<Rightarrow> u32 \<Rightarrow> int \<Rightarrow> bool" where
  "CheckProofOfWork loading current P hash nBits height =
     (let height = (if height = 0 then current + 1 else height);
          (fNegative, fOverflow) = SetCompact_flags nBits; bnTarget = SetCompact nBits;
          bnLimit = (if height \<le> 1 \<or> ASSETCHAINS_ALGO P = ASSETCHAINS_EQUIHASH then powLimit P else powAlternate P)
      in if fNegative \<or> bnTarget = 0 \<or> fOverflow \<or> bnTarget > bnLimit then False
         else
           let bnTarget = (if POW_STAKED P then SetCompact HUSH_MINDIFF_NBITS else bnTarget)
           in if hash > bnTarget then (if loading then True else True) else True)"

text \<open>The work of a block and the work of a chain, accumulated as \<open>AddToBlockIndex\<close> does.\<close>

definition GetBlockProof :: "u32 \<Rightarrow> uint256" where
  "GetBlockProof nBits =
     (let bnWorkTarget = SetCompact nBits; (fNegative, fOverflow) = SetCompact_flags nBits
      in if fNegative \<or> fOverflow \<or> bnWorkTarget = 0 then 0 else (NOT bnWorkTarget) div (bnWorkTarget + 1) + 1)"

fun chain_work :: "pow_index list \<Rightarrow> uint256" where
  "chain_work [] = 0"
| "chain_work (b # ps) = chain_work ps + GetBlockProof (pi_nBits b)"

text \<open>\<open>None\<close> is the exception of a division by zero.\<close>

definition GetBlockProofEquivalentTime :: "uint256 \<Rightarrow> uint256 \<Rightarrow> u32 \<Rightarrow> pow_params \<Rightarrow> int option" where
  "GetBlockProofEquivalentTime towork fromwork tipBits P =
     (let (r, sign) = (if towork > fromwork then (towork - fromwork, 1) else (fromwork - towork, -1)); proof = GetBlockProof tipBits
      in if proof = 0 then None
         else
           let r = (r * bn (nPowTargetSpacing P)) div proof
           in if base_bits (UintToArith256 r) > 63 then Some (sign * (2 ^ 63 - 1))
              else Some (sint (word_of_int (sign * int (unat (ucast r :: u64))) :: u64)))"

text \<open>The operators of \<open>CChainPower\<close> compare quotients with 16 bits of fraction.\<close>

definition workDivisor :: "uint256 \<Rightarrow> uint256 \<Rightarrow> uint256" where
  "workDivisor w1 w2 = (if w1 > w2 then w1 else if w2 \<noteq> 0 then w2 else 1)"

definition power_less :: "uint256 \<Rightarrow> uint256 \<Rightarrow> bool" where
  "power_less w1 w2 \<longleftrightarrow> push_bit 16 w1 div workDivisor w1 w2 < push_bit 16 w2 div workDivisor w1 w2"

definition power_le :: "uint256 \<Rightarrow> uint256 \<Rightarrow> bool" where
  "power_le w1 w2 \<longleftrightarrow> push_bit 16 w1 div workDivisor w1 w2 \<le> push_bit 16 w2 div workDivisor w1 w2"

definition power_eq :: "uint256 \<Rightarrow> uint256 \<Rightarrow> bool" where
  "power_eq w1 w2 \<longleftrightarrow> push_bit 16 w1 div workDivisor w1 w2 = push_bit 16 w2 div workDivisor w1 w2"


section \<open>The header rules\<close>

text \<open>
  The rules on target and time of \<open>ContextualCheckBlockHeader\<close>, before its checkpoint tests (\<open>header_fork_check\<close>). On the main chain the block time
  changes to 75 seconds at the first header above \<open>nFirstHalvingHeight\<close> (\<open>hush_changeblocktime\<close>), and from \<open>daaForkHeight\<close> on the target must be the required one.
  \<open>now\<close> is the node's clock. A missing previous block fails the assertion.
\<close>

definition is_main_chain :: "pow_params \<Rightarrow> bool" where
  "is_main_chain P \<longleftrightarrow> take 5 (POW_SYMBOL P) = ''HUSH3''"

definition hush_changeblocktime :: "pow_params \<Rightarrow> pow_params" where
  "hush_changeblocktime P =
     P\<lparr>nMaxFutureBlockTime := 7 * ASSETCHAINS_BLOCKTIME P, nPowTargetSpacing := ASSETCHAINS_BLOCKTIME P\<rparr>"

definition header_blocktime :: "int \<Rightarrow> int \<Rightarrow> pow_params \<Rightarrow> pow_params" where
  "header_blocktime nFirstHalvingHeight nHeight P =
     (if is_main_chain P \<and> ASSETCHAINS_BLOCKTIME P \<noteq> 75 \<and> nHeight \<ge> nFirstHalvingHeight
      then hush_changeblocktime (P\<lparr>ASSETCHAINS_BLOCKTIME := 75\<rparr>) else P)"

definition header_time_ok :: "int \<Rightarrow> pow_params \<Rightarrow> pow_index list \<Rightarrow> u32 \<Rightarrow> bool" where
  "header_time_ok now P ps nTime =
     (let nHeight = pi_height (hd ps) + 1; t = int (unat nTime)
      in if (if ASSETCHAINS_ADAPTIVEPOW P \<le> 0 \<or> nHeight < 30 then t \<le> GetMedianTimePast ps else t \<le> GetBlockTime (hd ps)) then False
         else \<not> t > now + nMaxFutureBlockTime P)"

definition header_pow_check :: "int \<Rightarrow> int \<Rightarrow> int \<Rightarrow> pow_index list \<Rightarrow> u32 \<Rightarrow> u32 \<Rightarrow> pow_params \<Rightarrow> (bool \<times> pow_params) option" where
  "header_pow_check daaForkHeight nFirstHalvingHeight now ps nBits nTime P =
     (if ps = [] then None
      else
        let nHeight = pi_height (hd ps) + 1; P = header_blocktime nFirstHalvingHeight nHeight P
        in if is_main_chain P
           then case GetNextWorkRequired ps (Some nTime) P of
                  None \<Rightarrow> None
                | Some nNextWork \<Rightarrow>
                    if nBits \<noteq> nNextWork \<and> nHeight > daaForkHeight then Some (False, P) else Some (header_time_ok now P ps nTime, P)
           else Some (header_time_ok now P ps nTime, P))"

section \<open>Compact targets\<close>

lemma compact_decoded:
  "SetCompact_flags (compact t) = (False, False) \<and> SetCompact (compact t) \<le> t \<and>
   32767 * unat t \<le> 32768 * unat (SetCompact (compact t))"
proof -
  obtain c k where c: "GetCompact (UintToArith256 t) = Some c" "SetCompact_flags c = (False, False)"
    "unat (SetCompact c) = unat t div 2 ^ k * 2 ^ k" "k = 0 \<or> 2 ^ (k + 15) \<le> unat t"
    using compact_spec [of "UintToArith256 t"] by (metis UintToArith256_value length_UintToArith256)
  have v: "unat (SetCompact c) + unat t mod 2 ^ k = unat t"
    unfolding c(3) by (rule div_mult_mod_eq)
  have "32768 * (unat t mod 2 ^ k) \<le> unat t"
  proof (cases "k = 0")
    case False
    have "32768 * (unat t mod 2 ^ k) \<le> 32768 * 2 ^ k"
      by (intro mult_le_mono2 less_imp_le) simp
    also have "\<dots> = 2 ^ (k + 15)"
      by (simp add: power_add)
    also have "\<dots> \<le> unat t"
      using c(4) False by simp
    finally show ?thesis .
  qed simp
  then show ?thesis
    using c(1,2) v by (simp add: compact_def word_le_nat_alt)
qed

lemma compact_zero_iff: "SetCompact (compact t) = 0 \<longleftrightarrow> t = 0"
  using compact_decoded [of t] by (auto simp: word_le_nat_alt unat_eq_zero)

section \<open>The averaging window\<close>

definition block_target :: "pow_index \<Rightarrow> nat" where
  "block_target b = unat (SetCompact (pi_nBits b))"

definition window_average :: "nat \<Rightarrow> pow_index list \<Rightarrow> nat" where
  "window_average n ps = sum_list (map block_target (take n ps)) div n"

lemma window_loop_plain:
  "ASSETCHAINS_ADAPTIVEPOW P \<le> 0 \<Longrightarrow>
     window_loop P pblock z i n ps (m, tot) = ((m, tot + (\<Sum>b\<leftarrow>take n ps. SetCompact (pi_nBits b))), drop n ps)"
proof (induction n arbitrary: i ps tot)
  case (Suc n)
  show ?case
  proof (cases ps)
    case (Cons b bs)
    then show ?thesis
      using Suc by (cases pblock) (simp_all add: Let_def add.assoc)
  qed simp
qed simp

lemma unat_sum_words:
  "(\<Sum>x\<leftarrow>xs. unat (f x)) < 2 ^ 256 \<Longrightarrow> unat (\<Sum>x\<leftarrow>xs. (f x :: uint256)) = (\<Sum>x\<leftarrow>xs. unat (f x))"
proof (induction xs)
  case (Cons x xs)
  then show ?case
    by (simp add: unat_word_ariths)
qed simp

lemma window_sum_bound:
  assumes "\<forall>b \<in> set (take n ps). block_target b \<le> L"
  shows "sum_list (map block_target (take n ps)) \<le> n * L"
proof -
  have "sum_list (map block_target (take n ps)) \<le> length (take n ps) * L"
    using sum_list_mono [of "take n ps" block_target "\<lambda>_. L"] assms by (simp add: sum_list_triv)
  also have "\<dots> \<le> n * L"
    by (simp add: mult_le_mono1)
  finally show ?thesis .
qed

text \<open>What makes the parameters of a chain sound; \<open>chainparams.cpp\<close> asserts the first bound on the limit.\<close>

definition pow_params_ok :: "pow_params \<Rightarrow> bool" where
  "pow_params_ok P \<longleftrightarrow>
     (ASSETCHAINS_ALGO P = ASSETCHAINS_EQUIHASH \<or> ASSETCHAINS_ALGO P = ASSETCHAINS_RANDOMX) \<and>
     ASSETCHAINS_ADAPTIVEPOW P \<le> 0 \<and> 0 < nPowAveragingWindow P \<and> nPowAveragingWindow P < 2 ^ 31 \<and>
     nat (nPowAveragingWindow P) * unat (pow_limit P) < 2 ^ 256 \<and>
     0 < pow_awt P \<and> pow_awt P < 2 ^ 32 \<and> 0 \<le> MinActualTimespan P \<and> MinActualTimespan P \<le> MaxActualTimespan P \<and>
     MaxActualTimespan P < 2 ^ 32 \<and> unat (pow_limit P) div nat (pow_awt P) * nat (MaxActualTimespan P) < 2 ^ 256"

lemma unat_bn: "0 \<le> k \<Longrightarrow> k < 2 ^ 63 \<Longrightarrow> unat (bn k) = nat k"
proof -
  assume k: "0 \<le> k" "k < 2 ^ 63"
  then have "unat (word_of_int k :: u64) = nat k"
    by (simp add: unat_eq_nat_uint uint_word_of_int)
  then show ?thesis
    using k unfolding bn_def by (simp add: unsigned_ucast_eq take_bit_nat_eq_self)
qed

lemma unat_u32_factor: "0 \<le> k \<Longrightarrow> k < 2 ^ 32 \<Longrightarrow> unat (ucast (word_of_int k :: u32) :: uint256) = nat k"
proof -
  assume k: "0 \<le> k" "k < 2 ^ 32"
  then have "unat (word_of_int k :: u32) = nat k"
    by (simp add: unat_eq_nat_uint uint_word_of_int)
  then show ?thesis
    using k by (simp add: unsigned_ucast_eq take_bit_nat_eq_self)
qed

lemma unat256_lt: "unat (x :: uint256) < 2 ^ 256"
  using unsigned_less [of x] by simp

lemma unat_add_fits: "unat a + unat b < 2 ^ 256 \<Longrightarrow> unat (a + b :: uint256) = unat a + unat b"
  by (simp add: unat_word_ariths)

lemma unat_mult_fits: "unat a * unat b < 2 ^ 256 \<Longrightarrow> unat (a * b :: uint256) = unat a * unat b"
  by (simp add: unat_word_ariths)

text \<open>The timespan is always between the two bounds.\<close>

lemma actual_timespan_range:
  assumes "pow_params_ok P"
  shows "MinActualTimespan P \<le> actual_timespan P l f \<and> actual_timespan P l f \<le> MaxActualTimespan P"
  using assms by (auto simp: actual_timespan_def pow_params_ok_def Let_def)

text \<open>The specification of the timespan: a quarter of the deviation from the ideal timespan, rounded towards it, within the bounds.\<close>

definition damped_timespan :: "pow_params \<Rightarrow> int \<Rightarrow> int" where
  "damped_timespan P elapsed =
     max (MinActualTimespan P) (min (MaxActualTimespan P)
       (if pow_awt P \<le> elapsed then pow_awt P + (elapsed - pow_awt P) div 4 else pow_awt P - (pow_awt P - elapsed) div 4))"

lemma c_div_4: "c_div k 4 = (if 0 \<le> k then k div 4 else - ((- k) div 4))"
  by (simp add: c_div_def sgn_if)

lemma actual_timespan_damped: "pow_params_ok P \<Longrightarrow> actual_timespan P l f = damped_timespan P (l - f)"
  by (auto simp: actual_timespan_def damped_timespan_def pow_params_ok_def Let_def c_div_4 max_def min_def)

text \<open>The target of a retarget, computed with natural numbers.\<close>

definition retarget :: "pow_params \<Rightarrow> nat \<Rightarrow> int \<Rightarrow> nat" where
  "retarget P avg timespan = min (unat (pow_limit P)) (avg div nat (pow_awt P) * nat timespan)"

lemma CalculateNextWork_value:
  assumes ok: "pow_params_ok P" and avg: "unat bnAvg \<le> unat (pow_limit P)"
  shows "CalculateNextWorkRequired bnAvg l f P = Some (compact (word_of_nat (retarget P (unat bnAvg) (actual_timespan P l f))))"
proof -
  let ?ts = "actual_timespan P l f" and ?L = "unat (pow_limit P)"
  have awt: "unat (bn (pow_awt P)) = nat (pow_awt P)" "0 < pow_awt P"
    using ok by (auto simp: pow_params_ok_def intro: unat_bn)
  then have nz: "bn (pow_awt P) \<noteq> 0"
    by (metis unat_0 zero_less_nat_eq less_irrefl)
  have ts: "0 \<le> ?ts" "?ts < 2 ^ 32" "nat ?ts \<le> nat (MaxActualTimespan P)"
    using actual_timespan_range [OF ok, of l f] ok by (auto simp: pow_params_ok_def)
  have "unat bnAvg div nat (pow_awt P) * nat ?ts \<le> ?L div nat (pow_awt P) * nat (MaxActualTimespan P)"
    using avg ts(3) by (intro mult_le_mono div_le_mono)
  then have "unat bnAvg div nat (pow_awt P) * nat ?ts < 2 ^ 256"
    using ok by (simp add: pow_params_ok_def)
  then have new: "unat ((bnAvg div bn (pow_awt P)) * ucast (word_of_int ?ts :: u32)) = unat bnAvg div nat (pow_awt P) * nat ?ts"
    using unat_u32_factor [OF ts(1,2)] awt(1) by (subst unat_mult_fits) (simp_all add: unat_div_distrib)
  have "(if (bnAvg div bn (pow_awt P)) * ucast (word_of_int ?ts :: u32) > pow_limit P then pow_limit P
      else (bnAvg div bn (pow_awt P)) * ucast (word_of_int ?ts :: u32)) = word_of_nat (retarget P (unat bnAvg) ?ts)"
    by (simp add: word_less_nat_alt new retarget_def min_def flip: new)
  then show ?thesis
    using nz by (simp add: CalculateNextWorkRequired_def Let_def)
qed

lemma window_average_le:
  assumes "0 < n" "\<forall>b \<in> set (take n ps). block_target b \<le> L"
  shows "window_average n ps \<le> L"
  using div_le_mono [OF window_sum_bound [OF assms(2)], of n] assms(1) by (simp add: window_average_def)

lemma next_work_value:
  assumes ok: "pow_params_ok P" and ne: "ps \<noteq> []"
    and targets: "\<forall>b \<in> set (take (nat (nPowAveragingWindow P)) ps). block_target b \<le> unat (pow_limit P)"
  defines "w \<equiv> nat (nPowAveragingWindow P)"
  shows "GetNextWorkRequired ps pblock P = Some (compact (
      if length ps \<le> w then pow_limit P
      else word_of_nat (retarget P (window_average w ps) (actual_timespan P (GetMedianTimePast ps) (GetMedianTimePast (drop w ps))))))"
proof -
  obtain b bs where ps: "ps = b # bs"
    using ne by (cases ps) auto
  let ?sum = "\<Sum>b\<leftarrow>take w ps. SetCompact (pi_nBits b)"
  have w: "0 < w" "unat (bn (nPowAveragingWindow P)) = w" "w * unat (pow_limit P) < 2 ^ 256"
    using ok by (auto simp: pow_params_ok_def w_def intro: unat_bn)
  then have nz: "bn (nPowAveragingWindow P) \<noteq> 0"
    by (metis unat_0 less_irrefl)
  have "sum_list (map block_target (take w ps)) < 2 ^ 256"
    using window_sum_bound [OF targets] w(3) by (simp add: w_def)
  then have "unat ?sum = sum_list (map block_target (take w ps))"
    using unat_sum_words [of "\<lambda>b. SetCompact (pi_nBits b)" "take w ps"] by (simp add: block_target_def [abs_def])
  then have avg: "unat (?sum div bn (nPowAveragingWindow P)) = window_average w ps"
    by (simp add: unat_div_distrib w(2) window_average_def)
  have le: "window_average w ps \<le> unat (pow_limit P)"
    using w(1) targets by (intro window_average_le) (simp_all add: w_def)
  have ad: "ASSETCHAINS_ADAPTIVEPOW P \<le> 0" and
    alg: "(ASSETCHAINS_ALGO P \<noteq> ASSETCHAINS_EQUIHASH \<and> ASSETCHAINS_ALGO P \<noteq> ASSETCHAINS_RANDOMX) = False"
    using ok by (auto simp: pow_params_ok_def)
  show ?thesis
    using ad nz CalculateNextWork_value [OF ok, of "?sum div bn (nPowAveragingWindow P)"] le avg
    unfolding ps GetNextWorkRequired_def list.case alg if_False
    by (simp add: Let_def window_loop_plain w_def [symmetric] ps [symmetric] not_le)
qed

text \<open>The specification of the required target: the limit until the window is full, then the average of the window, scaled by the damped timespan between
  the two median times over the ideal one, and at most the limit.\<close>

definition required_target :: "pow_params \<Rightarrow> pow_index list \<Rightarrow> nat" where
  "required_target P ps =
     (let w = nat (nPowAveragingWindow P)
      in if length ps \<le> w then unat (pow_limit P)
         else min (unat (pow_limit P))
           (sum_list (map block_target (take w ps)) div w div nat (pow_awt P) *
             nat (damped_timespan P (GetMedianTimePast ps - GetMedianTimePast (drop w ps)))))"

lemma next_work_required:
  assumes "pow_params_ok P" "ps \<noteq> []"
    and "\<forall>b \<in> set (take (nat (nPowAveragingWindow P)) ps). block_target b \<le> unat (pow_limit P)"
  shows "GetNextWorkRequired ps pblock P = Some (compact (word_of_nat (required_target P ps)))"
  using next_work_value [OF assms, of pblock] actual_timespan_damped [OF assms(1)]
  by (simp add: required_target_def retarget_def window_average_def Let_def)


lemma CalculateNextWork_compact:
  "CalculateNextWorkRequired bnAvg l f P = Some c \<Longrightarrow> \<exists>t \<le> pow_limit P. c = compact t"
  by (cases "(bnAvg div bn (pow_awt P)) * ucast (word_of_int (actual_timespan P l f) :: u32) > pow_limit P")
    (fastforce simp: CalculateNextWorkRequired_def Let_def not_less split: if_splits)+

lemma required_compact:
  assumes "pow_params_ok P" "GetNextWorkRequired ps pblock P = Some c"
  shows "\<exists>t \<le> pow_limit P. c = compact t"
proof (cases ps)
  case (Cons b bs)
  have ad: "ASSETCHAINS_ADAPTIVEPOW P \<le> 0" and
    alg: "(ASSETCHAINS_ALGO P \<noteq> ASSETCHAINS_EQUIHASH \<and> ASSETCHAINS_ALGO P \<noteq> ASSETCHAINS_RANDOMX) = False"
    using assms(1) by (auto simp: pow_params_ok_def)
  show ?thesis
    using assms(2) ad CalculateNextWork_compact unfolding Cons GetNextWorkRequired_def list.case alg if_False
    by (auto simp: Let_def window_loop_plain split: if_splits option.splits)
qed (use assms(2) in \<open>simp add: GetNextWorkRequired_def\<close>)

section \<open>Work\<close>

lemma SetCompact_not_max: "SetCompact n \<noteq> - 1"
proof (cases "unat (drop_bit 24 n) \<le> 3")
  case True
  have "\<not> bit (ucast x :: uint256) 40" for x :: u32
    by (auto simp: bit_simps dest: bit_imp_le_length)
  then have "\<not> bit (SetCompact n) 40"
    using True by (simp only: SetCompact_def Let_def if_True) simp
  then show ?thesis
    by (auto simp: bit_simps)
next
  case False
  then have "\<not> bit (SetCompact n) 0"
    by (simp add: SetCompact_def Let_def bit_push_bit_iff)
  then show ?thesis
    by (auto simp: bit_simps)
qed

lemma block_proof_value:
  assumes "SetCompact_flags n = (False, False)" "SetCompact n \<noteq> 0"
  shows "unat (GetBlockProof n) = 2 ^ 256 div (unat (SetCompact n) + 1)"
proof -
  let ?t = "SetCompact n"
  have t: "0 < unat ?t" "unat ?t < 2 ^ 256 - 1"
  proof -
    show "0 < unat ?t"
      using assms(2) by (simp add: unat_gt_0)
    have "unat ?t \<noteq> 2 ^ 256 - 1"
      using SetCompact_not_max [of n] by (auto simp: word_unat_eq_iff unsigned_minus_1_eq_mask mask_eq_exp_minus_1)
    then show "unat ?t < 2 ^ 256 - 1"
      using unat256_lt [of ?t] by simp
  qed
  have suc: "unat (?t + 1) = unat ?t + 1"
    using t(2) by (simp add: unat_word_ariths)
  have nt: "unat (NOT ?t) = 2 ^ 256 - 1 - unat ?t"
  proof -
    have "NOT ?t = - 1 - ?t"
      by (simp add: not_eq_complement)
    then show ?thesis
      by (simp add: unat_sub unsigned_minus_1_eq_mask mask_eq_exp_minus_1)
  qed
  have split: "(2 :: nat) ^ 256 = (2 ^ 256 - 1 - unat ?t) + (unat ?t + 1)"
    using t(2) by simp
  have "2 ^ 256 div (unat ?t + 1) = (2 ^ 256 - 1 - unat ?t) div (unat ?t + 1) + 1"
    by (subst split, subst div_add_self2) simp_all
  moreover have "(2 :: nat) ^ 256 div (unat ?t + 1) < 2 ^ 256"
    using t(1) by (intro div_less_dividend) simp_all
  moreover have "unat (NOT ?t div (?t + 1)) = (2 ^ 256 - 1 - unat ?t) div (unat ?t + 1)"
    by (simp only: unat_div_distrib suc nt)
  ultimately have "unat (NOT ?t div (?t + 1) + 1) = 2 ^ 256 div (unat ?t + 1)"
    by (subst unat_add_fits) simp_all
  then show ?thesis
    using assms by (simp add: GetBlockProof_def Let_def)
qed

lemma shifted_quotient:
  assumes "unat w < 2 ^ 240"
  shows "unat (push_bit 16 w :: uint256) = unat w * 2 ^ 16"
proof -
  have "unat (push_bit 16 w) = take_bit 256 (push_bit 16 (unat w))"
    by (rule bit_eqI) (auto simp: bit_simps)
  then show ?thesis
    using assms by (simp add: take_bit_eq_mod push_bit_eq_mult)
qed

lemma power_quotients:
  assumes "unat w1 < 2 ^ 240" "unat w2 < 2 ^ 240"
  defines "q1 \<equiv> push_bit 16 w1 div workDivisor w1 w2" and "q2 \<equiv> push_bit 16 w2 div workDivisor w1 w2"
  shows "(q1 < q2 \<longleftrightarrow> w1 < w2) \<and> (q2 < q1 \<longleftrightarrow> w2 < w1)"
proof -
  let ?d = "max (unat w1) (unat w2)"
  have less: "a * 2 ^ 16 div b < 2 ^ 16 \<longleftrightarrow> a < b" if "0 < b" for a b :: nat
    using that by (simp add: div_less_iff_less_mult)
  have q: "unat q1 = unat w1 * 2 ^ 16 div unat (workDivisor w1 w2)" "unat q2 = unat w2 * 2 ^ 16 div unat (workDivisor w1 w2)"
    using assms shifted_quotient by (simp_all add: unat_div_distrib)
  consider "w1 = w2" | "w1 < w2" | "w2 < w1"
    by fastforce
  then show ?thesis
  proof cases
    case 1
    then show ?thesis
      by (simp add: q1_def q2_def)
  next
    case 2
    then have "workDivisor w1 w2 = w2" "0 < unat w2" "unat w1 < unat w2"
      by (auto simp: workDivisor_def word_less_nat_alt)
    then have "unat q1 < unat q2"
      using q less [of "unat w2" "unat w1"] by simp
    then show ?thesis
      using 2 by (simp add: word_less_nat_alt)
  next
    case 3
    then have "workDivisor w1 w2 = w1" "0 < unat w1" "unat w2 < unat w1"
      by (auto simp: workDivisor_def word_less_nat_alt)
    then have "unat q2 < unat q1"
      using q less [of "unat w1" "unat w2"] by simp
    then show ?thesis
      using 3 by (simp add: word_less_nat_alt)
  qed
qed

lemma power_order:
  assumes "unat w1 < 2 ^ 240" "unat w2 < 2 ^ 240"
  shows "(power_less w1 w2 \<longleftrightarrow> w1 < w2) \<and> (power_le w1 w2 \<longleftrightarrow> w1 \<le> w2) \<and> (power_eq w1 w2 \<longleftrightarrow> w1 = w2)"
  using power_quotients [OF assms] unfolding power_less_def power_le_def power_eq_def
  by (simp only: eq_iff [where 'a = uint256] not_less [symmetric] simp_thms)

section \<open>Median time\<close>

lemma sorted_nth_ge:
  "sorted xs \<Longrightarrow> k < length xs \<Longrightarrow> v \<le> xs ! k \<longleftrightarrow> length (filter (\<lambda>x. x < v) xs) \<le> (k :: nat)" for v :: "'a::linorder"
proof (induction xs arbitrary: k)
  case (Cons x xs)
  show ?case
  proof (cases "x < v")
    case True
    then show ?thesis
      using Cons by (cases k) auto
  next
    case False
    then have "filter (\<lambda>x. x < v) xs = []"
      using Cons.prems(1) by (auto simp: filter_empty_conv)
    moreover have "x \<le> (x # xs) ! k"
      using Cons.prems by (cases k) auto
    ultimately show ?thesis
      using False by simp
  qed
qed simp

lemma sort_nth_ge: "k < length xs \<Longrightarrow> v \<le> sort xs ! k \<longleftrightarrow> length (filter (\<lambda>x. x < v) xs) \<le> (k :: nat)" for v :: "'a::linorder"
  using sorted_nth_ge [of "sort xs" k v] by (simp add: filter_sort)

text \<open>A block whose time is above the median of its predecessors does not lower the median.\<close>

lemma median_step:
  assumes "ps \<noteq> []" "GetMedianTimePast ps \<le> GetBlockTime b"
  shows "GetMedianTimePast ps \<le> GetMedianTimePast (b # ps)"
proof -
  let ?old = "map GetBlockTime (take nMedianTimeSpan ps)" and ?new = "map GetBlockTime (take nMedianTimeSpan (b # ps))"
  let ?v = "GetMedianTimePast ps" and ?lt = "\<lambda>xs. length (filter (\<lambda>x. x < GetMedianTimePast ps) xs)"
  have "length ?old div 2 < length ?old"
    using assms(1) by (intro div_less_dividend) (simp_all add: nMedianTimeSpan_def)
  then have "?lt ?old \<le> length ?old div 2"
    using sort_nth_ge [of "length ?old div 2" ?old ?v] by (simp add: GetMedianTimePast_def Let_def)
  moreover have "?lt ?new \<le> ?lt ?old"
  proof -
    have "?new = GetBlockTime b # map GetBlockTime (take 10 ps)"
      by (simp add: nMedianTimeSpan_def)
    moreover have "take 11 ps = take 10 ps @ take 1 (drop 10 ps)"
      using take_add [of 10 1 ps] by simp
    ultimately show ?thesis
      using assms(2) by (simp add: nMedianTimeSpan_def)
  qed
  moreover have "length ?old div 2 \<le> length ?new div 2"
    by (intro div_le_mono) simp
  moreover have "length ?new div 2 < length ?new"
    by (intro div_less_dividend) (simp_all add: nMedianTimeSpan_def)
  ultimately show ?thesis
    using sort_nth_ge [of "length ?new div 2" ?new ?v] by (simp add: GetMedianTimePast_def [of "b # ps"] Let_def)
qed

section \<open>Chains of accepted headers\<close>

text \<open>A chain that grows from a genesis block by headers that pass, with the parameters as the headers leave them.\<close>

inductive accepted_chain :: "int \<Rightarrow> int \<Rightarrow> pow_params \<Rightarrow> pow_index list \<Rightarrow> pow_params \<Rightarrow> bool" for d f P0 where
  genesis: "accepted_chain d f P0 [g] P0"
| extend: "accepted_chain d f P0 ps P \<Longrightarrow> header_pow_check d f now ps (pi_nBits b) (pi_nTime b) P = Some (True, P') \<Longrightarrow>
    pi_height b = pi_height (hd ps) + 1 \<Longrightarrow> accepted_chain d f P0 (b # ps) P'"

lemma accepted_nonempty: "accepted_chain d f P0 ps P \<Longrightarrow> ps \<noteq> []"
  by (induction rule: accepted_chain.induct) simp_all

lemma header_blocktime_later: "h' \<le> h \<Longrightarrow> header_blocktime f h (header_blocktime f h' P) = header_blocktime f h P"
  by (auto simp: header_blocktime_def hush_changeblocktime_def is_main_chain_def)

lemma header_blocktime_fields [simp]:
  "ASSETCHAINS_ADAPTIVEPOW (header_blocktime f h P) = ASSETCHAINS_ADAPTIVEPOW P"
  "is_main_chain (header_blocktime f h P) = is_main_chain P"
  by (auto simp: header_blocktime_def hush_changeblocktime_def is_main_chain_def)

lemma header_pow_check_params:
  "header_pow_check d f now ps n t P = Some (ok, P') \<Longrightarrow> P' = header_blocktime f (pi_height (hd ps) + 1) P"
  by (auto simp: header_pow_check_def Let_def split: if_splits option.splits)

lemma accepted_params:
  "accepted_chain d f P0 ps P \<Longrightarrow> P = P0 \<or> P = header_blocktime f (pi_height (hd ps)) P0"
proof (induction rule: accepted_chain.induct)
  case (extend ps P now b P')
  then have "P' = header_blocktime f (pi_height b) P"
    using header_pow_check_params by fastforce
  then show ?case
    using extend.IH extend.hyps(3) by (auto simp: header_blocktime_later)
qed simp

text \<open>What one accepted header guarantees.\<close>

lemma accepted_header:
  assumes "accepted_chain d f P0 qs P" "header_pow_check d f now qs (pi_nBits b) (pi_nTime b) P = Some (True, P')"
    "pi_height b = pi_height (hd qs) + 1"
  defines "Q \<equiv> header_blocktime f (pi_height b) P0"
  shows "(if ASSETCHAINS_ADAPTIVEPOW P0 \<le> 0 \<or> pi_height b < 30 then GetMedianTimePast qs < GetBlockTime b
      else GetBlockTime (hd qs) < GetBlockTime b) \<and>
    GetBlockTime b \<le> now + nMaxFutureBlockTime Q \<and>
    (is_main_chain P0 \<and> d < pi_height b \<longrightarrow> GetNextWorkRequired qs (Some (pi_nTime b)) Q = Some (pi_nBits b))"
proof -
  have P: "header_blocktime f (pi_height b) P = Q" "is_main_chain P = is_main_chain P0" "ASSETCHAINS_ADAPTIVEPOW P = ASSETCHAINS_ADAPTIVEPOW P0"
    using accepted_params [OF assms(1)] assms(3) unfolding Q_def by (auto simp: header_blocktime_later)
  have "header_time_ok now Q qs (pi_nTime b)"
    using assms(2,3) unfolding P(1) [symmetric] by (auto simp: header_pow_check_def Let_def split: if_splits option.splits)
  then have "(if ASSETCHAINS_ADAPTIVEPOW P0 \<le> 0 \<or> pi_height b < 30 then GetMedianTimePast qs < GetBlockTime b
      else GetBlockTime (hd qs) < GetBlockTime b) \<and> GetBlockTime b \<le> now + nMaxFutureBlockTime Q"
    using P(3) assms(3) unfolding Q_def by (auto simp: header_time_ok_def Let_def GetBlockTime_def split: if_splits)
  moreover have "GetNextWorkRequired qs (Some (pi_nTime b)) Q = Some (pi_nBits b)"
    if "is_main_chain P0" "d < pi_height b"
    using assms(2,3) that P by (auto simp: header_pow_check_def Let_def split: if_splits option.splits)
  ultimately show ?thesis
    by blast
qed

lemma accepted_suffix:
  "accepted_chain d f P0 ps P \<Longrightarrow> ps = xs @ b # qs \<Longrightarrow> qs \<noteq> [] \<Longrightarrow>
     \<exists>Q now Q'. accepted_chain d f P0 qs Q \<and> header_pow_check d f now qs (pi_nBits b) (pi_nTime b) Q = Some (True, Q') \<and>
       pi_height b = pi_height (hd qs) + 1"
proof (induction arbitrary: xs rule: accepted_chain.induct)
  case (extend ps P now c P')
  then show ?case
    by (cases xs) auto
qed (simp add: Cons_eq_append_conv)

section \<open>One retarget\<close>

lemma retarget_decoded:
  fixes P l f bnAvg
  assumes "pow_params_ok P" "unat bnAvg \<le> unat (pow_limit P)"
  defines "v \<equiv> min (unat (pow_limit P)) (unat bnAvg div nat (pow_awt P) * nat (actual_timespan P l f))"
  shows "\<exists>c. CalculateNextWorkRequired bnAvg l f P = Some c \<and> unat (SetCompact c) \<le> v \<and> 32767 * v \<le> 32768 * unat (SetCompact c)"
proof -
  have "unat (word_of_nat v :: uint256) = v"
    using unat256_lt [of "pow_limit P"] by (simp add: unat_of_nat v_def)
  then show ?thesis
    using compact_decoded [of "word_of_nat v"] CalculateNextWork_value [OF assms(1,2), of l f]
    by (simp add: retarget_def v_def [symmetric] word_le_nat_alt)
qed

lemma damped_deviation:
  assumes "MinActualTimespan P \<le> pow_awt P" "pow_awt P \<le> MaxActualTimespan P"
  shows "damped_timespan P e \<le> pow_awt P + int (nat \<bar>e - pow_awt P\<bar> div 4) \<and>
    nat (pow_awt P) - nat \<bar>e - pow_awt P\<bar> div 4 \<le> nat (damped_timespan P e)"
proof -
  have d: "int (nat \<bar>e - pow_awt P\<bar> div 4) = \<bar>e - pow_awt P\<bar> div 4"
    by (simp add: zdiv_int)
  have up: "damped_timespan P e \<le> pow_awt P + \<bar>e - pow_awt P\<bar> div 4" and low: "pow_awt P - \<bar>e - pow_awt P\<bar> div 4 \<le> damped_timespan P e"
    using assms by (auto simp: damped_timespan_def max_def min_def)
  have "nat (pow_awt P) - nat \<bar>e - pow_awt P\<bar> div 4 = nat (pow_awt P - int (nat \<bar>e - pow_awt P\<bar> div 4))"
    by linarith
  also have "\<dots> \<le> nat (damped_timespan P e)"
    unfolding d by (rule nat_mono [OF low])
  finally show ?thesis
    using up unfolding d by simp
qed

lemma max_timespan_percent:
  assumes "pow_awt P = AveragingWindowTimespan P" "0 \<le> nPowMaxAdjustDown P" "0 < pow_awt P"
  shows "100 * nat (MaxActualTimespan P) \<le> nat (pow_awt P) * nat (100 + nPowMaxAdjustDown P)"
proof -
  have "0 \<le> pow_awt P * (100 + nPowMaxAdjustDown P)"
    using assms by simp
  then have "100 * MaxActualTimespan P \<le> pow_awt P * (100 + nPowMaxAdjustDown P)"
    by (simp add: MaxActualTimespan_def assms(1) [symmetric])
  then show ?thesis
    using assms by (simp add: nat_mult_distrib [symmetric] nat_le_eq_zle flip: nat_mult_distrib)
qed

lemma percent_of_average:
  assumes "100 * (m :: nat) \<le> awt * q" "t \<le> avg div awt * m"
  shows "100 * t \<le> q * avg"
proof -
  have "100 * t \<le> avg div awt * (100 * m)"
    using assms(2) by simp
  also have "\<dots> \<le> avg div awt * (awt * q)"
    using assms(1) by (rule mult_le_mono2)
  also have "\<dots> = avg div awt * awt * q"
    by simp
  also have "\<dots> \<le> avg * q"
    by (intro mult_le_mono1 div_times_less_eq_dividend)
  finally show ?thesis
    by (simp add: mult.commute)
qed

section \<open>Properties\<close>

text \<open>C23. The target of the next block of a chain with the averaging retarget (Equihash or RandomX, no adaptive rule, parameters as in
  \<open>pow_params_ok\<close>, targets of the window within the limit) is exactly \<open>required_target\<close>: the limit until the window is full, and then the average of the
  last \<open>nPowAveragingWindow\<close> targets divided by the ideal timespan and multiplied by the damped and clamped one, at most the limit. None of
  the 256-bit operations overflows and no division fails. Between the bounds the timespan is the ideal one plus a quarter of the deviation.\<close>

theorem next_work_exact:
  assumes "pow_params_ok P" "ps \<noteq> []"
    and "\<forall>b \<in> set (take (nat (nPowAveragingWindow P)) ps). block_target b \<le> unat (pow_limit P)"
  shows "GetNextWorkRequired ps pblock P = Some (compact (word_of_nat (required_target P ps)))"
  using assms by (rule next_work_required)

definition hush3_pow :: pow_params where
  "hush3_pow = \<lparr>powLimit = 0x0f0f0f0f0f0f0f0f0f0f0f0f0f0f0f0f0f0f0f0f0f0f0f0f0f0f0f0f0f0f0f0f,
     powAlternate = 0x0f0f0f0f0f0f0f0f0f0f0f0f0f0f0f0f0f0f0f0f0f0f0f0f0f0f0f0f0f0f0f0f, nPowAveragingWindow = 17,
     nPowMaxAdjustDown = 32, nPowMaxAdjustUp = 16, nPowTargetSpacing = 75, nLwmaAjustedWeight = 0, nMaxFutureBlockTime = 525, POW_SYMBOL = ''HUSH3'',
     ASSETCHAINS_ALGO = 0, ASSETCHAINS_ADAPTIVEPOW = 0, ASSETCHAINS_BLOCKTIME = 75, POW_STAKED = False\<rparr>"

lemma hush3_pow_ok: "pow_params_ok hush3_pow"
  by (simp add: pow_params_ok_def hush3_pow_def ASSETCHAINS_EQUIHASH_def pow_limit_def pow_awt_def HUSH3_AWT_def
    MinActualTimespan_def MaxActualTimespan_def AveragingWindowTimespan_def)

definition paced_chain :: "nat \<Rightarrow> nat \<Rightarrow> pow_index list" where
  "paced_chain pace n = map (\<lambda>h. \<lparr>pi_height = int h, pi_nTime = word_of_nat (1600000000 + pace * h), pi_nBits = 0x1c00ffff\<rparr>) (rev [0..<n])"

lemma block_target_paced: "block_target \<lparr>pi_height = h, pi_nTime = t, pi_nBits = 0x1c00ffff\<rparr> = 0xffff * 2 ^ 200"
proof -
  have "SetCompact 0x1c00ffff = 0xffff * 2 ^ 200"
    by (simp add: SetCompact_def push_bit_eq_mult)
  then show ?thesis
    by (simp add: block_target_def)
qed

lemma paced_targets: "\<forall>b \<in> set (take k (paced_chain pace n)). block_target b \<le> unat (pow_limit hush3_pow)"
proof -
  have "\<forall>b \<in> set (paced_chain pace n). block_target b \<le> unat (pow_limit hush3_pow)"
    by (simp add: paced_chain_def block_target_paced pow_limit_def hush3_pow_def ASSETCHAINS_EQUIHASH_def)
  then show ?thesis
    by (meson in_set_takeD)
qed

text \<open>Blocks every 60 seconds instead of 75: of the 255 seconds that the window is too short, 63 count.\<close>

lemma paced_median: "GetMedianTimePast (paced_chain 60 30) = 1600001440" "GetMedianTimePast (drop 17 (paced_chain 60 30)) = 1600000420"
proof -
  have up: "rev [0..<30] = map nat [29,28,27,26,25,24,23,22,21,20,19,18,17,16,15,14,13,12,11,10,9,8,7,6,5,4,3,2,1,0]"
    by code_simp
  show "GetMedianTimePast (paced_chain 60 30) = 1600001440" "GetMedianTimePast (drop 17 (paced_chain 60 30)) = 1600000420"
    unfolding paced_chain_def up by (simp_all add: GetMedianTimePast_def nMedianTimeSpan_def GetBlockTime_def)
qed

lemma paced_required: "required_target hush3_pow (paced_chain 60 30) = 0xffff * 2 ^ 200 div 1275 * (1275 - 255 div 4)"
proof -
  have "map block_target (take 17 (paced_chain 60 30)) = map (\<lambda>_. 0xffff * 2 ^ 200) (take 17 (rev [0..<30]))"
    unfolding paced_chain_def take_map map_map comp_def block_target_paced ..
  moreover have "length (take 17 (rev [0..<30])) = 17"
    by simp
  ultimately have "sum_list (map block_target (take 17 (paced_chain 60 30))) = 17 * (0xffff * 2 ^ 200)"
    by (simp only: sum_list_triv of_nat_id)
  then show ?thesis
    using paced_median by (simp add: required_target_def hush3_pow_def pow_awt_def HUSH3_AWT_def damped_timespan_def MinActualTimespan_def
      MaxActualTimespan_def AveragingWindowTimespan_def pow_limit_def ASSETCHAINS_EQUIHASH_def paced_chain_def)
qed

theorem next_work_exact_witness:
  "GetNextWorkRequired (paced_chain 60 30) None hush3_pow = Some (compact (word_of_nat (0xffff * 2 ^ 200 div 1275 * (1275 - 255 div 4))))"
  using next_work_exact [OF hush3_pow_ok _ paced_targets, of 60 30 None] paced_required by (simp add: paced_chain_def)

text \<open>C26. How far one retarget can move the target of a chain with the averaging rule (\<open>pow_params_ok\<close>, so no adaptive rule). It is never above
  the limit. With \<open>u\<close> the average over the ideal timespan, it is between \<open>u\<close> times the two bounds on the timespan. Where the ideal timespan is within these bounds, it
  differs from \<open>u\<close> times the ideal timespan by at most \<open>u\<close> times a quarter of the deviation. Where it is also the window times the spacing, the
  target rises by at most \<open>nPowMaxAdjustDown\<close> percent. The lower bounds are up to the loss of the compact encoding of at most one part in 32768.\<close>

theorem retarget_bounds:
  assumes "pow_params_ok P" and "unat bnAvg \<le> unat (pow_limit P)"
  shows "let u = unat bnAvg div nat (pow_awt P); dev = nat \<bar>l - f - pow_awt P\<bar> div 4; lim = unat (pow_limit P)
   in \<exists>c. CalculateNextWorkRequired bnAvg l f P = Some c \<and> unat (SetCompact c) \<le> lim \<and>
     unat (SetCompact c) \<le> u * nat (MaxActualTimespan P) \<and>
     32767 * min lim (u * nat (MinActualTimespan P)) \<le> 32768 * unat (SetCompact c) \<and>
     (MinActualTimespan P \<le> pow_awt P \<and> pow_awt P \<le> MaxActualTimespan P \<longrightarrow>
        unat (SetCompact c) \<le> u * (nat (pow_awt P) + dev) \<and>
        32767 * min lim (u * (nat (pow_awt P) - dev)) \<le> 32768 * unat (SetCompact c)) \<and>
     (pow_awt P = AveragingWindowTimespan P \<and> 0 \<le> nPowMaxAdjustDown P \<longrightarrow>
        100 * unat (SetCompact c) \<le> nat (100 + nPowMaxAdjustDown P) * unat bnAvg)"
proof -
  define u where "u = unat bnAvg div nat (pow_awt P)"
  define dev where "dev = nat \<bar>l - f - pow_awt P\<bar> div 4"
  define lim where "lim = unat (pow_limit P)"
  let ?ts = "actual_timespan P l f"
  have v: "\<exists>c. CalculateNextWorkRequired bnAvg l f P = Some c \<and> unat (SetCompact c) \<le> min lim (u * nat ?ts) \<and>
      32767 * min lim (u * nat ?ts) \<le> 32768 * unat (SetCompact c)"
    using retarget_decoded [OF assms(1), of bnAvg l f] assms(2) unfolding lim_def u_def by simp
  then obtain c where c: "CalculateNextWorkRequired bnAvg l f P = Some c" "unat (SetCompact c) \<le> min lim (u * nat ?ts)"
    "32767 * min lim (u * nat ?ts) \<le> 32768 * unat (SetCompact c)"
    by blast
  have upper: "unat (SetCompact c) \<le> u * nat b" if "?ts \<le> b" for b
    using c(2) mult_le_mono2 [OF nat_mono [OF that], of u] by linarith
  have lower: "32767 * min lim (u * a) \<le> 32768 * unat (SetCompact c)" if "a \<le> nat ?ts" for a
    using c(3) mult_le_mono2 [OF min.mono [OF order_refl [of lim] mult_le_mono2 [OF that, of u]], of 32767] by linarith
  have range: "MinActualTimespan P \<le> ?ts" "?ts \<le> MaxActualTimespan P"
    using actual_timespan_range [OF assms(1)] by simp_all
  have awt: "0 < pow_awt P"
    using assms(1) by (simp add: pow_params_ok_def)
  have damped: "?ts \<le> pow_awt P + int dev \<and> nat (pow_awt P) - dev \<le> nat ?ts"
    if "MinActualTimespan P \<le> pow_awt P" "pow_awt P \<le> MaxActualTimespan P"
    using damped_deviation [OF that, of "l - f"] actual_timespan_damped [OF assms(1), of l f] unfolding dev_def by simp
  have percent: "100 * unat (SetCompact c) \<le> nat (100 + nPowMaxAdjustDown P) * unat bnAvg"
    if "pow_awt P = AveragingWindowTimespan P" "0 \<le> nPowMaxAdjustDown P"
    using max_timespan_percent [OF that awt] upper [OF range(2)] unfolding u_def
    by (rule percent_of_average)
  have dev: "nat (pow_awt P + int dev) = nat (pow_awt P) + dev"
    using awt by (simp add: nat_add_distrib)
  show ?thesis
    unfolding Let_def u_def [symmetric] dev_def [symmetric] lim_def [symmetric]
    using c(1,2) upper [OF range(2)] lower [OF nat_mono [OF range(1)]] damped upper [of "pow_awt P + int dev"] lower [of "nat (pow_awt P) - dev"]
      percent dev by (intro exI [of _ c]) auto
qed

theorem retarget_bounds_witness:
  "\<exists>c. CalculateNextWorkRequired (2 ^ 200) 1600001175 1600000000 hush3_pow = Some c \<and>
     unat (SetCompact c) \<le> 2 ^ 200 div 1275 * (1275 + 25) \<and> 32767 * (2 ^ 200 div 1275 * (1275 - 25)) \<le> 32768 * unat (SetCompact c) \<and>
     100 * unat (SetCompact c) \<le> 132 * 2 ^ 200"
proof -
  have avg: "unat (2 ^ 200 :: uint256) = 2 ^ 200"
    by simp
  have lim: "unat (pow_limit hush3_pow) = 0x0f0f0f0f0f0f0f0f0f0f0f0f0f0f0f0f0f0f0f0f0f0f0f0f0f0f0f0f0f0f0f0f"
    by (simp add: pow_limit_def hush3_pow_def ASSETCHAINS_EQUIHASH_def)
  have p: "pow_awt hush3_pow = 1275" "AveragingWindowTimespan hush3_pow = 1275" "nPowMaxAdjustDown hush3_pow = 32"
    "MinActualTimespan hush3_pow = 1071" "MaxActualTimespan hush3_pow = 1683"
    by (simp_all add: hush3_pow_def pow_awt_def HUSH3_AWT_def MinActualTimespan_def MaxActualTimespan_def AveragingWindowTimespan_def)
  show ?thesis
    using retarget_bounds [OF hush3_pow_ok, of "2 ^ 200" 1600001175 1600000000] unfolding avg lim p by auto
qed

text \<open>On the main chain with its first block time of 150 seconds, the ideal timespan of \<open>pow.cpp\<close> (1275 seconds, for 75-second blocks) is below the lower bound on the timespan (2142
  seconds). Whatever the times of the blocks are, a retarget then makes the target at least \<open>2142 / 1275\<close> times the average of the window (up to the compact encoding), or
  the limit: also when blocks come far too fast, mining gets easier. The rule on targets is enforced only from a later height on.\<close>

theorem slow_blocktime_runaway:
  assumes "unat bnAvg \<le> unat (pow_limit P)" and "P = hush3_pow\<lparr>nPowTargetSpacing := 150, ASSETCHAINS_BLOCKTIME := 150\<rparr>"
  shows "\<exists>c. CalculateNextWorkRequired bnAvg l f P = Some c \<and>
     32767 * min (unat (pow_limit P)) (unat bnAvg div 1275 * 2142) \<le> 32768 * unat (SetCompact c)"
proof -
  have p: "pow_awt P = 1275" "MinActualTimespan P = 2142"
    unfolding assms(2) by (simp_all add: hush3_pow_def pow_awt_def HUSH3_AWT_def MinActualTimespan_def AveragingWindowTimespan_def)
  have "pow_params_ok P"
    unfolding assms(2) by (simp add: pow_params_ok_def hush3_pow_def ASSETCHAINS_EQUIHASH_def pow_limit_def pow_awt_def HUSH3_AWT_def
      MinActualTimespan_def MaxActualTimespan_def AveragingWindowTimespan_def)
  then obtain c where c: "CalculateNextWorkRequired bnAvg l f P = Some c"
    "32767 * min (unat (pow_limit P)) (unat bnAvg div 1275 * nat (actual_timespan P l f)) \<le> 32768 * unat (SetCompact c)"
    and ts: "2142 \<le> actual_timespan P l f"
    using retarget_decoded [of P bnAvg l f] actual_timespan_range [of P l f] assms(1) p by auto
  have "min (unat (pow_limit P)) (unat bnAvg div 1275 * 2142) \<le> min (unat (pow_limit P)) (unat bnAvg div 1275 * nat (actual_timespan P l f))"
    using ts by (intro min.mono mult_le_mono2 order_refl) simp
  then show ?thesis
    using c by (meson le_trans mult_le_mono2)
qed

theorem slow_blocktime_runaway_witness:
  "\<exists>c. CalculateNextWorkRequired (2 ^ 200) 1600000017 1600000000 (hush3_pow\<lparr>nPowTargetSpacing := 150, ASSETCHAINS_BLOCKTIME := 150\<rparr>) = Some c \<and>
     167 * 2 ^ 200 \<le> 100 * unat (SetCompact c)"
proof -
  have lim: "unat (pow_limit (hush3_pow\<lparr>nPowTargetSpacing := 150, ASSETCHAINS_BLOCKTIME := 150\<rparr>)) = 0x0f0f0f0f0f0f0f0f0f0f0f0f0f0f0f0f0f0f0f0f0f0f0f0f0f0f0f0f0f0f0f0f"
    by (simp add: pow_limit_def hush3_pow_def ASSETCHAINS_EQUIHASH_def)
  show ?thesis
    using slow_blocktime_runaway [of "2 ^ 200" _ 1600000017 1600000000, OF _ refl] unfolding lim by auto
qed

text \<open>A miner and the check agree: whatever the chain looks like, the target that \<open>GetNextWorkRequired\<close> asks for passes the range test of
  \<open>CheckProofOfWork\<close> unless it is zero.\<close>

theorem required_work_accepted:
  assumes "pow_params_ok P" "GetNextWorkRequired ps pblock P = Some c" "1 < height"
  shows "SetCompact c \<le> pow_limit P \<and> CheckProofOfWork loading current P hash c height = (SetCompact c \<noteq> 0)"
proof -
  obtain t where t: "c = compact t" "t \<le> pow_limit P"
    using required_compact [OF assms(1,2)] by blast
  have d: "SetCompact_flags c = (False, False)" "SetCompact c \<le> t"
    using compact_decoded [of t] t(1) by simp_all
  then have "SetCompact c \<le> pow_limit P"
    using t(2) by simp
  then show ?thesis
    using d(1) assms(3) by (auto simp: CheckProofOfWork_def Let_def pow_limit_def split: if_splits)
qed


theorem required_work_accepted_witness:
  "\<exists>c. GetNextWorkRequired (paced_chain 75 1) None hush3_pow = Some c \<and>
     CheckProofOfWork False 0 hush3_pow 0 c 2 = (SetCompact c \<noteq> 0)"
proof -
  have "GetNextWorkRequired (paced_chain 75 1) None hush3_pow = Some (compact (pow_limit hush3_pow))"
    using next_work_value [OF hush3_pow_ok _ paced_targets, of 75 1 None] by (simp add: paced_chain_def hush3_pow_def)
  then show ?thesis
    using required_work_accepted [OF hush3_pow_ok _, of "paced_chain 75 1" None _ 2] by simp
qed

text \<open>C27. The work credited for a block with a valid target \<open>t\<close> is exactly \<open>2^256 div (t + 1)\<close>, computed without a 257-bit number; a harder
  target never earns less work.\<close>

theorem block_work_exact:
  assumes "SetCompact_flags n = (False, False)" "SetCompact n \<noteq> 0" "SetCompact_flags m = (False, False)" "SetCompact m \<noteq> 0"
  shows "unat (GetBlockProof n) = 2 ^ 256 div (unat (SetCompact n) + 1) \<and>
    (SetCompact n \<le> SetCompact m \<longrightarrow> GetBlockProof m \<le> GetBlockProof n)"
  using block_proof_value [OF assms(1,2)] block_proof_value [OF assms(3,4)]
  by (simp add: word_le_nat_alt div_le_mono2)

theorem block_work_exact_witness:
  "unat (GetBlockProof 0x1d00ffff) = 2 ^ 256 div (0xffff * 2 ^ 208 + 1) \<and> GetBlockProof 0x1e00ffff \<le> GetBlockProof 0x1d00ffff"
proof -
  have n: "SetCompact_flags 0x1d00ffff = (False, False)" "SetCompact 0x1d00ffff = 0xffff * 2 ^ 208"
    and m: "SetCompact_flags 0x1e00ffff = (False, False)" "SetCompact 0x1e00ffff = 0xffff * 2 ^ 216"
    by (simp_all add: SetCompact_def SetCompact_flags_def push_bit_eq_mult)
  show ?thesis
    using block_work_exact [of "0x1d00ffff" "0x1e00ffff"] n m by simp
qed

text \<open>The comparison operators of \<open>CChainPower\<close>, which compare quotients with sixteen bits of fraction, order chain work exactly as long as it is
  below \<open>2^240\<close>; in particular a chain extended by a block of nonzero work always compares as greater.\<close>

theorem chain_power_exact:
  assumes "unat w1 < 2 ^ 240" "unat w2 < 2 ^ 240"
    and "GetBlockProof (pi_nBits b) \<noteq> 0" "unat (chain_work ps) + unat (GetBlockProof (pi_nBits b)) < 2 ^ 240"
  shows "(power_less w1 w2 \<longleftrightarrow> w1 < w2) \<and> (power_le w1 w2 \<longleftrightarrow> w1 \<le> w2) \<and> (power_eq w1 w2 \<longleftrightarrow> w1 = w2) \<and>
    power_less (chain_work ps) (chain_work (b # ps))"
proof -
  have "unat (chain_work (b # ps)) = unat (chain_work ps) + unat (GetBlockProof (pi_nBits b))"
    using assms(4) unat_add_fits [of "chain_work ps" "GetBlockProof (pi_nBits b)"] by simp
  moreover have "0 < unat (GetBlockProof (pi_nBits b))"
    using assms(3) by (simp add: unat_gt_0)
  ultimately show ?thesis
    using power_order [OF assms(1,2)] power_order [of "chain_work ps" "chain_work (b # ps)"] assms(4) by (simp add: word_less_nat_alt)
qed

theorem chain_power_exact_witness:
  "power_less (2 ^ 100) (2 ^ 100 + 1) \<and> \<not> power_eq (2 ^ 100) (2 ^ 100 + 1) \<and>
   power_less (chain_work []) (chain_work [\<lparr>pi_height = 0, pi_nTime = 0, pi_nBits = 0x1d00ffff\<rparr>])"
proof -
  let ?b = "\<lparr>pi_height = 0, pi_nTime = 0, pi_nBits = 0x1d00ffff\<rparr>"
  have w: "unat (2 ^ 100 :: uint256) < 2 ^ 240" "unat (2 ^ 100 + 1 :: uint256) < 2 ^ 240"
    by simp_all
  have "SetCompact_flags 0x1d00ffff = (False, False)" "SetCompact 0x1d00ffff = 0xffff * 2 ^ 208"
    by (simp_all add: SetCompact_def SetCompact_flags_def push_bit_eq_mult)
  then have "unat (GetBlockProof 0x1d00ffff) = 4295032833"
    using block_proof_value [of "0x1d00ffff"] by simp
  then have "GetBlockProof (pi_nBits ?b) \<noteq> 0" "unat (chain_work []) + unat (GetBlockProof (pi_nBits ?b)) < 2 ^ 240"
    by auto
  from chain_power_exact [OF w this] show ?thesis
    by simp
qed


text \<open>C10. The headers of a chain that grew by accepted headers, at every block \<open>b\<close> but the first, with its predecessors \<open>qs\<close>. Where the averaging rule is in force or the height
  is below 30, the time of the block is above the median time of its predecessors, and the median time past does not fall; with an adaptive rule from height 30 on, it is above the
  time of the block before. On the main chain, above the fork height (below it the code ignores the target), and where the chain has the averaging rule with sound parameters and
  the targets of the window are within the limit, the block carries exactly the damped average \<open>required_target\<close>, for the block time in force at its height.\<close>

theorem accepted_headers:
  assumes "accepted_chain d f P0 ps P" "ps = xs @ b # qs" "qs \<noteq> []"
  shows "(if ASSETCHAINS_ADAPTIVEPOW P0 \<le> 0 \<or> pi_height b < 30
      then GetMedianTimePast qs < GetBlockTime b \<and> GetMedianTimePast qs \<le> GetMedianTimePast (b # qs)
      else GetBlockTime (hd qs) < GetBlockTime b) \<and>
    (let Q = header_blocktime f (pi_height b) P0
     in is_main_chain P0 \<and> d < pi_height b \<and> pow_params_ok Q \<and>
        (\<forall>q \<in> set (take (nat (nPowAveragingWindow Q)) qs). block_target q \<le> unat (pow_limit Q)) \<longrightarrow>
        pi_nBits b = compact (word_of_nat (required_target Q qs)))"
proof -
  obtain Q now Q' where "accepted_chain d f P0 qs Q" "header_pow_check d f now qs (pi_nBits b) (pi_nTime b) Q = Some (True, Q')"
    "pi_height b = pi_height (hd qs) + 1"
    using accepted_suffix [OF assms] by blast
  note H = accepted_header [OF this]
  show ?thesis
    using H median_step [OF assms(3), of b] next_work_required [of "header_blocktime f (pi_height b) P0" qs "Some (pi_nTime b)", OF _ assms(3)]
    by (auto simp: Let_def split: if_splits)
qed

text \<open>Thirty headers 60 seconds apart are accepted, and after them one at the first height above the fork with the damped target.\<close>

lemma paced_chain_Suc: "paced_chain pace (Suc n) = \<lparr>pi_height = int n, pi_nTime = word_of_nat (1600000000 + pace * n), pi_nBits = 0x1c00ffff\<rparr> # paced_chain pace n"
  by (simp add: paced_chain_def)

lemma median_member: "ps \<noteq> [] \<Longrightarrow> GetMedianTimePast ps \<in> GetBlockTime ` set ps"
proof -
  assume "ps \<noteq> []"
  let ?m = "map GetBlockTime (take nMedianTimeSpan ps)"
  have "length ?m div 2 < length ?m"
    using \<open>ps \<noteq> []\<close> by (intro div_less_dividend) (simp_all add: nMedianTimeSpan_def)
  then have "GetMedianTimePast ps \<in> set ?m"
    using nth_mem [of "length ?m div 2" "sort ?m"] by (simp add: GetMedianTimePast_def Let_def)
  then show ?thesis
    by (auto dest: in_set_takeD)
qed

lemma paced_time_below:
  assumes "n \<le> 30" "n \<noteq> 0"
  shows "GetMedianTimePast (paced_chain 60 n) < 1600000000 + 60 * int n"
proof -
  have "int (unat (word_of_nat (1600000000 + 60 * h) :: u32)) < 1600000000 + 60 * int n" if "h < n" for h
    using that assms(1) by (subst unat_of_nat) (simp add: mod_less)
  then have "\<forall>b \<in> set (paced_chain 60 n). GetBlockTime b < 1600000000 + 60 * int n"
    unfolding paced_chain_def GetBlockTime_def by (simp del: of_nat_add of_nat_mult of_nat_unat)
  then show ?thesis
    using median_member [of "paced_chain 60 n"] assms(2) by (auto simp: paced_chain_def)
qed

lemma paced_header:
  assumes "n \<le> 30" "n \<noteq> 0" "n < 30 \<or> bits = compact (word_of_nat (required_target hush3_pow (paced_chain 60 n)))"
  shows "header_pow_check 29 340000 2000000000 (paced_chain 60 n) bits (word_of_nat (1600000000 + 60 * n)) hush3_pow = Some (True, hush3_pow)"
proof -
  have ne: "paced_chain 60 n \<noteq> []" and hd: "pi_height (hd (paced_chain 60 n)) = int n - 1"
    using assms(2) by (cases n; simp add: paced_chain_Suc)+
  have t: "unat (word_of_nat (1600000000 + 60 * n) :: u32) = 1600000000 + 60 * n"
    using assms(1) by (subst unat_of_nat) (simp add: mod_less)
  have "header_time_ok 2000000000 hush3_pow (paced_chain 60 n) (word_of_nat (1600000000 + 60 * n))"
    unfolding header_time_ok_def Let_def t using paced_time_below [OF assms(1,2)] assms(1) by (simp add: hush3_pow_def)
  moreover have "header_blocktime 340000 k hush3_pow = hush3_pow" for k
    by (simp add: header_blocktime_def hush3_pow_def)
  moreover have "is_main_chain hush3_pow"
    by (simp add: is_main_chain_def hush3_pow_def)
  ultimately show ?thesis
    using next_work_required [OF hush3_pow_ok ne paced_targets] ne hd assms(3) by (auto simp: header_pow_check_def Let_def)
qed

lemma paced_accepted: "n < 30 \<Longrightarrow> accepted_chain 29 340000 hush3_pow (paced_chain 60 (Suc n)) hush3_pow"
proof (induction n)
  case 0
  show ?case
    using accepted_chain.genesis by (simp add: paced_chain_def)
next
  case (Suc n)
  show ?case
    unfolding paced_chain_Suc [of _ "Suc n"]
    using Suc paced_header [of "Suc n" "0x1c00ffff"] by (intro accepted_chain.extend [where now = 2000000000]) (simp_all add: paced_chain_Suc)
qed

definition paced_tip :: pow_index where
  "paced_tip = \<lparr>pi_height = 30, pi_nTime = word_of_nat (1600000000 + 60 * 30), pi_nBits = compact (word_of_nat (0xffff * 2 ^ 200 div 1275 * (1275 - 255 div 4)))\<rparr>"

theorem accepted_headers_witness:
  "accepted_chain 29 340000 hush3_pow (paced_tip # paced_chain 60 30) hush3_pow \<and>
   GetMedianTimePast (paced_chain 60 30) < GetBlockTime paced_tip \<and>
   pi_nBits paced_tip = compact (word_of_nat (required_target hush3_pow (paced_chain 60 30)))"
proof -
  have "accepted_chain 29 340000 hush3_pow (paced_chain 60 30) hush3_pow"
    using paced_accepted [of 29] by simp
  moreover have "pi_height (hd (paced_chain 60 30)) = 29"
    using paced_chain_Suc [of 60 29] by simp
  ultimately have acc: "accepted_chain 29 340000 hush3_pow (paced_tip # paced_chain 60 30) hush3_pow"
    using paced_header [of 30, unfolded paced_required] by (intro accepted_chain.extend [where now = 2000000000]) (simp_all add: paced_tip_def)
  have Q: "header_blocktime 340000 (pi_height paced_tip) hush3_pow = hush3_pow" "is_main_chain hush3_pow" "ASSETCHAINS_ADAPTIVEPOW hush3_pow \<le> 0"
    "29 < pi_height paced_tip"
    by (simp_all add: header_blocktime_def is_main_chain_def hush3_pow_def paced_tip_def)
  have ne: "paced_chain 60 30 \<noteq> []"
    by (simp add: paced_chain_def)
  show ?thesis
    using accepted_headers [OF acc _ ne, of "[]" paced_tip] acc Q hush3_pow_ok paced_targets [of "nat (nPowAveragingWindow hush3_pow)" 60 30]
    by simp
qed

end
