(* ===== verification/Hush_Index.thy ===== *)
theory Hush_Index
  imports Hush_Pow "HOL-Library.Sublist"
begin

unbundle bit_operations_syntax

text \<open>
  The block index and the active chain: \<open>chain.cpp\<close>, \<open>CChain\<close> of \<open>chain.h\<close> and \<open>AddToBlockIndex\<close> of \<open>main.cpp\<close>. A \<open>CBlockIndex *\<close> is the hash of
  its block, the key under which \<open>mapBlockIndex\<close> holds it, and the null pointer is \<open>None\<close>. The index is a tree through \<open>pprev\<close>; \<open>pskip\<close>
  makes it a skip list. The abstract view of an entry is the walk along \<open>pprev\<close> (\<open>nth_prev\<close>).
\<close>

section \<open>State\<close>

record index_entry =
  pprev :: "uint256 option"
  pskip :: "uint256 option"
  ie_height :: int
  ie_nBits :: u32
  ie_nStatus :: u32
  ie_nSequenceId :: u32
  ie_chainWork :: uint256

type_synonym block_tree = "uint256 \<Rightarrow> index_entry option"

record index_state =
  blockTree :: block_tree
  pindexBestHeader :: "uint256 option"
  setDirtyBlockIndex :: "uint256 set"

section \<open>The skip list\<close>

definition InvertLowestOne :: "int \<Rightarrow> int" where
  "InvertLowestOne n = n AND (n - 1)"

definition GetSkipHeight :: "int \<Rightarrow> int" where
  "GetSkipHeight height =
     (if height < 2 then 0
      else if height AND 1 \<noteq> 0 then InvertLowestOne (InvertLowestOne (height - 1)) + 1 else InvertLowestOne height)"

lemma InvertLowestOne_bounds: "0 \<le> n \<Longrightarrow> 0 \<le> InvertLowestOne n \<and> InvertLowestOne n \<le> n \<and> (0 < n \<longrightarrow> InvertLowestOne n < n)"
proof -
  assume n: "0 \<le> n"
  show ?thesis
  proof (cases "n = 0")
    case False
    then have "0 \<le> n - 1"
      using n by simp
    then have "n AND (n - 1) \<le> n - 1" "0 \<le> n AND (n - 1)"
      by (simp_all add: AND_upper2)
    then show ?thesis
      by (simp add: InvertLowestOne_def)
  qed (simp add: InvertLowestOne_def)
qed

lemma GetSkipHeight_bounds: "0 \<le> GetSkipHeight h \<and> (0 < h \<longrightarrow> GetSkipHeight h < h)"
proof (cases "h < 2")
  case False
  then have "0 \<le> h - 1" "0 < h - 1" "0 \<le> h" "0 < h"
    by simp_all
  then show ?thesis
    using InvertLowestOne_bounds [of "h - 1"] InvertLowestOne_bounds [of "InvertLowestOne (h - 1)"] InvertLowestOne_bounds [of h]
    by (auto simp: GetSkipHeight_def)
qed (simp add: GetSkipHeight_def)

text \<open>The loop of \<open>GetAncestor\<close>; \<open>None\<close> is the failed assertion on \<open>pprev\<close>. The caller has excluded negative heights.\<close>

definition follow_skip :: "int \<Rightarrow> int \<Rightarrow> bool" where
  "follow_skip height heightWalk \<longleftrightarrow>
     (let heightSkip = GetSkipHeight heightWalk; heightSkipPrev = GetSkipHeight (heightWalk - 1)
      in heightSkip = height \<or> (heightSkip > height \<and> \<not> (heightSkipPrev < heightSkip - 2 \<and> heightSkipPrev \<ge> height)))"

function ancestor_walk :: "block_tree \<Rightarrow> int \<Rightarrow> uint256 \<Rightarrow> int \<Rightarrow> uint256 option" where
  "ancestor_walk S height p heightWalk =
     (if heightWalk \<le> height \<or> height < 0 then Some p
      else case S p of
          None \<Rightarrow> None
        | Some b \<Rightarrow>
            (case (if follow_skip height heightWalk then pskip b else None) of
               Some q \<Rightarrow> ancestor_walk S height q (GetSkipHeight heightWalk)
             | None \<Rightarrow> (case pprev b of None \<Rightarrow> None | Some q \<Rightarrow> ancestor_walk S height q (heightWalk - 1))))"
  by pat_completeness auto
termination
proof (relation "measure (\<lambda>(S, height, p, heightWalk). nat heightWalk)")
  fix height p heightWalk q and S :: block_tree and b :: index_entry
  assume "\<not> (heightWalk \<le> height \<or> height < (0 :: int))"
  then show "((S, height, q, GetSkipHeight heightWalk), S, height, p, heightWalk)
      \<in> measure (\<lambda>(S, height, p, heightWalk). nat heightWalk)"
    using GetSkipHeight_bounds [of heightWalk] by simp
qed auto

declare ancestor_walk.simps [simp del]

definition GetAncestor :: "block_tree \<Rightarrow> uint256 \<Rightarrow> int \<Rightarrow> uint256 option option" where
  "GetAncestor S p height =
     (case S p of
        None \<Rightarrow> None
      | Some b \<Rightarrow>
          if height > ie_height b \<or> height < 0 then Some None
          else map_option Some (ancestor_walk S height p (ie_height b)))"

definition BuildSkip :: "block_tree \<Rightarrow> index_entry \<Rightarrow> index_entry option" where
  "BuildSkip S b =
     (case pprev b of
        None \<Rightarrow> Some b
      | Some q \<Rightarrow> map_option (\<lambda>a. b\<lparr>pskip := a\<rparr>) (GetAncestor S q (GetSkipHeight (ie_height b))))"

section \<open>Adding a header\<close>

text \<open>\<open>AddToBlockIndex\<close>: a known hash is returned as it is; otherwise the entry is linked to its predecessor when that is known, gets its skip pointer and
  its work, and becomes the best header when it has more work. No entry of the map is null.\<close>

definition BLOCK_VALID_TREE :: u32 where
  "BLOCK_VALID_TREE = 2"

definition BLOCK_VALID_MASK :: u32 where
  "BLOCK_VALID_MASK = 7"

definition BLOCK_FAILED_MASK :: u32 where
  "BLOCK_FAILED_MASK = 96"

definition RaiseValidity :: "u32 \<Rightarrow> index_entry \<Rightarrow> (bool \<times> index_entry) option" where
  "RaiseValidity nUpTo b =
     (if nUpTo AND NOT BLOCK_VALID_MASK \<noteq> 0 then None
      else if ie_nStatus b AND BLOCK_FAILED_MASK \<noteq> 0 then Some (False, b)
      else if ie_nStatus b AND BLOCK_VALID_MASK < nUpTo then Some (True, b\<lparr>ie_nStatus := (ie_nStatus b AND NOT BLOCK_VALID_MASK) OR nUpTo\<rparr>)
      else Some (False, b))"

definition CBlockIndex_new :: "u32 \<Rightarrow> index_entry" where
  "CBlockIndex_new nBits =
     \<lparr>pprev = None, pskip = None, ie_height = 0, ie_nBits = nBits, ie_nStatus = 0, ie_nSequenceId = 0, ie_chainWork = 0\<rparr>"

definition new_entry :: "block_tree \<Rightarrow> uint256 \<Rightarrow> u32 \<Rightarrow> index_entry option" where
  "new_entry S hashPrev nBits =
     Option.bind
       (case S hashPrev of
          None \<Rightarrow> Some (CBlockIndex_new nBits)
        | Some a \<Rightarrow> BuildSkip S ((CBlockIndex_new nBits)\<lparr>pprev := Some hashPrev, ie_height := ie_height a + 1\<rparr>))
       (\<lambda>b. let work = (case S hashPrev of Some a \<Rightarrow> ie_chainWork a | None \<Rightarrow> 0) + GetBlockProof nBits
            in map_option snd (RaiseValidity BLOCK_VALID_TREE (b\<lparr>ie_chainWork := work\<rparr>)))"

definition best_header :: "block_tree \<Rightarrow> uint256 option \<Rightarrow> uint256 \<Rightarrow> uint256 option" where
  "best_header S best hash =
     (case best of
        None \<Rightarrow> Some hash
      | Some q \<Rightarrow>
          (case (S q, S hash) of
             (Some a, Some b) \<Rightarrow> if power_less (ie_chainWork a) (ie_chainWork b) then Some hash else Some q
           | _ \<Rightarrow> Some q))"

definition AddToBlockIndex :: "uint256 \<Rightarrow> uint256 \<Rightarrow> u32 \<Rightarrow> index_state \<Rightarrow> index_state option" where
  "AddToBlockIndex hash hashPrev nBits st =
     (if blockTree st hash \<noteq> None then Some st
      else case new_entry (blockTree st) hashPrev nBits of
          None \<Rightarrow> None
        | Some b \<Rightarrow>
            let S = (blockTree st)(hash \<mapsto> b)
            in Some \<lparr>blockTree = S, pindexBestHeader = best_header S (pindexBestHeader st) hash,
                      setDirtyBlockIndex = insert hash (setDirtyBlockIndex st)\<rparr>)"

section \<open>The active chain\<close>

record cchain =
  vChain :: "uint256 option list"
  lastTip :: "uint256 option"

text \<open>\<open>vChain\<close> is a vector of pointers. \<open>SetTip\<close> resizes it and writes entries from the tip down until one is right already.\<close>

definition chain_at_height :: "uint256 option list \<Rightarrow> int \<Rightarrow> uint256 option" where
  "chain_at_height v nHeight = (if nHeight < 0 \<or> nHeight \<ge> int (length v) then None else v ! nat nHeight)"

definition Contains :: "block_tree \<Rightarrow> uint256 option list \<Rightarrow> uint256 \<Rightarrow> bool" where
  "Contains S v p \<longleftrightarrow> (case S p of Some b \<Rightarrow> chain_at_height v (ie_height b) = Some p | None \<Rightarrow> False)"

definition chain_resize :: "nat \<Rightarrow> uint256 option list \<Rightarrow> uint256 option list" where
  "chain_resize n v = take n v @ replicate (n - length v) None"

text \<open>The argument \<open>n\<close> bounds the number of rounds: heights decrease, so \<open>height + 1\<close> rounds are enough (\<open>settip_path\<close>).\<close>

fun settip_loop :: "block_tree \<Rightarrow> nat \<Rightarrow> uint256 option \<Rightarrow> uint256 option list \<Rightarrow> uint256 option list" where
  "settip_loop S 0 p v = v"
| "settip_loop S (Suc n) None v = v"
| "settip_loop S (Suc n) (Some p) v =
     (case S p of
        None \<Rightarrow> v
      | Some b \<Rightarrow> if v ! nat (ie_height b) = Some p then v
                  else settip_loop S n (pprev b) (v[nat (ie_height b) := Some p]))"

definition settip_vector :: "block_tree \<Rightarrow> uint256 option \<Rightarrow> uint256 option list \<Rightarrow> uint256 option list" where
  "settip_vector S p v =
     (case p of
        None \<Rightarrow> []
      | Some q \<Rightarrow>
          (case S q of
             None \<Rightarrow> v
           | Some b \<Rightarrow> let n = nat (ie_height b) + 1 in settip_loop S n p (chain_resize n v)))"

definition SetTip :: "block_tree \<Rightarrow> uint256 option \<Rightarrow> cchain \<Rightarrow> cchain" where
  "SetTip S p C = \<lparr>vChain = settip_vector S p (vChain C), lastTip = p\<rparr>"

definition Genesis :: "cchain \<Rightarrow> uint256 option" where
  "Genesis C = (if length (vChain C) > 0 then vChain C ! 0 else None)"

definition Tip :: "cchain \<Rightarrow> uint256 option" where
  "Tip C = (if length (vChain C) > 0 then vChain C ! (length (vChain C) - 1) else None)"

definition LastTip :: "cchain \<Rightarrow> uint256 option" where
  "LastTip C = (if length (vChain C) > 0 then lastTip C else None)"

definition chain_Next :: "block_tree \<Rightarrow> cchain \<Rightarrow> uint256 \<Rightarrow> uint256 option" where
  "chain_Next S C p =
     (case S p of Some b \<Rightarrow> if Contains S (vChain C) p then chain_at_height (vChain C) (ie_height b + 1) else None | None \<Rightarrow> None)"

definition chain_Height :: "uint256 option list \<Rightarrow> int" where
  "chain_Height v = int (length v) - 1"

fun fork_loop :: "block_tree \<Rightarrow> uint256 option list \<Rightarrow> nat \<Rightarrow> uint256 option \<Rightarrow> uint256 option" where
  "fork_loop S v 0 p = p"
| "fork_loop S v (Suc n) None = None"
| "fork_loop S v (Suc n) (Some p) =
     (if Contains S v p then Some p else fork_loop S v n (case S p of Some b \<Rightarrow> pprev b | None \<Rightarrow> None))"

definition FindFork :: "block_tree \<Rightarrow> uint256 option list \<Rightarrow> uint256 option \<Rightarrow> uint256 option option" where
  "FindFork S v p =
     (case p of
        None \<Rightarrow> Some None
      | Some q \<Rightarrow>
          (case S q of
             None \<Rightarrow> None
           | Some b \<Rightarrow>
               (case (if ie_height b > chain_Height v then GetAncestor S q (chain_Height v) else Some (Some q)) of
                  None \<Rightarrow> None
                | Some a \<Rightarrow> Some (fork_loop S v (nat (ie_height b) + 2) a))))"

text \<open>The locator: steps of one for the first eleven hashes, then doubling, down to the genesis block. The loop is bounded as above.\<close>

fun locator_loop :: "block_tree \<Rightarrow> uint256 option list \<Rightarrow> nat \<Rightarrow> int \<Rightarrow> uint256 list \<Rightarrow> uint256 option \<Rightarrow> uint256 list option" where
  "locator_loop S v 0 nStep vHave p = None"
| "locator_loop S v (Suc n) nStep vHave None = Some vHave"
| "locator_loop S v (Suc n) nStep vHave (Some p) =
     (case S p of
        None \<Rightarrow> None
      | Some b \<Rightarrow>
          let vHave = vHave @ [p]
          in if ie_height b = 0 then Some vHave
             else
               let nHeight = max (ie_height b - nStep) 0
               in case (if Contains S v p then Some (chain_at_height v nHeight) else GetAncestor S p nHeight) of
                    None \<Rightarrow> None
                  | Some q \<Rightarrow> locator_loop S v n (if length vHave > 10 then nStep * 2 else nStep) vHave q)"

definition GetLocator :: "block_tree \<Rightarrow> uint256 option list \<Rightarrow> uint256 option \<Rightarrow> uint256 list option" where
  "GetLocator S v p =
     (let p = (if p = None then chain_at_height v (chain_Height v) else p)
      in locator_loop S v (case p of Some q \<Rightarrow> (case S q of Some b \<Rightarrow> nat (ie_height b) + 1 | None \<Rightarrow> 1) | None \<Rightarrow> 1) 1 [] p)"

section \<open>Walking along \<open>pprev\<close>\<close>

fun nth_prev :: "block_tree \<Rightarrow> nat \<Rightarrow> uint256 \<Rightarrow> uint256 option" where
  "nth_prev S 0 p = Some p"
| "nth_prev S (Suc n) p =
     (case S p of None \<Rightarrow> None | Some b \<Rightarrow> (case pprev b of None \<Rightarrow> None | Some q \<Rightarrow> nth_prev S n q))"

definition tree_ok :: "block_tree \<Rightarrow> bool" where
  "tree_ok S \<longleftrightarrow> (\<forall>p b. S p = Some b \<longrightarrow>
     (case pprev b of None \<Rightarrow> ie_height b = 0 | Some q \<Rightarrow> (\<exists>c. S q = Some c \<and> 0 \<le> ie_height c \<and> ie_height b = ie_height c + 1)) \<and>
     (\<forall>q. pskip b = Some q \<longrightarrow> nth_prev S (nat (ie_height b - GetSkipHeight (ie_height b))) p = Some q))"

lemma tree_prev:
  assumes "tree_ok S" "S p = Some b"
  shows "pprev b = None \<Longrightarrow> ie_height b = 0"
    and "pprev b = Some q \<Longrightarrow> \<exists>c. S q = Some c \<and> 0 \<le> ie_height c \<and> ie_height b = ie_height c + 1"
    and "0 \<le> ie_height b"
proof -
  have *: "case pprev b of None \<Rightarrow> ie_height b = 0 | Some q \<Rightarrow> (\<exists>c. S q = Some c \<and> 0 \<le> ie_height c \<and> ie_height b = ie_height c + 1)"
    using assms unfolding tree_ok_def by blast
  then show "pprev b = None \<Longrightarrow> ie_height b = 0"
    and "pprev b = Some q \<Longrightarrow> \<exists>c. S q = Some c \<and> 0 \<le> ie_height c \<and> ie_height b = ie_height c + 1"
    by simp_all
  show "0 \<le> ie_height b"
    using * by (cases "pprev b") auto
qed

lemma nth_prev_add: "nth_prev S (m + n) p = Option.bind (nth_prev S m p) (nth_prev S n)"
  by (induction m arbitrary: p) (auto split: option.splits)

lemma nth_prev_height:
  "tree_ok S \<Longrightarrow> S p = Some b \<Longrightarrow> int n \<le> ie_height b \<Longrightarrow>
     \<exists>q c. nth_prev S n p = Some q \<and> S q = Some c \<and> ie_height c = ie_height b - int n"
proof (induction n arbitrary: p b)
  case (Suc n)
  then obtain q where q: "pprev b = Some q"
    using tree_prev(1) [of S p b] by (cases "pprev b") auto
  then obtain c where c: "S q = Some c" "ie_height b = ie_height c + 1"
    using tree_prev(2) Suc.prems by blast
  then show ?case
    using Suc.IH [of q c] Suc.prems q by auto
qed simp

text \<open>The ancestor at a height.\<close>

definition ancestor :: "block_tree \<Rightarrow> uint256 \<Rightarrow> int \<Rightarrow> uint256 option" where
  "ancestor S p h = (case S p of None \<Rightarrow> None | Some b \<Rightarrow> if h < 0 \<or> ie_height b < h then None else nth_prev S (nat (ie_height b - h)) p)"

lemma ancestor_some:
  assumes "tree_ok S" "S p = Some b" "0 \<le> h" "h \<le> ie_height b"
  obtains q c where "ancestor S p h = Some q" "S q = Some c" "ie_height c = h"
  using nth_prev_height [OF assms(1,2), of "nat (ie_height b - h)"] assms by (auto simp: ancestor_def)

lemma ancestor_trans:
  assumes "tree_ok S" "S p = Some b" "ancestor S p k = Some q" "h \<le> k" "0 \<le> h"
  shows "ancestor S q h = ancestor S p h"
proof -
  have k: "0 \<le> k" "k \<le> ie_height b"
    using assms by (auto simp: ancestor_def split: if_splits)
  then obtain c where c: "S q = Some c" "ie_height c = k"
    using ancestor_some [OF assms(1,2), of k] assms(3) by force
  have "nat (ie_height b - h) = nat (ie_height b - k) + nat (k - h)"
    using assms(4) k by simp
  then have "nth_prev S (nat (ie_height b - h)) p = nth_prev S (nat (k - h)) q"
    using assms(2,3) k by (simp add: nth_prev_add ancestor_def)
  then show ?thesis
    using assms k c by (simp add: ancestor_def)
qed

lemma ancestor_self: "S p = Some b \<Longrightarrow> 0 \<le> ie_height b \<Longrightarrow> ancestor S p (ie_height b) = Some p"
  by (simp add: ancestor_def)

lemma ancestor_prev:
  assumes "tree_ok S" "S p = Some b" "pprev b = Some q" "h < ie_height b"
  shows "ancestor S q h = ancestor S p h"
proof -
  obtain c where c: "S q = Some c" "0 \<le> ie_height c" "ie_height b = ie_height c + 1"
    using tree_prev(2) [OF assms(1-3)] by blast
  show ?thesis
  proof (cases "h < 0")
    case False
    then have "nat (ie_height b - h) = Suc (nat (ie_height c - h))"
      using c assms(4) by simp
    then show ?thesis
      using assms c False by (simp add: ancestor_def)
  qed (use assms c in \<open>simp add: ancestor_def\<close>)
qed

lemma ancestor_walk_correct:
  "tree_ok S \<Longrightarrow> S p = Some b \<Longrightarrow> ie_height b = hw \<Longrightarrow> 0 \<le> h \<Longrightarrow> h \<le> hw \<Longrightarrow> ancestor_walk S h p hw = ancestor S p h"
proof (induction S h p hw arbitrary: b rule: ancestor_walk.induct)
  case (1 S h p hw)
  show ?case
  proof (cases "hw = h")
    case True
    then show ?thesis
      using 1(3-6) by (simp add: ancestor_walk.simps [of S h p h] ancestor_def)
  next
    case False
    then have g: "\<not> (hw \<le> h \<or> h < 0)" "0 < hw"
      using 1(6,7) by auto
    show ?thesis
    proof (cases "if follow_skip h hw then pskip b else None")
      case (Some q)
      then have sk: "pskip b = Some q" "follow_skip h hw"
        by (auto split: if_splits)
      have s: "h \<le> GetSkipHeight hw" "GetSkipHeight hw < hw"
        using sk(2) GetSkipHeight_bounds [of hw] g(2) by (auto simp: follow_skip_def Let_def)
      have "nth_prev S (nat (hw - GetSkipHeight hw)) p = Some q"
        using 1(3,4,5) sk(1) unfolding tree_ok_def by blast
      then have a: "ancestor S p (GetSkipHeight hw) = Some q"
        using s 1(4-6) by (simp add: ancestor_def)
      obtain c where "S q = Some c" "ie_height c = GetSkipHeight hw"
        using ancestor_some [OF 1(3,4), of "GetSkipHeight hw"] s a 1(5,6) by force
      then have "ancestor_walk S h q (GetSkipHeight hw) = ancestor S q h"
        using 1(2) [OF g(1) 1(4) Some] 1(3,6) s(1) by blast
      also have "\<dots> = ancestor S p h"
        by (rule ancestor_trans [OF 1(3,4) a s(1) 1(6)])
      finally show ?thesis
        using g(1) Some 1(4) by (simp add: ancestor_walk.simps [of S h p hw])
    next
      case None
      obtain q where q: "pprev b = Some q"
        using tree_prev(1) [OF 1(3,4)] 1(5) g(2) by (cases "pprev b") auto
      obtain c where "S q = Some c" "ie_height c = hw - 1"
        using tree_prev(2) [OF 1(3,4) q] 1(5) by auto
      then have "ancestor_walk S h q (hw - 1) = ancestor S q h"
        using 1(1) [OF g(1) 1(4) None q] 1(3,6) g(1) by force
      also have "\<dots> = ancestor S p h"
        using g(1) 1(5) by (intro ancestor_prev [OF 1(3,4) q]) auto
      finally show ?thesis
        using g(1) None 1(4) q by (simp add: ancestor_walk.simps [of S h p hw])
    qed
  qed
qed

lemma GetAncestor_correct: "tree_ok S \<Longrightarrow> S p = Some b \<Longrightarrow> GetAncestor S p h = Some (ancestor S p h)"
proof -
  assume t: "tree_ok S" "S p = Some b"
  show ?thesis
  proof (cases "h < 0 \<or> ie_height b < h")
    case True
    then show ?thesis
      using t by (auto simp: GetAncestor_def ancestor_def)
  next
    case False
    then obtain q where "ancestor S p h = Some q"
      using ancestor_some [OF t, of h] by force
    then show ?thesis
      using False t ancestor_walk_correct [OF t refl, of h] by (auto simp: GetAncestor_def)
  qed
qed


section \<open>Growth of the tree\<close>

lemma nth_prev_grow:
  "tree_ok S \<Longrightarrow> S hash = None \<Longrightarrow> S p = Some c \<Longrightarrow> nth_prev (S(hash \<mapsto> b)) n p = nth_prev S n p"
proof (induction n arbitrary: p c)
  case (Suc n)
  have "p \<noteq> hash"
    using Suc.prems by auto
  then show ?case
    using Suc tree_prev(2) [OF Suc.prems(1,3)] by (auto split: option.splits)
qed simp

lemma ancestor_grow: "tree_ok S \<Longrightarrow> S hash = None \<Longrightarrow> S p = Some c \<Longrightarrow> ancestor (S(hash \<mapsto> b)) p h = ancestor S p h"
  by (auto simp: ancestor_def nth_prev_grow)

text \<open>The entry that \<open>AddToBlockIndex\<close> makes.\<close>

lemma raise_fresh: "ie_nStatus b = 0 \<Longrightarrow> RaiseValidity BLOCK_VALID_TREE b = Some (True, b\<lparr>ie_nStatus := 2\<rparr>)"
  by (simp add: RaiseValidity_def BLOCK_VALID_TREE_def BLOCK_VALID_MASK_def)

lemma new_entry_root:
  "S hashPrev = None \<Longrightarrow> new_entry S hashPrev nBits =
     Some \<lparr>pprev = None, pskip = None, ie_height = 0, ie_nBits = nBits, ie_nStatus = 2, ie_nSequenceId = 0,
       ie_chainWork = GetBlockProof nBits\<rparr>"
  by (simp add: new_entry_def CBlockIndex_new_def raise_fresh)

lemma new_entry_child:
  "tree_ok S \<Longrightarrow> S hashPrev = Some a \<Longrightarrow> new_entry S hashPrev nBits =
     Some \<lparr>pprev = Some hashPrev, pskip = ancestor S hashPrev (GetSkipHeight (ie_height a + 1)), ie_height = ie_height a + 1,
       ie_nBits = nBits, ie_nStatus = 2, ie_nSequenceId = 0, ie_chainWork = ie_chainWork a + GetBlockProof nBits\<rparr>"
  by (simp add: new_entry_def CBlockIndex_new_def BuildSkip_def GetAncestor_correct raise_fresh)

lemma new_entry_some: "tree_ok S \<Longrightarrow> \<exists>b. new_entry S hashPrev nBits = Some b"
  by (cases "S hashPrev") (simp_all add: new_entry_root new_entry_child)

lemma tree_ok_entry:
  assumes "tree_ok S" "S hash = None" "new_entry S hashPrev nBits = Some b"
  shows "tree_ok (S(hash \<mapsto> b))"
proof -
  let ?S = "S(hash \<mapsto> b)"
  have old: "(case pprev c of None \<Rightarrow> ie_height c = 0 | Some q \<Rightarrow> (\<exists>d. ?S q = Some d \<and> 0 \<le> ie_height d \<and> ie_height c = ie_height d + 1)) \<and>
      (\<forall>q. pskip c = Some q \<longrightarrow> nth_prev ?S (nat (ie_height c - GetSkipHeight (ie_height c))) p = Some q)"
    if c: "S p = Some c" for p c
  proof -
    have "(\<exists>d. ?S q = Some d \<and> 0 \<le> ie_height d \<and> ie_height c = ie_height d + 1)" if "pprev c = Some q" for q
      using tree_prev(2) [OF assms(1) c that] assms(2) by auto
    moreover have "\<forall>q. pskip c = Some q \<longrightarrow> nth_prev S (nat (ie_height c - GetSkipHeight (ie_height c))) p = Some q"
      using assms(1) c unfolding tree_ok_def by blast
    ultimately show ?thesis
      using tree_prev(1) [OF assms(1) c] by (auto simp: nth_prev_grow [OF assms(1,2) c] split: option.splits)
  qed
  have new: "(case pprev b of None \<Rightarrow> ie_height b = 0 | Some q \<Rightarrow> (\<exists>d. ?S q = Some d \<and> 0 \<le> ie_height d \<and> ie_height b = ie_height d + 1)) \<and>
      (\<forall>q. pskip b = Some q \<longrightarrow> nth_prev ?S (nat (ie_height b - GetSkipHeight (ie_height b))) hash = Some q)"
  proof (cases "S hashPrev")
    case None
    then have "b = \<lparr>pprev = None, pskip = None, ie_height = 0, ie_nBits = nBits, ie_nStatus = 2, ie_nSequenceId = 0,
       ie_chainWork = GetBlockProof nBits\<rparr>"
      using assms(3) new_entry_root by simp
    then show ?thesis
      by simp
  next
    case (Some a)
    have b: "pprev b = Some hashPrev" "ie_height b = ie_height a + 1" "pskip b = ancestor S hashPrev (GetSkipHeight (ie_height b))"
      using new_entry_child [OF assms(1) Some] assms(3) by auto
    have "hashPrev \<noteq> hash" and a: "0 \<le> ie_height a"
      using assms(2) Some tree_prev(3) [OF assms(1)] by auto
    let ?k = "GetSkipHeight (ie_height b)"
    have k: "?k < ie_height b"
      using GetSkipHeight_bounds [of "ie_height b"] a b(2) by simp
    then have "nat (ie_height b - ?k) = Suc (nat (ie_height a - ?k))"
      using b(2) by simp
    then show ?thesis
      using b a Some k \<open>hashPrev \<noteq> hash\<close> nth_prev_grow [OF assms(1,2) Some] by (auto simp: ancestor_def split: if_splits)
  qed
  show ?thesis
    unfolding tree_ok_def using old new by (auto split: if_splits)
qed

text \<open>The states that headers can lead to.\<close>

inductive index_reach :: "index_state \<Rightarrow> bool" where
  index_empty: "index_reach \<lparr>blockTree = (\<lambda>_. None), pindexBestHeader = None, setDirtyBlockIndex = {}\<rparr>"
| index_add: "index_reach st \<Longrightarrow> AddToBlockIndex hash hashPrev nBits st = Some st' \<Longrightarrow> index_reach st'"

lemma index_add_cases:
  assumes "tree_ok (blockTree st)"
  obtains "blockTree st hash \<noteq> None" "AddToBlockIndex hash hashPrev nBits st = Some st"
  | b where "blockTree st hash = None" "new_entry (blockTree st) hashPrev nBits = Some b"
    "AddToBlockIndex hash hashPrev nBits st = Some \<lparr>blockTree = (blockTree st)(hash \<mapsto> b),
       pindexBestHeader = best_header ((blockTree st)(hash \<mapsto> b)) (pindexBestHeader st) hash,
       setDirtyBlockIndex = insert hash (setDirtyBlockIndex st)\<rparr>"
proof (cases "blockTree st hash")
  case None
  then show ?thesis
    using that(2) new_entry_some [OF assms, of hashPrev nBits] by (auto simp: AddToBlockIndex_def Let_def)
next
  case (Some b)
  then show ?thesis
    using that(1) by (simp add: AddToBlockIndex_def)
qed

lemma index_tree_ok: "index_reach st \<Longrightarrow> tree_ok (blockTree st)"
proof (induction rule: index_reach.induct)
  case index_empty
  show ?case
    by (simp add: tree_ok_def)
next
  case (index_add st hash hashPrev nBits st')
  show ?case
    using index_add_cases [OF index_add.IH, of hash hashPrev nBits]
  proof cases
    case 1
    then show ?thesis
      using index_add by simp
  next
    case (2 b)
    then show ?thesis
      using index_add.hyps(2) tree_ok_entry [OF index_add.IH 2(1,2)] by (metis index_state.select_convs(1) option.inject)
  qed
qed


section \<open>The best header\<close>

definition works_fit :: "block_tree \<Rightarrow> bool" where
  "works_fit S \<longleftrightarrow> (\<forall>p b. S p = Some b \<longrightarrow> unat (ie_chainWork b) < 2 ^ 240)"

definition best_ok :: "index_state \<Rightarrow> bool" where
  "best_ok st \<longleftrightarrow>
     (case pindexBestHeader st of
        None \<Rightarrow> blockTree st = (\<lambda>_. None)
      | Some q \<Rightarrow> (\<exists>a. blockTree st q = Some a \<and> (\<forall>p b. blockTree st p = Some b \<longrightarrow> ie_chainWork b \<le> ie_chainWork a)))"

lemma best_ok_entry:
  assumes "best_ok st" "blockTree st hash = None" "works_fit ((blockTree st)(hash \<mapsto> b))"
  shows "best_ok \<lparr>blockTree = (blockTree st)(hash \<mapsto> b), pindexBestHeader = best_header ((blockTree st)(hash \<mapsto> b)) (pindexBestHeader st) hash,
       setDirtyBlockIndex = insert hash (setDirtyBlockIndex st)\<rparr>"
proof (cases "pindexBestHeader st")
  case None
  then show ?thesis
    using assms(1) by (auto simp: best_ok_def best_header_def)
next
  case (Some q)
  then obtain a where a: "blockTree st q = Some a" "\<And>p c. blockTree st p = Some c \<Longrightarrow> ie_chainWork c \<le> ie_chainWork a"
    using assms(1) by (auto simp: best_ok_def)
  then have q: "q \<noteq> hash"
    using assms(2) by auto
  have "unat (ie_chainWork a) < 2 ^ 240" "unat (ie_chainWork b) < 2 ^ 240"
    using assms(3) a(1) q unfolding works_fit_def by (metis fun_upd_other fun_upd_same)+
  then have less: "power_less (ie_chainWork a) (ie_chainWork b) \<longleftrightarrow> ie_chainWork a < ie_chainWork b"
    using power_order by blast
  show ?thesis
  proof (cases "ie_chainWork a < ie_chainWork b")
    case True
    then show ?thesis
      using Some a q less by (fastforce simp: best_ok_def best_header_def)
  next
    case False
    then show ?thesis
      using Some a q less by (fastforce simp: best_ok_def best_header_def)
  qed
qed

lemma works_fit_old: "works_fit (S(hash \<mapsto> b)) \<Longrightarrow> S hash = None \<Longrightarrow> works_fit S"
  unfolding works_fit_def by (metis fun_upd_other option.distinct(1))

lemma index_best_ok: "index_reach st \<Longrightarrow> works_fit (blockTree st) \<Longrightarrow> best_ok st"
proof (induction rule: index_reach.induct)
  case index_empty
  show ?case
    by (simp add: best_ok_def)
next
  case (index_add st hash hashPrev nBits st')
  show ?case
    using index_add_cases [OF index_tree_ok [OF index_add.hyps(1)], of hash hashPrev nBits]
  proof cases
    case 1
    then show ?thesis
      using index_add by simp
  next
    case (2 b)
    then have st': "st' = \<lparr>blockTree = (blockTree st)(hash \<mapsto> b),
        pindexBestHeader = best_header ((blockTree st)(hash \<mapsto> b)) (pindexBestHeader st) hash,
       setDirtyBlockIndex = insert hash (setDirtyBlockIndex st)\<rparr>"
      using index_add.hyps(2) by simp
    then have "works_fit ((blockTree st)(hash \<mapsto> b))"
      using index_add.prems by (metis index_state.select_convs(1))
    then show ?thesis
      unfolding st' using index_add.IH works_fit_old 2(1) by (intro best_ok_entry) blast+
  qed
qed

section \<open>The active chain as a path\<close>

definition chain_path :: "block_tree \<Rightarrow> uint256 option list \<Rightarrow> uint256 \<Rightarrow> bool" where
  "chain_path S v p \<longleftrightarrow>
     (\<exists>b. S p = Some b \<and> length v = nat (ie_height b) + 1 \<and> (\<forall>h. int h \<le> ie_height b \<longrightarrow> v ! h = ancestor S p (int h)))"

definition chain_ok :: "block_tree \<Rightarrow> uint256 option list \<Rightarrow> bool" where
  "chain_ok S v \<longleftrightarrow> v = [] \<or> (\<exists>p. chain_path S v p)"

text \<open>Entries of a vector that carry a path below them.\<close>

definition paths_below :: "block_tree \<Rightarrow> nat \<Rightarrow> uint256 option list \<Rightarrow> bool" where
  "paths_below S k v \<longleftrightarrow> (\<forall>i \<le> k. \<forall>x. v ! i = Some x \<longrightarrow> (\<forall>j \<le> i. v ! j = ancestor S x (int j)))"

lemma settip_loop_path:
  "tree_ok S \<Longrightarrow> S p = Some b \<Longrightarrow> ie_height b = int k \<Longrightarrow> k < length v \<Longrightarrow> k < n \<Longrightarrow> paths_below S k v \<Longrightarrow>
     length (settip_loop S n (Some p) v) = length v \<and> (\<forall>j \<le> k. settip_loop S n (Some p) v ! j = ancestor S p (int j)) \<and>
     (\<forall>j > k. settip_loop S n (Some p) v ! j = v ! j)"
proof (induction k arbitrary: p b v n)
  case 0
  then obtain m where n: "n = Suc m"
    by (cases n) auto
  have "pprev b = None"
    using tree_prev(2) [OF 0(1,2)] 0(3) by (cases "pprev b") auto
  moreover have "settip_loop S m None w = w" for w
    by (cases m) simp_all
  ultimately show ?case
    using 0 n ancestor_self [of S p b] by (auto simp: paths_below_def)
next
  case (Suc k)
  then obtain m where n: "n = Suc m"
    by (cases n) auto
  have hk: "nat (ie_height b) = Suc k"
    using Suc.prems(3) by simp
  have self: "ancestor S p (int (Suc k)) = Some p"
    using ancestor_self [of S p b] Suc.prems(2,3) by simp
  show ?case
  proof (cases "v ! Suc k = Some p")
    case True
    then have "\<forall>j \<le> Suc k. v ! j = ancestor S p (int j)"
      using Suc.prems(6) unfolding paths_below_def by blast
    then show ?thesis
      using True n Suc.prems(2) hk by simp
  next
    case False
    obtain q where q: "pprev b = Some q"
      using tree_prev(1) [OF Suc.prems(1,2)] Suc.prems(3) by (cases "pprev b") auto
    then obtain c where c: "S q = Some c" "ie_height c = int k"
      using tree_prev(2) [OF Suc.prems(1,2)] Suc.prems(3) by fastforce
    let ?v = "v[Suc k := Some p]"
    have "paths_below S k ?v"
      using Suc.prems(6) unfolding paths_below_def by simp (metis le_SucI)
    then have IH: "length (settip_loop S m (Some q) ?v) = length v"
      "\<forall>j \<le> k. settip_loop S m (Some q) ?v ! j = ancestor S q (int j)"
      "\<forall>j > k. settip_loop S m (Some q) ?v ! j = ?v ! j"
      using Suc.IH [OF Suc.prems(1) c, of ?v m] Suc.prems(4,5) n by simp_all
    have eq: "settip_loop S n (Some p) v = settip_loop S m (Some q) ?v"
      using False n Suc.prems(2) hk q by simp
    have "ancestor S q (int j) = ancestor S p (int j)" if "j \<le> k" for j
      using that Suc.prems(3) by (intro ancestor_prev [OF Suc.prems(1,2) q]) simp
    then show ?thesis
      unfolding eq using IH self Suc.prems(4) by (auto simp: le_Suc_eq)
  qed
qed

lemma paths_below_resize:
  assumes "tree_ok S" "chain_ok S v" "k < n"
  shows "paths_below S k (chain_resize n v)"
  unfolding paths_below_def
proof (intro allI impI)
  fix i x j
  assume i: "i \<le> k" "chain_resize n v ! i = Some x" and j: "j \<le> i"
  have iv: "i < length v" "v ! i = Some x"
    using i assms(3) by (auto simp: chain_resize_def nth_append split: if_splits)
  then obtain p b where p: "S p = Some b" "length v = nat (ie_height b) + 1" "\<And>h. int h \<le> ie_height b \<Longrightarrow> v ! h = ancestor S p (int h)"
    using assms(2) by (auto simp: chain_ok_def chain_path_def)
  have le: "int i \<le> ie_height b"
    using iv(1) p(2) tree_prev(3) [OF assms(1) p(1)] by linarith
  then have "ancestor S p (int i) = Some x"
    using p(3) iv(2) by simp
  then have "ancestor S x (int j) = v ! j"
    using ancestor_trans [OF assms(1) p(1), of "int i" x "int j"] p(3) [of j] j le by simp
  moreover have "chain_resize n v ! j = v ! j"
    using i(1) j assms(3) iv(1) by (simp add: chain_resize_def nth_append)
  ultimately show "chain_resize n v ! j = ancestor S x (int j)"
    by simp
qed

lemma settip_chain_path:
  assumes "tree_ok S" "chain_ok S v" "S p = Some b"
  shows "chain_path S (settip_vector S (Some p) v) p"
proof -
  let ?k = "nat (ie_height b)"
  let ?v = "chain_resize (?k + 1) v"
  have "0 \<le> ie_height b"
    using tree_prev(3) [OF assms(1,3)] .
  moreover have "length ?v = ?k + 1"
    by (simp add: chain_resize_def)
  moreover have "paths_below S ?k ?v"
    using assms(1,2) by (intro paths_below_resize) simp_all
  ultimately show ?thesis
    using settip_loop_path [OF assms(1,3), of ?k ?v "?k + 1"] assms(3) by (auto simp: chain_path_def settip_vector_def Let_def)
qed


lemma chain_path_length: "tree_ok S \<Longrightarrow> chain_path S v t \<Longrightarrow> S t = Some b \<Longrightarrow> int (length v) = ie_height b + 1"
  using tree_prev(3) [of S t b] by (auto simp: chain_path_def)

lemma chain_path_at:
  assumes "tree_ok S" "chain_path S v t"
  shows "chain_at_height v h = ancestor S t h"
proof -
  obtain b where b: "S t = Some b" "length v = nat (ie_height b) + 1" "\<And>h. int h \<le> ie_height b \<Longrightarrow> v ! h = ancestor S t (int h)"
    using assms(2) by (auto simp: chain_path_def)
  have "0 \<le> ie_height b"
    using tree_prev(3) [OF assms(1) b(1)] .
  then show ?thesis
    using b(1,2) b(3) [of "nat h"] by (auto simp: chain_at_height_def ancestor_def)
qed

lemma chain_path_contains:
  "tree_ok S \<Longrightarrow> chain_path S v t \<Longrightarrow> S p = Some b \<Longrightarrow> Contains S v p \<longleftrightarrow> ancestor S t (ie_height b) = Some p"
  by (simp add: Contains_def chain_path_at)

lemma ancestor_height:
  assumes "tree_ok S" "ancestor S p h = Some q"
  obtains b c where "S p = Some b" "S q = Some c" "ie_height c = h" "0 \<le> h" "h \<le> ie_height b"
proof -
  obtain b where b: "S p = Some b" "0 \<le> h" "h \<le> ie_height b"
    using assms(2) by (auto simp: ancestor_def split: option.splits if_splits)
  then show ?thesis
    using that ancestor_some [OF assms(1) b] assms(2) by (metis option.inject)
qed

section \<open>Fork point and locator\<close>

text \<open>Two blocks share their ancestor at a height.\<close>

definition common :: "block_tree \<Rightarrow> uint256 \<Rightarrow> uint256 \<Rightarrow> int \<Rightarrow> bool" where
  "common S t p h \<longleftrightarrow> ancestor S t h \<noteq> None \<and> ancestor S p h = ancestor S t h"

definition is_fork :: "block_tree \<Rightarrow> uint256 \<Rightarrow> uint256 \<Rightarrow> uint256 option \<Rightarrow> bool" where
  "is_fork S t p r \<longleftrightarrow>
     (case r of
        None \<Rightarrow> (\<forall>h. \<not> common S t p h)
      | Some q \<Rightarrow> (\<exists>h. common S t p h \<and> ancestor S t h = Some q \<and> (\<forall>k > h. \<not> common S t p k)))"

lemma is_fork_cong: "(\<And>k. common S t p k \<longleftrightarrow> common S t q k) \<Longrightarrow> is_fork S t p r \<longleftrightarrow> is_fork S t q r"
  by (cases r) (simp_all add: is_fork_def)

lemma common_prev:
  assumes "tree_ok S" "S p = Some b" "pprev b = Some q" "ancestor S t (ie_height b) \<noteq> Some p"
  shows "common S t p k \<longleftrightarrow> common S t q k"
proof (cases "k < ie_height b")
  case True
  then show ?thesis
    using ancestor_prev [OF assms(1-3)] by (simp add: common_def)
next
  case False
  obtain c where c: "S q = Some c" "ie_height b = ie_height c + 1"
    using tree_prev(2) [OF assms(1-3)] by blast
  then have "ancestor S q k = None"
    using False by (simp add: ancestor_def)
  moreover have "ancestor S p k = None \<or> (k = ie_height b \<and> ancestor S p k = Some p)"
    using False assms(2) tree_prev(3) [OF assms(1,2)] by (auto simp: ancestor_def)
  ultimately show ?thesis
    using assms(4) by (auto simp: common_def)
qed

lemma common_jump:
  assumes "tree_ok S" "S p = Some b" "S t = Some c" "ie_height c \<le> ie_height b" "ancestor S p (ie_height c) = Some a"
  shows "common S t p k \<longleftrightarrow> common S t a k"
proof (cases "0 \<le> k \<and> k \<le> ie_height c")
  case True
  then show ?thesis
    using ancestor_trans [OF assms(1,2,5), of k] by (simp add: common_def)
next
  case False
  then show ?thesis
    using assms(3) by (auto simp: common_def ancestor_def)
qed

lemma fork_here: "tree_ok S \<Longrightarrow> S p = Some b \<Longrightarrow> ancestor S t (ie_height b) = Some p \<Longrightarrow> is_fork S t p (Some p)"
  using tree_prev(3) [of S p b] ancestor_self [of S p b]
  by (auto simp: is_fork_def common_def ancestor_def intro!: exI [of _ "ie_height b"])

lemma fork_loop_correct:
  "tree_ok S \<Longrightarrow> chain_path S v t \<Longrightarrow> S p = Some b \<Longrightarrow> ie_height b + 1 < int n \<Longrightarrow> is_fork S t p (fork_loop S v n (Some p))"
proof (induction n arbitrary: p b)
  case (Suc n)
  note contains = chain_path_contains [OF Suc.prems(1-3)]
  show ?case
  proof (cases "ancestor S t (ie_height b) = Some p")
    case True
    then show ?thesis
      using contains fork_here [OF Suc.prems(1,3)] by simp
  next
    case False
    show ?thesis
    proof (cases "pprev b")
      case None
      have "0 < n"
        using Suc.prems(4) tree_prev(3) [OF Suc.prems(1,3)] by simp
      then have "fork_loop S v (Suc n) (Some p) = None"
        using False contains None Suc.prems(3) by (cases n) simp_all
      moreover have "\<not> common S t p k" for k
        using False tree_prev(1) [OF Suc.prems(1,3) None] Suc.prems(3) by (cases "k = 0") (auto simp: common_def ancestor_def)
      ultimately show ?thesis
        by (simp add: is_fork_def)
    next
      case (Some q)
      obtain c where c: "S q = Some c" "ie_height b = ie_height c + 1"
        using tree_prev(2) [OF Suc.prems(1,3) Some] by blast
      have "fork_loop S v (Suc n) (Some p) = fork_loop S v n (Some q)"
        using False contains Some Suc.prems(3) by simp
      moreover have "is_fork S t q (fork_loop S v n (Some q))"
        using Suc.IH [OF Suc.prems(1,2) c(1)] Suc.prems(4) c(2) by simp
      ultimately show ?thesis
        using is_fork_cong common_prev [OF Suc.prems(1,3) Some False] by metis
    qed
  qed
qed (use tree_prev(3) in fastforce)

lemma FindFork_correct:
  assumes "tree_ok S" "chain_path S v t" "S p = Some b"
  shows "\<exists>r. FindFork S v (Some p) = Some r \<and> is_fork S t p r"
proof -
  obtain c where c: "S t = Some c"
    using assms(2) by (auto simp: chain_path_def)
  have h: "chain_Height v = ie_height c" "0 \<le> ie_height c"
    using chain_path_length [OF assms(1,2) c] tree_prev(3) [OF assms(1) c] by (simp_all add: chain_Height_def)
  show ?thesis
  proof (cases "ie_height b > ie_height c")
    case True
    then obtain a d where a: "ancestor S p (ie_height c) = Some a" "S a = Some d" "ie_height d = ie_height c"
      using ancestor_some [OF assms(1,3), of "ie_height c"] h(2) by auto
    then have "is_fork S t a (fork_loop S v (nat (ie_height b) + 2) (Some a))"
      using True h(2) by (intro fork_loop_correct [OF assms(1,2)]) auto
    moreover have "common S t p k \<longleftrightarrow> common S t a k" for k
      using common_jump [OF assms(1,3) c _ a(1)] True by simp
    ultimately have "is_fork S t p (fork_loop S v (nat (ie_height b) + 2) (Some a))"
      using is_fork_cong [of S t p a] by blast
    then show ?thesis
      using True h a(1) assms(3) by (simp add: FindFork_def GetAncestor_correct [OF assms(1,3)])
  next
    case False
    then show ?thesis
      using h assms(3) fork_loop_correct [OF assms, of "nat (ie_height b) + 2"] tree_prev(3) [OF assms(1,3)] by (simp add: FindFork_def)
  qed
qed

text \<open>A locator: every hash is a proper ancestor of the one before, and the last one is at height zero.\<close>

fun locator_path :: "block_tree \<Rightarrow> uint256 list \<Rightarrow> bool" where
  "locator_path S [] \<longleftrightarrow> False"
| "locator_path S [p] \<longleftrightarrow> (case S p of Some b \<Rightarrow> ie_height b = 0 | None \<Rightarrow> False)"
| "locator_path S (p # q # l) \<longleftrightarrow>
     (case (S p, S q) of (Some b, Some c) \<Rightarrow> ie_height c < ie_height b \<and> ancestor S p (ie_height c) = Some q | _ \<Rightarrow> False) \<and> locator_path S (q # l)"

lemma locator_next:
  assumes "tree_ok S" "chain_ok S v" "S p = Some b"
  shows "(if Contains S v p then Some (chain_at_height v h) else GetAncestor S p h) = Some (ancestor S p h) \<or> ie_height b < h \<or> h < 0"
proof (cases "Contains S v p \<and> 0 \<le> h \<and> h \<le> ie_height b")
  case True
  then have "v \<noteq> []"
    using assms(3) by (auto simp: Contains_def chain_at_height_def)
  then obtain t where t: "chain_path S v t"
    using assms(2) by (auto simp: chain_ok_def)
  then have "ancestor S t (ie_height b) = Some p"
    using True chain_path_contains [OF assms(1) t assms(3)] by simp
  then have "ancestor S t h = ancestor S p h"
    using True t ancestor_trans [OF assms(1), of t _ "ie_height b" p h] by (auto simp: chain_path_def)
  then show ?thesis
    using True chain_path_at [OF assms(1) t] by simp
next
  case False
  then show ?thesis
    using GetAncestor_correct [OF assms(1,3)] by auto
qed

lemma locator_loop_correct:
  "tree_ok S \<Longrightarrow> chain_ok S v \<Longrightarrow> S p = Some b \<Longrightarrow> ie_height b < int n \<Longrightarrow> 1 \<le> s \<Longrightarrow> ie_height b \<le> s * (2 ^ k - 1) \<Longrightarrow>
     \<exists>l. locator_loop S v n s vHave (Some p) = Some (vHave @ p # l) \<and> locator_path S (p # l) \<and> length l \<le> (10 - length vHave) + k"
proof (induction n arbitrary: p b s k vHave)
  case 0
  then show ?case
    using tree_prev(3) [of S p b] by simp
next
  case (Suc n)
  let ?h = "max (ie_height b - s) 0"
  have b0: "0 \<le> ie_height b"
    using tree_prev(3) [OF Suc.prems(1,3)] .
  show ?case
  proof (cases "ie_height b = 0")
    case True
    then show ?thesis
      using Suc.prems(3) by simp
  next
    case False
    then have h: "0 \<le> ?h" "?h < ie_height b"
      using b0 Suc.prems(5) by auto
    then obtain q c where q: "ancestor S p ?h = Some q" "S q = Some c" "ie_height c = ?h"
      by (elim ancestor_some [OF Suc.prems(1,3) h(1) less_imp_le [OF h(2)]])
    define s' where "s' = (if 9 < length vHave then s * 2 else s)"
    define k' where "k' = (if 9 < length vHave then k - 1 else k)"
    have k: "0 < k"
      using Suc.prems(6) False b0 by (cases k) auto
    have "(2 :: int) ^ k = 2 * 2 ^ (k - 1)"
      using k by (cases k) simp_all
    then have fit: "ie_height c \<le> s' * (2 ^ k' - 1)"
      using Suc.prems(5,6) h q(3) by (auto simp: s'_def k'_def algebra_simps max_def)
    have step: "1 \<le> s'" and low: "ie_height c < int n"
      using Suc.prems(4,5) h(2) q(3) by (simp_all add: s'_def)
    obtain l where l: "locator_loop S v n s' (vHave @ [p]) (Some q) = Some ((vHave @ [p]) @ q # l)" "locator_path S (q # l)"
      "length l \<le> (10 - length (vHave @ [p])) + k'"
      using Suc.IH [OF Suc.prems(1,2) q(2) low step fit, of "vHave @ [p]"] by blast
    have "(if Contains S v p then Some (chain_at_height v ?h) else GetAncestor S p ?h) = Some (Some q)"
      using locator_next [OF Suc.prems(1-3), of ?h] h q(1) by simp
    then have "locator_loop S v (Suc n) s vHave (Some p) = Some (vHave @ p # q # l)"
      using Suc.prems(3) False l(1) by (simp add: s'_def Let_def)
    moreover have "locator_path S (p # q # l)"
      using l(2) Suc.prems(3) q h(2) by simp
    moreover have "length (q # l) \<le> (10 - length vHave) + k"
      using l(3) k by (auto simp: k'_def split: if_splits)
    ultimately show ?thesis
      by blast
  qed
qed

lemma GetLocator_correct:
  assumes "tree_ok S" "chain_ok S v" "S p = Some b" "ie_height b < 2 ^ k"
  shows "\<exists>l. GetLocator S v (Some p) = Some (p # l) \<and> locator_path S (p # l) \<and> length (p # l) \<le> 11 + k"
proof -
  have "\<exists>l. locator_loop S v (nat (ie_height b) + 1) 1 [] (Some p) = Some ([] @ p # l) \<and> locator_path S (p # l) \<and> length l \<le> (10 - length ([] :: uint256 list)) + k"
    using assms tree_prev(3) [OF assms(1,3)] by (intro locator_loop_correct) simp_all
  then show ?thesis
    using assms(3) by (auto simp: GetLocator_def)
qed

lemma locator_tip:
  assumes "tree_ok S" "chain_path S v t"
  shows "GetLocator S v None = GetLocator S v (Some t)"
proof -
  obtain b where b: "S t = Some b"
    using assms(2) by (auto simp: chain_path_def)
  have "chain_at_height v (chain_Height v) = Some t"
    using chain_path_at [OF assms] chain_path_length [OF assms b] ancestor_self [of S t b] tree_prev(3) [OF assms(1) b] b
    by (simp add: chain_Height_def)
  then show ?thesis
    by (simp add: GetLocator_def)
qed

lemma SetTip_chain_ok: "tree_ok S \<Longrightarrow> chain_ok S (vChain C) \<Longrightarrow> S p = Some b \<Longrightarrow> chain_path S (vChain (SetTip S (Some p) C)) p"
  by (simp add: SetTip_def settip_chain_path)

lemma chain_path_tip:
  assumes "tree_ok S" "chain_path S (vChain C) p"
  shows "Tip C = Some p" and "vChain C \<noteq> []" and "Genesis C = ancestor S p 0"
proof -
  obtain b where b: "S p = Some b"
    using assms(2) by (auto simp: chain_path_def)
  have len: "int (length (vChain C)) = ie_height b + 1" and h: "0 \<le> ie_height b"
    using chain_path_length [OF assms b] tree_prev(3) [OF assms(1) b] by simp_all
  then show ne: "vChain C \<noteq> []"
    by auto
  have "chain_at_height (vChain C) (ie_height b) = Some p"
    using chain_path_at [OF assms] ancestor_self [of S p b] b h by simp
  moreover have "nat (ie_height b) = length (vChain C) - 1"
    using len by linarith
  ultimately show "Tip C = Some p"
    using ne len h by (auto simp: Tip_def chain_at_height_def split: if_splits)
  show "Genesis C = ancestor S p 0"
    using chain_path_at [OF assms, of 0] ne by (simp add: Genesis_def chain_at_height_def)
qed

lemma chain_Next_child:
  assumes "tree_ok S" "chain_path S (vChain C) t" "S q = Some c" "pprev c = Some p" "ancestor S t (ie_height c) = Some q"
  shows "chain_Next S C p = Some q"
proof -
  obtain b where b: "S p = Some b" "ie_height c = ie_height b + 1" "0 \<le> ie_height b"
    using tree_prev(2) [OF assms(1,3,4)] by blast
  obtain d where d: "S t = Some d"
    using assms(2) by (auto simp: chain_path_def)
  have "ancestor S q (ie_height b) = ancestor S p (ie_height b)"
    using ancestor_prev [OF assms(1,3,4), of "ie_height b"] b(2) by simp
  then have "ancestor S t (ie_height b) = Some p"
    using ancestor_trans [OF assms(1) d assms(5), of "ie_height b"] ancestor_self [of S p b] b by simp
  then show ?thesis
    using chain_path_contains [OF assms(1,2) b(1)] chain_path_at [OF assms(1,2), of "ie_height c"] assms(5) b by (simp add: chain_Next_def)
qed

section \<open>Properties\<close>

lemma index_works:
  "index_reach st \<Longrightarrow> blockTree st p = Some b \<Longrightarrow>
     ie_chainWork b = (case pprev b of None \<Rightarrow> 0 | Some q \<Rightarrow> (case blockTree st q of Some a \<Rightarrow> ie_chainWork a | None \<Rightarrow> 0)) + GetBlockProof (ie_nBits b)"
proof (induction arbitrary: p b rule: index_reach.induct)
  case (index_add st hash hashPrev nBits st')
  note t = index_tree_ok [OF index_add.hyps(1)]
  show ?case
    using index_add_cases [OF t, of hash hashPrev nBits]
  proof cases
    case 1
    then have "st' = st"
      using index_add.hyps(2) by simp
    then show ?thesis
      using index_add.IH index_add.prems by blast
  next
    case (2 e)
    have st': "blockTree st' = (blockTree st)(hash \<mapsto> e)"
      using index_add.hyps(2) 2(3) by auto
    show ?thesis
    proof (cases "p = hash")
      case True
      then have "b = e"
        using index_add.prems st' by simp
      then show ?thesis
        using st' 2(1,2) new_entry_root new_entry_child [OF t] by (cases "blockTree st hashPrev") auto
    next
      case False
      then have b: "blockTree st p = Some b"
        using index_add.prems st' by simp
      then have "pprev b \<noteq> Some hash"
        using tree_prev(2) [OF t b] 2(1) by auto
      then show ?thesis
        using index_add.IH [OF b] st' by (auto split: option.splits)
    qed
  qed
qed simp

text \<open>The headers of a branch arrive one by one, each on the one before it.\<close>

fun add_branch :: "uint256 \<Rightarrow> (uint256 \<times> u32) list \<Rightarrow> index_state \<Rightarrow> index_state option" where
  "add_branch hashPrev [] st = Some st"
| "add_branch hashPrev ((hash, nBits) # hs) st = Option.bind (AddToBlockIndex hash hashPrev nBits st) (add_branch hash hs)"

definition branch_work :: "(uint256 \<times> u32) list \<Rightarrow> nat" where
  "branch_work hs = sum_list (map (\<lambda>h. unat (GetBlockProof (snd h))) hs)"

lemma branch_work_simps [simp]:
  "branch_work [] = 0" "branch_work (h # hs) = unat (GetBlockProof (snd h)) + branch_work hs" "branch_work (hs @ gs) = branch_work hs + branch_work gs"
  by (simp_all add: branch_work_def)

lemma add_branch_runs:
  assumes "index_reach st" "works_fit (blockTree st)" "blockTree st prev = Some a" "distinct (map fst hs)" "\<forall>h \<in> set hs. blockTree st (fst h) = None"
    "unat (ie_chainWork a) + branch_work hs < 2 ^ 240"
  shows "\<exists>st'. add_branch prev hs st = Some st' \<and> index_reach st' \<and> works_fit (blockTree st') \<and>
    (\<forall>p. p \<notin> fst ` set hs \<longrightarrow> blockTree st' p = blockTree st p) \<and>
    (\<forall>gs h. prefix (gs @ [h]) hs \<longrightarrow>
       (\<exists>b. blockTree st' (fst h) = Some b \<and> unat (ie_chainWork b) = unat (ie_chainWork a) + branch_work (gs @ [h])))"
  using assms
proof (induction hs arbitrary: prev a st)
  case (Cons h hs)
  obtain hash nBits where h: "h = (hash, nBits)"
    by fastforce
  note t = index_tree_ok [OF Cons.prems(1)]
  define b where "b = \<lparr>pprev = Some prev, pskip = ancestor (blockTree st) prev (GetSkipHeight (ie_height a + 1)), ie_height = ie_height a + 1,
       ie_nBits = nBits, ie_nStatus = 2, ie_nSequenceId = 0, ie_chainWork = ie_chainWork a + GetBlockProof nBits\<rparr>"
  define st1 where "st1 = \<lparr>blockTree = (blockTree st)(hash \<mapsto> b), pindexBestHeader = best_header ((blockTree st)(hash \<mapsto> b)) (pindexBestHeader st) hash,
       setDirtyBlockIndex = insert hash (setDirtyBlockIndex st)\<rparr>"
  have add: "AddToBlockIndex hash prev nBits st = Some st1"
    using Cons.prems(5) h by (simp add: AddToBlockIndex_def new_entry_child [OF t Cons.prems(3)] b_def st1_def Let_def)
  have work: "unat (ie_chainWork b) = unat (ie_chainWork a) + unat (GetBlockProof nBits)"
    using Cons.prems(6) h by (simp add: b_def unat_word_ariths)
  have fit: "works_fit (blockTree st1)"
    using Cons.prems(2,6) h work by (auto simp: works_fit_def st1_def)
  have new: "hash \<notin> fst ` set hs"
    using Cons.prems(4) h by auto
  then have rest: "blockTree st1 hash = Some b" "distinct (map fst hs)" "\<forall>g \<in> set hs. blockTree st1 (fst g) = None"
    "unat (ie_chainWork b) + branch_work hs < 2 ^ 240"
    using Cons.prems(4-6) h work by (auto simp: st1_def rev_image_eqI)
  obtain st' where st': "add_branch hash hs st1 = Some st'" "index_reach st'" "works_fit (blockTree st')"
    "\<forall>p. p \<notin> fst ` set hs \<longrightarrow> blockTree st' p = blockTree st1 p"
    "\<forall>gs h. prefix (gs @ [h]) hs \<longrightarrow> (\<exists>c. blockTree st' (fst h) = Some c \<and> unat (ie_chainWork c) = unat (ie_chainWork b) + branch_work (gs @ [h]))"
    using Cons.IH [OF index_add [OF Cons.prems(1) add] fit rest] by blast
  have "\<exists>c. blockTree st' (fst g) = Some c \<and> unat (ie_chainWork c) = unat (ie_chainWork a) + branch_work (gs @ [g])"
    if "prefix (gs @ [g]) (h # hs)" for gs g
  proof (cases gs)
    case Nil
    then have "g = h" using that by simp
    then show ?thesis using Nil h new st'(4) work by (simp add: st1_def)
  next
    case (Cons x xs)
    then have "x = h" "prefix (xs @ [g]) hs" using that by simp_all
    then show ?thesis using Cons h st'(5) work by fastforce
  qed
  moreover have "\<forall>p. p \<notin> fst ` set (h # hs) \<longrightarrow> blockTree st' p = blockTree st p"
    using st'(4) h by (auto simp: st1_def)
  ultimately show ?case
    using st'(1-3) add h by (intro exI [of _ st']) simp
qed simp

text \<open>A small index for the witnesses: a genesis block, two blocks on it and a third on the first of them.\<close>

definition demo_entry :: "uint256 option \<Rightarrow> uint256 option \<Rightarrow> int \<Rightarrow> uint256 \<Rightarrow> index_entry" where
  "demo_entry q k h w = \<lparr>pprev = q, pskip = k, ie_height = h, ie_nBits = 0x207fffff, ie_nStatus = 2, ie_nSequenceId = 0, ie_chainWork = w\<rparr>"

definition demo_index :: index_state where
  "demo_index = \<lparr>blockTree = [1 \<mapsto> demo_entry None None 0 2, 2 \<mapsto> demo_entry (Some 1) (Some 1) 1 4,
      3 \<mapsto> demo_entry (Some 2) (Some 1) 2 6, 4 \<mapsto> demo_entry (Some 1) (Some 1) 1 4],
    pindexBestHeader = Some 3, setDirtyBlockIndex = {1, 2, 3, 4}\<rparr>"

lemma demo_proof: "GetBlockProof 0x207fffff = 2"
  by code_simp

lemma demo_power: "power_less 2 4" "power_less 4 6" "\<not> power_less 6 4"
  by code_simp+

lemma demo_skip: "GetSkipHeight 1 = 0" "GetSkipHeight 2 = 0"
  by code_simp+

lemma demo_reach: "index_reach demo_index"
proof -
  note add = AddToBlockIndex_def new_entry_def CBlockIndex_new_def BuildSkip_def GetAncestor_def ancestor_walk.simps raise_fresh best_header_def
    demo_entry_def demo_proof demo_power demo_skip follow_skip_def
  let ?s1 = "\<lparr>blockTree = [1 \<mapsto> demo_entry None None 0 2], pindexBestHeader = Some 1, setDirtyBlockIndex = {1}\<rparr>"
  let ?s2 = "\<lparr>blockTree = (blockTree ?s1)(2 \<mapsto> demo_entry (Some 1) (Some 1) 1 4), pindexBestHeader = Some 2, setDirtyBlockIndex = {2, 1}\<rparr>"
  let ?s3 = "\<lparr>blockTree = (blockTree ?s2)(3 \<mapsto> demo_entry (Some 2) (Some 1) 2 6), pindexBestHeader = Some 3, setDirtyBlockIndex = {3, 2, 1}\<rparr>"
  have "index_reach ?s1"
    by (rule index_add [OF index_empty, of 1 0 "0x207fffff"]) (simp add: add)
  then have "index_reach ?s2"
    by (rule index_add [of _ 2 1 "0x207fffff"]) (simp add: add)
  then have "index_reach ?s3"
    by (rule index_add [of _ 3 2 "0x207fffff"]) (simp add: add)
  then show ?thesis
    by (rule index_add [of _ 4 1 "0x207fffff"]) (simp add: add demo_index_def insert_commute)
qed

text \<open>C28. Typing of the block index: in every state that headers can lead to, each entry is either a root at height zero or has a known predecessor one height
  below it; its work is the work of its predecessor plus the proof of its own target; and adding a header always succeeds, never touches an
  entry that is there, and afterwards the hash is known and marked dirty if it was new.\<close>

theorem index_entries_typed:
  assumes "index_reach st" "blockTree st p = Some b"
  shows "(case pprev b of
       None \<Rightarrow> ie_height b = 0 \<and> ie_chainWork b = GetBlockProof (ie_nBits b)
     | Some q \<Rightarrow> \<exists>a. blockTree st q = Some a \<and> 0 \<le> ie_height a \<and> ie_height b = ie_height a + 1 \<and>
         ie_chainWork b = ie_chainWork a + GetBlockProof (ie_nBits b)) \<and>
     (\<exists>st'. AddToBlockIndex hash hashPrev nBits st = Some st' \<and> blockTree st' p = Some b \<and> blockTree st' hash \<noteq> None \<and>
        (blockTree st hash = None \<longrightarrow> hash \<in> setDirtyBlockIndex st'))"
proof (rule conjI)
  note t = index_tree_ok [OF assms(1)]
  show "case pprev b of
       None \<Rightarrow> ie_height b = 0 \<and> ie_chainWork b = GetBlockProof (ie_nBits b)
     | Some q \<Rightarrow> \<exists>a. blockTree st q = Some a \<and> 0 \<le> ie_height a \<and> ie_height b = ie_height a + 1 \<and>
         ie_chainWork b = ie_chainWork a + GetBlockProof (ie_nBits b)"
    using index_works [OF assms] tree_prev [OF t assms(2)] by (cases "pprev b") auto
  show "\<exists>st'. AddToBlockIndex hash hashPrev nBits st = Some st' \<and> blockTree st' p = Some b \<and> blockTree st' hash \<noteq> None \<and>
      (blockTree st hash = None \<longrightarrow> hash \<in> setDirtyBlockIndex st')"
    using index_add_cases [OF t, of hash hashPrev nBits] assms(2) by cases auto
qed

theorem index_entries_typed_witness:
  "\<exists>st'. AddToBlockIndex 5 3 0x207fffff demo_index = Some st' \<and> blockTree st' 3 = Some (demo_entry (Some 2) (Some 1) 2 6) \<and>
     5 \<in> setDirtyBlockIndex st'"
  using index_entries_typed [OF demo_reach, of 3 "demo_entry (Some 2) (Some 1) 2 6" 5 3 "0x207fffff"] by (auto simp: demo_index_def)

text \<open>C11. The skip list is transparent: in every reachable index \<open>GetAncestor\<close>, which jumps through \<open>pskip\<close> when that is not worse than a step
  along \<open>pprev\<close>, returns for every height what walking \<open>pprev\<close> returns, the null pointer for heights outside \<open>[0, nHeight]\<close>, and never
  fails its assertion; the entry it returns has the height that was asked for.\<close>

theorem skiplist_ancestor:
  assumes "index_reach st" "blockTree st p = Some b"
  shows "GetAncestor (blockTree st) p h =
      Some (if h < 0 \<or> ie_height b < h then None else nth_prev (blockTree st) (nat (ie_height b - h)) p) \<and>
    (0 \<le> h \<and> h \<le> ie_height b \<longrightarrow> (\<exists>q c. GetAncestor (blockTree st) p h = Some (Some q) \<and> blockTree st q = Some c \<and> ie_height c = h))"
proof -
  note t = index_tree_ok [OF assms(1)]
  have "GetAncestor (blockTree st) p h = Some (ancestor (blockTree st) p h)"
    by (rule GetAncestor_correct [OF t assms(2)])
  then show ?thesis
    using assms(2) nth_prev_height [OF t assms(2), of "nat (ie_height b - h)"] by (auto simp: ancestor_def)
qed

theorem skiplist_ancestor_witness: "GetAncestor (blockTree demo_index) 3 0 = Some (Some 1)"
  using skiplist_ancestor [OF demo_reach, of 3 "demo_entry (Some 2) (Some 1) 2 6" 0]
  by (simp add: demo_index_def demo_entry_def numeral_2_eq_2)

text \<open>C12. As long as the work of every entry stays below \<open>2 ^ 240\<close>, the best header of a reachable index has the most work of all its entries, and there is
  none only while the index is empty.\<close>

theorem best_header_most_work:
  assumes "index_reach st" "works_fit (blockTree st)"
  shows "case pindexBestHeader st of
      None \<Rightarrow> blockTree st p = None
    | Some q \<Rightarrow> \<exists>a. blockTree st q = Some a \<and> (\<forall>b. blockTree st p = Some b \<longrightarrow> ie_chainWork b \<le> ie_chainWork a)"
  using index_best_ok [OF assms] by (cases "pindexBestHeader st") (auto simp: best_ok_def)

theorem best_header_most_work_witness:
  "\<exists>a. blockTree demo_index 3 = Some a \<and> (\<forall>b. blockTree demo_index 4 = Some b \<longrightarrow> ie_chainWork b \<le> ie_chainWork a)"
proof -
  have "works_fit (blockTree demo_index)"
    by (auto simp: works_fit_def demo_index_def demo_entry_def split: if_splits)
  then show ?thesis
    using best_header_most_work [OF demo_reach, of 4] by (simp add: demo_index_def)
qed

text \<open>C29. Progress: when all headers of a branch arrive, in order, on top of any known block, and the work of the whole branch is above that of the best header
  before it, then every header is accepted and the last one is the best header in the end, on whatever branch the best header was before and wherever on the way
  it changed. The last header has a valid target, so that its work is not zero, the hashes are new, and the works stay below \<open>2 ^ 240\<close>.\<close>

theorem heavier_branch_wins:
  assumes "index_reach st" "works_fit (blockTree st)" "blockTree st hashPrev = Some a" "pindexBestHeader st = Some q" "blockTree st q = Some d"
    and "distinct (map fst (hs @ [l]))" "\<forall>h \<in> set (hs @ [l]). blockTree st (fst h) = None" "GetBlockProof (snd l) \<noteq> 0"
    and "unat (ie_chainWork d) < unat (ie_chainWork a) + branch_work (hs @ [l])" "unat (ie_chainWork a) + branch_work (hs @ [l]) < 2 ^ 240"
  shows "\<exists>st'. add_branch hashPrev (hs @ [l]) st = Some st' \<and> index_reach st' \<and> pindexBestHeader st' = Some (fst l)"
proof -
  obtain st' where st': "add_branch hashPrev (hs @ [l]) st = Some st'" "index_reach st'" "works_fit (blockTree st')"
    "\<And>p. p \<notin> fst ` set (hs @ [l]) \<Longrightarrow> blockTree st' p = blockTree st p"
    "\<And>gs h. prefix (gs @ [h]) (hs @ [l]) \<Longrightarrow>
       \<exists>b. blockTree st' (fst h) = Some b \<and> unat (ie_chainWork b) = unat (ie_chainWork a) + branch_work (gs @ [h])"
    using add_branch_runs [OF assms(1-3,6,7,10)] by blast
  obtain b where b: "blockTree st' (fst l) = Some b" "unat (ie_chainWork b) = unat (ie_chainWork a) + branch_work (hs @ [l])"
    using st'(5) [of hs l] by auto
  obtain p c where p: "pindexBestHeader st' = Some p" "blockTree st' p = Some c" "ie_chainWork b \<le> ie_chainWork c"
    using index_best_ok [OF st'(2,3)] b(1) by (auto simp: best_ok_def split: option.splits)
  have "p \<in> fst ` set (hs @ [l])"
  proof (rule ccontr)
    assume "p \<notin> fst ` set (hs @ [l])"
    then have "blockTree st p = Some c" using st'(4) p(2) by simp
    then have "ie_chainWork c \<le> ie_chainWork d"
      using index_best_ok [OF assms(1,2)] assms(4,5) by (auto simp: best_ok_def)
    then show False using p(3) b(2) assms(9) by (simp add: word_le_nat_alt)
  qed
  moreover have "p \<noteq> fst h" if mem: "h \<in> set hs" for h
  proof
    assume eq: "p = fst h"
    obtain gs ks where "hs = gs @ h # ks" using mem by (meson split_list)
    then have "unat (ie_chainWork c) = unat (ie_chainWork a) + branch_work (gs @ [h])" "branch_work (gs @ [h]) \<le> branch_work hs"
      using st'(5) [of gs h] p(2) eq by (auto simp: prefix_def)
    moreover have "0 < unat (GetBlockProof (snd l))" using assms(8) by (simp add: unat_gt_0)
    ultimately show False using p(3) b(2) by (simp add: word_le_nat_alt)
  qed
  ultimately show ?thesis using st'(1,2) p(1) by auto
qed

theorem heavier_branch_wins_witness:
  "\<exists>st'. add_branch 4 [(5, 0x207fffff), (6, 0x207fffff)] demo_index = Some st' \<and> pindexBestHeader st' = Some 6"
proof -
  have "works_fit (blockTree demo_index)"
    by (auto simp: works_fit_def demo_index_def demo_entry_def split: if_splits)
  then have "\<exists>st'. add_branch 4 ([(5, 0x207fffff)] @ [(6, 0x207fffff)]) demo_index = Some st' \<and> index_reach st' \<and> pindexBestHeader st' = Some (fst (6, 0x207fffff :: u32))"
    by (rule heavier_branch_wins [OF demo_reach, where a = "demo_entry (Some 1) (Some 1) 1 4" and q = 3 and d = "demo_entry (Some 2) (Some 1) 2 6"])
      (simp_all add: demo_index_def demo_entry_def demo_proof)
  then show ?thesis
    by (auto simp del: add_branch.simps)
qed

text \<open>C8. Setting the tip: whatever path the active chain held, after \<open>SetTip\<close> it is exactly the path of the new tip, although the loop stops at the first
  entry that is right already: the entry at each height is the ancestor of the tip at that height, the tip, the last tip and the genesis block are
  the path's ends, and the successor of a block of the chain is its child on the path.\<close>

theorem settip_path:
  assumes "index_reach st" "chain_ok (blockTree st) (vChain C)" "blockTree st p = Some b" "C' = SetTip (blockTree st) (Some p) C"
  shows "(\<forall>h. chain_at_height (vChain C') h = ancestor (blockTree st) p h) \<and> chain_Height (vChain C') = ie_height b \<and>
    Tip C' = Some p \<and> LastTip C' = Some p \<and> Genesis C' = ancestor (blockTree st) p 0 \<and> chain_ok (blockTree st) (vChain C') \<and>
    (\<forall>q c r. blockTree st q = Some c \<and> pprev c = Some r \<and> ancestor (blockTree st) p (ie_height c) = Some q \<longrightarrow>
       chain_Next (blockTree st) C' r = Some q)"
proof -
  note t = index_tree_ok [OF assms(1)]
  have path: "chain_path (blockTree st) (vChain C') p"
    unfolding assms(4) by (rule SetTip_chain_ok [OF t assms(2,3)])
  moreover have "lastTip C' = Some p"
    by (simp add: assms(4) SetTip_def)
  moreover have "chain_ok (blockTree st) (vChain C')"
    using path by (auto simp: chain_ok_def)
  ultimately show ?thesis
    using chain_path_at [OF t path] chain_path_length [OF t path assms(3)] chain_path_tip [OF t path] chain_Next_child [OF t path]
    by (simp add: chain_Height_def LastTip_def)
qed

theorem settip_path_witness:
  "chain_at_height (vChain (SetTip (blockTree demo_index) (Some 4) (SetTip (blockTree demo_index) (Some 3) \<lparr>vChain = [], lastTip = None\<rparr>))) 1
     = ancestor (blockTree demo_index) 4 1"
proof -
  let ?C = "SetTip (blockTree demo_index) (Some 3) \<lparr>vChain = [], lastTip = None\<rparr>"
  have three: "blockTree demo_index 3 = Some (demo_entry (Some 2) (Some 1) 2 6)"
    and four: "blockTree demo_index 4 = Some (demo_entry (Some 1) (Some 1) 1 4)"
    by (simp_all add: demo_index_def)
  have "chain_ok (blockTree demo_index) (vChain ?C)"
    using settip_path [OF demo_reach _ three refl, of "\<lparr>vChain = [], lastTip = None\<rparr>"] by (simp add: chain_ok_def)
  then show ?thesis
    using settip_path [OF demo_reach _ four refl, of ?C] by blast
qed

text \<open>C24. The fork point of a block and the active chain with tip \<open>t\<close> is their last common block: no block above it is an ancestor of both, and the null
  pointer is returned exactly when they have no block in common; on an empty chain it is always null.\<close>

theorem find_fork:
  assumes "index_reach st" "chain_path (blockTree st) v t" "blockTree st p = Some b"
  shows "\<exists>r. FindFork (blockTree st) v (Some p) = Some r \<and>
    (case r of
       None \<Rightarrow> \<forall>h. ancestor (blockTree st) t h = None \<or> ancestor (blockTree st) p h \<noteq> ancestor (blockTree st) t h
     | Some q \<Rightarrow> \<exists>h. ancestor (blockTree st) p h = Some q \<and> ancestor (blockTree st) t h = Some q \<and>
         (\<forall>k > h. ancestor (blockTree st) t k = None \<or> ancestor (blockTree st) p k \<noteq> ancestor (blockTree st) t k)) \<and>
    FindFork (blockTree st) [] (Some p) = Some None"
proof -
  note t = index_tree_ok [OF assms(1)]
  obtain r where r: "FindFork (blockTree st) v (Some p) = Some r" "is_fork (blockTree st) t p r"
    using FindFork_correct [OF t assms(2,3)] by blast
  have "FindFork (blockTree st) [] (Some p) = Some None"
    using assms(3) tree_prev(3) [OF t assms(3)] GetAncestor_correct [OF t assms(3), of "- 1"]
    by (simp add: FindFork_def chain_Height_def ancestor_def)
  then show ?thesis
    using r by (cases r) (auto simp: is_fork_def common_def)
qed

theorem find_fork_witness:
  "\<exists>r. FindFork (blockTree demo_index) (vChain (SetTip (blockTree demo_index) (Some 3) \<lparr>vChain = [], lastTip = None\<rparr>)) (Some 4) = Some r \<and> r \<noteq> None"
proof -
  let ?S = "blockTree demo_index"
  let ?v = "vChain (SetTip ?S (Some 3) \<lparr>vChain = [], lastTip = None\<rparr>)"
  have three: "?S 3 = Some (demo_entry (Some 2) (Some 1) 2 6)" and four: "?S 4 = Some (demo_entry (Some 1) (Some 1) 1 4)"
    by (simp_all add: demo_index_def)
  have path: "chain_path ?S ?v 3"
    using SetTip_chain_ok [OF index_tree_ok [OF demo_reach] _ three] by (simp add: chain_ok_def)
  have "ancestor ?S 3 0 = Some 1" "ancestor ?S 4 0 = Some 1"
    by (simp_all add: ancestor_def demo_index_def demo_entry_def numeral_2_eq_2)
  then have shared: "\<not> (\<forall>h. ancestor ?S 3 h = None \<or> ancestor ?S 4 h \<noteq> ancestor ?S 3 h)"
    by (intro notI) (auto dest: spec [of _ 0])
  obtain r where r: "FindFork ?S ?v (Some 4) = Some r"
    "case r of None \<Rightarrow> \<forall>h. ancestor ?S 3 h = None \<or> ancestor ?S 4 h \<noteq> ancestor ?S 3 h | Some q \<Rightarrow> True"
    using find_fork [OF demo_reach path four] by (auto split: option.splits)
  then show ?thesis
    using shared by (cases r) simp_all
qed

text \<open>A block locator starts at the given block, each further hash is a proper ancestor of the one before, the last one is at height zero, and for a block
  below height \<open>2 ^ k\<close> it has at most \<open>11 + k\<close> hashes; asked for nothing it is the locator of the tip, and on an empty chain it is empty.\<close>

theorem block_locator:
  assumes "index_reach st" "chain_ok (blockTree st) v" "blockTree st p = Some b" "ie_height b < 2 ^ k"
  shows "(\<exists>l. GetLocator (blockTree st) v (Some p) = Some (p # l) \<and> locator_path (blockTree st) (p # l) \<and> length (p # l) \<le> 11 + k) \<and>
    (chain_path (blockTree st) v t \<longrightarrow> GetLocator (blockTree st) v None = GetLocator (blockTree st) v (Some t)) \<and>
    GetLocator (blockTree st) [] None = Some []"
  using GetLocator_correct [OF index_tree_ok [OF assms(1)] assms(2-4)] locator_tip [OF index_tree_ok [OF assms(1)]]
  by (simp add: GetLocator_def chain_at_height_def chain_Height_def)

theorem block_locator_witness:
  "\<exists>l. GetLocator (blockTree demo_index) [] (Some 3) = Some (3 # l) \<and> locator_path (blockTree demo_index) (3 # l) \<and> length (3 # l) \<le> 13"
  using block_locator [OF demo_reach, of "[]" 3 "demo_entry (Some 2) (Some 1) 2 6" 2] by (simp add: chain_ok_def demo_index_def demo_entry_def)

end
