(* ===== verification/Hush_Coins.thy ===== *)
theory Hush_Coins
  imports Hush_Connect "HOL-Library.AList"
begin

text \<open>
  The set of unspent outputs: \<open>CCoins\<close> and \<open>CCoinsViewCache\<close> of \<open>coins.h\<close> and \<open>coins.cpp\<close>, and the database view \<open>CCoinsViewDB\<close> of \<open>txdb.cpp\<close>.

  A view is an object with virtual methods; here it is a state and a record of operations (\<open>view_ops\<close>). A cache holds the state of its base,
  so that a cache on a cache on the database is a nested state, and reading through a cache may change the caches below it. What
  a view promises is the locale \<open>coins_view\<close>: it represents an abstract set of coins, nullifiers and anchors. Hash maps are association
  lists with distinct keys; iteration is in list order. The tree of note commitments is a type variable, with its root and the empty tree as parameters. Memory
  accounting (\<open>cachedCoinsUsage\<close>), the unused Sprout maps, the address index and the log are left out. The scope of a \<open>CCoinsModifier\<close> is one function
  application, so that two modifiers never live at once (the assertions on \<open>hasModifier\<close>). The database stores values, not their bytes: the serialisation of \<open>CCoins\<close> (variable
  length integers, the mask of spent outputs, compressed amounts and scripts, the cast of a negative \<open>nVersion\<close>) and of the anchors is not modelled, reading gives back what was written.
\<close>

section \<open>Coins of a transaction\<close>

record CCoins =
  fCoinBase :: bool
  cc_vout :: "tx_out list"
  cc_nHeight :: int
  cc_nVersion :: int

text \<open>A shielded spend is its nullifier and its anchor, a shielded output its commitment.\<close>

record coins_tx = block_tx +
  ct_nVersion :: int
  ct_vShieldedSpend :: "(uint256 \<times> uint256) list"
  ct_vShieldedOutput :: "uint256 list"

definition null_txout :: tx_out where
  "null_txout = \<lparr>to_scriptPubKey = [], to_nValue = -1\<rparr>"

definition txout_IsNull :: "tx_out \<Rightarrow> bool" where
  "txout_IsNull t \<longleftrightarrow> to_nValue t = -1"

definition OutPoint_IsNull :: "uint256 \<times> u32 \<Rightarrow> bool" where
  "OutPoint_IsNull p \<longleftrightarrow> fst p = 0 \<and> snd p = -1"

definition IsCoinBase :: "coins_tx \<Rightarrow> bool" where
  "IsCoinBase tx \<longleftrightarrow> length (tx_vin tx) = 1 \<and> OutPoint_IsNull (tx_vin tx ! 0)"

definition IsCoinImport :: "coins_tx \<Rightarrow> bool" where
  "IsCoinImport tx \<longleftrightarrow> length (tx_vin tx) = 1 \<and> snd (tx_vin tx ! 0) = 1000000000"

text \<open>\<open>pegs\<close> says whether \<open>ASSETCHAINS_SELFIMPORT\<close> is \<open>PEGSCC\<close>. On such a chain the code reads \<open>vin[0]\<close> also when there is no input; the model takes
  that as no import.\<close>

definition IsPegsImport :: "bool \<Rightarrow> coins_tx \<Rightarrow> bool" where
  "IsPegsImport pegs tx \<longleftrightarrow> pegs \<and> tx_vin tx \<noteq> [] \<and> snd (tx_vin tx ! 0) = 1000000000"

definition IsMint :: "coins_tx \<Rightarrow> bool" where
  "IsMint tx \<longleftrightarrow> IsCoinImport tx \<or> IsCoinBase tx"

definition MAX_SCRIPT_SIZE :: nat where
  "MAX_SCRIPT_SIZE = 10000"

definition IsUnspendable :: "buffer \<Rightarrow> bool" where
  "IsUnspendable s \<longleftrightarrow> (s \<noteq> [] \<and> hd s = 0x6a) \<or> length s > MAX_SCRIPT_SIZE"

definition Clear :: CCoins where
  "Clear = \<lparr>fCoinBase = False, cc_vout = [], cc_nHeight = 0, cc_nVersion = 0\<rparr>"

definition drop_null :: "tx_out list \<Rightarrow> tx_out list" where
  "drop_null v = rev (dropWhile txout_IsNull (rev v))"

definition Cleanup :: "CCoins \<Rightarrow> CCoins" where
  "Cleanup c = c\<lparr>cc_vout := drop_null (cc_vout c)\<rparr>"

definition ClearUnspendable :: "CCoins \<Rightarrow> CCoins" where
  "ClearUnspendable c =
     Cleanup (c\<lparr>cc_vout := map (\<lambda>t. if IsUnspendable (to_scriptPubKey t) then null_txout else t) (cc_vout c)\<rparr>)"

definition FromTx :: "coins_tx \<Rightarrow> int \<Rightarrow> CCoins" where
  "FromTx tx nHeight =
     ClearUnspendable \<lparr>fCoinBase = IsCoinBase tx, cc_vout = tx_vout tx, cc_nHeight = nHeight, cc_nVersion = ct_nVersion tx\<rparr>"

definition IsPruned :: "CCoins \<Rightarrow> bool" where
  "IsPruned c \<longleftrightarrow> list_all txout_IsNull (cc_vout c)"

definition IsAvailable :: "CCoins \<Rightarrow> u32 \<Rightarrow> bool" where
  "IsAvailable c n \<longleftrightarrow> unat n < length (cc_vout c) \<and> \<not> txout_IsNull (cc_vout c ! unat n)"

definition coins_eq :: "CCoins \<Rightarrow> CCoins \<Rightarrow> bool" where
  "coins_eq a b \<longleftrightarrow> (IsPruned a \<and> IsPruned b) \<or> a = b"

definition Spend :: "CCoins \<Rightarrow> u32 \<Rightarrow> bool \<times> CCoins" where
  "Spend c n = (if IsAvailable c n then (True, Cleanup (c\<lparr>cc_vout := (cc_vout c)[unat n := null_txout]\<rparr>)) else (False, c))"

section \<open>Views\<close>

record coin_entry =
  ce_coins :: CCoins
  ce_dirty :: bool
  ce_fresh :: bool

record nf_entry =
  nf_entered :: bool
  nf_dirty :: bool

record 't anchor_entry =
  an_entered :: bool
  an_tree :: 't
  an_dirty :: bool

type_synonym coins_map = "(uint256 \<times> coin_entry) list"
type_synonym nf_map = "(uint256 \<times> nf_entry) list"
type_synonym 't anchors_map = "(uint256 \<times> 't anchor_entry) list"

text \<open>The arguments of \<open>BatchWrite\<close>.\<close>

record 't coins_batch =
  mapCoins :: coins_map
  mapSaplingAnchors :: "'t anchors_map"
  mapSaplingNullifiers :: nf_map
  batchBlock :: uint256
  batchAnchor :: uint256

record ('b, 't) view_ops =
  vo_GetCoins :: "'b \<Rightarrow> uint256 \<Rightarrow> CCoins option \<times> 'b"
  vo_GetNullifier :: "'b \<Rightarrow> uint256 \<Rightarrow> bool \<times> 'b"
  vo_GetSaplingAnchorAt :: "'b \<Rightarrow> uint256 \<Rightarrow> 't option \<times> 'b"
  vo_GetBestBlock :: "'b \<Rightarrow> uint256 \<times> 'b"
  vo_GetBestAnchor :: "'b \<Rightarrow> uint256 \<times> 'b"
  vo_BatchWrite :: "'t coins_batch \<Rightarrow> 'b \<Rightarrow> 'b option"

record ('b, 't) coins_cache =
  cc_base :: 'b
  cacheCoins :: coins_map
  cacheSaplingAnchors :: "'t anchors_map"
  cacheSaplingNullifiers :: nf_map
  hashBlock :: uint256
  hashSaplingAnchor :: uint256

section \<open>The database view\<close>

record 't coins_db =
  dbCoins :: "uint256 \<Rightarrow> CCoins option"
  dbAnchors :: "uint256 \<Rightarrow> 't option"
  dbNullifiers :: "uint256 \<Rightarrow> bool"
  dbBestBlock :: "uint256 option"
  dbBestAnchor :: "uint256 option"

definition db_GetCoins :: "'t coins_db \<Rightarrow> uint256 \<Rightarrow> CCoins option \<times> 't coins_db" where
  "db_GetCoins D k = (dbCoins D k, D)"

definition db_GetNullifier :: "'t coins_db \<Rightarrow> uint256 \<Rightarrow> bool \<times> 't coins_db" where
  "db_GetNullifier D nf = (dbNullifiers D nf, D)"

definition db_GetSaplingAnchorAt :: "uint256 \<Rightarrow> 't \<Rightarrow> 't coins_db \<Rightarrow> uint256 \<Rightarrow> 't option \<times> 't coins_db" where
  "db_GetSaplingAnchorAt er et D rt = (if rt = er then Some et else dbAnchors D rt, D)"

definition db_GetBestBlock :: "'t coins_db \<Rightarrow> uint256 \<times> 't coins_db" where
  "db_GetBestBlock D = (case dbBestBlock D of Some h \<Rightarrow> h | None \<Rightarrow> 0, D)"

definition db_GetBestAnchor :: "uint256 \<Rightarrow> 't coins_db \<Rightarrow> uint256 \<times> 't coins_db" where
  "db_GetBestAnchor er D = (case dbBestAnchor D of Some h \<Rightarrow> h | None \<Rightarrow> er, D)"

definition db_coins_step :: "uint256 \<times> coin_entry \<Rightarrow> (uint256 \<Rightarrow> CCoins option) \<Rightarrow> uint256 \<Rightarrow> CCoins option" where
  "db_coins_step x m =
     (if ce_dirty (snd x) then m(fst x := (if IsPruned (ce_coins (snd x)) then None else Some (ce_coins (snd x)))) else m)"

definition db_anchors_step :: "uint256 \<Rightarrow> uint256 \<times> 't anchor_entry \<Rightarrow> (uint256 \<Rightarrow> 't option) \<Rightarrow> uint256 \<Rightarrow> 't option" where
  "db_anchors_step er x m =
     (if an_dirty (snd x)
      then if \<not> an_entered (snd x) then m(fst x := None) else if fst x \<noteq> er then m(fst x := Some (an_tree (snd x))) else m
      else m)"

definition db_nullifiers_step :: "uint256 \<times> nf_entry \<Rightarrow> (uint256 \<Rightarrow> bool) \<Rightarrow> uint256 \<Rightarrow> bool" where
  "db_nullifiers_step x m = (if nf_dirty (snd x) then m(fst x := nf_entered (snd x)) else m)"

definition db_BatchWrite :: "uint256 \<Rightarrow> 't coins_batch \<Rightarrow> 't coins_db \<Rightarrow> 't coins_db option" where
  "db_BatchWrite er B D =
     Some \<lparr>dbCoins = fold db_coins_step (mapCoins B) (dbCoins D),
           dbAnchors = fold (db_anchors_step er) (mapSaplingAnchors B) (dbAnchors D),
           dbNullifiers = fold db_nullifiers_step (mapSaplingNullifiers B) (dbNullifiers D),
           dbBestBlock = (if batchBlock B \<noteq> 0 then Some (batchBlock B) else dbBestBlock D),
           dbBestAnchor = (if batchAnchor B \<noteq> 0 then Some (batchAnchor B) else dbBestAnchor D)\<rparr>"

definition db_ops :: "uint256 \<Rightarrow> 't \<Rightarrow> ('t coins_db, 't) view_ops" where
  "db_ops er et =
     \<lparr>vo_GetCoins = db_GetCoins, vo_GetNullifier = db_GetNullifier, vo_GetSaplingAnchorAt = db_GetSaplingAnchorAt er et,
      vo_GetBestBlock = db_GetBestBlock, vo_GetBestAnchor = db_GetBestAnchor er, vo_BatchWrite = db_BatchWrite er\<rparr>"

section \<open>The cache\<close>

text \<open>An entry for coins that come from the base: a pruned one may be taken as fresh.\<close>

definition fetched_entry :: "CCoins \<Rightarrow> coin_entry" where
  "fetched_entry c = \<lparr>ce_coins = c, ce_dirty = False, ce_fresh = IsPruned c\<rparr>"

definition FetchCoins :: "('b, 't) view_ops \<Rightarrow> ('b, 't) coins_cache \<Rightarrow> uint256 \<Rightarrow> CCoins option \<times> ('b, 't) coins_cache" where
  "FetchCoins O1 C txid =
     (case map_of (cacheCoins C) txid of
        Some e \<Rightarrow> (Some (ce_coins e), C)
      | None \<Rightarrow>
          (case vo_GetCoins O1 (cc_base C) txid of
             (None, b) \<Rightarrow> (None, C\<lparr>cc_base := b\<rparr>)
           | (Some c, b) \<Rightarrow> (Some c, C\<lparr>cc_base := b, cacheCoins := AList.update txid (fetched_entry c) (cacheCoins C)\<rparr>)))"

definition HaveCoins :: "('b, 't) view_ops \<Rightarrow> ('b, 't) coins_cache \<Rightarrow> uint256 \<Rightarrow> bool \<times> ('b, 't) coins_cache" where
  "HaveCoins O1 C txid = (case FetchCoins O1 C txid of (r, C) \<Rightarrow> (case r of Some c \<Rightarrow> cc_vout c \<noteq> [] | None \<Rightarrow> False, C))"

text \<open>\<open>ModifyCoins\<close>: the entry the modifier works on, and the state of the base. Then the body \<open>f\<close> of the modifier's scope, which returns a result and the new
  coins, and the destructor of the modifier.\<close>

definition ModifyCoins :: "('b, 't) view_ops \<Rightarrow> ('b, 't) coins_cache \<Rightarrow> uint256 \<Rightarrow> coin_entry \<times> ('b, 't) coins_cache" where
  "ModifyCoins O1 C txid =
     (case map_of (cacheCoins C) txid of
        Some e \<Rightarrow> (e\<lparr>ce_dirty := True\<rparr>, C)
      | None \<Rightarrow>
          (case vo_GetCoins O1 (cc_base C) txid of
             (None, b) \<Rightarrow> (\<lparr>ce_coins = Clear, ce_dirty = True, ce_fresh = True\<rparr>, C\<lparr>cc_base := b\<rparr>)
           | (Some c, b) \<Rightarrow> ((fetched_entry c)\<lparr>ce_dirty := True\<rparr>, C\<lparr>cc_base := b\<rparr>)))"

definition modifier_end :: "uint256 \<Rightarrow> coin_entry \<Rightarrow> ('b, 't) coins_cache \<Rightarrow> ('b, 't) coins_cache" where
  "modifier_end txid e C =
     (let e = e\<lparr>ce_coins := Cleanup (ce_coins e)\<rparr>
      in C\<lparr>cacheCoins := (if ce_fresh e \<and> IsPruned (ce_coins e) then AList.delete txid (cacheCoins C)
                           else AList.update txid e (cacheCoins C))\<rparr>)"

definition modify_coins :: "('b, 't) view_ops \<Rightarrow> uint256 \<Rightarrow> (CCoins \<Rightarrow> 'r \<times> CCoins) \<Rightarrow> ('b, 't) coins_cache \<Rightarrow> 'r \<times> ('b, 't) coins_cache" where
  "modify_coins O1 txid f C =
     (case ModifyCoins O1 C txid of
        (e, C) \<Rightarrow> (case f (ce_coins e) of (r, c) \<Rightarrow> (r, modifier_end txid (e\<lparr>ce_coins := c\<rparr>) C)))"

definition GetSaplingAnchorAt :: "('b, 't) view_ops \<Rightarrow> ('b, 't) coins_cache \<Rightarrow> uint256 \<Rightarrow> 't option \<times> ('b, 't) coins_cache" where
  "GetSaplingAnchorAt O1 C rt =
     (case map_of (cacheSaplingAnchors C) rt of
        Some e \<Rightarrow> (if an_entered e then Some (an_tree e) else None, C)
      | None \<Rightarrow>
          (case vo_GetSaplingAnchorAt O1 (cc_base C) rt of
             (None, b) \<Rightarrow> (None, C\<lparr>cc_base := b\<rparr>)
           | (Some t, b) \<Rightarrow>
               (Some t, C\<lparr>cc_base := b,
                  cacheSaplingAnchors := AList.update rt \<lparr>an_entered = True, an_tree = t, an_dirty = False\<rparr> (cacheSaplingAnchors C)\<rparr>)))"

definition GetNullifier :: "('b, 't) view_ops \<Rightarrow> ('b, 't) coins_cache \<Rightarrow> uint256 \<Rightarrow> bool \<times> ('b, 't) coins_cache" where
  "GetNullifier O1 C nf =
     (case map_of (cacheSaplingNullifiers C) nf of
        Some e \<Rightarrow> (nf_entered e, C)
      | None \<Rightarrow>
          (case vo_GetNullifier O1 (cc_base C) nf of
             (tmp, b) \<Rightarrow> (tmp, C\<lparr>cc_base := b,
                cacheSaplingNullifiers := AList.update nf \<lparr>nf_entered = tmp, nf_dirty = False\<rparr> (cacheSaplingNullifiers C)\<rparr>)))"

definition GetBestBlock :: "('b, 't) view_ops \<Rightarrow> ('b, 't) coins_cache \<Rightarrow> uint256 \<times> ('b, 't) coins_cache" where
  "GetBestBlock O1 C =
     (if hashBlock C = 0 then case vo_GetBestBlock O1 (cc_base C) of (h, b) \<Rightarrow> (h, C\<lparr>cc_base := b, hashBlock := h\<rparr>)
      else (hashBlock C, C))"

definition GetBestAnchor :: "('b, 't) view_ops \<Rightarrow> ('b, 't) coins_cache \<Rightarrow> uint256 \<times> ('b, 't) coins_cache" where
  "GetBestAnchor O1 C =
     (if hashSaplingAnchor C = 0
      then case vo_GetBestAnchor O1 (cc_base C) of (h, b) \<Rightarrow> (h, C\<lparr>cc_base := b, hashSaplingAnchor := h\<rparr>)
      else (hashSaplingAnchor C, C))"

definition SetBestBlock :: "uint256 \<Rightarrow> ('b, 't) coins_cache \<Rightarrow> ('b, 't) coins_cache" where
  "SetBestBlock h C = C\<lparr>hashBlock := h\<rparr>"

definition PushAnchor :: "('b, 't) view_ops \<Rightarrow> ('t \<Rightarrow> uint256) \<Rightarrow> 't \<Rightarrow> ('b, 't) coins_cache \<Rightarrow> ('b, 't) coins_cache" where
  "PushAnchor O1 root tree C =
     (case GetBestAnchor O1 C of
        (currentRoot, C) \<Rightarrow>
          if currentRoot \<noteq> root tree
          then C\<lparr>cacheSaplingAnchors := AList.update (root tree) \<lparr>an_entered = True, an_tree = tree, an_dirty = True\<rparr> (cacheSaplingAnchors C),
                 hashSaplingAnchor := root tree\<rparr>
          else C)"

text \<open>\<open>None\<close> is the failed assertion of \<open>BringBestAnchorIntoCache\<close>.\<close>

definition PopAnchor :: "('b, 't) view_ops \<Rightarrow> uint256 \<Rightarrow> ('b, 't) coins_cache \<Rightarrow> ('b, 't) coins_cache option" where
  "PopAnchor O1 newrt C =
     (case GetBestAnchor O1 C of
        (currentRoot, C) \<Rightarrow>
          if currentRoot \<noteq> newrt
          then case GetSaplingAnchorAt O1 C currentRoot of
                 (None, C) \<Rightarrow> None
               | (Some tree, C) \<Rightarrow>
                   Some (C\<lparr>cacheSaplingAnchors := AList.update currentRoot \<lparr>an_entered = False, an_tree = tree, an_dirty = True\<rparr> (cacheSaplingAnchors C),
                           hashSaplingAnchor := newrt\<rparr>)
          else Some C)"

definition SetNullifiers :: "coins_tx \<Rightarrow> bool \<Rightarrow> ('b, 't) coins_cache \<Rightarrow> ('b, 't) coins_cache" where
  "SetNullifiers tx spent C =
     C\<lparr>cacheSaplingNullifiers :=
         fold (\<lambda>s. AList.update (fst s) \<lparr>nf_entered = spent, nf_dirty = True\<rparr>) (ct_vShieldedSpend tx) (cacheSaplingNullifiers C)\<rparr>"

section \<open>Writing a batch into a cache\<close>

definition batch_coins_step :: "uint256 \<times> coin_entry \<Rightarrow> coins_map \<Rightarrow> coins_map option" where
  "batch_coins_step x m =
     (case x of (k, e) \<Rightarrow>
       if ce_dirty e
       then case map_of m k of
              None \<Rightarrow>
                if \<not> IsPruned (ce_coins e)
                then if ce_fresh e then Some (AList.update k \<lparr>ce_coins = ce_coins e, ce_dirty = True, ce_fresh = True\<rparr> m) else None
                else Some m
            | Some us \<Rightarrow>
                if ce_fresh us \<and> IsPruned (ce_coins e) then Some (AList.delete k m)
                else Some (AList.update k (us\<lparr>ce_coins := ce_coins e, ce_dirty := True\<rparr>) m)
       else Some m)"

fun batch_coins :: "coins_map \<Rightarrow> coins_map \<Rightarrow> coins_map option" where
  "batch_coins [] m = Some m"
| "batch_coins (x # xs) m = Option.bind (batch_coins_step x m) (batch_coins xs)"

definition batch_anchors_step :: "uint256 \<times> 't anchor_entry \<Rightarrow> 't anchors_map \<Rightarrow> 't anchors_map" where
  "batch_anchors_step x m =
     (case x of (k, e) \<Rightarrow>
       if an_dirty e
       then case map_of m k of
              None \<Rightarrow> AList.update k (e\<lparr>an_dirty := True\<rparr>) m
            | Some p \<Rightarrow> if an_entered p \<noteq> an_entered e then AList.update k (p\<lparr>an_entered := an_entered e, an_dirty := True\<rparr>) m else m
       else m)"

definition batch_nullifiers_step :: "uint256 \<times> nf_entry \<Rightarrow> nf_map \<Rightarrow> nf_map" where
  "batch_nullifiers_step x m =
     (case x of (k, e) \<Rightarrow>
       if nf_dirty e
       then case map_of m k of
              None \<Rightarrow> AList.update k \<lparr>nf_entered = nf_entered e, nf_dirty = True\<rparr> m
            | Some p \<Rightarrow> if nf_entered p \<noteq> nf_entered e then AList.update k \<lparr>nf_entered = nf_entered e, nf_dirty = True\<rparr> m else m
       else m)"

definition cache_BatchWrite :: "'t coins_batch \<Rightarrow> ('b, 't) coins_cache \<Rightarrow> ('b, 't) coins_cache option" where
  "cache_BatchWrite B C =
     map_option
       (\<lambda>m. C\<lparr>cacheCoins := m, cacheSaplingAnchors := fold batch_anchors_step (mapSaplingAnchors B) (cacheSaplingAnchors C),
              cacheSaplingNullifiers := fold batch_nullifiers_step (mapSaplingNullifiers B) (cacheSaplingNullifiers C),
              hashBlock := batchBlock B, hashSaplingAnchor := batchAnchor B\<rparr>)
       (batch_coins (mapCoins B) (cacheCoins C))"

definition cache_ops :: "('b, 't) view_ops \<Rightarrow> (('b, 't) coins_cache, 't) view_ops" where
  "cache_ops O1 =
     \<lparr>vo_GetCoins = FetchCoins O1, vo_GetNullifier = GetNullifier O1, vo_GetSaplingAnchorAt = GetSaplingAnchorAt O1,
      vo_GetBestBlock = GetBestBlock O1, vo_GetBestAnchor = GetBestAnchor O1, vo_BatchWrite = cache_BatchWrite\<rparr>"

definition cache_batch :: "('b, 't) coins_cache \<Rightarrow> 't coins_batch" where
  "cache_batch C =
     \<lparr>mapCoins = cacheCoins C, mapSaplingAnchors = cacheSaplingAnchors C, mapSaplingNullifiers = cacheSaplingNullifiers C,
      batchBlock = hashBlock C, batchAnchor = hashSaplingAnchor C\<rparr>"

definition Flush :: "('b, 't) view_ops \<Rightarrow> ('b, 't) coins_cache \<Rightarrow> ('b, 't) coins_cache option" where
  "Flush O1 C =
     map_option (\<lambda>b. C\<lparr>cc_base := b, cacheCoins := [], cacheSaplingAnchors := [], cacheSaplingNullifiers := []\<rparr>)
       (vo_BatchWrite O1 (cache_batch C) (cc_base C))"

section \<open>Coins\<close>

text \<open>Coins without unspent outputs are as good as none.\<close>

definition norm :: "CCoins \<Rightarrow> CCoins option" where
  "norm c = (if IsPruned c then None else Some c)"

text \<open>Well-formed coins: spent outputs are all the same, coins with unspent outputs have a height, and there is no spent output at the end.\<close>

definition coins_raw :: "CCoins \<Rightarrow> bool" where
  "coins_raw c \<longleftrightarrow> (\<forall>t \<in> set (cc_vout c). txout_IsNull t \<longrightarrow> t = null_txout) \<and> (\<not> IsPruned c \<longrightarrow> cc_nHeight c \<noteq> 0)"

definition coins_ok :: "CCoins \<Rightarrow> bool" where
  "coins_ok c \<longleftrightarrow> coins_raw c \<and> Cleanup c = c"

lemma null_txout_null [simp]: "txout_IsNull null_txout"
  by (simp add: txout_IsNull_def null_txout_def)

lemma norm_None: "norm c = None \<longleftrightarrow> IsPruned c"
  by (simp add: norm_def)

lemma norm_Some: "norm c = Some d \<longleftrightarrow> \<not> IsPruned c \<and> d = c"
  by (auto simp: norm_def)

lemma drop_null_split: "\<exists>ns. v = drop_null v @ ns \<and> list_all txout_IsNull ns"
proof -
  have "rev v = takeWhile txout_IsNull (rev v) @ dropWhile txout_IsNull (rev v)"
    by simp
  then have "v = drop_null v @ rev (takeWhile txout_IsNull (rev v))"
    unfolding drop_null_def by (metis rev_append rev_rev_ident)
  moreover have "list_all txout_IsNull (rev (takeWhile txout_IsNull (rev v)))"
    by (auto simp: list_all_iff dest: set_takeWhileD)
  ultimately show ?thesis
    by blast
qed

lemma drop_null_nth: "i < length (drop_null v) \<Longrightarrow> drop_null v ! i = v ! i"
  using drop_null_split [of v] by (metis nth_append)

lemma drop_null_rest: "length (drop_null v) \<le> i \<Longrightarrow> i < length v \<Longrightarrow> txout_IsNull (v ! i)"
proof -
  assume i: "length (drop_null v) \<le> i" "i < length v"
  obtain ns where ns: "v = drop_null v @ ns" "list_all txout_IsNull ns"
    using drop_null_split by blast
  have "v ! i = ns ! (i - length (drop_null v))"
    using i(1) by (subst ns(1)) (simp add: nth_append)
  moreover have "i - length (drop_null v) < length ns"
    using i arg_cong [OF ns(1), of length] by simp
  ultimately show ?thesis
    using ns(2) by (simp add: list_all_length)
qed

lemma drop_null_length: "length (drop_null v) \<le> length v"
  using drop_null_split [of v] by (metis length_append le_add1)

lemma drop_null_last: "drop_null v \<noteq> [] \<Longrightarrow> \<not> txout_IsNull (last (drop_null v))"
  unfolding drop_null_def by (metis hd_dropWhile last_rev rev_is_Nil_conv)

lemma drop_null_set: "set (drop_null v) \<subseteq> set v"
  by (auto simp: drop_null_def dest: set_dropWhileD)

lemma drop_null_idem [simp]: "drop_null (drop_null v) = drop_null v"
  by (simp add: drop_null_def)

lemma drop_null_id: "v = [] \<or> \<not> txout_IsNull (last v) \<Longrightarrow> drop_null v = v"
  by (cases v rule: rev_cases) (auto simp: drop_null_def)

lemma drop_null_Nil: "drop_null v = [] \<longleftrightarrow> list_all txout_IsNull v"
  by (auto simp: drop_null_def list_all_iff)

lemma Cleanup_simps [simp]:
  "fCoinBase (Cleanup c) = fCoinBase c" "cc_nHeight (Cleanup c) = cc_nHeight c" "cc_nVersion (Cleanup c) = cc_nVersion c"
  "cc_vout (Cleanup c) = drop_null (cc_vout c)" "Cleanup (Cleanup c) = Cleanup c"
  by (simp_all add: Cleanup_def)

lemma IsPruned_vout: "IsPruned c \<longleftrightarrow> drop_null (cc_vout c) = []"
  by (simp add: IsPruned_def drop_null_Nil)

lemma IsPruned_Cleanup [simp]: "IsPruned (Cleanup c) \<longleftrightarrow> IsPruned c"
  by (simp add: IsPruned_vout)

lemma coins_ok_Cleanup: "coins_raw c \<Longrightarrow> coins_ok (Cleanup c)"
  using drop_null_set [of "cc_vout c"] by (auto simp: coins_ok_def coins_raw_def)

lemma coins_ok_vout: "coins_ok c \<Longrightarrow> drop_null (cc_vout c) = cc_vout c"
  unfolding coins_ok_def by (metis Cleanup_simps(4))

lemma coins_ok_pruned: "coins_ok c \<Longrightarrow> IsPruned c \<longleftrightarrow> cc_vout c = []"
  by (simp add: IsPruned_vout coins_ok_vout)

lemma Clear_pruned [simp]: "IsPruned Clear" "coins_ok Clear" "coins_raw Clear"
  by (simp_all add: Clear_def IsPruned_def coins_ok_def coins_raw_def Cleanup_def drop_null_def)

section \<open>What a view promises\<close>

text \<open>The abstract state of a view: the coins of each transaction that has unspent outputs, the spent nullifiers, the known anchors, the block and the
  anchor at the tip.\<close>

record aview =
  av_coins :: "uint256 \<Rightarrow> CCoins option"
  av_null :: "uint256 \<Rightarrow> bool"
  av_anchors :: "uint256 \<Rightarrow> bool"
  av_block :: uint256
  av_root :: uint256

text \<open>A batch may be written when what it calls fresh is absent below and what it does not call fresh is held there.\<close>

definition batch_ok :: "('t \<Rightarrow> uint256) \<Rightarrow> uint256 \<Rightarrow> (uint256 \<Rightarrow> bool) \<Rightarrow> aview \<Rightarrow> 't coins_batch \<Rightarrow> bool" where
  "batch_ok root er heldp A B \<longleftrightarrow>
     distinct (map fst (mapCoins B)) \<and> distinct (map fst (mapSaplingAnchors B)) \<and> distinct (map fst (mapSaplingNullifiers B)) \<and>
     (\<forall>k e. map_of (mapCoins B) k = Some e \<longrightarrow>
        coins_ok (ce_coins e) \<and> (ce_fresh e \<longrightarrow> av_coins A k = None) \<and> (\<not> ce_fresh e \<longrightarrow> heldp k)) \<and>
     (\<forall>k e. map_of (mapSaplingAnchors B) k = Some e \<longrightarrow> root (an_tree e) = k \<and> (\<not> an_entered e \<longrightarrow> k \<noteq> er)) \<and>
     batchBlock B \<noteq> 0 \<and> batchAnchor B \<noteq> 0"

definition batch_view :: "'t coins_batch \<Rightarrow> aview \<Rightarrow> aview" where
  "batch_view B A =
     \<lparr>av_coins = (\<lambda>k. case map_of (mapCoins B) k of Some e \<Rightarrow> if ce_dirty e then norm (ce_coins e) else av_coins A k | None \<Rightarrow> av_coins A k),
      av_null = (\<lambda>k. case map_of (mapSaplingNullifiers B) k of Some e \<Rightarrow> if nf_dirty e then nf_entered e else av_null A k | None \<Rightarrow> av_null A k),
      av_anchors = (\<lambda>k. case map_of (mapSaplingAnchors B) k of Some e \<Rightarrow> if an_dirty e then an_entered e else av_anchors A k | None \<Rightarrow> av_anchors A k),
      av_block = batchBlock B, av_root = batchAnchor B\<rparr>"

locale coins_view =
  fixes O1 :: "('b, 't) view_ops"
    and vinv :: "'b \<Rightarrow> bool"
    and absf :: "'b \<Rightarrow> aview"
    and held :: "'b \<Rightarrow> uint256 \<Rightarrow> bool"
    and root :: "'t \<Rightarrow> uint256"
    and er :: uint256
  assumes get_coins: "vinv b \<Longrightarrow> vo_GetCoins O1 b k = (r, b') \<Longrightarrow>
      vinv b' \<and> absf b' = absf b \<and> (\<forall>j. held b j \<longrightarrow> held b' j) \<and>
      (case r of None \<Rightarrow> av_coins (absf b) k = None
       | Some c \<Rightarrow> coins_ok c \<and> norm c = av_coins (absf b) k \<and> (\<not> IsPruned c \<longrightarrow> held b' k))"
    and get_nullifier: "vinv b \<Longrightarrow> vo_GetNullifier O1 b k = (x, b') \<Longrightarrow>
      vinv b' \<and> absf b' = absf b \<and> (\<forall>j. held b j \<longrightarrow> held b' j) \<and> x = av_null (absf b) k"
    and get_anchor: "vinv b \<Longrightarrow> vo_GetSaplingAnchorAt O1 b k = (t, b') \<Longrightarrow>
      vinv b' \<and> absf b' = absf b \<and> (\<forall>j. held b j \<longrightarrow> held b' j) \<and>
      (case t of None \<Rightarrow> \<not> av_anchors (absf b) k | Some t \<Rightarrow> av_anchors (absf b) k \<and> root t = k)"
    and get_block: "vinv b \<Longrightarrow> vo_GetBestBlock O1 b = (h, b') \<Longrightarrow>
      vinv b' \<and> absf b' = absf b \<and> (\<forall>j. held b j \<longrightarrow> held b' j) \<and> h = av_block (absf b)"
    and get_root: "vinv b \<Longrightarrow> vo_GetBestAnchor O1 b = (h, b') \<Longrightarrow>
      vinv b' \<and> absf b' = absf b \<and> (\<forall>j. held b j \<longrightarrow> held b' j) \<and> h = av_root (absf b)"
    and batch: "vinv b \<Longrightarrow> batch_ok root er (held b) (absf b) B \<Longrightarrow>
      \<exists>b'. vo_BatchWrite O1 B b = Some b' \<and> vinv b' \<and> absf b' = batch_view B (absf b)"

section \<open>Writing batches, key by key\<close>

lemma fold_keyed:
  assumes "\<And>x m j. rep (step x m) j = (if j = fst x then g j (snd x) (rep m j) else rep m j)" "distinct (map fst xs)"
  shows "rep (fold step xs m) j = (case map_of xs j of None \<Rightarrow> rep m j | Some e \<Rightarrow> g j e (rep m j))"
  using assms(2)
proof (induction xs arbitrary: m)
  case (Cons x xs)
  then have IH: "rep (fold step xs (step x m)) j = (case map_of xs j of None \<Rightarrow> rep (step x m) j | Some e \<Rightarrow> g j e (rep (step x m) j))"
    by simp
  have "map_of xs (fst x) = None"
    using Cons.prems by (simp add: map_of_eq_None_iff)
  then show ?case
    using IH by (cases "j = fst x") (auto simp: assms(1) split: option.splits)
qed simp

definition merge_coins :: "coin_entry \<Rightarrow> coin_entry option \<Rightarrow> coin_entry option" where
  "merge_coins e u =
     (if ce_dirty e
      then case u of
             None \<Rightarrow> if \<not> IsPruned (ce_coins e) then Some \<lparr>ce_coins = ce_coins e, ce_dirty = True, ce_fresh = True\<rparr> else None
           | Some us \<Rightarrow> if ce_fresh us \<and> IsPruned (ce_coins e) then None else Some (us\<lparr>ce_coins := ce_coins e, ce_dirty := True\<rparr>)
      else u)"

lemma batch_coins_step_ok:
  assumes "\<not> (ce_dirty e \<and> map_of m k = None \<and> \<not> IsPruned (ce_coins e) \<and> \<not> ce_fresh e)" "distinct (map fst m)"
  shows "\<exists>m'. batch_coins_step (k, e) m = Some m' \<and> distinct (map fst m') \<and> map_of m' = (map_of m)(k := merge_coins e (map_of m k))"
proof (cases "map_of m k")
  case None
  then have "(map_of m)(k := None) = map_of m"
    by auto
  then show ?thesis
    using assms None by (auto simp: batch_coins_step_def merge_coins_def update_conv' intro!: distinct_update)
next
  case (Some u)
  then have "(map_of m)(k \<mapsto> u) = map_of m"
    by auto
  then show ?thesis
    using assms Some by (auto simp: batch_coins_step_def merge_coins_def update_conv' delete_conv' intro!: distinct_update distinct_delete)
qed

lemma batch_coins_ok:
  assumes "\<And>k e. map_of xs k = Some e \<Longrightarrow> \<not> (ce_dirty e \<and> map_of m k = None \<and> \<not> IsPruned (ce_coins e) \<and> \<not> ce_fresh e)"
    "distinct (map fst xs)" "distinct (map fst m)"
  shows "\<exists>m'. batch_coins xs m = Some m' \<and> distinct (map fst m') \<and>
    (\<forall>j. map_of m' j = (case map_of xs j of None \<Rightarrow> map_of m j | Some e \<Rightarrow> merge_coins e (map_of m j)))"
  using assms
proof (induction xs arbitrary: m)
  case (Cons x xs)
  obtain k e where x: "x = (k, e)"
    by (cases x)
  have nk: "map_of xs k = None"
    using Cons.prems(2) x by (simp add: map_of_eq_None_iff)
  obtain m1 where m1: "batch_coins_step x m = Some m1" "distinct (map fst m1)" "map_of m1 = (map_of m)(k := merge_coins e (map_of m k))"
    using batch_coins_step_ok [of e m k] Cons.prems(1) [of k e] Cons.prems(3) x by auto
  have "\<not> (ce_dirty d \<and> map_of m1 j = None \<and> \<not> IsPruned (ce_coins d) \<and> \<not> ce_fresh d)" if "map_of xs j = Some d" for j d
    using Cons.prems(1) [of j d] that nk m1(3) x by (cases "j = k") auto
  then obtain m' where m': "batch_coins xs m1 = Some m'" "distinct (map fst m')"
    "\<And>j. map_of m' j = (case map_of xs j of None \<Rightarrow> map_of m1 j | Some e \<Rightarrow> merge_coins e (map_of m1 j))"
    using Cons.IH [of m1] Cons.prems(2) m1(2) by auto
  have "map_of m' j = (case map_of (x # xs) j of None \<Rightarrow> map_of m j | Some e \<Rightarrow> merge_coins e (map_of m j))" for j
    using m'(3) [of j] m1(3) nk x by (cases "j = k") (auto split: option.splits)
  then show ?case
    using m1(1) m'(1,2) by auto
qed simp

definition merge_anchor :: "'t anchor_entry \<Rightarrow> 't anchor_entry option \<Rightarrow> 't anchor_entry option" where
  "merge_anchor e u =
     (if an_dirty e
      then case u of None \<Rightarrow> Some (e\<lparr>an_dirty := True\<rparr>)
           | Some p \<Rightarrow> if an_entered p \<noteq> an_entered e then Some (p\<lparr>an_entered := an_entered e, an_dirty := True\<rparr>) else Some p
      else u)"

definition merge_nf :: "nf_entry \<Rightarrow> nf_entry option \<Rightarrow> nf_entry option" where
  "merge_nf e u =
     (if nf_dirty e
      then case u of None \<Rightarrow> Some \<lparr>nf_entered = nf_entered e, nf_dirty = True\<rparr>
           | Some p \<Rightarrow> if nf_entered p \<noteq> nf_entered e then Some \<lparr>nf_entered = nf_entered e, nf_dirty = True\<rparr> else Some p
      else u)"

lemma batch_anchors_at:
  "distinct (map fst xs) \<Longrightarrow> map_of (fold batch_anchors_step xs m) j = (case map_of xs j of None \<Rightarrow> map_of m j | Some e \<Rightarrow> merge_anchor e (map_of m j))"
  by (rule fold_keyed [where rep = map_of]) (auto simp: batch_anchors_step_def merge_anchor_def update_conv' split: option.splits)

lemma batch_nullifiers_at:
  "distinct (map fst xs) \<Longrightarrow> map_of (fold batch_nullifiers_step xs m) j = (case map_of xs j of None \<Rightarrow> map_of m j | Some e \<Rightarrow> merge_nf e (map_of m j))"
  by (rule fold_keyed [where rep = map_of]) (auto simp: batch_nullifiers_step_def merge_nf_def update_conv' split: option.splits)

lemma fold_distinct:
  assumes "\<And>x m. distinct (map fst m) \<Longrightarrow> distinct (map fst (step x m))"
  shows "distinct (map fst m) \<Longrightarrow> distinct (map fst (fold step xs m))"
  by (induction xs arbitrary: m) (simp_all add: assms)

lemma batch_anchors_distinct: "distinct (map fst m) \<Longrightarrow> distinct (map fst (fold batch_anchors_step xs m))"
  by (rule fold_distinct) (auto simp: batch_anchors_step_def intro!: distinct_update split: option.splits)

lemma batch_nullifiers_distinct: "distinct (map fst m) \<Longrightarrow> distinct (map fst (fold batch_nullifiers_step xs m))"
  by (rule fold_distinct) (auto simp: batch_nullifiers_step_def intro!: distinct_update split: option.splits)

section \<open>A cache on a view is a view\<close>

definition coin_entry_ok :: "aview \<Rightarrow> (uint256 \<Rightarrow> bool) \<Rightarrow> uint256 \<Rightarrow> coin_entry \<Rightarrow> bool" where
  "coin_entry_ok A h k e \<longleftrightarrow>
     coins_ok (ce_coins e) \<and> (ce_fresh e \<longrightarrow> av_coins A k = None) \<and> (\<not> ce_fresh e \<longrightarrow> h k) \<and>
     (\<not> ce_dirty e \<longrightarrow> norm (ce_coins e) = av_coins A k)"

definition anchor_entry_ok :: "('t \<Rightarrow> uint256) \<Rightarrow> uint256 \<Rightarrow> aview \<Rightarrow> uint256 \<Rightarrow> 't anchor_entry \<Rightarrow> bool" where
  "anchor_entry_ok root er A k e \<longleftrightarrow>
     root (an_tree e) = k \<and> (\<not> an_entered e \<longrightarrow> k \<noteq> er) \<and> (\<not> an_dirty e \<longrightarrow> an_entered e = av_anchors A k)"

definition cache_inv :: "('b \<Rightarrow> bool) \<Rightarrow> ('b \<Rightarrow> aview) \<Rightarrow> ('b \<Rightarrow> uint256 \<Rightarrow> bool) \<Rightarrow> ('t \<Rightarrow> uint256) \<Rightarrow> uint256 \<Rightarrow> ('b, 't) coins_cache \<Rightarrow> bool" where
  "cache_inv vinv absf held root er C \<longleftrightarrow>
     vinv (cc_base C) \<and>
     distinct (map fst (cacheCoins C)) \<and> distinct (map fst (cacheSaplingAnchors C)) \<and> distinct (map fst (cacheSaplingNullifiers C)) \<and>
     (\<forall>k e. map_of (cacheCoins C) k = Some e \<longrightarrow> coin_entry_ok (absf (cc_base C)) (held (cc_base C)) k e) \<and>
     (\<forall>k e. map_of (cacheSaplingAnchors C) k = Some e \<longrightarrow> anchor_entry_ok root er (absf (cc_base C)) k e) \<and>
     (\<forall>k e. map_of (cacheSaplingNullifiers C) k = Some e \<longrightarrow> \<not> nf_dirty e \<longrightarrow> nf_entered e = av_null (absf (cc_base C)) k)"

definition cache_abs :: "('b \<Rightarrow> aview) \<Rightarrow> ('b, 't) coins_cache \<Rightarrow> aview" where
  "cache_abs absf C =
     \<lparr>av_coins = (\<lambda>k. case map_of (cacheCoins C) k of Some e \<Rightarrow> norm (ce_coins e) | None \<Rightarrow> av_coins (absf (cc_base C)) k),
      av_null = (\<lambda>k. case map_of (cacheSaplingNullifiers C) k of Some e \<Rightarrow> nf_entered e | None \<Rightarrow> av_null (absf (cc_base C)) k),
      av_anchors = (\<lambda>k. case map_of (cacheSaplingAnchors C) k of Some e \<Rightarrow> an_entered e | None \<Rightarrow> av_anchors (absf (cc_base C)) k),
      av_block = (if hashBlock C = 0 then av_block (absf (cc_base C)) else hashBlock C),
      av_root = (if hashSaplingAnchor C = 0 then av_root (absf (cc_base C)) else hashSaplingAnchor C)\<rparr>"

lemma cache_abs_at:
  "av_coins (cache_abs absf C) k = (case map_of (cacheCoins C) k of Some e \<Rightarrow> norm (ce_coins e) | None \<Rightarrow> av_coins (absf (cc_base C)) k)"
  "av_null (cache_abs absf C) k = (case map_of (cacheSaplingNullifiers C) k of Some e \<Rightarrow> nf_entered e | None \<Rightarrow> av_null (absf (cc_base C)) k)"
  "av_anchors (cache_abs absf C) k = (case map_of (cacheSaplingAnchors C) k of Some e \<Rightarrow> an_entered e | None \<Rightarrow> av_anchors (absf (cc_base C)) k)"
  by (simp_all add: cache_abs_def)

definition cache_held :: "('b, 't) coins_cache \<Rightarrow> uint256 \<Rightarrow> bool" where
  "cache_held C k \<longleftrightarrow> map_of (cacheCoins C) k \<noteq> None"

lemma aview_eqI:
  "av_coins A = av_coins B \<Longrightarrow> av_null A = av_null B \<Longrightarrow> av_anchors A = av_anchors B \<Longrightarrow> av_block A = av_block B \<Longrightarrow> av_root A = av_root B
     \<Longrightarrow> A = (B :: aview)"
  by simp

text \<open>Single changes of a cache.\<close>

lemma cache_inv_base:
  assumes "cache_inv vinv absf held root er C" "vinv b" "absf b = absf (cc_base C)" "\<forall>j. held (cc_base C) j \<longrightarrow> held b j"
  shows "cache_inv vinv absf held root er (C\<lparr>cc_base := b\<rparr>)" and "cache_abs absf (C\<lparr>cc_base := b\<rparr>) = cache_abs absf C"
proof -
  show "cache_inv vinv absf held root er (C\<lparr>cc_base := b\<rparr>)"
    using assms by (auto simp: cache_inv_def coin_entry_ok_def)
  show "cache_abs absf (C\<lparr>cc_base := b\<rparr>) = cache_abs absf C"
    using assms(3) by (intro aview_eqI) (auto simp: cache_abs_def fun_eq_iff split: option.splits)
qed

lemma cache_inv_update:
  assumes "cache_inv vinv absf held root er C" "coin_entry_ok (absf (cc_base C)) (held (cc_base C)) k e"
  shows "cache_inv vinv absf held root er (C\<lparr>cacheCoins := AList.update k e (cacheCoins C)\<rparr>)"
    and "cache_abs absf (C\<lparr>cacheCoins := AList.update k e (cacheCoins C)\<rparr>) =
      (cache_abs absf C)\<lparr>av_coins := (av_coins (cache_abs absf C))(k := norm (ce_coins e))\<rparr>"
proof -
  show "cache_inv vinv absf held root er (C\<lparr>cacheCoins := AList.update k e (cacheCoins C)\<rparr>)"
    using assms by (auto simp: cache_inv_def update_conv' intro!: distinct_update split: if_splits)
  show "cache_abs absf (C\<lparr>cacheCoins := AList.update k e (cacheCoins C)\<rparr>) =
      (cache_abs absf C)\<lparr>av_coins := (av_coins (cache_abs absf C))(k := norm (ce_coins e))\<rparr>"
    by (rule aview_eqI) (auto simp: cache_abs_def update_conv' fun_eq_iff split: option.splits)
qed

lemma cache_inv_delete:
  assumes "cache_inv vinv absf held root er C" "av_coins (absf (cc_base C)) k = None"
  shows "cache_inv vinv absf held root er (C\<lparr>cacheCoins := AList.delete k (cacheCoins C)\<rparr>)"
    and "cache_abs absf (C\<lparr>cacheCoins := AList.delete k (cacheCoins C)\<rparr>) =
      (cache_abs absf C)\<lparr>av_coins := (av_coins (cache_abs absf C))(k := None)\<rparr>"
proof -
  show "cache_inv vinv absf held root er (C\<lparr>cacheCoins := AList.delete k (cacheCoins C)\<rparr>)"
    using assms by (auto simp: cache_inv_def delete_conv' intro!: distinct_delete split: if_splits)
  show "cache_abs absf (C\<lparr>cacheCoins := AList.delete k (cacheCoins C)\<rparr>) =
      (cache_abs absf C)\<lparr>av_coins := (av_coins (cache_abs absf C))(k := None)\<rparr>"
    using assms(2) by (intro aview_eqI) (auto simp: cache_abs_def delete_conv' fun_eq_iff split: option.splits)
qed

lemma cache_inv_anchor:
  assumes "cache_inv vinv absf held root er C" "anchor_entry_ok root er (absf (cc_base C)) k e"
  shows "cache_inv vinv absf held root er (C\<lparr>cacheSaplingAnchors := AList.update k e (cacheSaplingAnchors C)\<rparr>)"
    and "cache_abs absf (C\<lparr>cacheSaplingAnchors := AList.update k e (cacheSaplingAnchors C)\<rparr>) =
      (cache_abs absf C)\<lparr>av_anchors := (av_anchors (cache_abs absf C))(k := an_entered e)\<rparr>"
proof -
  show "cache_inv vinv absf held root er (C\<lparr>cacheSaplingAnchors := AList.update k e (cacheSaplingAnchors C)\<rparr>)"
    using assms by (auto simp: cache_inv_def update_conv' intro!: distinct_update split: if_splits)
  show "cache_abs absf (C\<lparr>cacheSaplingAnchors := AList.update k e (cacheSaplingAnchors C)\<rparr>) =
      (cache_abs absf C)\<lparr>av_anchors := (av_anchors (cache_abs absf C))(k := an_entered e)\<rparr>"
    by (rule aview_eqI) (auto simp: cache_abs_def update_conv' fun_eq_iff split: option.splits)
qed

lemma cache_inv_nf:
  assumes "cache_inv vinv absf held root er C" "\<not> nf_dirty e \<Longrightarrow> nf_entered e = av_null (absf (cc_base C)) k"
  shows "cache_inv vinv absf held root er (C\<lparr>cacheSaplingNullifiers := AList.update k e (cacheSaplingNullifiers C)\<rparr>)"
    and "cache_abs absf (C\<lparr>cacheSaplingNullifiers := AList.update k e (cacheSaplingNullifiers C)\<rparr>) =
      (cache_abs absf C)\<lparr>av_null := (av_null (cache_abs absf C))(k := nf_entered e)\<rparr>"
proof -
  show "cache_inv vinv absf held root er (C\<lparr>cacheSaplingNullifiers := AList.update k e (cacheSaplingNullifiers C)\<rparr>)"
    using assms by (auto simp: cache_inv_def update_conv' intro!: distinct_update split: if_splits)
  show "cache_abs absf (C\<lparr>cacheSaplingNullifiers := AList.update k e (cacheSaplingNullifiers C)\<rparr>) =
      (cache_abs absf C)\<lparr>av_null := (av_null (cache_abs absf C))(k := nf_entered e)\<rparr>"
    by (rule aview_eqI) (auto simp: cache_abs_def update_conv' fun_eq_iff split: option.splits)
qed

lemma cache_inv_hash:
  assumes "cache_inv vinv absf held root er C"
  shows "cache_inv vinv absf held root er (C\<lparr>hashBlock := h\<rparr>)" and "cache_inv vinv absf held root er (C\<lparr>hashSaplingAnchor := h\<rparr>)"
    and "h \<noteq> 0 \<or> h = av_block (absf (cc_base C)) \<Longrightarrow> cache_abs absf (C\<lparr>hashBlock := h\<rparr>) = (cache_abs absf C)\<lparr>av_block := h\<rparr>"
    and "h \<noteq> 0 \<or> h = av_root (absf (cc_base C)) \<Longrightarrow> cache_abs absf (C\<lparr>hashSaplingAnchor := h\<rparr>) = (cache_abs absf C)\<lparr>av_root := h\<rparr>"
proof -
  show "cache_inv vinv absf held root er (C\<lparr>hashBlock := h\<rparr>)" "cache_inv vinv absf held root er (C\<lparr>hashSaplingAnchor := h\<rparr>)"
    using assms by (auto simp: cache_inv_def)
  show "h \<noteq> 0 \<or> h = av_block (absf (cc_base C)) \<Longrightarrow> cache_abs absf (C\<lparr>hashBlock := h\<rparr>) = (cache_abs absf C)\<lparr>av_block := h\<rparr>"
    by (rule aview_eqI) (auto simp: cache_abs_def fun_eq_iff split: option.splits)
  show "h \<noteq> 0 \<or> h = av_root (absf (cc_base C)) \<Longrightarrow> cache_abs absf (C\<lparr>hashSaplingAnchor := h\<rparr>) = (cache_abs absf C)\<lparr>av_root := h\<rparr>"
    by (rule aview_eqI) (auto simp: cache_abs_def fun_eq_iff split: option.splits)
qed

lemma merge_coins_ok:
  assumes "\<And>us. map_of m k = Some us \<Longrightarrow> coin_entry_ok A h k us"
    "coins_ok (ce_coins e) \<and> (map_of m k = None \<longrightarrow> ce_fresh e \<and> av_coins A k = None)"
  shows "\<And>d. merge_coins e (map_of m k) = Some d \<Longrightarrow> coin_entry_ok A h k d"
    and "ce_dirty e \<Longrightarrow> (case merge_coins e (map_of m k) of Some d \<Rightarrow> norm (ce_coins d) | None \<Rightarrow> av_coins A k) = norm (ce_coins e)"
    and "\<not> ce_dirty e \<Longrightarrow> merge_coins e (map_of m k) = map_of m k"
  using assms by (cases "map_of m k"; fastforce simp: merge_coins_def coin_entry_ok_def norm_def split: if_splits)+

context coins_view
begin

lemma cache_get_coins:
  assumes "cache_inv vinv absf held root er C" "FetchCoins O1 C k = (r, C')"
  shows "cache_inv vinv absf held root er C' \<and> cache_abs absf C' = cache_abs absf C \<and> (\<forall>j. cache_held C j \<longrightarrow> cache_held C' j) \<and>
    (case r of None \<Rightarrow> av_coins (cache_abs absf C) k = None
     | Some c \<Rightarrow> coins_ok c \<and> norm c = av_coins (cache_abs absf C) k \<and> (\<not> IsPruned c \<longrightarrow> cache_held C' k))"
proof (cases "map_of (cacheCoins C) k")
  case (Some e)
  then have "coins_ok (ce_coins e)"
    using assms(1) by (auto simp: cache_inv_def coin_entry_ok_def)
  then show ?thesis
    using assms Some by (auto simp: FetchCoins_def cache_abs_def cache_held_def)
next
  case None
  obtain q b where b: "vo_GetCoins O1 (cc_base C) k = (q, b)"
    by (cases "vo_GetCoins O1 (cc_base C) k")
  have base: "vinv b" "absf b = absf (cc_base C)" "\<forall>j. held (cc_base C) j \<longrightarrow> held b j"
    "case q of None \<Rightarrow> av_coins (absf (cc_base C)) k = None
       | Some c \<Rightarrow> coins_ok c \<and> norm c = av_coins (absf (cc_base C)) k \<and> (\<not> IsPruned c \<longrightarrow> held b k)"
    using get_coins [OF _ b] assms(1) by (auto simp: cache_inv_def)
  note C1 = cache_inv_base [OF assms(1) base(1-3)]
  have here: "av_coins (cache_abs absf C) k = av_coins (absf (cc_base C)) k"
    using None by (simp add: cache_abs_def)
  show ?thesis
  proof (cases q)
    case None
    then show ?thesis
      using assms(2) C1 base(4) here b \<open>map_of (cacheCoins C) k = None\<close> by (auto simp: FetchCoins_def cache_held_def)
  next
    case (Some c)
    let ?C = "C\<lparr>cc_base := b\<rparr>"
    have ok: "coin_entry_ok (absf (cc_base ?C)) (held (cc_base ?C)) k (fetched_entry c)"
      using base Some by (auto simp: coin_entry_ok_def fetched_entry_def norm_def split: if_splits)
    have "cache_abs absf (?C\<lparr>cacheCoins := AList.update k (fetched_entry c) (cacheCoins ?C)\<rparr>) = cache_abs absf C"
      using cache_inv_update(2) [OF C1(1) ok] C1(2) here base(4) Some by (simp add: fetched_entry_def fun_upd_idem)
    then show ?thesis
      using assms(2) cache_inv_update(1) [OF C1(1) ok] base(4) here b None Some
      by (auto simp: FetchCoins_def cache_held_def update_conv')
  qed
qed

lemma modify_view:
  assumes "cache_inv vinv absf held root er C" "modify_coins O1 k f C = (r, C')"
    "\<And>c. coins_ok c \<Longrightarrow> norm c = av_coins (cache_abs absf C) k \<Longrightarrow> coins_raw (snd (f c))"
  obtains c where "coins_ok c" "norm c = av_coins (cache_abs absf C) k" "r = fst (f c)" "cache_inv vinv absf held root er C'"
    "cache_abs absf C' = (cache_abs absf C)\<lparr>av_coins := (av_coins (cache_abs absf C))(k := norm (Cleanup (snd (f c))))\<rparr>"
proof -
  obtain e C1 where e: "ModifyCoins O1 C k = (e, C1)"
    by (cases "ModifyCoins O1 C k")
  have "cache_inv vinv absf held root er C1 \<and> cache_abs absf C1 = cache_abs absf C \<and> ce_dirty e \<and>
      coin_entry_ok (absf (cc_base C1)) (held (cc_base C1)) k e \<and> norm (ce_coins e) = av_coins (cache_abs absf C) k"
  proof (cases "map_of (cacheCoins C) k")
    case (Some d)
    then show ?thesis
      using assms(1) e by (auto simp: ModifyCoins_def cache_inv_def cache_abs_def coin_entry_ok_def)
  next
    case None
    obtain q b where b: "vo_GetCoins O1 (cc_base C) k = (q, b)"
      by (cases "vo_GetCoins O1 (cc_base C) k")
    have base: "vinv b" "absf b = absf (cc_base C)" "\<forall>j. held (cc_base C) j \<longrightarrow> held b j"
      "case q of None \<Rightarrow> av_coins (absf (cc_base C)) k = None
         | Some c \<Rightarrow> coins_ok c \<and> norm c = av_coins (absf (cc_base C)) k \<and> (\<not> IsPruned c \<longrightarrow> held b k)"
      using get_coins [OF _ b] assms(1) by (auto simp: cache_inv_def)
    have "av_coins (cache_abs absf C) k = av_coins (absf (cc_base C)) k"
      using None by (simp add: cache_abs_def)
    then show ?thesis
      using cache_inv_base [OF assms(1) base(1-3)] base(2,4) e b None
      by (cases q) (auto simp: ModifyCoins_def fetched_entry_def coin_entry_ok_def norm_def split: if_splits)
  qed
  then have E: "cache_inv vinv absf held root er C1" "cache_abs absf C1 = cache_abs absf C" "ce_dirty e"
    "coin_entry_ok (absf (cc_base C1)) (held (cc_base C1)) k e" "norm (ce_coins e) = av_coins (cache_abs absf C) k"
    by simp_all
  let ?c = "ce_coins e"
  obtain d where d: "f ?c = (r, d)" "C' = modifier_end k (e\<lparr>ce_coins := d\<rparr>) C1"
    using assms(2) e by (cases "f ?c") (simp add: modify_coins_def)
  have c: "coins_ok ?c"
    using E(4) by (simp add: coin_entry_ok_def)
  then have raw: "coins_raw d"
    using assms(3) [of ?c] E(5) d(1) by simp
  let ?e = "e\<lparr>ce_coins := Cleanup d\<rparr>"
  have ok: "coin_entry_ok (absf (cc_base C1)) (held (cc_base C1)) k ?e"
    using E(3,4) coins_ok_Cleanup [OF raw] by (simp add: coin_entry_ok_def)
  have "cache_inv vinv absf held root er C' \<and>
      cache_abs absf C' = (cache_abs absf C)\<lparr>av_coins := (av_coins (cache_abs absf C))(k := norm (Cleanup d))\<rparr>"
  proof (cases "ce_fresh e \<and> IsPruned d")
    case True
    then have "av_coins (absf (cc_base C1)) k = None"
      using E(4) by (simp add: coin_entry_ok_def)
    then show ?thesis
      using cache_inv_delete [OF E(1)] E(2) True d(2) by (simp add: modifier_end_def norm_def)
  next
    case False
    then show ?thesis
      using cache_inv_update [OF E(1) ok] E(2) d(2) by (auto simp: modifier_end_def)
  qed
  then show thesis
    using that [OF c E(5)] d(1) by simp
qed

lemma cache_get_nullifier:
  assumes "cache_inv vinv absf held root er C" "GetNullifier O1 C k = (x, C')"
  shows "cache_inv vinv absf held root er C' \<and> cache_abs absf C' = cache_abs absf C \<and> cacheCoins C' = cacheCoins C \<and>
    x = av_null (cache_abs absf C) k"
proof (cases "map_of (cacheSaplingNullifiers C) k")
  case (Some e)
  then show ?thesis
    using assms by (auto simp: GetNullifier_def cache_abs_def)
next
  case None
  obtain y b where b: "vo_GetNullifier O1 (cc_base C) k = (y, b)"
    by (cases "vo_GetNullifier O1 (cc_base C) k")
  have base: "vinv b" "absf b = absf (cc_base C)" "\<forall>j. held (cc_base C) j \<longrightarrow> held b j" "y = av_null (absf (cc_base C)) k"
    using get_nullifier [OF _ b] assms(1) by (auto simp: cache_inv_def)
  let ?C = "C\<lparr>cc_base := b\<rparr>" and ?e = "\<lparr>nf_entered = y, nf_dirty = False\<rparr>"
  note C1 = cache_inv_base [OF assms(1) base(1-3)]
  have here: "av_null (cache_abs absf C) k = y"
    using None base(4) by (simp add: cache_abs_def)
  have e: "\<not> nf_dirty ?e \<Longrightarrow> nf_entered ?e = av_null (absf (cc_base ?C)) k"
    using base(2,4) by simp
  have "cache_abs absf (?C\<lparr>cacheSaplingNullifiers := AList.update k ?e (cacheSaplingNullifiers ?C)\<rparr>) = cache_abs absf C"
    using cache_inv_nf(2) [OF C1(1) e] C1(2) here by (simp add: fun_upd_idem)
  then show ?thesis
    using assms(2) cache_inv_nf(1) [OF C1(1) e] here b None by (auto simp: GetNullifier_def)
qed

lemma cache_get_anchor:
  assumes "cache_inv vinv absf held root er C" "GetSaplingAnchorAt O1 C k = (r, C')"
  shows "cache_inv vinv absf held root er C' \<and> cache_abs absf C' = cache_abs absf C \<and> cacheCoins C' = cacheCoins C \<and>
    hashSaplingAnchor C' = hashSaplingAnchor C \<and> hashBlock C' = hashBlock C \<and>
    (case r of None \<Rightarrow> \<not> av_anchors (cache_abs absf C) k | Some t \<Rightarrow> av_anchors (cache_abs absf C) k \<and> root t = k)"
proof (cases "map_of (cacheSaplingAnchors C) k")
  case (Some e)
  then show ?thesis
    using assms by (auto simp: GetSaplingAnchorAt_def cache_abs_def cache_inv_def anchor_entry_ok_def)
next
  case None
  obtain y b where b: "vo_GetSaplingAnchorAt O1 (cc_base C) k = (y, b)"
    by (cases "vo_GetSaplingAnchorAt O1 (cc_base C) k")
  have base: "vinv b" "absf b = absf (cc_base C)" "\<forall>j. held (cc_base C) j \<longrightarrow> held b j"
    "case y of None \<Rightarrow> \<not> av_anchors (absf (cc_base C)) k | Some t \<Rightarrow> av_anchors (absf (cc_base C)) k \<and> root t = k"
    using get_anchor [OF _ b] assms(1) by (auto simp: cache_inv_def)
  note C1 = cache_inv_base [OF assms(1) base(1-3)]
  have here: "av_anchors (cache_abs absf C) k = av_anchors (absf (cc_base C)) k"
    using None by (simp add: cache_abs_def)
  show ?thesis
  proof (cases y)
    case None
    then show ?thesis
      using assms(2) C1 base(4) here b \<open>map_of (cacheSaplingAnchors C) k = None\<close> by (auto simp: GetSaplingAnchorAt_def)
  next
    case (Some t)
    let ?C = "C\<lparr>cc_base := b\<rparr>" and ?e = "\<lparr>an_entered = True, an_tree = t, an_dirty = False\<rparr>"
    have ok: "anchor_entry_ok root er (absf (cc_base ?C)) k ?e"
      using base Some by (simp add: anchor_entry_ok_def)
    have "cache_abs absf (?C\<lparr>cacheSaplingAnchors := AList.update k ?e (cacheSaplingAnchors ?C)\<rparr>) = cache_abs absf C"
      using cache_inv_anchor(2) [OF C1(1) ok] C1(2) here base(4) Some by (simp add: fun_upd_idem)
    then show ?thesis
      using assms(2) cache_inv_anchor(1) [OF C1(1) ok] base(4) here b None Some by (auto simp: GetSaplingAnchorAt_def)
  qed
qed

lemma cache_get_block:
  assumes "cache_inv vinv absf held root er C" "GetBestBlock O1 C = (h, C')"
  shows "cache_inv vinv absf held root er C' \<and> cache_abs absf C' = cache_abs absf C \<and> cacheCoins C' = cacheCoins C \<and>
    h = av_block (cache_abs absf C)"
proof (cases "hashBlock C = 0")
  case False
  then show ?thesis
    using assms by (auto simp: GetBestBlock_def cache_abs_def)
next
  case True
  obtain y b where b: "vo_GetBestBlock O1 (cc_base C) = (y, b)"
    by (cases "vo_GetBestBlock O1 (cc_base C)")
  have base: "vinv b" "absf b = absf (cc_base C)" "\<forall>j. held (cc_base C) j \<longrightarrow> held b j" "y = av_block (absf (cc_base C))"
    using get_block [OF _ b] assms(1) by (auto simp: cache_inv_def)
  note C1 = cache_inv_base [OF assms(1) base(1-3)]
  have here: "av_block (cache_abs absf C) = y"
    using True base(4) by (simp add: cache_abs_def)
  have "cache_abs absf (C\<lparr>cc_base := b, hashBlock := y\<rparr>) = cache_abs absf C"
    using cache_inv_hash(3) [OF C1(1), of y] C1(2) here base(2,4) by simp
  then show ?thesis
    using assms(2) cache_inv_hash(1) [OF C1(1)] here b True by (auto simp: GetBestBlock_def)
qed

lemma cache_get_root:
  assumes "cache_inv vinv absf held root er C" "GetBestAnchor O1 C = (h, C')"
  shows "cache_inv vinv absf held root er C' \<and> cache_abs absf C' = cache_abs absf C \<and> cacheCoins C' = cacheCoins C \<and>
    h = av_root (cache_abs absf C) \<and> hashSaplingAnchor C' = h \<and> hashBlock C' = hashBlock C"
proof (cases "hashSaplingAnchor C = 0")
  case False
  then show ?thesis
    using assms by (auto simp: GetBestAnchor_def cache_abs_def)
next
  case True
  obtain y b where b: "vo_GetBestAnchor O1 (cc_base C) = (y, b)"
    by (cases "vo_GetBestAnchor O1 (cc_base C)")
  have base: "vinv b" "absf b = absf (cc_base C)" "\<forall>j. held (cc_base C) j \<longrightarrow> held b j" "y = av_root (absf (cc_base C))"
    using get_root [OF _ b] assms(1) by (auto simp: cache_inv_def)
  note C1 = cache_inv_base [OF assms(1) base(1-3)]
  have here: "av_root (cache_abs absf C) = y"
    using True base(4) by (simp add: cache_abs_def)
  have "cache_abs absf (C\<lparr>cc_base := b, hashSaplingAnchor := y\<rparr>) = cache_abs absf C"
    using cache_inv_hash(4) [OF C1(1), of y] C1(2) here base(2,4) by simp
  then show ?thesis
    using assms(2) cache_inv_hash(2) [OF C1(1)] here b True by (auto simp: GetBestAnchor_def)
qed

lemma cache_batch_write:
  assumes inv: "cache_inv vinv absf held root er C" and ok: "batch_ok root er (cache_held C) (cache_abs absf C) B"
  shows "\<exists>C'. cache_BatchWrite B C = Some C' \<and> cache_inv vinv absf held root er C' \<and> cache_abs absf C' = batch_view B (cache_abs absf C)"
proof -
  let ?A = "absf (cc_base C)" and ?m = "cacheCoins C" and ?h = "held (cc_base C)"
  have old: "\<And>k us. map_of ?m k = Some us \<Longrightarrow> coin_entry_ok ?A ?h k us" and dm: "distinct (map fst ?m)"
    using inv by (auto simp: cache_inv_def)
  have new: "\<And>k e. map_of (mapCoins B) k = Some e \<Longrightarrow> coins_ok (ce_coins e) \<and> (map_of ?m k = None \<longrightarrow> ce_fresh e \<and> av_coins ?A k = None)"
    using ok by (fastforce simp: batch_ok_def cache_held_def cache_abs_def)
  have "distinct (map fst (mapCoins B))"
    using ok by (simp add: batch_ok_def)
  moreover have "\<not> (ce_dirty e \<and> map_of ?m k = None \<and> \<not> IsPruned (ce_coins e) \<and> \<not> ce_fresh e)" if "map_of (mapCoins B) k = Some e" for k e
    using new [OF that] by blast
  ultimately obtain m' where m': "batch_coins (mapCoins B) ?m = Some m'" "distinct (map fst m')"
    "\<And>j. map_of m' j = (case map_of (mapCoins B) j of None \<Rightarrow> map_of ?m j | Some e \<Rightarrow> merge_coins e (map_of ?m j))"
    using batch_coins_ok [of "mapCoins B" ?m] dm by blast
  have coins: "(\<forall>d. map_of m' k = Some d \<longrightarrow> coin_entry_ok ?A ?h k d) \<and>
      (case map_of m' k of Some e \<Rightarrow> norm (ce_coins e) | None \<Rightarrow> av_coins ?A k) = av_coins (batch_view B (cache_abs absf C)) k" for k
  proof (cases "map_of (mapCoins B) k")
    case None
    then show ?thesis
      using m'(3) [of k] old by (simp add: batch_view_def cache_abs_def)
  next
    case (Some e)
    show ?thesis
      using merge_coins_ok [of ?m k ?A ?h e] old new [OF Some] m'(3) [of k] Some by (auto simp: batch_view_def cache_abs_def)
  qed
  let ?an = "fold batch_anchors_step (mapSaplingAnchors B) (cacheSaplingAnchors C)"
    and ?nf = "fold batch_nullifiers_step (mapSaplingNullifiers B) (cacheSaplingNullifiers C)"
  have dist: "distinct (map fst (mapSaplingAnchors B))" "distinct (map fst (mapSaplingNullifiers B))"
    using ok by (auto simp: batch_ok_def)
  have anchors: "(\<forall>d. map_of ?an k = Some d \<longrightarrow> anchor_entry_ok root er ?A k d) \<and>
      (case map_of ?an k of Some e \<Rightarrow> an_entered e | None \<Rightarrow> av_anchors ?A k) = av_anchors (batch_view B (cache_abs absf C)) k" for k
    using inv ok batch_anchors_at [OF dist(1), of "cacheSaplingAnchors C" k]
    by (auto simp: merge_anchor_def batch_view_def cache_abs_def cache_inv_def batch_ok_def anchor_entry_ok_def split: option.splits if_splits)
  have nfs: "(\<forall>d. map_of ?nf k = Some d \<longrightarrow> \<not> nf_dirty d \<longrightarrow> nf_entered d = av_null ?A k) \<and>
      (case map_of ?nf k of Some e \<Rightarrow> nf_entered e | None \<Rightarrow> av_null ?A k) = av_null (batch_view B (cache_abs absf C)) k" for k
    using inv batch_nullifiers_at [OF dist(2), of "cacheSaplingNullifiers C" k]
    by (auto simp: merge_nf_def batch_view_def cache_abs_def cache_inv_def split: option.splits if_splits)
  let ?C = "C\<lparr>cacheCoins := m', cacheSaplingAnchors := ?an, cacheSaplingNullifiers := ?nf, hashBlock := batchBlock B, hashSaplingAnchor := batchAnchor B\<rparr>"
  have "distinct (map fst ?an)" "distinct (map fst ?nf)"
    using inv by (simp_all add: cache_inv_def batch_anchors_distinct batch_nullifiers_distinct)
  then have "cache_inv vinv absf held root er ?C"
    using inv m'(2) coins anchors nfs by (simp add: cache_inv_def)
  moreover have "cache_abs absf ?C = batch_view B (cache_abs absf C)"
  proof (rule aview_eqI)
    show "av_coins (cache_abs absf ?C) = av_coins (batch_view B (cache_abs absf C))"
      using coins by (intro ext) (subst cache_abs_at, simp cong: option.case_cong)
    show "av_null (cache_abs absf ?C) = av_null (batch_view B (cache_abs absf C))"
      using nfs by (intro ext) (subst cache_abs_at, simp cong: option.case_cong)
    show "av_anchors (cache_abs absf ?C) = av_anchors (batch_view B (cache_abs absf C))"
      using anchors by (intro ext) (subst cache_abs_at, simp cong: option.case_cong)
  qed (use ok in \<open>simp_all add: cache_abs_def batch_view_def batch_ok_def\<close>)
  ultimately show ?thesis
    using m'(1) by (simp add: cache_BatchWrite_def)
qed

lemma cache_is_view: "coins_view (cache_ops O1) (cache_inv vinv absf held root er) (cache_abs absf) cache_held root er"
proof unfold_locales
  fix C k r C'
  assume "cache_inv vinv absf held root er C" "vo_GetCoins (cache_ops O1) C k = (r, C')"
  then show "cache_inv vinv absf held root er C' \<and> cache_abs absf C' = cache_abs absf C \<and> (\<forall>j. cache_held C j \<longrightarrow> cache_held C' j) \<and>
    (case r of None \<Rightarrow> av_coins (cache_abs absf C) k = None
     | Some c \<Rightarrow> coins_ok c \<and> norm c = av_coins (cache_abs absf C) k \<and> (\<not> IsPruned c \<longrightarrow> cache_held C' k))"
    using cache_get_coins by (simp add: cache_ops_def)
next
  fix C k x C'
  assume "cache_inv vinv absf held root er C" "vo_GetNullifier (cache_ops O1) C k = (x, C')"
  then show "cache_inv vinv absf held root er C' \<and> cache_abs absf C' = cache_abs absf C \<and> (\<forall>j. cache_held C j \<longrightarrow> cache_held C' j) \<and>
      x = av_null (cache_abs absf C) k"
    using cache_get_nullifier [of C k x C'] by (simp add: cache_ops_def cache_held_def)
next
  fix C k t C'
  assume "cache_inv vinv absf held root er C" "vo_GetSaplingAnchorAt (cache_ops O1) C k = (t, C')"
  then show "cache_inv vinv absf held root er C' \<and> cache_abs absf C' = cache_abs absf C \<and> (\<forall>j. cache_held C j \<longrightarrow> cache_held C' j) \<and>
      (case t of None \<Rightarrow> \<not> av_anchors (cache_abs absf C) k | Some t \<Rightarrow> av_anchors (cache_abs absf C) k \<and> root t = k)"
    using cache_get_anchor [of C k t C'] by (simp add: cache_ops_def cache_held_def)
next
  fix C h C'
  assume "cache_inv vinv absf held root er C" "vo_GetBestBlock (cache_ops O1) C = (h, C')"
  then show "cache_inv vinv absf held root er C' \<and> cache_abs absf C' = cache_abs absf C \<and> (\<forall>j. cache_held C j \<longrightarrow> cache_held C' j) \<and>
      h = av_block (cache_abs absf C)"
    using cache_get_block [of C h C'] by (simp add: cache_ops_def cache_held_def)
next
  fix C h C'
  assume "cache_inv vinv absf held root er C" "vo_GetBestAnchor (cache_ops O1) C = (h, C')"
  then show "cache_inv vinv absf held root er C' \<and> cache_abs absf C' = cache_abs absf C \<and> (\<forall>j. cache_held C j \<longrightarrow> cache_held C' j) \<and>
      h = av_root (cache_abs absf C)"
    using cache_get_root [of C h C'] by (simp add: cache_ops_def cache_held_def)
next
  fix C B
  assume "cache_inv vinv absf held root er C" "batch_ok root er (cache_held C) (cache_abs absf C) B"
  then show "\<exists>C'. vo_BatchWrite (cache_ops O1) B C = Some C' \<and> cache_inv vinv absf held root er C' \<and> cache_abs absf C' = batch_view B (cache_abs absf C)"
    using cache_batch_write by (simp add: cache_ops_def)
qed

text \<open>Writing a cache through to its base: the base then represents what the cache did, and so does the emptied cache.\<close>

lemma flush_view:
  assumes inv: "cache_inv vinv absf held root er C" and nz: "hashBlock C \<noteq> 0" "hashSaplingAnchor C \<noteq> 0"
  shows "\<exists>C'. Flush O1 C = Some C' \<and> cache_inv vinv absf held root er C' \<and> cache_abs absf C' = cache_abs absf C \<and>
    absf (cc_base C') = cache_abs absf C \<and> cacheCoins C' = [] \<and> cacheSaplingAnchors C' = [] \<and> cacheSaplingNullifiers C' = []"
proof -
  have "batch_ok root er (held (cc_base C)) (absf (cc_base C)) (cache_batch C)"
    using inv nz by (auto simp: batch_ok_def cache_batch_def cache_inv_def coin_entry_ok_def anchor_entry_ok_def)
  then obtain b where b: "vo_BatchWrite O1 (cache_batch C) (cc_base C) = Some b" "vinv b" "absf b = batch_view (cache_batch C) (absf (cc_base C))"
    using batch [of "cc_base C" "cache_batch C"] inv by (auto simp: cache_inv_def)
  have "absf b = cache_abs absf C"
    unfolding b(3) using inv nz
    by (intro aview_eqI)
      (auto simp: batch_view_def cache_batch_def cache_abs_def cache_inv_def coin_entry_ok_def anchor_entry_ok_def fun_eq_iff split: option.splits)
  moreover have "cache_abs absf (C\<lparr>cc_base := b, cacheCoins := [], cacheSaplingAnchors := [], cacheSaplingNullifiers := []\<rparr>) = absf b"
    using nz \<open>absf b = cache_abs absf C\<close> by (intro aview_eqI) (simp_all add: cache_abs_def)
  ultimately show ?thesis
    using b by (simp add: Flush_def cache_inv_def)
qed

end

section \<open>The views of the node\<close>

definition db_inv :: "('t \<Rightarrow> uint256) \<Rightarrow> 't coins_db \<Rightarrow> bool" where
  "db_inv root D \<longleftrightarrow>
     (\<forall>k c. dbCoins D k = Some c \<longrightarrow> coins_ok c \<and> \<not> IsPruned c) \<and> (\<forall>k t. dbAnchors D k = Some t \<longrightarrow> root t = k)"

definition db_abs :: "uint256 \<Rightarrow> 't coins_db \<Rightarrow> aview" where
  "db_abs er D =
     \<lparr>av_coins = dbCoins D, av_null = dbNullifiers D, av_anchors = (\<lambda>k. k = er \<or> dbAnchors D k \<noteq> None),
      av_block = (case dbBestBlock D of Some h \<Rightarrow> h | None \<Rightarrow> 0), av_root = (case dbBestAnchor D of Some h \<Rightarrow> h | None \<Rightarrow> er)\<rparr>"

definition db_held :: "'t coins_db \<Rightarrow> uint256 \<Rightarrow> bool" where
  "db_held D k \<longleftrightarrow> True"

lemma db_coins_at: "distinct (map fst xs) \<Longrightarrow> fold db_coins_step xs m j =
    (case map_of xs j of None \<Rightarrow> m j | Some e \<Rightarrow> if ce_dirty e then norm (ce_coins e) else m j)"
  by (rule fold_keyed [where rep = "\<lambda>m. m"]) (auto simp: db_coins_step_def norm_def)

lemma db_nullifiers_at: "distinct (map fst xs) \<Longrightarrow> fold db_nullifiers_step xs m j =
    (case map_of xs j of None \<Rightarrow> m j | Some e \<Rightarrow> if nf_dirty e then nf_entered e else m j)"
  by (rule fold_keyed [where rep = "\<lambda>m. m"]) (auto simp: db_nullifiers_step_def)

lemma db_anchors_at: "distinct (map fst xs) \<Longrightarrow> fold (db_anchors_step er) xs m j =
    (case map_of xs j of None \<Rightarrow> m j
     | Some e \<Rightarrow> if an_dirty e then if \<not> an_entered e then None else if j \<noteq> er then Some (an_tree e) else m j else m j)"
  by (rule fold_keyed [where rep = "\<lambda>m. m"]) (auto simp: db_anchors_step_def)

lemma db_is_view: "root (et :: 't) = er \<Longrightarrow> coins_view (db_ops er et) (db_inv root) (db_abs er) db_held root er"
proof unfold_locales
  fix D :: "'t coins_db" and B
  assume inv: "db_inv root D" and ok: "batch_ok root er (db_held D) (db_abs er D) B"
  let ?D = "the (db_BatchWrite er B D)"
  have dist: "distinct (map fst (mapCoins B))" "distinct (map fst (mapSaplingAnchors B))" "distinct (map fst (mapSaplingNullifiers B))"
    using ok by (auto simp: batch_ok_def)
  note at = db_coins_at [OF dist(1)] db_anchors_at [OF dist(2)] db_nullifiers_at [OF dist(3)]
  have "db_inv root ?D"
    using inv ok by (auto simp: db_inv_def db_BatchWrite_def at batch_ok_def norm_def split: option.splits if_splits)
  moreover have "db_abs er ?D = batch_view B (db_abs er D)"
    using ok by (intro aview_eqI)
      (auto simp: db_abs_def batch_view_def db_BatchWrite_def at batch_ok_def fun_eq_iff split: option.splits if_splits)
  ultimately show "\<exists>D'. vo_BatchWrite (db_ops er et) B D = Some D' \<and> db_inv root D' \<and> db_abs er D' = batch_view B (db_abs er D)"
    by (simp add: db_ops_def db_BatchWrite_def)
qed (auto simp: db_ops_def db_GetCoins_def db_GetNullifier_def db_GetSaplingAnchorAt_def db_GetBestBlock_def db_GetBestAnchor_def db_inv_def db_abs_def
    db_held_def norm_def split: option.splits if_splits)

text \<open>\<open>pcoinsTip\<close> is a cache on the database, and a block is connected in a view that is a cache on \<open>pcoinsTip\<close>. The database fulfils the contract, and so
  does the cache on it: what holds of \<open>coins_view\<close> holds at each level. The error catcher between \<open>pcoinsTip\<close> and the database passes every call on; it ends the process
  on a read error.\<close>

definition tip_ops :: "('t \<Rightarrow> uint256) \<Rightarrow> 't \<Rightarrow> (('t coins_db, 't) coins_cache, 't) view_ops" where
  "tip_ops root et = cache_ops (db_ops (root et) et)"

definition new_view :: "'b \<Rightarrow> ('b, 't) coins_cache" where
  "new_view b = \<lparr>cc_base = b, cacheCoins = [], cacheSaplingAnchors = [], cacheSaplingNullifiers = [], hashBlock = 0, hashSaplingAnchor = 0\<rparr>"

definition tip_inv :: "('t \<Rightarrow> uint256) \<Rightarrow> 't \<Rightarrow> ('t coins_db, 't) coins_cache \<Rightarrow> bool" where
  "tip_inv root et = cache_inv (db_inv root) (db_abs (root et)) db_held root (root et)"

definition tip_abs :: "('t \<Rightarrow> uint256) \<Rightarrow> 't \<Rightarrow> ('t coins_db, 't) coins_cache \<Rightarrow> aview" where
  "tip_abs root et = cache_abs (db_abs (root et))"

definition view_inv :: "('t \<Rightarrow> uint256) \<Rightarrow> 't \<Rightarrow> (('t coins_db, 't) coins_cache, 't) coins_cache \<Rightarrow> bool" where
  "view_inv root et = cache_inv (tip_inv root et) (tip_abs root et) cache_held root (root et)"

definition view_abs :: "('t \<Rightarrow> uint256) \<Rightarrow> 't \<Rightarrow> (('t coins_db, 't) coins_cache, 't) coins_cache \<Rightarrow> aview" where
  "view_abs root et = cache_abs (tip_abs root et)"

interpretation db: coins_view "db_ops (root et) et" "db_inv root" "db_abs (root et)" db_held root "root et"
  for root :: "'t \<Rightarrow> uint256" and et :: 't
  by (rule db_is_view) (rule refl)

interpretation tip: coins_view "tip_ops root et" "tip_inv root et" "tip_abs root et" cache_held root "root et"
  for root :: "'t \<Rightarrow> uint256" and et :: 't
  unfolding tip_ops_def tip_inv_def tip_abs_def by (rule db.cache_is_view)

lemma new_view_view:
  "tip_inv root et T \<Longrightarrow> view_inv root et (new_view T) \<and> view_abs root et (new_view T) = tip_abs root et T"
  by (auto simp: view_inv_def view_abs_def new_view_def cache_inv_def cache_abs_def intro!: aview_eqI)

lemma new_tip_view:
  "db_inv root D \<Longrightarrow> tip_inv root et (new_view D)" "tip_abs root et (new_view D) = db_abs (root et) D"
  by (auto simp: tip_inv_def tip_abs_def new_view_def cache_inv_def cache_abs_def intro!: aview_eqI)

lemma flush_base: "Flush O1 C = Some C' \<Longrightarrow> vo_BatchWrite O1 (cache_batch C) (cc_base C) = Some (cc_base C')"
  by (auto simp: Flush_def)

lemma batch_hashes: "cache_BatchWrite B T = Some T' \<Longrightarrow> hashBlock T' = batchBlock B \<and> hashSaplingAnchor T' = batchAnchor B"
  by (auto simp: cache_BatchWrite_def)

lemma flush_hashes:
  "Flush (cache_ops O1) C = Some C' \<Longrightarrow>
     hashBlock (cc_base C') = hashBlock C \<and> hashSaplingAnchor (cc_base C') = hashSaplingAnchor C"
  using batch_hashes [of "cache_batch C" "cc_base C" "cc_base C'"] flush_base [of "cache_ops O1" C C'] by (simp add: cache_ops_def cache_batch_def)

end
