(* ===== verification/Hush_Undo.thy ===== *)
theory Hush_Undo
  imports Hush_Coins Hush_NotaryDB
begin

text \<open>
  Spending and its undo, on the views of \<open>Hush_Coins\<close>: the checks of inputs of \<open>coins.cpp\<close>, \<open>UpdateCoins\<close> and \<open>ApplyTxInUndo\<close> of \<open>main.cpp\<close>, the tombstones of
  \<open>importcoin.cpp\<close>, the loops of \<open>ConnectBlock\<close> and \<open>DisconnectBlock\<close> over the transactions, and the parts of \<open>ConnectTip\<close>, \<open>DisconnectTip\<close> and \<open>FlushStateToDisk\<close> that
  move the set of coins. The lemmas are proved in the locale \<open>coins_view\<close>, for any base, and used for the node's stack: a view on \<open>pcoinsTip\<close> on the database.
\<close>

section \<open>Checking and spending inputs\<close>

text \<open>The loop of \<open>HaveInputs\<close> with the index of the input; the first input of an import is skipped.\<close>

fun have_inputs_loop :: "('b, 't) view_ops \<Rightarrow> bool \<Rightarrow> nat \<Rightarrow> (uint256 \<times> u32) list \<Rightarrow> ('b, 't) coins_cache \<Rightarrow> bool \<times> ('b, 't) coins_cache" where
  "have_inputs_loop O1 skip i [] C = (True, C)"
| "have_inputs_loop O1 skip i (p # ps) C =
     (if skip \<and> i = 0 then have_inputs_loop O1 skip (i + 1) ps C
      else case FetchCoins O1 C (fst p) of
             (None, C) \<Rightarrow> (False, C)
           | (Some c, C) \<Rightarrow> if IsAvailable c (snd p) then have_inputs_loop O1 skip (i + 1) ps C else (False, C))"

definition HaveInputs :: "('b, 't) view_ops \<Rightarrow> bool \<Rightarrow> coins_tx \<Rightarrow> ('b, 't) coins_cache \<Rightarrow> bool \<times> ('b, 't) coins_cache" where
  "HaveInputs O1 pegs tx C = (if \<not> IsMint tx then have_inputs_loop O1 (IsPegsImport pegs tx) 0 (tx_vin tx) C else (True, C))"

fun HaveShieldedRequirements :: "('b, 't) view_ops \<Rightarrow> (uint256 \<times> uint256) list \<Rightarrow> ('b, 't) coins_cache \<Rightarrow> bool \<times> ('b, 't) coins_cache" where
  "HaveShieldedRequirements O1 [] C = (True, C)"
| "HaveShieldedRequirements O1 (s # ss) C =
     (case GetNullifier O1 C (fst s) of
        (spent, C) \<Rightarrow>
          if spent then (False, C)
          else case GetSaplingAnchorAt O1 C (snd s) of
                 (None, C) \<Rightarrow> (False, C)
               | (Some t, C) \<Rightarrow> HaveShieldedRequirements O1 ss C)"

record CTxInUndo =
  tu_txout :: tx_out
  tu_fCoinBase :: bool
  tu_nHeight :: int
  tu_nVersion :: int

text \<open>The scope of the modifier in the loop of \<open>UpdateCoins\<close>; no result is the failed assertion.\<close>

definition spend_body :: "u32 \<Rightarrow> CCoins \<Rightarrow> CTxInUndo option \<times> CCoins" where
  "spend_body nPos c =
     (if IsAvailable c nPos
      then let c' = snd (Spend c nPos); t = cc_vout c ! unat nPos
           in (Some (if cc_vout c' = [] then \<lparr>tu_txout = t, tu_fCoinBase = fCoinBase c', tu_nHeight = cc_nHeight c', tu_nVersion = cc_nVersion c'\<rparr>
                     else \<lparr>tu_txout = t, tu_fCoinBase = False, tu_nHeight = 0, tu_nVersion = 0\<rparr>), c')
      else (None, c))"

fun spend_inputs :: "('b, 't) view_ops \<Rightarrow> bool \<Rightarrow> (uint256 \<times> u32) list \<Rightarrow> ('b, 't) coins_cache \<Rightarrow> (CTxInUndo list \<times> ('b, 't) coins_cache) option" where
  "spend_inputs O1 skip [] C = Some ([], C)"
| "spend_inputs O1 skip (p # ps) C =
     (if skip \<and> snd p = 1000000000 then spend_inputs O1 skip ps C
      else case modify_coins O1 (fst p) (spend_body (snd p)) C of
             (None, C) \<Rightarrow> None
           | (Some u, C) \<Rightarrow> map_option (\<lambda>(us, C). (u # us, C)) (spend_inputs O1 skip ps C))"

text \<open>A tombstone for the burned coins of an import: an output of value zero with the script \<open>OP_0\<close>.\<close>

definition tombstone_body :: "int \<Rightarrow> CCoins \<Rightarrow> unit \<times> CCoins" where
  "tombstone_body nHeight c =
     ((), c\<lparr>cc_nHeight := nHeight, cc_nVersion := 4, cc_vout := cc_vout c @ [\<lparr>to_scriptPubKey = [0], to_nValue = 0\<rparr>]\<rparr>)"

definition AddImportTombstone :: "('b, 't) view_ops \<Rightarrow> coins_tx \<Rightarrow> int \<Rightarrow> ('b, 't) coins_cache \<Rightarrow> ('b, 't) coins_cache" where
  "AddImportTombstone O1 tx nHeight C = snd (modify_coins O1 (fst (tx_vin tx ! 0)) (tombstone_body nHeight) C)"

definition RemoveImportTombstone :: "('b, 't) view_ops \<Rightarrow> coins_tx \<Rightarrow> ('b, 't) coins_cache \<Rightarrow> ('b, 't) coins_cache" where
  "RemoveImportTombstone O1 tx C = snd (modify_coins O1 (fst (tx_vin tx ! 0)) (\<lambda>c. ((), Clear)) C)"

definition add_outputs :: "('b, 't) view_ops \<Rightarrow> coins_tx \<Rightarrow> int \<Rightarrow> ('b, 't) coins_cache \<Rightarrow> ('b, 't) coins_cache" where
  "add_outputs O1 tx nHeight C = snd (modify_coins O1 (tx_hash tx) (\<lambda>c. ((), FromTx tx nHeight)) C)"

definition UpdateCoins :: "('b, 't) view_ops \<Rightarrow> bool \<Rightarrow> coins_tx \<Rightarrow> int \<Rightarrow> ('b, 't) coins_cache \<Rightarrow> (CTxInUndo list \<times> ('b, 't) coins_cache) option" where
  "UpdateCoins O1 pegs tx nHeight C =
     map_option
       (\<lambda>(us, C). let C = add_outputs O1 tx nHeight (SetNullifiers tx True C)
                  in (us, if IsCoinImport tx \<or> IsPegsImport pegs tx then AddImportTombstone O1 tx nHeight C else C))
       (if \<not> IsMint tx then spend_inputs O1 (IsPegsImport pegs tx) (tx_vin tx) C else Some ([], C))"

section \<open>Taking transactions back\<close>

text \<open>The vector of outputs grows when the index is past its end. The index \<open>2^32 - 1\<close> would wrap in \<open>out.n+1\<close>; no output with undo data has it.\<close>

definition undo_body :: "CTxInUndo \<Rightarrow> u32 \<Rightarrow> CCoins \<Rightarrow> bool \<times> CCoins" where
  "undo_body u n c =
     (let (ok1, c1) = (if tu_nHeight u \<noteq> 0
                       then (IsPruned c, Clear\<lparr>fCoinBase := tu_fCoinBase u, cc_nHeight := tu_nHeight u, cc_nVersion := tu_nVersion u\<rparr>)
                       else (\<not> IsPruned c, c));
          ok2 = (\<not> IsAvailable c1 n);
          v = cc_vout c1 @ replicate (unat n + 1 - length (cc_vout c1)) null_txout
      in (ok1 \<and> ok2, c1\<lparr>cc_vout := v[unat n := tu_txout u]\<rparr>))"

definition ApplyTxInUndo :: "('b, 't) view_ops \<Rightarrow> CTxInUndo \<Rightarrow> uint256 \<times> u32 \<Rightarrow> ('b, 't) coins_cache \<Rightarrow> bool \<times> ('b, 't) coins_cache" where
  "ApplyTxInUndo O1 u out C = modify_coins O1 (fst out) (undo_body u (snd out)) C"

text \<open>The loop over the inputs, from the last to the first.\<close>

fun undo_inputs :: "('b, 't) view_ops \<Rightarrow> ((uint256 \<times> u32) \<times> CTxInUndo) list \<Rightarrow> ('b, 't) coins_cache \<Rightarrow> bool \<times> ('b, 't) coins_cache" where
  "undo_inputs O1 [] C = (True, C)"
| "undo_inputs O1 (x # xs) C =
     (case ApplyTxInUndo O1 (snd x) (fst x) C of (ok, C) \<Rightarrow> (case undo_inputs O1 xs C of (ok', C) \<Rightarrow> (ok \<and> ok', C)))"

definition outs_body :: "coins_tx \<Rightarrow> int \<Rightarrow> CCoins \<Rightarrow> bool \<times> CCoins" where
  "outs_body tx nHeight c =
     (let outs = ClearUnspendable c; outsBlock = FromTx tx nHeight;
          outs = (if cc_nVersion outsBlock < 0 then outs\<lparr>cc_nVersion := cc_nVersion outsBlock\<rparr> else outs)
      in (coins_eq outs outsBlock, Clear))"

text \<open>One transaction of the loop of \<open>DisconnectBlock\<close>; \<open>None\<close> is the error return on inconsistent undo data. For an import with further inputs a
  dummy is put in front of the undo data, and its first input is skipped.\<close>

definition disconnect_tx :: "('b, 't) view_ops \<Rightarrow> bool \<Rightarrow> int \<Rightarrow> coins_tx \<Rightarrow> CTxInUndo list \<Rightarrow> ('b, 't) coins_cache \<Rightarrow> (bool \<times> ('b, 't) coins_cache) option" where
  "disconnect_tx O1 pegs nHeight tx us C =
     (case modify_coins O1 (tx_hash tx) (outs_body tx nHeight) C of
        (ok, C) \<Rightarrow>
          let C = SetNullifiers tx False C
          in if \<not> IsMint tx
             then let n = (if IsPegsImport pegs tx then 1 else 0)
                  in if n + length us \<noteq> length (tx_vin tx) then None
                     else case undo_inputs O1 (rev (zip (drop n (tx_vin tx)) us)) C of (ok', C) \<Rightarrow> Some (ok \<and> ok', C)
             else Some (ok, if IsCoinImport tx \<or> IsPegsImport pegs tx then RemoveImportTombstone O1 tx C else C))"

section \<open>Blocks\<close>

text \<open>The loop of \<open>ConnectBlock\<close>: coins, undo data for all but the first transaction, and the tree of commitments.\<close>

fun connect_txs_coins :: "('b, 't) view_ops \<Rightarrow> (uint256 \<Rightarrow> 't \<Rightarrow> 't) \<Rightarrow> bool \<Rightarrow> int \<Rightarrow> coins_tx list \<Rightarrow> 't \<Rightarrow> ('b, 't) coins_cache
      \<Rightarrow> (CTxInUndo list list \<times> 't \<times> ('b, 't) coins_cache) option" where
  "connect_txs_coins O1 appendcm pegs nHeight [] tree C = Some ([], tree, C)"
| "connect_txs_coins O1 appendcm pegs nHeight (tx # txs) tree C =
     (case UpdateCoins O1 pegs tx nHeight C of
        None \<Rightarrow> None
      | Some (us, C) \<Rightarrow>
          map_option (\<lambda>(uss, r). (us # uss, r))
            (connect_txs_coins O1 appendcm pegs nHeight txs (fold appendcm (ct_vShieldedOutput tx) tree) C))"

definition connect_coins :: "('b, 't) view_ops \<Rightarrow> ('t \<Rightarrow> uint256) \<Rightarrow> (uint256 \<Rightarrow> 't \<Rightarrow> 't) \<Rightarrow> bool \<Rightarrow> uint256 \<Rightarrow> int \<Rightarrow> coins_tx list \<Rightarrow> ('b, 't) coins_cache
      \<Rightarrow> (CTxInUndo list list \<times> ('b, 't) coins_cache) option" where
  "connect_coins O1 root appendcm pegs hash nHeight vtx C =
     (case GetBestAnchor O1 C of
        (rt, C) \<Rightarrow>
          (case GetSaplingAnchorAt O1 C rt of
             (None, C) \<Rightarrow> None
           | (Some tree, C) \<Rightarrow>
               map_option (\<lambda>(uss, tree, C). (tl uss, SetBestBlock hash (PushAnchor O1 root tree C)))
                 (connect_txs_coins O1 appendcm pegs nHeight vtx tree C)))"

text \<open>The loop of \<open>DisconnectBlock\<close> goes from the last transaction to the first.\<close>

fun disconnect_txs :: "('b, 't) view_ops \<Rightarrow> bool \<Rightarrow> int \<Rightarrow> (coins_tx \<times> CTxInUndo list) list \<Rightarrow> ('b, 't) coins_cache \<Rightarrow> (bool \<times> ('b, 't) coins_cache) option" where
  "disconnect_txs O1 pegs nHeight [] C = Some (True, C)"
| "disconnect_txs O1 pegs nHeight (x # xs) C =
     (case disconnect_tx O1 pegs nHeight (fst x) (snd x) C of
        None \<Rightarrow> None
      | Some (ok, C) \<Rightarrow> map_option (\<lambda>(ok', C). (ok \<and> ok', C)) (disconnect_txs O1 pegs nHeight xs C))"

text \<open>\<open>DisconnectBlock\<close> on the view: \<open>prevHash\<close> and \<open>prevRoot\<close> come from the index entry of the previous block. The first transaction has no undo data; it must be a
  mint. \<open>None\<close> is an error return or a failed assertion.\<close>

definition disconnect_coins :: "('b, 't) view_ops \<Rightarrow> bool \<Rightarrow> uint256 \<Rightarrow> int \<Rightarrow> uint256 \<Rightarrow> uint256 \<Rightarrow> coins_tx list \<Rightarrow> CTxInUndo list list \<Rightarrow> ('b, 't) coins_cache
      \<Rightarrow> (bool \<times> ('b, 't) coins_cache) option" where
  "disconnect_coins O1 pegs hash nHeight prevHash prevRoot vtx vtxundo C =
     (case GetBestBlock O1 C of
        (h, C) \<Rightarrow>
          if h \<noteq> hash \<or> length vtxundo + 1 \<noteq> length vtx then None
          else case disconnect_txs O1 pegs nHeight (rev (zip vtx ([] # vtxundo))) C of
                 None \<Rightarrow> None
               | Some (ok, C) \<Rightarrow> map_option (\<lambda>C. (ok, SetBestBlock prevHash C)) (PopAnchor O1 prevRoot C))"

section \<open>Spending one output and putting it back\<close>

lemma spend_body_Some:
  "spend_body n c = (Some u, c') \<Longrightarrow>
     IsAvailable c n \<and> c' = Cleanup (c\<lparr>cc_vout := (cc_vout c)[unat n := null_txout]\<rparr>) \<and> tu_txout u = cc_vout c ! unat n \<and>
     (if cc_vout c' = [] then tu_fCoinBase u = fCoinBase c \<and> tu_nHeight u = cc_nHeight c \<and> tu_nVersion u = cc_nVersion c else tu_nHeight u = 0)"
  by (auto simp: spend_body_def Spend_def Let_def split: if_splits)

text \<open>The heart of the undo: putting an output back restores the vector, whatever was cut from its end.\<close>

lemma restored_vout:
  assumes "coins_ok c" "IsAvailable c n" "w = (cc_vout c)[unat n := null_txout]"
  shows "(drop_null w @ replicate (unat n + 1 - length (drop_null w)) null_txout)[unat n := cc_vout c ! unat n] = cc_vout c"
proof -
  let ?v = "cc_vout c" and ?n = "unat n"
  have n: "?n < length ?v" and canon: "\<And>i. i < length ?v \<Longrightarrow> txout_IsNull (?v ! i) \<Longrightarrow> ?v ! i = null_txout"
    using assms(1,2) by (auto simp: IsAvailable_def coins_ok_def coins_raw_def)
  have lw: "length w = length ?v" and wn: "w ! ?n = null_txout" "\<And>i. i \<noteq> ?n \<Longrightarrow> w ! i = ?v ! i"
    using n by (simp_all add: assms(3))
  have last: "\<not> txout_IsNull (?v ! (length ?v - 1))"
    using drop_null_last [of ?v] coins_ok_vout [OF assms(1)] n by (cases ?v) (auto simp: last_conv_nth)
  have len: "if ?n = length ?v - 1 then length (drop_null w) \<le> ?n else length (drop_null w) = length ?v"
  proof (cases "?n = length ?v - 1")
    case True
    have "\<not> length (drop_null w) = length ?v"
    proof
      assume *: "length (drop_null w) = length ?v"
      then have "drop_null w \<noteq> []" "last (drop_null w) = w ! ?n"
        using n True drop_null_nth [of ?n w] by (auto simp: last_conv_nth [of "drop_null w"] simp flip: length_greater_0_conv)
      then show False
        using drop_null_last [of w] wn(1) by simp
    qed
    then show ?thesis
      using True drop_null_length [of w] lw by simp
  next
    case False
    have "length ?v - 1 < length ?v"
      using n by simp
    then have "\<not> length (drop_null w) \<le> length ?v - 1"
      using drop_null_rest [of w "length ?v - 1"] lw wn(2) [of "length ?v - 1"] False last by fastforce
    then show ?thesis
      using False drop_null_length [of w] lw by simp
  qed
  show ?thesis
  proof (rule nth_equalityI)
    show "length ((drop_null w @ replicate (?n + 1 - length (drop_null w)) null_txout)[?n := ?v ! ?n]) = length ?v"
      using len n by (auto split: if_splits)
    fix i
    assume "i < length ((drop_null w @ replicate (?n + 1 - length (drop_null w)) null_txout)[?n := ?v ! ?n])"
    then have i: "i < length ?v" "i < length (drop_null w) \<or> i < ?n + 1"
      using len n by (auto split: if_splits)
    show "(drop_null w @ replicate (?n + 1 - length (drop_null w)) null_txout)[?n := ?v ! ?n] ! i = ?v ! i"
    proof (cases "i = ?n \<or> i < length (drop_null w)")
      case True
      then show ?thesis
        using n i wn(2) [of i] drop_null_nth [of i w] by (cases "i = ?n") (auto simp: nth_append)
    next
      case False
      then have "txout_IsNull (?v ! i)"
        using drop_null_rest [of w i] i(1) lw wn(2) [of i] by simp
      moreover have "i - length (drop_null w) < ?n + 1 - length (drop_null w)"
        using False i by linarith
      ultimately show ?thesis
        using False i canon [of i] by (simp add: nth_append)
    qed
  qed
qed

lemma spend_undo:
  assumes "coins_ok c" "spend_body n c = (Some u, c')" "norm d = norm c'"
  shows "undo_body u n d = (True, c)"
proof -
  let ?w = "(cc_vout c)[unat n := null_txout]"
  have s: "IsAvailable c n" "c' = Cleanup (c\<lparr>cc_vout := ?w\<rparr>)" "tu_txout u = cc_vout c ! unat n"
    "if cc_vout c' = [] then tu_fCoinBase u = fCoinBase c \<and> tu_nHeight u = cc_nHeight c \<and> tu_nVersion u = cc_nVersion c else tu_nHeight u = 0"
    using spend_body_Some [OF assms(2)] by simp_all
  have v': "cc_vout c' = drop_null ?w"
    by (simp add: s(2))
  have h: "cc_nHeight c \<noteq> 0"
    using assms(1) s(1) by (auto simp: coins_ok_def coins_raw_def IsPruned_def IsAvailable_def list_all_length)
  have restored: "(drop_null ?w @ replicate (unat n + 1 - length (drop_null ?w)) null_txout)[unat n := cc_vout c ! unat n] = cc_vout c"
    using restored_vout [OF assms(1) s(1) refl] .
  have pruned: "IsPruned c' \<longleftrightarrow> drop_null ?w = []"
    by (simp add: IsPruned_vout v')
  show ?thesis
  proof (cases "drop_null ?w = []")
    case True
    then have "IsPruned d" and "tu_nHeight u \<noteq> 0" "tu_fCoinBase u = fCoinBase c" "tu_nHeight u = cc_nHeight c" "tu_nVersion u = cc_nVersion c"
      using assms(3) pruned s(4) v' h by (auto simp: norm_def split: if_splits)
    moreover have "\<not> IsAvailable (Clear\<lparr>fCoinBase := x, cc_nHeight := y, cc_nVersion := z\<rparr>) n" for x y z
      by (simp add: IsAvailable_def Clear_def)
    ultimately show ?thesis
      using restored True s(3) by (simp add: undo_body_def Clear_def)
  next
    case False
    then have d: "d = c'" "\<not> IsPruned c'" "tu_nHeight u = 0"
      using assms(3) pruned s(4) v' by (auto simp: norm_def split: if_splits)
    have "\<not> IsAvailable c' n"
      using drop_null_nth [of "unat n" ?w] s(1) by (auto simp: IsAvailable_def v')
    moreover have "c'\<lparr>cc_vout := cc_vout c\<rparr> = c"
      by (simp add: s(2) Cleanup_def)
    ultimately show ?thesis
      using d restored s(3) v' by (simp add: undo_body_def)
  qed
qed

lemma spend_body_ok: "coins_ok c \<Longrightarrow> spend_body n c = (r, c') \<Longrightarrow> coins_raw c'"
proof -
  assume c: "coins_ok c" "spend_body n c = (r, c')"
  show ?thesis
  proof (cases r)
    case None
    then show ?thesis
      using c by (auto simp: spend_body_def Let_def coins_ok_def split: if_splits)
  next
    case (Some u)
    then have "c' = Cleanup (c\<lparr>cc_vout := (cc_vout c)[unat n := null_txout]\<rparr>)" "IsAvailable c n"
      using spend_body_Some c(2) by blast+
    moreover have "coins_raw (c\<lparr>cc_vout := (cc_vout c)[unat n := null_txout]\<rparr>)"
      using c(1) \<open>IsAvailable c n\<close> set_update_subset_insert [of "cc_vout c" "unat n" null_txout]
      by (auto simp: coins_ok_def coins_raw_def IsPruned_def IsAvailable_def list_all_length)
    ultimately show ?thesis
      using coins_ok_Cleanup coins_ok_def by blast
  qed
qed

lemma ClearUnspendable_idem: "ClearUnspendable (ClearUnspendable c) = ClearUnspendable c"
proof -
  let ?f = "\<lambda>t. if IsUnspendable (to_scriptPubKey t) then null_txout else t"
  have f: "?f (?f t) = ?f t" for t
    by (simp add: null_txout_def IsUnspendable_def)
  then have "map ?f (drop_null (map ?f v)) = drop_null (map ?f v)" for v
    using drop_null_set [of "map ?f v"] by (intro map_idI) force
  then show ?thesis
    by (simp add: ClearUnspendable_def Cleanup_def)
qed

lemma ClearUnspendable_pruned: "IsPruned c \<Longrightarrow> IsPruned (ClearUnspendable c)"
  by (simp add: ClearUnspendable_def) (auto simp: IsPruned_def list_all_iff)

definition tx_ok :: "coins_tx \<Rightarrow> bool" where
  "tx_ok tx \<longleftrightarrow> (\<forall>t \<in> set (tx_vout tx). \<not> txout_IsNull t)"

lemma FromTx_ok: "tx_ok tx \<Longrightarrow> h \<noteq> 0 \<Longrightarrow> coins_ok (FromTx tx h)"
  unfolding FromTx_def ClearUnspendable_def by (rule coins_ok_Cleanup) (auto simp: coins_raw_def tx_ok_def split: if_splits)

lemma outs_restored: "norm d = norm (FromTx tx h) \<Longrightarrow> outs_body tx h d = (True, Clear)"
proof (cases "IsPruned (FromTx tx h)")
  case True
  moreover assume "norm d = norm (FromTx tx h)"
  ultimately have "IsPruned (ClearUnspendable d)"
    using ClearUnspendable_pruned by (simp add: norm_def split: if_splits)
  then show ?thesis
    using True by (simp add: outs_body_def Let_def coins_eq_def IsPruned_def)
next
  case False
  moreover assume "norm d = norm (FromTx tx h)"
  ultimately have "d = FromTx tx h"
    by (simp add: norm_def split: if_splits)
  then show ?thesis
    by (simp add: outs_body_def Let_def coins_eq_def FromTx_def ClearUnspendable_idem)
qed

section \<open>Undoing transactions and blocks\<close>

text \<open>What a transaction adds keys for: its outputs, and the tombstone of a coin import.\<close>

definition new_keys :: "coins_tx \<Rightarrow> uint256 list" where
  "new_keys tx = tx_hash tx # (if IsCoinImport tx then [fst (tx_vin tx ! 0)] else [])"

definition spent_nullifiers :: "coins_tx \<Rightarrow> uint256 list" where
  "spent_nullifiers tx = map fst (ct_vShieldedSpend tx)"

definition unavailable :: "(uint256 \<Rightarrow> CCoins option) \<Rightarrow> uint256 \<times> u32 \<Rightarrow> bool" where
  "unavailable U p \<longleftrightarrow> (case U (fst p) of Some c \<Rightarrow> \<not> IsAvailable c (snd p) | None \<Rightarrow> True)"

definition tx_fresh :: "bool \<Rightarrow> aview \<Rightarrow> coins_tx \<Rightarrow> bool" where
  "tx_fresh pegs A tx \<longleftrightarrow>
     tx_ok tx \<and> \<not> IsPegsImport pegs tx \<and> distinct (new_keys tx) \<and> (\<forall>k \<in> set (new_keys tx). av_coins A k = None) \<and>
     (\<forall>n \<in> set (spent_nullifiers tx). \<not> av_null A n)"

text \<open>Two views that agree but for the coins.\<close>

definition coins_only :: "aview \<Rightarrow> aview \<Rightarrow> bool" where
  "coins_only A B \<longleftrightarrow> av_null B = av_null A \<and> av_anchors B = av_anchors A \<and> av_block B = av_block A \<and> av_root B = av_root A"

text \<open>The transactions of a block: their keys and nullifiers are new and different.\<close>

definition block_fresh :: "bool \<Rightarrow> aview \<Rightarrow> coins_tx list \<Rightarrow> bool" where
  "block_fresh pegs A txs \<longleftrightarrow>
     (\<forall>tx \<in> set txs. tx_fresh pegs A tx) \<and> distinct (concat (map new_keys txs)) \<and> distinct (concat (map spent_nullifiers txs))"

lemma block_fresh_hd: "block_fresh pegs A (tx # txs) \<Longrightarrow> tx_fresh pegs A tx"
  by (simp add: block_fresh_def)

lemma block_fresh_tl:
  "block_fresh pegs A (tx # txs) \<Longrightarrow> \<forall>k. k \<notin> set (new_keys tx) \<longrightarrow> av_coins A k = None \<longrightarrow> av_coins B k = None \<Longrightarrow>
   \<forall>k. av_null B k = (k \<in> set (spent_nullifiers tx) \<or> av_null A k) \<Longrightarrow> block_fresh pegs B txs"
  unfolding block_fresh_def tx_fresh_def by (simp add: disjoint_iff) blast

text \<open>The inputs that must be unspent: none of a mint, all but the first of an import on a chain with pegs.\<close>

definition checked_inputs :: "bool \<Rightarrow> coins_tx \<Rightarrow> (uint256 \<times> u32) list" where
  "checked_inputs pegs tx = (if IsMint tx then [] else drop (if IsPegsImport pegs tx then 1 else 0) (tx_vin tx))"

lemma norm_available: "coins_ok c \<Longrightarrow> norm c = U (fst p) \<Longrightarrow> \<not> IsAvailable c (snd p) \<Longrightarrow> unavailable U p"
  by (auto simp: unavailable_def norm_def split: option.splits if_splits)

lemma spent_unavailable:
  assumes "spend_body n c = (Some u, c')"
  shows "\<not> IsAvailable c' n"
proof -
  let ?w = "(cc_vout c)[unat n := null_txout]"
  have "cc_vout c' = drop_null ?w" "unat n < length (cc_vout c)"
    using spend_body_Some [OF assms] by (auto simp: IsAvailable_def)
  then show ?thesis
    using drop_null_nth [of "unat n" ?w] by (auto simp: IsAvailable_def)
qed

lemma spend_other:
  assumes "spend_body n c = (Some u, c')" "IsAvailable c j" "j \<noteq> n"
  shows "IsAvailable c' j"
proof -
  let ?w = "(cc_vout c)[unat n := null_txout]"
  have v: "cc_vout c' = drop_null ?w"
    using spend_body_Some [OF assms(1)] by simp
  have j: "unat j < length ?w" "\<not> txout_IsNull (?w ! unat j)"
    using assms(2,3) by (auto simp: IsAvailable_def word_unat_eq_iff)
  then have "unat j < length (drop_null ?w)"
    using drop_null_rest [of ?w "unat j"] by (meson not_le)
  then show ?thesis
    using j(2) drop_null_nth [of "unat j" ?w] by (simp add: IsAvailable_def v)
qed

lemma spent_stays:
  assumes "spend_body n c = (Some u, c')" "\<not> IsAvailable c j"
  shows "\<not> IsAvailable c' j"
proof -
  let ?w = "(cc_vout c)[unat n := null_txout]"
  have "cc_vout c' = drop_null ?w" "unat n < length (cc_vout c)"
    using spend_body_Some [OF assms(1)] by (auto simp: IsAvailable_def)
  then show ?thesis
    using assms(2) drop_null_nth [of "unat j" ?w] drop_null_length [of ?w]
    by (cases "unat j = unat n") (auto simp: IsAvailable_def)
qed

context coins_view
begin

lemma undo_inputs_append:
  "undo_inputs O1 (xs @ ys) C = (case undo_inputs O1 xs C of (ok, C) \<Rightarrow> (case undo_inputs O1 ys C of (ok', C) \<Rightarrow> (ok \<and> ok', C)))"
  by (induction xs arbitrary: C) (auto split: prod.splits)

lemma spend_one:
  assumes inv: "cache_inv vinv absf held root er C" and m: "modify_coins O1 k (spend_body n) C = (Some u, C1)"
  obtains c c' where "coins_ok c" "norm c = av_coins (cache_abs absf C) k" "spend_body n c = (Some u, c')" "IsAvailable c n"
    "cache_inv vinv absf held root er C1"
    "cache_abs absf C1 = (cache_abs absf C)\<lparr>av_coins := (av_coins (cache_abs absf C))(k := norm c')\<rparr>"
proof -
  have raw: "coins_raw (snd (spend_body n c))" if "coins_ok c" for c
    using spend_body_ok [OF that] by (metis prod.collapse)
  obtain c where c: "coins_ok c" "norm c = av_coins (cache_abs absf C) k" "Some u = fst (spend_body n c)" "cache_inv vinv absf held root er C1"
    "cache_abs absf C1 = (cache_abs absf C)\<lparr>av_coins := (av_coins (cache_abs absf C))(k := norm (Cleanup (snd (spend_body n c))))\<rparr>"
    using modify_view [OF inv m] raw by blast
  obtain c' where c': "spend_body n c = (Some u, c')"
    using c(3) by (metis prod.collapse)
  moreover have "Cleanup c' = c'" "IsAvailable c n"
    using spend_body_Some [OF c'] by simp_all
  ultimately show thesis
    using that [OF c(1,2) c'] c(4,5) by simp
qed

lemma undo_one:
  assumes inv: "cache_inv vinv absf held root er D" and c: "coins_ok c" "spend_body n c = (Some u, c')" "norm c' = av_coins (cache_abs absf D) k"
  shows "\<exists>D'. ApplyTxInUndo O1 u (k, n) D = (True, D') \<and> cache_inv vinv absf held root er D' \<and>
    cache_abs absf D' = (cache_abs absf D)\<lparr>av_coins := (av_coins (cache_abs absf D))(k := norm c)\<rparr>"
proof -
  obtain r D' where m: "modify_coins O1 k (undo_body u n) D = (r, D')"
    by (cases "modify_coins O1 k (undo_body u n) D")
  have undo: "undo_body u n d = (True, c)" if "norm d = av_coins (cache_abs absf D) k" for d
    using spend_undo [OF c(1,2)] that c(3) by simp
  have c0: "coins_raw c" "Cleanup c = c"
    using c(1) by (simp_all add: coins_ok_def)
  then have raw: "coins_raw (snd (undo_body u n d))" if "norm d = av_coins (cache_abs absf D) k" for d
    using undo [OF that] by simp
  obtain d where d: "norm d = av_coins (cache_abs absf D) k" "r = fst (undo_body u n d)" "cache_inv vinv absf held root er D'"
    "cache_abs absf D' = (cache_abs absf D)\<lparr>av_coins := (av_coins (cache_abs absf D))(k := norm (Cleanup (snd (undo_body u n d))))\<rparr>"
    using modify_view [OF inv m raw] by blast
  then show ?thesis
    using undo [OF d(1)] m c0(2) by (simp add: ApplyTxInUndo_def)
qed

lemma spend_inputs_undo:
  "cache_inv vinv absf held root er C \<Longrightarrow> spend_inputs O1 False ps C = Some (us, C') \<Longrightarrow>
     cache_inv vinv absf held root er C' \<and> length us = length ps \<and>
     coins_only (cache_abs absf C) (cache_abs absf C') \<and>
     (\<forall>k. av_coins (cache_abs absf C) k = None \<longrightarrow> av_coins (cache_abs absf C') k = None) \<and>
     (\<forall>p \<in> set ps. av_coins (cache_abs absf C) (fst p) \<noteq> None \<and> unavailable (av_coins (cache_abs absf C')) p) \<and>
     (\<forall>p. unavailable (av_coins (cache_abs absf C)) p \<longrightarrow> unavailable (av_coins (cache_abs absf C')) p) \<and>
     (\<forall>D. cache_inv vinv absf held root er D \<and> av_coins (cache_abs absf D) = av_coins (cache_abs absf C') \<longrightarrow>
        (\<exists>D'. undo_inputs O1 (rev (zip ps us)) D = (True, D') \<and> cache_inv vinv absf held root er D' \<and>
           cache_abs absf D' = (cache_abs absf D)\<lparr>av_coins := av_coins (cache_abs absf C)\<rparr>))"
proof (induction ps arbitrary: C us)
  case Nil
  then show ?case
    by (auto simp: coins_only_def intro!: aview_eqI)
next
  case (Cons p ps)
  obtain k n where p: "p = (k, n)"
    by (cases p)
  obtain u C1 us1 where m: "modify_coins O1 k (spend_body n) C = (Some u, C1)" "spend_inputs O1 False ps C1 = Some (us1, C')" "us = u # us1"
    using Cons.prems(2) p by (auto split: prod.splits option.splits)
  obtain c c' where c: "coins_ok c" "norm c = av_coins (cache_abs absf C) k" "spend_body n c = (Some u, c')" "IsAvailable c n"
    "cache_inv vinv absf held root er C1"
    "cache_abs absf C1 = (cache_abs absf C)\<lparr>av_coins := (av_coins (cache_abs absf C))(k := norm c')\<rparr>"
    using spend_one [OF Cons.prems(1) m(1)] .
  let ?U = "av_coins (cache_abs absf C)" and ?U1 = "av_coins (cache_abs absf C1)" and ?U' = "av_coins (cache_abs absf C')"
  note IH = Cons.IH [OF c(5) m(2)]
  have Uk: "?U k = Some c"
    using c(2,4) by (auto simp: norm_def IsPruned_def IsAvailable_def list_all_length split: if_splits)
  have U1: "?U1 = ?U(k := norm c')"
    using c(6) by simp
  have un: "unavailable ?U1 q" if "unavailable ?U q \<or> q = p" for q
    using that Uk U1 p spent_stays [OF c(3), of "snd q"] spent_unavailable [OF c(3)]
    by (cases q; cases "fst q = k") (auto simp: unavailable_def norm_def split: option.splits)
  have undo: "\<exists>D'. undo_inputs O1 (rev (zip (p # ps) us)) D = (True, D') \<and> cache_inv vinv absf held root er D' \<and>
      cache_abs absf D' = (cache_abs absf D)\<lparr>av_coins := ?U\<rparr>"
    if D: "cache_inv vinv absf held root er D" "av_coins (cache_abs absf D) = ?U'" for D
  proof -
    obtain D1 where D1: "undo_inputs O1 (rev (zip ps us1)) D = (True, D1)" "cache_inv vinv absf held root er D1"
      "cache_abs absf D1 = (cache_abs absf D)\<lparr>av_coins := ?U1\<rparr>"
      using IH D by blast
    have "norm c' = av_coins (cache_abs absf D1) k"
      using D1(3) U1 by simp
    then obtain D2 where D2: "ApplyTxInUndo O1 u (k, n) D1 = (True, D2)" "cache_inv vinv absf held root er D2"
      "cache_abs absf D2 = (cache_abs absf D1)\<lparr>av_coins := (av_coins (cache_abs absf D1))(k := norm c)\<rparr>"
      using undo_one [OF D1(2) c(1,3)] by blast
    have "(?U(k := norm c'))(k := norm c) = ?U"
      using c(2) by auto
    then have "cache_abs absf D2 = (cache_abs absf D)\<lparr>av_coins := ?U\<rparr>"
      using D2(3) D1(3) U1 by simp
    then show ?thesis
      using D1(1) D2(1,2) m(3) p by (simp add: undo_inputs_append)
  qed
  show ?case
  proof (intro conjI)
    show "\<forall>q \<in> set (p # ps). ?U (fst q) \<noteq> None \<and> unavailable ?U' q"
    proof
      fix q
      assume "q \<in> set (p # ps)"
      then have q: "q = p \<or> q \<in> set ps"
        by simp
      then have "unavailable ?U' q"
        using IH un [of p] by blast
      moreover have "?U (fst q) \<noteq> None"
      proof (cases "fst q = k")
        case False
        then have "?U1 (fst q) \<noteq> None"
          using q IH p by auto
        then show ?thesis
          using False U1 by simp
      qed (simp add: Uk)
      ultimately show "?U (fst q) \<noteq> None \<and> unavailable ?U' q"
        by blast
    qed
    show "coins_only (cache_abs absf C) (cache_abs absf C')"
      using IH c(6) by (simp add: coins_only_def)
    show "\<forall>j. ?U j = None \<longrightarrow> ?U' j = None"
      using IH Uk U1 by (metis fun_upd_apply option.distinct(1))
    show "\<forall>q. unavailable ?U q \<longrightarrow> unavailable ?U' q"
      using IH un by blast
  qed (use IH undo m(3) in \<open>simp_all\<close>)
qed

lemma set_nullifiers_view:
  assumes "cache_inv vinv absf held root er C"
  shows "cache_inv vinv absf held root er (SetNullifiers tx b C) \<and>
    cache_abs absf (SetNullifiers tx b C) =
      (cache_abs absf C)\<lparr>av_null := (\<lambda>k. if k \<in> set (spent_nullifiers tx) then b else av_null (cache_abs absf C) k)\<rparr>"
proof -
  have "cache_inv vinv absf held root er (C\<lparr>cacheSaplingNullifiers := fold (\<lambda>s. AList.update (fst s) \<lparr>nf_entered = b, nf_dirty = True\<rparr>) ss (cacheSaplingNullifiers C)\<rparr>) \<and>
    cache_abs absf (C\<lparr>cacheSaplingNullifiers := fold (\<lambda>s. AList.update (fst s) \<lparr>nf_entered = b, nf_dirty = True\<rparr>) ss (cacheSaplingNullifiers C)\<rparr>) =
      (cache_abs absf C)\<lparr>av_null := (\<lambda>k. if k \<in> fst ` set ss then b else av_null (cache_abs absf C) k)\<rparr>" for ss :: "(uint256 \<times> uint256) list"
    using assms
  proof (induction ss arbitrary: C)
    case Nil
    then show ?case
      by (auto intro!: aview_eqI)
  next
    case (Cons s ss)
    let ?e = "\<lparr>nf_entered = b, nf_dirty = True\<rparr>"
    let ?C = "C\<lparr>cacheSaplingNullifiers := AList.update (fst s) ?e (cacheSaplingNullifiers C)\<rparr>"
    have C: "cache_inv vinv absf held root er ?C"
      "cache_abs absf ?C = (cache_abs absf C)\<lparr>av_null := (av_null (cache_abs absf C))(fst s := b)\<rparr>"
      using cache_inv_nf [OF Cons.prems, of ?e "fst s"] by simp_all
    have "(cache_abs absf ?C)\<lparr>av_null := (\<lambda>k. if k \<in> fst ` set ss then b else av_null (cache_abs absf ?C) k)\<rparr> =
        (cache_abs absf C)\<lparr>av_null := (\<lambda>k. if k \<in> fst ` set (s # ss) then b else av_null (cache_abs absf C) k)\<rparr>"
      unfolding C(2) by (rule aview_eqI) auto
    then show ?case
      using Cons.IH [OF C(1)] by simp
  qed
  from this [of "ct_vShieldedSpend tx"] show ?thesis
    by (simp add: SetNullifiers_def spent_nullifiers_def)
qed

lemma set_coins_view:
  assumes "cache_inv vinv absf held root er C" "modify_coins O1 k (\<lambda>c. (f c, d)) C = (r, C')" "coins_ok d"
  shows "cache_inv vinv absf held root er C' \<and> cache_abs absf C' = (cache_abs absf C)\<lparr>av_coins := (av_coins (cache_abs absf C))(k := norm d)\<rparr>"
proof -
  have "coins_raw d" "Cleanup d = d"
    using assms(3) by (simp_all add: coins_ok_def)
  then show ?thesis
    using modify_view [OF assms(1,2)] by (metis snd_conv)
qed

lemma add_outputs_view:
  assumes "cache_inv vinv absf held root er C" "tx_ok tx" "h \<noteq> 0"
  shows "cache_inv vinv absf held root er (add_outputs O1 tx h C) \<and>
    cache_abs absf (add_outputs O1 tx h C) = (cache_abs absf C)\<lparr>av_coins := (av_coins (cache_abs absf C))(tx_hash tx := norm (FromTx tx h))\<rparr>"
  using set_coins_view [OF assms(1) prod.collapse [symmetric] FromTx_ok [OF assms(2,3)]] by (simp add: add_outputs_def)

lemma tombstone_view:
  assumes "cache_inv vinv absf held root er C" "av_coins (cache_abs absf C) (fst (tx_vin tx ! 0)) = None" "h \<noteq> 0"
  shows "cache_inv vinv absf held root er (AddImportTombstone O1 tx h C) \<and>
    (\<exists>x. cache_abs absf (AddImportTombstone O1 tx h C) = (cache_abs absf C)\<lparr>av_coins := (av_coins (cache_abs absf C))(fst (tx_vin tx ! 0) := x)\<rparr>)"
proof -
  let ?k = "fst (tx_vin tx ! 0)"
  obtain r C' where m: "modify_coins O1 ?k (tombstone_body h) C = (r, C')"
    by (cases "modify_coins O1 ?k (tombstone_body h) C")
  have raw: "coins_raw (snd (tombstone_body h c))" if "coins_ok c" for c
    using that assms(3) by (auto simp: coins_ok_def coins_raw_def tombstone_body_def txout_IsNull_def)
  show ?thesis
    using modify_view [OF assms(1) m] raw m unfolding AddImportTombstone_def by (metis snd_conv)
qed

lemma outs_view:
  assumes "cache_inv vinv absf held root er D" "av_coins (cache_abs absf D) (tx_hash tx) = norm (FromTx tx h)"
  shows "\<exists>D1. modify_coins O1 (tx_hash tx) (outs_body tx h) D = (True, D1) \<and> cache_inv vinv absf held root er D1 \<and>
    cache_abs absf D1 = (cache_abs absf D)\<lparr>av_coins := (av_coins (cache_abs absf D))(tx_hash tx := None)\<rparr>"
proof -
  obtain r D1 where m: "modify_coins O1 (tx_hash tx) (outs_body tx h) D = (r, D1)"
    by (cases "modify_coins O1 (tx_hash tx) (outs_body tx h) D")
  have outs: "outs_body tx h d = (True, Clear)" if "norm d = av_coins (cache_abs absf D) (tx_hash tx)" for d
    using outs_restored that assms(2) by simp
  obtain d where d: "norm d = av_coins (cache_abs absf D) (tx_hash tx)" "r = fst (outs_body tx h d)" "cache_inv vinv absf held root er D1"
    "cache_abs absf D1 = (cache_abs absf D)\<lparr>av_coins := (av_coins (cache_abs absf D))(tx_hash tx := norm (Cleanup (snd (outs_body tx h d))))\<rparr>"
    using modify_view [OF assms(1) m] outs by (metis Clear_pruned(3) snd_conv)
  then show ?thesis
    using outs [OF d(1)] m by (simp add: norm_def)
qed

text \<open>The inputs of a transaction, whether it has some or is a mint.\<close>

lemma spend_phase:
  assumes inv: "cache_inv vinv absf held root er C"
    and sp: "(if \<not> IsMint tx then spend_inputs O1 False (tx_vin tx) C else Some ([], C)) = Some (us, C1)"
  shows "cache_inv vinv absf held root er C1 \<and> coins_only (cache_abs absf C) (cache_abs absf C1) \<and>
     (\<forall>k. av_coins (cache_abs absf C) k = None \<longrightarrow> av_coins (cache_abs absf C1) k = None) \<and>
     (\<not> IsMint tx \<longrightarrow> length us = length (tx_vin tx) \<and>
        (\<forall>p \<in> set (tx_vin tx). av_coins (cache_abs absf C) (fst p) \<noteq> None \<and> unavailable (av_coins (cache_abs absf C1)) p)) \<and>
     (IsMint tx \<longrightarrow> us = [] \<and> C1 = C) \<and>
     (\<forall>D. cache_inv vinv absf held root er D \<and> av_coins (cache_abs absf D) = av_coins (cache_abs absf C1) \<longrightarrow>
        (\<exists>D'. (if \<not> IsMint tx then undo_inputs O1 (rev (zip (tx_vin tx) us)) D = (True, D') else D' = D) \<and> cache_inv vinv absf held root er D' \<and>
           cache_abs absf D' = (cache_abs absf D)\<lparr>av_coins := av_coins (cache_abs absf C)\<rparr>))"
proof (cases "IsMint tx")
  case True
  then show ?thesis
    using sp inv by (auto simp: coins_only_def intro!: aview_eqI)
next
  case False
  then show ?thesis
    using spend_inputs_undo [OF inv, of "tx_vin tx" us C1] sp by auto
qed

lemma update_forward:
  assumes inv: "cache_inv vinv absf held root er C" and upd: "UpdateCoins O1 pegs tx h C = Some (us, C')"
    and fresh: "tx_fresh pegs (cache_abs absf C) tx" and h: "h \<noteq> 0"
  obtains C1 x where "(if \<not> IsMint tx then spend_inputs O1 False (tx_vin tx) C else Some ([], C)) = Some (us, C1)"
    "cache_inv vinv absf held root er C'"
    "av_coins (cache_abs absf C') = ((av_coins (cache_abs absf C1))(tx_hash tx := norm (FromTx tx h)))
        (if IsCoinImport tx then fst (tx_vin tx ! 0) else tx_hash tx := if IsCoinImport tx then x else norm (FromTx tx h))"
    "av_null (cache_abs absf C') = (\<lambda>k. if k \<in> set (spent_nullifiers tx) then True else av_null (cache_abs absf C) k)"
    "av_anchors (cache_abs absf C') = av_anchors (cache_abs absf C)" "av_block (cache_abs absf C') = av_block (cache_abs absf C)"
    "av_root (cache_abs absf C') = av_root (cache_abs absf C)"
proof -
  have pegs: "IsPegsImport pegs tx = False"
    using fresh by (simp add: tx_fresh_def)
  obtain C1 where C1: "(if \<not> IsMint tx then spend_inputs O1 False (tx_vin tx) C else Some ([], C)) = Some (us, C1)"
    "C' = (let D = add_outputs O1 tx h (SetNullifiers tx True C1) in if IsCoinImport tx then AddImportTombstone O1 tx h D else D)"
    using upd unfolding UpdateCoins_def pegs by (auto simp: Let_def)
  note S = spend_phase [OF inv C1(1)]
  let ?C2 = "SetNullifiers tx True C1"
  have C2: "cache_inv vinv absf held root er ?C2"
    "cache_abs absf ?C2 = (cache_abs absf C1)\<lparr>av_null := (\<lambda>k. if k \<in> set (spent_nullifiers tx) then True else av_null (cache_abs absf C1) k)\<rparr>"
    using set_nullifiers_view [of C1 tx True] S by blast+
  let ?C3 = "add_outputs O1 tx h ?C2"
  have C3: "cache_inv vinv absf held root er ?C3"
    "cache_abs absf ?C3 = (cache_abs absf ?C2)\<lparr>av_coins := (av_coins (cache_abs absf ?C2))(tx_hash tx := norm (FromTx tx h))\<rparr>"
    using add_outputs_view [OF C2(1) _ h] fresh by (auto simp: tx_fresh_def)
  have null: "av_null (cache_abs absf C1) = av_null (cache_abs absf C)" and rest: "av_anchors (cache_abs absf C1) = av_anchors (cache_abs absf C)"
    "av_block (cache_abs absf C1) = av_block (cache_abs absf C)" "av_root (cache_abs absf C1) = av_root (cache_abs absf C)"
    using S by (auto simp: coins_only_def)
  show thesis
  proof (cases "IsCoinImport tx")
    case False
    then show thesis
      using that [OF C1(1), of undefined] C1(2) C2(2) C3 null rest by (simp add: Let_def)
  next
    case True
    then have "C1 = C" "fst (tx_vin tx ! 0) \<noteq> tx_hash tx" "av_coins (cache_abs absf C) (fst (tx_vin tx ! 0)) = None"
      using S fresh by (auto simp: IsMint_def tx_fresh_def new_keys_def)
    then have none: "av_coins (cache_abs absf ?C3) (fst (tx_vin tx ! 0)) = None"
      using C3(2) C2(2) by simp
    obtain x where x: "cache_inv vinv absf held root er C'"
      "cache_abs absf C' = (cache_abs absf ?C3)\<lparr>av_coins := (av_coins (cache_abs absf ?C3))(fst (tx_vin tx ! 0) := x)\<rparr>"
      using tombstone_view [OF C3(1) none h] C1(2) True by (auto simp: Let_def)
    then show thesis
      using that [OF C1(1), of x] C2(2) C3(2) null rest True by simp
  qed
qed

lemma disconnect_back:
  assumes inv: "cache_inv vinv absf held root er D" and pegs: "\<not> IsPegsImport pegs tx" and dist: "distinct (new_keys tx)"
    and coins: "av_coins (cache_abs absf D) = (U(tx_hash tx := norm (FromTx tx h)))
        (if IsCoinImport tx then fst (tx_vin tx ! 0) else tx_hash tx := if IsCoinImport tx then x else norm (FromTx tx h))"
    and none: "\<forall>k \<in> set (new_keys tx). U k = None"
    and len: "\<not> IsMint tx \<Longrightarrow> length us = length (tx_vin tx)"
  shows "\<exists>D2. cache_inv vinv absf held root er D2 \<and>
    cache_abs absf D2 = (cache_abs absf D)\<lparr>av_coins := U, av_null := (\<lambda>k. if k \<in> set (spent_nullifiers tx) then False else av_null (cache_abs absf D) k)\<rparr> \<and>
    disconnect_tx O1 pegs h tx us D =
      (if \<not> IsMint tx then case undo_inputs O1 (rev (zip (tx_vin tx) us)) D2 of (ok, D3) \<Rightarrow> Some (ok, D3) else Some (True, D2))"
proof -
  have "av_coins (cache_abs absf D) (tx_hash tx) = norm (FromTx tx h)"
    using coins dist by (auto simp: new_keys_def)
  then obtain D1 where D1: "modify_coins O1 (tx_hash tx) (outs_body tx h) D = (True, D1)" "cache_inv vinv absf held root er D1"
    "cache_abs absf D1 = (cache_abs absf D)\<lparr>av_coins := (av_coins (cache_abs absf D))(tx_hash tx := None)\<rparr>"
    using outs_view [OF inv] by blast
  let ?D2 = "SetNullifiers tx False D1"
  have D2: "cache_inv vinv absf held root er ?D2"
    "cache_abs absf ?D2 = (cache_abs absf D1)\<lparr>av_null := (\<lambda>k. if k \<in> set (spent_nullifiers tx) then False else av_null (cache_abs absf D1) k)\<rparr>"
    using set_nullifiers_view [OF D1(2)] by blast+
  show ?thesis
  proof (cases "IsCoinImport tx")
    case False
    then have "(av_coins (cache_abs absf D))(tx_hash tx := None) = U"
      using coins none by (auto simp: new_keys_def fun_eq_iff)
    then show ?thesis
      using D1 D2 pegs len False by (intro exI [of _ ?D2]) (auto simp: disconnect_tx_def Let_def)
  next
    case True
    let ?b = "fst (tx_vin tx ! 0)"
    obtain u D3 where D3: "modify_coins O1 ?b (\<lambda>c. ((), Clear)) ?D2 = (u, D3)"
      by (cases "modify_coins O1 ?b (\<lambda>c. ((), Clear)) ?D2")
    have "cache_inv vinv absf held root er D3"
      "cache_abs absf D3 = (cache_abs absf ?D2)\<lparr>av_coins := (av_coins (cache_abs absf ?D2))(?b := None)\<rparr>"
      using set_coins_view [OF D2(1) D3] by (simp_all add: norm_def)
    moreover have "((av_coins (cache_abs absf D))(tx_hash tx := None))(?b := None) = U"
      using coins none True by (auto simp: new_keys_def fun_eq_iff)
    moreover have "IsMint tx"
      using True by (simp add: IsMint_def)
    ultimately show ?thesis
      using D1 D2(2) D3 pegs True by (intro exI [of _ D3]) (simp add: disconnect_tx_def RemoveImportTombstone_def)
  qed
qed

lemma update_undo:
  assumes inv: "cache_inv vinv absf held root er C" and upd: "UpdateCoins O1 pegs tx h C = Some (us, C')"
    and fresh: "tx_fresh pegs (cache_abs absf C) tx" and h: "h \<noteq> 0"
  shows "cache_inv vinv absf held root er C' \<and>
     av_anchors (cache_abs absf C') = av_anchors (cache_abs absf C) \<and> av_block (cache_abs absf C') = av_block (cache_abs absf C) \<and>
     av_root (cache_abs absf C') = av_root (cache_abs absf C) \<and>
     (\<forall>k. k \<notin> set (new_keys tx) \<longrightarrow> av_coins (cache_abs absf C) k = None \<longrightarrow> av_coins (cache_abs absf C') k = None) \<and>
     (\<forall>k. av_null (cache_abs absf C') k = (k \<in> set (spent_nullifiers tx) \<or> av_null (cache_abs absf C) k)) \<and>
     (\<not> IsMint tx \<longrightarrow> (\<forall>p \<in> set (tx_vin tx). unavailable (av_coins (cache_abs absf C')) p)) \<and>
     (IsMint tx \<longrightarrow> us = []) \<and>
     (\<forall>D. cache_inv vinv absf held root er D \<and> av_coins (cache_abs absf D) = av_coins (cache_abs absf C') \<and>
          av_null (cache_abs absf D) = av_null (cache_abs absf C') \<longrightarrow>
        (\<exists>D'. disconnect_tx O1 pegs h tx us D = Some (True, D') \<and> cache_inv vinv absf held root er D' \<and>
           cache_abs absf D' = (cache_abs absf D)\<lparr>av_coins := av_coins (cache_abs absf C), av_null := av_null (cache_abs absf C)\<rparr>))"
proof -
  obtain C1 x where F: "(if \<not> IsMint tx then spend_inputs O1 False (tx_vin tx) C else Some ([], C)) = Some (us, C1)"
    "cache_inv vinv absf held root er C'"
    "av_coins (cache_abs absf C') = ((av_coins (cache_abs absf C1))(tx_hash tx := norm (FromTx tx h)))
        (if IsCoinImport tx then fst (tx_vin tx ! 0) else tx_hash tx := if IsCoinImport tx then x else norm (FromTx tx h))"
    "av_null (cache_abs absf C') = (\<lambda>k. if k \<in> set (spent_nullifiers tx) then True else av_null (cache_abs absf C) k)"
    "av_anchors (cache_abs absf C') = av_anchors (cache_abs absf C)" "av_block (cache_abs absf C') = av_block (cache_abs absf C)"
    "av_root (cache_abs absf C') = av_root (cache_abs absf C)"
    using update_forward [OF inv upd fresh h] .
  note S = spend_phase [OF inv F(1)]
  have fr: "\<not> IsPegsImport pegs tx" "distinct (new_keys tx)" "\<forall>k \<in> set (new_keys tx). av_coins (cache_abs absf C) k = None"
    "\<forall>k \<in> set (spent_nullifiers tx). \<not> av_null (cache_abs absf C) k"
    using fresh by (auto simp: tx_fresh_def)
  have undone: "\<exists>D'. disconnect_tx O1 pegs h tx us D = Some (True, D') \<and> cache_inv vinv absf held root er D' \<and>
      cache_abs absf D' = (cache_abs absf D)\<lparr>av_coins := av_coins (cache_abs absf C), av_null := av_null (cache_abs absf C)\<rparr>"
    if D: "cache_inv vinv absf held root er D" "av_coins (cache_abs absf D) = av_coins (cache_abs absf C')"
      "av_null (cache_abs absf D) = av_null (cache_abs absf C')" for D
  proof -
    obtain D2 where D2: "cache_inv vinv absf held root er D2"
      "cache_abs absf D2 = (cache_abs absf D)\<lparr>av_coins := av_coins (cache_abs absf C1),
         av_null := (\<lambda>k. if k \<in> set (spent_nullifiers tx) then False else av_null (cache_abs absf D) k)\<rparr>"
      "disconnect_tx O1 pegs h tx us D =
         (if \<not> IsMint tx then case undo_inputs O1 (rev (zip (tx_vin tx) us)) D2 of (ok, D3) \<Rightarrow> Some (ok, D3) else Some (True, D2))"
      using disconnect_back [OF D(1) fr(1,2), of "av_coins (cache_abs absf C1)" h x us] D(2) F(3) fr(3) S by auto
    have nulls: "(\<lambda>k. if k \<in> set (spent_nullifiers tx) then False else av_null (cache_abs absf D) k) = av_null (cache_abs absf C)"
      using D(3) F(4) fr(4) by auto
    obtain D' where D': "if \<not> IsMint tx then undo_inputs O1 (rev (zip (tx_vin tx) us)) D2 = (True, D') else D' = D2" "cache_inv vinv absf held root er D'"
      "cache_abs absf D' = (cache_abs absf D2)\<lparr>av_coins := av_coins (cache_abs absf C)\<rparr>"
      using S D2(1,2) by (metis (no_types, lifting) aview.select_convs(1) aview.surjective aview.update_convs(1,2))
    then show ?thesis
      using D2(2,3) nulls by (intro exI [of _ D']) (auto split: if_splits)
  qed
  have "unavailable (av_coins (cache_abs absf C')) p" if "\<not> IsMint tx" "p \<in> set (tx_vin tx)" for p
  proof -
    have "fst p \<noteq> tx_hash tx" "unavailable (av_coins (cache_abs absf C1)) p" "\<not> IsCoinImport tx"
      using S that fr(3) by (auto simp: new_keys_def IsMint_def)
    then show ?thesis
      by (simp add: unavailable_def F(3))
  qed
  moreover have "av_coins (cache_abs absf C') k = None" if "k \<notin> set (new_keys tx)" "av_coins (cache_abs absf C) k = None" for k
  proof -
    have "av_coins (cache_abs absf C1) k = None"
      using S that(2) by blast
    then show ?thesis
      unfolding F(3) using that(1) by (cases "IsCoinImport tx") (simp_all add: new_keys_def)
  qed
  moreover have "IsMint tx \<longrightarrow> us = []"
    using S by blast
  ultimately show ?thesis
    using F(2,4-7) undone by simp
qed

lemma disconnect_txs_append:
  "disconnect_txs O1 pegs h (xs @ ys) C =
     (case disconnect_txs O1 pegs h xs C of None \<Rightarrow> None
      | Some (ok, C) \<Rightarrow> map_option (\<lambda>(ok', C). (ok \<and> ok', C)) (disconnect_txs O1 pegs h ys C))"
proof (induction xs arbitrary: C)
  case Nil
  then show ?case
    by (simp add: option.map_ident case_prod_unfold)
next
  case (Cons x xs)
  then show ?case
    by (auto simp: option.map_comp comp_def case_prod_unfold split: option.splits)
qed

lemma connect_txs_undo:
  "cache_inv vinv absf held root er C \<Longrightarrow> connect_txs_coins O1 appendcm pegs h txs tree C = Some (uss, tree', C') \<Longrightarrow>
   block_fresh pegs (cache_abs absf C) txs \<Longrightarrow> h \<noteq> 0 \<Longrightarrow>
     cache_inv vinv absf held root er C' \<and> length uss = length txs \<and>
     tree' = fold appendcm (concat (map ct_vShieldedOutput txs)) tree \<and>
     av_anchors (cache_abs absf C') = av_anchors (cache_abs absf C) \<and> av_block (cache_abs absf C') = av_block (cache_abs absf C) \<and>
     av_root (cache_abs absf C') = av_root (cache_abs absf C) \<and>
     (txs \<noteq> [] \<longrightarrow> IsMint (hd txs) \<longrightarrow> hd uss = []) \<and>
     (\<forall>D. cache_inv vinv absf held root er D \<and> av_coins (cache_abs absf D) = av_coins (cache_abs absf C') \<and>
          av_null (cache_abs absf D) = av_null (cache_abs absf C') \<longrightarrow>
        (\<exists>D'. disconnect_txs O1 pegs h (rev (zip txs uss)) D = Some (True, D') \<and> cache_inv vinv absf held root er D' \<and>
           cache_abs absf D' = (cache_abs absf D)\<lparr>av_coins := av_coins (cache_abs absf C), av_null := av_null (cache_abs absf C)\<rparr>))"
proof (induction txs arbitrary: C uss tree)
  case Nil
  then show ?case
    by (auto intro!: aview_eqI)
next
  case (Cons tx txs)
  obtain us C1 uss1 where U: "UpdateCoins O1 pegs tx h C = Some (us, C1)"
    "connect_txs_coins O1 appendcm pegs h txs (fold appendcm (ct_vShieldedOutput tx) tree) C1 = Some (uss1, tree', C')" "uss = us # uss1"
    using Cons.prems(2) by (auto split: option.splits)
  note T = update_undo [OF Cons.prems(1) U(1) block_fresh_hd [OF Cons.prems(3)] Cons.prems(4)]
  have fresh: "block_fresh pegs (cache_abs absf C1) txs"
    using block_fresh_tl [OF Cons.prems(3)] T by blast
  have inv1: "cache_inv vinv absf held root er C1"
    using T by blast
  note IH = Cons.IH [OF inv1 U(2) fresh Cons.prems(4)]
  have undone: "\<exists>D'. disconnect_txs O1 pegs h (rev (zip (tx # txs) uss)) D = Some (True, D') \<and> cache_inv vinv absf held root er D' \<and>
      cache_abs absf D' = (cache_abs absf D)\<lparr>av_coins := av_coins (cache_abs absf C), av_null := av_null (cache_abs absf C)\<rparr>"
    if D: "cache_inv vinv absf held root er D" "av_coins (cache_abs absf D) = av_coins (cache_abs absf C')"
      "av_null (cache_abs absf D) = av_null (cache_abs absf C')" for D
  proof -
    obtain D1 where D1: "disconnect_txs O1 pegs h (rev (zip txs uss1)) D = Some (True, D1)" "cache_inv vinv absf held root er D1"
      "cache_abs absf D1 = (cache_abs absf D)\<lparr>av_coins := av_coins (cache_abs absf C1), av_null := av_null (cache_abs absf C1)\<rparr>"
      using IH D by blast
    have "av_coins (cache_abs absf D1) = av_coins (cache_abs absf C1)" "av_null (cache_abs absf D1) = av_null (cache_abs absf C1)"
      using D1(3) by simp_all
    then obtain D2 where D2: "disconnect_tx O1 pegs h tx us D1 = Some (True, D2)" "cache_inv vinv absf held root er D2"
      "cache_abs absf D2 = (cache_abs absf D1)\<lparr>av_coins := av_coins (cache_abs absf C), av_null := av_null (cache_abs absf C)\<rparr>"
      using T D1(2) by blast
    then show ?thesis
      using D1(1,3) U(3) by (simp add: disconnect_txs_append)
  qed
  have first: "IsMint tx \<longrightarrow> us = []" and rest: "av_anchors (cache_abs absf C1) = av_anchors (cache_abs absf C)"
    "av_block (cache_abs absf C1) = av_block (cache_abs absf C)" "av_root (cache_abs absf C1) = av_root (cache_abs absf C)"
    using T by blast+
  have last: "cache_inv vinv absf held root er C'" "length uss1 = length txs"
    "tree' = fold appendcm (concat (map ct_vShieldedOutput txs)) (fold appendcm (ct_vShieldedOutput tx) tree)"
    "av_anchors (cache_abs absf C') = av_anchors (cache_abs absf C1)" "av_block (cache_abs absf C') = av_block (cache_abs absf C1)"
    "av_root (cache_abs absf C') = av_root (cache_abs absf C1)"
    using IH by blast+
  show ?case
    using undone first rest last U(3) by simp
qed

lemma push_view:
  assumes "cache_inv vinv absf held root er C" "root t \<noteq> 0"
  shows "cache_inv vinv absf held root er (PushAnchor O1 root t C) \<and>
    cache_abs absf (PushAnchor O1 root t C) =
      (if av_root (cache_abs absf C) = root t then cache_abs absf C
       else (cache_abs absf C)\<lparr>av_anchors := (av_anchors (cache_abs absf C))(root t := True), av_root := root t\<rparr>)"
proof -
  obtain r C1 where C1: "GetBestAnchor O1 C = (r, C1)"
    by (cases "GetBestAnchor O1 C")
  note G = cache_get_root [OF assms(1) C1]
  let ?e = "\<lparr>an_entered = True, an_tree = t, an_dirty = True\<rparr>"
  let ?C = "C1\<lparr>cacheSaplingAnchors := AList.update (root t) ?e (cacheSaplingAnchors C1)\<rparr>"
  have "anchor_entry_ok root er (absf (cc_base C1)) (root t) ?e"
    by (simp add: anchor_entry_ok_def)
  then have "cache_inv vinv absf held root er ?C"
    "cache_abs absf ?C = (cache_abs absf C1)\<lparr>av_anchors := (av_anchors (cache_abs absf C1))(root t := True)\<rparr>"
    using cache_inv_anchor [of vinv absf held root er C1 "root t" ?e] G by simp_all
  then have "cache_inv vinv absf held root er (?C\<lparr>hashSaplingAnchor := root t\<rparr>)"
    "cache_abs absf (?C\<lparr>hashSaplingAnchor := root t\<rparr>) =
      (cache_abs absf C1)\<lparr>av_anchors := (av_anchors (cache_abs absf C1))(root t := True), av_root := root t\<rparr>"
    using cache_inv_hash(2,4) [of vinv absf held root er ?C "root t"] assms(2) by simp_all
  then show ?thesis
    using G C1 by (simp add: PushAnchor_def)
qed

lemma pop_view:
  assumes "cache_inv vinv absf held root er C" "r \<noteq> 0"
    "av_root (cache_abs absf C) = r \<or> (av_anchors (cache_abs absf C) (av_root (cache_abs absf C)) \<and> av_root (cache_abs absf C) \<noteq> er)"
  shows "\<exists>C'. PopAnchor O1 r C = Some C' \<and> cache_inv vinv absf held root er C' \<and>
    cache_abs absf C' =
      (if av_root (cache_abs absf C) = r then cache_abs absf C
       else (cache_abs absf C)\<lparr>av_anchors := (av_anchors (cache_abs absf C))(av_root (cache_abs absf C) := False), av_root := r\<rparr>)"
proof -
  obtain q C1 where C1: "GetBestAnchor O1 C = (q, C1)"
    by (cases "GetBestAnchor O1 C")
  note G = cache_get_root [OF assms(1) C1]
  show ?thesis
  proof (cases "q = r")
    case True
    then show ?thesis
      using G C1 by (simp add: PopAnchor_def)
  next
    case False
    obtain x C2 where C2: "GetSaplingAnchorAt O1 C1 q = (x, C2)"
      by (cases "GetSaplingAnchorAt O1 C1 q")
    have inv1: "cache_inv vinv absf held root er C1" and q: "q = av_root (cache_abs absf C)" "cache_abs absf C1 = cache_abs absf C"
      using G by blast+
    note A = cache_get_anchor [OF inv1 C2]
    obtain t where t: "x = Some t" "root t = q"
      using A q False assms(3) by (cases x) auto
    let ?e = "\<lparr>an_entered = False, an_tree = t, an_dirty = True\<rparr>"
    let ?C = "C2\<lparr>cacheSaplingAnchors := AList.update q ?e (cacheSaplingAnchors C2)\<rparr>"
    have "anchor_entry_ok root er (absf (cc_base C2)) q ?e"
      using t q False assms(3) by (auto simp: anchor_entry_ok_def)
    then have "cache_inv vinv absf held root er ?C"
      "cache_abs absf ?C = (cache_abs absf C2)\<lparr>av_anchors := (av_anchors (cache_abs absf C2))(q := False)\<rparr>"
      using cache_inv_anchor [of vinv absf held root er C2 q ?e] A by simp_all
    then have "cache_inv vinv absf held root er (?C\<lparr>hashSaplingAnchor := r\<rparr>)"
      "cache_abs absf (?C\<lparr>hashSaplingAnchor := r\<rparr>) =
        (cache_abs absf C2)\<lparr>av_anchors := (av_anchors (cache_abs absf C2))(q := False), av_root := r\<rparr>"
      using cache_inv_hash(2,4) [of vinv absf held root er ?C r] assms(2) by simp_all
    then show ?thesis
      using A C1 C2 t(1) q False by (simp add: PopAnchor_def)
  qed
qed

lemma best_block_view:
  "cache_inv vinv absf held root er C \<Longrightarrow> h \<noteq> 0 \<Longrightarrow>
     cache_inv vinv absf held root er (SetBestBlock h C) \<and> cache_abs absf (SetBestBlock h C) = (cache_abs absf C)\<lparr>av_block := h\<rparr>"
  using cache_inv_hash(1,3) [of vinv absf held root er C h] by (simp add: SetBestBlock_def)

lemma push_hash: "hashSaplingAnchor (PushAnchor O1 root t C) = root t"
  by (auto simp: PushAnchor_def GetBestAnchor_def split: prod.splits if_splits)

lemma pop_hash: "PopAnchor O1 r C = Some C' \<Longrightarrow> hashSaplingAnchor C' = r"
  by (auto simp: PopAnchor_def GetBestAnchor_def split: prod.splits if_splits option.splits)

lemma connect_block_view:
  assumes inv: "cache_inv vinv absf held root er C"
    and con: "connect_coins O1 root appendcm pegs hash h vtx C = Some (undo, C')"
    and fresh: "block_fresh pegs (cache_abs absf C) vtx" and mint: "vtx \<noteq> []" "IsMint (hd vtx)" and nz: "h \<noteq> 0" "hash \<noteq> 0"
    and prev: "prevRoot = av_root (cache_abs absf C)"
    and tree: "\<And>t. root t = prevRoot \<Longrightarrow>
      (let r = root (fold appendcm (concat (map ct_vShieldedOutput vtx)) t) in r \<noteq> 0 \<and> (r = prevRoot \<or> r \<noteq> er \<and> \<not> av_anchors (cache_abs absf C) r))"
  obtains r where "cache_inv vinv absf held root er C'" "hashBlock C' = hash" "hashSaplingAnchor C' = r" "r \<noteq> 0"
    "r = prevRoot \<or> r \<noteq> er \<and> \<not> av_anchors (cache_abs absf C) r" "av_block (cache_abs absf C') = hash" "av_root (cache_abs absf C') = r"
    "av_anchors (cache_abs absf C') = (if r = prevRoot then av_anchors (cache_abs absf C) else (av_anchors (cache_abs absf C))(r := True))"
    "length undo + 1 = length vtx"
    "\<And>D. cache_inv vinv absf held root er D \<Longrightarrow> cache_abs absf D = cache_abs absf C' \<Longrightarrow>
       \<exists>D'. disconnect_txs O1 pegs h (rev (zip vtx ([] # undo))) D = Some (True, D') \<and> cache_inv vinv absf held root er D' \<and>
         cache_abs absf D' = (cache_abs absf D)\<lparr>av_coins := av_coins (cache_abs absf C), av_null := av_null (cache_abs absf C)\<rparr>"
proof -
  obtain r0 Ca where Ca: "GetBestAnchor O1 C = (r0, Ca)"
    by (cases "GetBestAnchor O1 C")
  have R: "cache_inv vinv absf held root er Ca" "cache_abs absf Ca = cache_abs absf C" "r0 = prevRoot"
    using cache_get_root [OF inv Ca] prev by simp_all
  obtain x Cb where Cb: "GetSaplingAnchorAt O1 Ca r0 = (x, Cb)"
    by (cases "GetSaplingAnchorAt O1 Ca r0")
  note A = cache_get_anchor [OF R(1) Cb]
  obtain t uss t1 C1 where t: "x = Some t" "connect_txs_coins O1 appendcm pegs h vtx t Cb = Some (uss, t1, C1)"
    "undo = tl uss" "C' = SetBestBlock hash (PushAnchor O1 root t1 C1)"
    using con Ca Cb by (auto simp: connect_coins_def split: option.splits)
  have inv_b: "cache_inv vinv absf held root er Cb" and abs_b: "cache_abs absf Cb = cache_abs absf C" and rt: "root t = prevRoot"
    using A R t(1) by auto
  have fresh_b: "block_fresh pegs (cache_abs absf Cb) vtx"
    using fresh abs_b by simp
  note T = connect_txs_undo [OF inv_b t(2) fresh_b nz(1)]
  have inv1: "cache_inv vinv absf held root er C1" and len: "length uss = length vtx"
    and t1: "t1 = fold appendcm (concat (map ct_vShieldedOutput vtx)) t"
    and same: "av_anchors (cache_abs absf C1) = av_anchors (cache_abs absf C)" "av_root (cache_abs absf C1) = prevRoot" and hd: "hd uss = []"
    using T abs_b prev mint by auto
  have r1: "root t1 \<noteq> 0" "root t1 = prevRoot \<or> root t1 \<noteq> er \<and> \<not> av_anchors (cache_abs absf C) (root t1)"
    using tree [OF rt] t1 by (simp_all add: Let_def)
  let ?P = "PushAnchor O1 root t1 C1"
  note P = push_view [OF inv1 r1(1)]
  have C': "cache_inv vinv absf held root er C'" "cache_abs absf C' = (cache_abs absf ?P)\<lparr>av_block := hash\<rparr>"
    using best_block_view [of ?P hash] P nz(2) t(4) by blast+
  have uss: "uss = [] # undo" "length undo + 1 = length vtx"
    using hd len t(3) mint(1) by (cases uss; simp)+
  have hashes: "hashBlock C' = hash" "hashSaplingAnchor C' = root t1"
    using t(4) push_hash [of t1 C1] by (simp_all add: SetBestBlock_def)
  have tip: "av_block (cache_abs absf C') = hash" "av_root (cache_abs absf C') = root t1"
    "av_anchors (cache_abs absf C') = (if root t1 = prevRoot then av_anchors (cache_abs absf C) else (av_anchors (cache_abs absf C))(root t1 := True))"
    "av_coins (cache_abs absf C') = av_coins (cache_abs absf C1)" "av_null (cache_abs absf C') = av_null (cache_abs absf C1)"
    using C'(2) P same by auto
  have "\<exists>D'. disconnect_txs O1 pegs h (rev (zip vtx ([] # undo))) D = Some (True, D') \<and> cache_inv vinv absf held root er D' \<and>
      cache_abs absf D' = (cache_abs absf D)\<lparr>av_coins := av_coins (cache_abs absf C), av_null := av_null (cache_abs absf C)\<rparr>"
    if "cache_inv vinv absf held root er D" "cache_abs absf D = cache_abs absf C'" for D
    using T that tip(4,5) abs_b uss(1) by metis
  then show thesis
    by (rule that [OF C'(1) hashes r1 tip(1-3) uss(2)])
qed

lemma disconnect_block_view:
  assumes inv: "cache_inv vinv absf held root er D0"
    and tip: "av_block (cache_abs absf D0) = hash" "av_root (cache_abs absf D0) = r"
      "av_anchors (cache_abs absf D0) = (if r = av_root A then av_anchors A else (av_anchors A)(r := True))"
    and r: "r = av_root A \<or> r \<noteq> er \<and> \<not> av_anchors A r" and len: "length undo + 1 = length vtx" and nz: "av_block A \<noteq> 0" "av_root A \<noteq> 0"
    and txs: "\<And>D. cache_inv vinv absf held root er D \<Longrightarrow> cache_abs absf D = cache_abs absf D0 \<Longrightarrow>
       \<exists>D'. disconnect_txs O1 pegs h (rev (zip vtx ([] # undo))) D = Some (True, D') \<and> cache_inv vinv absf held root er D' \<and>
         cache_abs absf D' = (cache_abs absf D)\<lparr>av_coins := av_coins A, av_null := av_null A\<rparr>"
  shows "\<exists>C2. disconnect_coins O1 pegs hash h (av_block A) (av_root A) vtx undo D0 = Some (True, C2) \<and> cache_inv vinv absf held root er C2 \<and>
    cache_abs absf C2 = A \<and> hashBlock C2 = av_block A \<and> hashSaplingAnchor C2 = av_root A"
proof -
  obtain hb D where D: "GetBestBlock O1 D0 = (hb, D)"
    by (cases "GetBestBlock O1 D0")
  have DI: "cache_inv vinv absf held root er D" "cache_abs absf D = cache_abs absf D0" "hb = hash"
    using cache_get_block [OF inv D] tip(1) by auto
  then obtain D1 where D1: "disconnect_txs O1 pegs h (rev (zip vtx ([] # undo))) D = Some (True, D1)" "cache_inv vinv absf held root er D1"
    "cache_abs absf D1 = (cache_abs absf D)\<lparr>av_coins := av_coins A, av_null := av_null A\<rparr>"
    using txs by blast
  have root1: "av_root (cache_abs absf D1) = r" "av_anchors (cache_abs absf D1) = av_anchors (cache_abs absf D0)"
    using D1(3) DI(2) tip(2) by auto
  have "av_root (cache_abs absf D1) = av_root A \<or> (av_anchors (cache_abs absf D1) (av_root (cache_abs absf D1)) \<and> av_root (cache_abs absf D1) \<noteq> er)"
    unfolding root1 tip(3) using r by auto
  then obtain D2 where D2: "PopAnchor O1 (av_root A) D1 = Some D2" "cache_inv vinv absf held root er D2"
    "cache_abs absf D2 = (if r = av_root A then cache_abs absf D1
       else (cache_abs absf D1)\<lparr>av_anchors := (av_anchors (cache_abs absf D1))(r := False), av_root := av_root A\<rparr>)"
    using pop_view [OF D1(2) nz(2)] unfolding root1(1) by blast
  let ?C2 = "SetBestBlock (av_block A) D2"
  have "cache_inv vinv absf held root er ?C2" "cache_abs absf ?C2 = (cache_abs absf D2)\<lparr>av_block := av_block A\<rparr>"
    using best_block_view [OF D2(2) nz(1)] by blast+
  moreover have "(cache_abs absf D2)\<lparr>av_block := av_block A\<rparr> = A"
  proof (rule aview_eqI)
    show "av_anchors ((cache_abs absf D2)\<lparr>av_block := av_block A\<rparr>) = av_anchors A"
      using D2(3) root1(2) tip(3) r by (auto simp: fun_eq_iff)
  qed (use D2(3) D1(3) root1(1) in \<open>simp_all\<close>)
  moreover have "disconnect_coins O1 pegs hash h (av_block A) (av_root A) vtx undo D0 = Some (True, ?C2)"
    using D DI(3) D1(1) D2(1) len by (simp add: disconnect_coins_def)
  moreover have "hashBlock ?C2 = av_block A" "hashSaplingAnchor ?C2 = av_root A"
    using pop_hash [OF D2(1)] by (simp_all add: SetBestBlock_def)
  ultimately show ?thesis
    by simp
qed

lemma fetch_unavailable:
  assumes "cache_inv vinv absf held root er C" "FetchCoins O1 C (fst p) = (r, C')"
  shows "cache_inv vinv absf held root er C' \<and> cache_abs absf C' = cache_abs absf C \<and>
    (unavailable (av_coins (cache_abs absf C)) p \<longleftrightarrow> (case r of None \<Rightarrow> True | Some c \<Rightarrow> \<not> IsAvailable c (snd p)))"
proof -
  note G = cache_get_coins [OF assms]
  show ?thesis
  proof (cases r)
    case None
    then show ?thesis
      using G by (simp add: unavailable_def)
  next
    case (Some c)
    then have "coins_ok c" "norm c = av_coins (cache_abs absf C) (fst p)"
      using G by auto
    then have "unavailable (av_coins (cache_abs absf C)) p \<longleftrightarrow> \<not> IsAvailable c (snd p)"
      by (auto simp: unavailable_def norm_def IsAvailable_def IsPruned_def list_all_length split: option.splits if_splits)
    then show ?thesis
      using G Some by simp
  qed
qed

lemma have_inputs_view:
  "cache_inv vinv absf held root er C \<Longrightarrow>
     \<exists>C'. have_inputs_loop O1 False i ps C = (\<forall>p \<in> set ps. \<not> unavailable (av_coins (cache_abs absf C)) p, C') \<and>
       cache_inv vinv absf held root er C' \<and> cache_abs absf C' = cache_abs absf C"
proof (induction ps arbitrary: i C)
  case (Cons p ps)
  obtain r C1 where r: "FetchCoins O1 C (fst p) = (r, C1)"
    by (cases "FetchCoins O1 C (fst p)")
  have F: "cache_inv vinv absf held root er C1" "cache_abs absf C1 = cache_abs absf C"
    "unavailable (av_coins (cache_abs absf C)) p \<longleftrightarrow> (case r of None \<Rightarrow> True | Some c \<Rightarrow> \<not> IsAvailable c (snd p))"
    using fetch_unavailable [OF Cons.prems r] by blast+
  show ?case
  proof (cases "unavailable (av_coins (cache_abs absf C)) p")
    case True
    then show ?thesis
      using F r by (auto split: option.splits)
  next
    case False
    then show ?thesis
      using F r Cons.IH [OF F(1), of "i + 1"] by (auto split: option.splits)
  qed
qed simp

lemma shielded_view:
  "cache_inv vinv absf held root er C \<Longrightarrow>
     \<exists>C'. HaveShieldedRequirements O1 ss C =
         (\<forall>s \<in> set ss. \<not> av_null (cache_abs absf C) (fst s) \<and> av_anchors (cache_abs absf C) (snd s), C') \<and>
       cache_inv vinv absf held root er C' \<and> cache_abs absf C' = cache_abs absf C"
proof (induction ss arbitrary: C)
  case (Cons s ss)
  obtain x C1 where x: "GetNullifier O1 C (fst s) = (x, C1)"
    by (cases "GetNullifier O1 C (fst s)")
  have N: "cache_inv vinv absf held root er C1" "cache_abs absf C1 = cache_abs absf C" "x = av_null (cache_abs absf C) (fst s)"
    using cache_get_nullifier [OF Cons.prems x] by blast+
  obtain t C2 where t: "GetSaplingAnchorAt O1 C1 (snd s) = (t, C2)"
    by (cases "GetSaplingAnchorAt O1 C1 (snd s)")
  have A: "cache_inv vinv absf held root er C2" "cache_abs absf C2 = cache_abs absf C" "t \<noteq> None \<longleftrightarrow> av_anchors (cache_abs absf C) (snd s)"
    using cache_get_anchor [OF N(1) t] N(2) by (auto split: option.splits)
  show ?case
    using Cons.IH [OF A(1)] A N x t by (cases t) auto
qed simp

lemma spend_inputs_succeeds:
  "cache_inv vinv absf held root er C \<Longrightarrow> distinct ps \<Longrightarrow> \<forall>p \<in> set ps. \<not> unavailable (av_coins (cache_abs absf C)) p \<Longrightarrow>
     \<exists>r. spend_inputs O1 False ps C = Some r"
proof (induction ps arbitrary: C)
  case (Cons p ps)
  obtain k n where p: "p = (k, n)"
    by (cases p)
  obtain r C1 where m: "modify_coins O1 k (spend_body n) C = (r, C1)"
    by (cases "modify_coins O1 k (spend_body n) C")
  obtain c where c: "av_coins (cache_abs absf C) k = Some c" "IsAvailable c n"
    using Cons.prems(3) p by (auto simp: unavailable_def split: option.splits)
  have raw: "coins_raw (snd (spend_body n d))" if "coins_ok d" for d
    using spend_body_ok [OF that] by (metis prod.collapse)
  obtain d where d: "norm d = Some c" "r = fst (spend_body n d)"
    using modify_view [OF Cons.prems(1) m] raw c(1) by metis
  then obtain u where u: "r = Some u"
    using c(2) by (auto simp: norm_Some spend_body_def Let_def)
  obtain c0 c' where s: "norm c0 = av_coins (cache_abs absf C) k" "spend_body n c0 = (Some u, c')" "cache_inv vinv absf held root er C1"
    "cache_abs absf C1 = (cache_abs absf C)\<lparr>av_coins := (av_coins (cache_abs absf C))(k := norm c')\<rparr>"
    using spend_one [OF Cons.prems(1)] m u by blast
  have "c0 = c"
    using s(1) c(1) by (simp add: norm_Some)
  have "\<not> unavailable (av_coins (cache_abs absf C1)) q" if "q \<in> set ps" for q
  proof (cases "fst q = k")
    case True
    have "q \<noteq> p" "\<not> unavailable (av_coins (cache_abs absf C)) q"
      using that Cons.prems(2,3) by auto
    then have q: "IsAvailable c (snd q)" "snd q \<noteq> n"
      using True p c(1) by (auto simp: unavailable_def prod_eq_iff)
    then have "IsAvailable c' (snd q)"
      using spend_other [OF s(2)] \<open>c0 = c\<close> by simp
    then show ?thesis
      using True s(4) by (auto simp: unavailable_def norm_def IsAvailable_def IsPruned_def list_all_length)
  next
    case False
    then show ?thesis
      using that Cons.prems(3) s(4) by (simp add: unavailable_def)
  qed
  then obtain x where "spend_inputs O1 False ps C1 = Some x"
    using Cons.IH [OF s(3)] Cons.prems(2) by auto
  then show ?case
    using m u p by (cases x) simp
qed simp

lemma have_inputs_skip: "have_inputs_loop O1 skip (Suc i) ps C = have_inputs_loop O1 False (Suc i) ps C"
  by (induction ps arbitrary: i C) (auto split: prod.splits option.splits)

lemma have_inputs_checked:
  assumes "cache_inv vinv absf held root er C"
  shows "\<exists>C'. HaveInputs O1 pegs tx C = (\<forall>p \<in> set (checked_inputs pegs tx). \<not> unavailable (av_coins (cache_abs absf C)) p, C') \<and>
    cache_inv vinv absf held root er C' \<and> cache_abs absf C' = cache_abs absf C"
proof (cases "IsPegsImport pegs tx")
  case True
  then obtain p ps where "tx_vin tx = p # ps"
    by (cases "tx_vin tx") (auto simp: IsPegsImport_def)
  then show ?thesis
    using True assms have_inputs_view [OF assms, of 1 ps] have_inputs_skip [of True 0 ps C]
    by (simp add: HaveInputs_def checked_inputs_def)
next
  case False
  then show ?thesis
    using assms have_inputs_view [OF assms, of 0 "tx_vin tx"] by (simp add: HaveInputs_def checked_inputs_def)
qed

lemma update_succeeds:
  assumes inv: "cache_inv vinv absf held root er C" and inp: "HaveInputs O1 pegs tx C = (True, C1)"
    and shield: "HaveShieldedRequirements O1 (ct_vShieldedSpend tx) C1 = (True, C2)"
    and tx: "tx_ok tx" "\<not> IsPegsImport pegs tx" "distinct (tx_vin tx)" "distinct (new_keys tx)"
      "\<forall>k \<in> set (new_keys tx). av_coins (cache_abs absf C) k = None" and h: "h \<noteq> 0"
  shows "\<exists>us C'. UpdateCoins O1 pegs tx h C2 = Some (us, C') \<and> cache_inv vinv absf held root er C' \<and>
    (\<forall>p \<in> set (checked_inputs pegs tx). unavailable (av_coins (cache_abs absf C')) p) \<and>
    (\<forall>n \<in> set (spent_nullifiers tx). av_null (cache_abs absf C') n)"
proof -
  have C1: "\<forall>p \<in> set (checked_inputs pegs tx). \<not> unavailable (av_coins (cache_abs absf C)) p" "cache_inv vinv absf held root er C1"
    "cache_abs absf C1 = cache_abs absf C"
    using have_inputs_checked [OF inv, of pegs tx] inp by auto
  have C2: "\<forall>s \<in> set (ct_vShieldedSpend tx). \<not> av_null (cache_abs absf C) (fst s)" "cache_inv vinv absf held root er C2"
    "cache_abs absf C2 = cache_abs absf C"
    using shielded_view [OF C1(2), of "ct_vShieldedSpend tx"] shield C1(3) by auto
  have fresh: "tx_fresh pegs (cache_abs absf C2) tx"
    using tx C2 by (auto simp: tx_fresh_def spent_nullifiers_def)
  have "\<exists>r. (if \<not> IsMint tx then spend_inputs O1 False (tx_vin tx) C2 else Some ([], C2)) = Some r"
    using spend_inputs_succeeds [OF C2(2) tx(3)] C1(1) C2(3) tx(2) by (cases "IsMint tx") (simp_all add: checked_inputs_def)
  then have "UpdateCoins O1 pegs tx h C2 \<noteq> None"
    using tx(2) by (auto simp: UpdateCoins_def)
  then obtain us C' where u: "UpdateCoins O1 pegs tx h C2 = Some (us, C')"
    by auto
  note U = update_undo [OF C2(2) u fresh h]
  have "cache_inv vinv absf held root er C'" "\<forall>k. av_null (cache_abs absf C') k = (k \<in> set (spent_nullifiers tx) \<or> av_null (cache_abs absf C2) k)"
    "\<not> IsMint tx \<longrightarrow> (\<forall>p \<in> set (tx_vin tx). unavailable (av_coins (cache_abs absf C')) p)"
    using U by blast+
  then show ?thesis
    using u tx(2) by (auto simp: checked_inputs_def)
qed

end

section \<open>Connecting and disconnecting the tip\<close>

text \<open>A block is connected in a new view, which is flushed into \<open>pcoinsTip\<close>. Whether the state also goes to disk depends on the size of the caches and the time: the
  parameter \<open>disk\<close>. A failure of a check or an assertion is \<open>None\<close>. The node is a full node (\<open>HUSH_NSPV_FULLNODE\<close>).\<close>

definition FlushStateToDisk :: "('t \<Rightarrow> uint256) \<Rightarrow> 't \<Rightarrow> bool \<Rightarrow> ('t coins_db, 't) coins_cache \<Rightarrow> ('t coins_db, 't) coins_cache option" where
  "FlushStateToDisk root et disk T = (if disk then Flush (db_ops (root et) et) T else Some T)"

definition flush_to_tip :: "('t \<Rightarrow> uint256) \<Rightarrow> 't \<Rightarrow> bool \<Rightarrow> (('t coins_db, 't) coins_cache, 't) coins_cache \<Rightarrow> ('t coins_db, 't) coins_cache option" where
  "flush_to_tip root et disk C =
     (case Flush (tip_ops root et) C of None \<Rightarrow> None | Some C \<Rightarrow> FlushStateToDisk root et disk (cc_base C))"





lemma flush_to_tip_view:
  assumes "view_inv root et C" "hashBlock C \<noteq> 0" "hashSaplingAnchor C \<noteq> 0"
  shows "\<exists>T. flush_to_tip root et disk C = Some T \<and> tip_inv root et T \<and> tip_abs root et T = view_abs root et C \<and>
    (disk \<longrightarrow> db_abs (root et) (cc_base T) = view_abs root et C)"
proof -
  obtain C1 where C1: "Flush (tip_ops root et) C = Some C1" "view_inv root et C1" "tip_abs root et (cc_base C1) = view_abs root et C"
    using tip.flush_view [of root et C] assms unfolding view_inv_def view_abs_def by blast
  have inv: "tip_inv root et (cc_base C1)"
    using C1(2) by (simp add: view_inv_def cache_inv_def)
  have "hashBlock (cc_base C1) \<noteq> 0" "hashSaplingAnchor (cc_base C1) \<noteq> 0"
    using flush_hashes [OF C1(1) [unfolded tip_ops_def]] assms(2,3) by simp_all
  then obtain T where "Flush (db_ops (root et) et) (cc_base C1) = Some T" "tip_inv root et T"
    "tip_abs root et T = tip_abs root et (cc_base C1)" "db_abs (root et) (cc_base T) = tip_abs root et (cc_base C1)"
    using db.flush_view [of root et "cc_base C1"] inv unfolding tip_inv_def tip_abs_def by blast
  then show ?thesis
    using C1(1,3) inv by (cases disk) (simp_all add: flush_to_tip_def FlushStateToDisk_def)
qed


text \<open>C6. A spent output or nullifier cannot be spent again. When the checks of a transaction pass (\<open>HaveInputs\<close> and \<open>HaveShieldedRequirements\<close>), its inputs are
  different and its identifier is new, then \<open>UpdateCoins\<close> does not fail its assertion, the view stays well-formed, and every transaction that shares an input with
  it fails \<open>HaveInputs\<close>, every transaction that reveals one of its nullifiers fails \<open>HaveShieldedRequirements\<close>.\<close>

theorem no_double_spend:
  assumes "view_inv root et C" "HaveInputs (tip_ops root et) pegs tx C = (True, C1)"
    and "HaveShieldedRequirements (tip_ops root et) (ct_vShieldedSpend tx) C1 = (True, C2)"
    and "tx_ok tx" "\<not> IsPegsImport pegs tx" "distinct (tx_vin tx)" "distinct (new_keys tx)"
    and "\<forall>k \<in> set (new_keys tx). av_coins (view_abs root et C) k = None" "h \<noteq> 0"
  shows "\<exists>us C'. UpdateCoins (tip_ops root et) pegs tx h C2 = Some (us, C') \<and> view_inv root et C' \<and>
    (\<forall>tx2. set (checked_inputs pegs tx2) \<inter> set (checked_inputs pegs tx) \<noteq> {} \<longrightarrow> \<not> fst (HaveInputs (tip_ops root et) pegs tx2 C')) \<and>
    (\<forall>tx2. set (spent_nullifiers tx2) \<inter> set (spent_nullifiers tx) \<noteq> {} \<longrightarrow>
       \<not> fst (HaveShieldedRequirements (tip_ops root et) (ct_vShieldedSpend tx2) C'))"
proof -
  obtain us C' where u: "UpdateCoins (tip_ops root et) pegs tx h C2 = Some (us, C')" "view_inv root et C'"
    "\<forall>p \<in> set (checked_inputs pegs tx). unavailable (av_coins (view_abs root et C')) p"
    "\<forall>n \<in> set (spent_nullifiers tx). av_null (view_abs root et C') n"
    using tip.update_succeeds [OF assms(1) [unfolded view_inv_def] assms(2-7) assms(8) [unfolded view_abs_def] assms(9)]
    unfolding view_inv_def view_abs_def by blast
  have "\<not> fst (HaveInputs (tip_ops root et) pegs tx2 C')" if "set (checked_inputs pegs tx2) \<inter> set (checked_inputs pegs tx) \<noteq> {}" for tx2
    using tip.have_inputs_checked [OF u(2) [unfolded view_inv_def], of pegs tx2, folded view_abs_def] u(3) that by auto
  moreover have "\<not> fst (HaveShieldedRequirements (tip_ops root et) (ct_vShieldedSpend tx2) C')"
    if "set (spent_nullifiers tx2) \<inter> set (spent_nullifiers tx) \<noteq> {}" for tx2
    using tip.shielded_view [OF u(2) [unfolded view_inv_def], of "ct_vShieldedSpend tx2", folded view_abs_def] u(4) that
    by (fastforce simp: spent_nullifiers_def)
  ultimately show ?thesis
    using u(1,2) by blast
qed

text \<open>C7. The caches are transparent. Flushing a view into \<open>pcoinsTip\<close> and that to disk succeeds: the assertion of \<open>BatchWrite\<close> on fresh entries holds, and the database
  then holds what the view represented. A node that starts again from the database with empty caches answers \<open>HaveInputs\<close>, \<open>HaveShieldedRequirements\<close> and
  \<open>GetBestBlock\<close> as the view did.\<close>

theorem restart_keeps_view:
  assumes "view_inv root et C" "hashBlock C \<noteq> 0" "hashSaplingAnchor C \<noteq> 0"
  shows "\<exists>T. flush_to_tip root et True C = Some T \<and> tip_inv root et T \<and> db_abs (root et) (cc_base T) = view_abs root et C \<and>
    (let R = new_view (new_view (cc_base T))
     in (\<forall>pegs tx. fst (HaveInputs (tip_ops root et) pegs tx R) = fst (HaveInputs (tip_ops root et) pegs tx C)) \<and>
        (\<forall>ss. fst (HaveShieldedRequirements (tip_ops root et) ss R) = fst (HaveShieldedRequirements (tip_ops root et) ss C)) \<and>
        fst (GetBestBlock (tip_ops root et) R) = fst (GetBestBlock (tip_ops root et) C))"
proof -
  obtain T where T: "flush_to_tip root et True C = Some T" "tip_inv root et T" "db_abs (root et) (cc_base T) = view_abs root et C"
    using flush_to_tip_view [OF assms, of True] by blast
  let ?R = "new_view (new_view (cc_base T)) :: (('a coins_db, 'a) coins_cache, 'a) coins_cache"
  have "db_inv root (cc_base T)"
    using T(2) by (simp add: tip_inv_def cache_inv_def)
  then have "tip_inv root et (new_view (cc_base T))" "tip_abs root et (new_view (cc_base T)) = view_abs root et C"
    using T(3) by (simp_all add: new_tip_view)
  then have R: "view_inv root et ?R" "view_abs root et ?R = view_abs root et C"
    using new_view_view [of root et "new_view (cc_base T)"] by simp_all
  have "fst (HaveInputs (tip_ops root et) pegs tx ?R) = fst (HaveInputs (tip_ops root et) pegs tx C)" for pegs tx
    using tip.have_inputs_checked [OF R(1) [unfolded view_inv_def], of pegs tx, folded view_abs_def]
      tip.have_inputs_checked [OF assms(1) [unfolded view_inv_def], of pegs tx, folded view_abs_def] R(2) by auto
  moreover have "fst (HaveShieldedRequirements (tip_ops root et) ss ?R) = fst (HaveShieldedRequirements (tip_ops root et) ss C)" for ss
    using tip.shielded_view [OF R(1) [unfolded view_inv_def], of ss, folded view_abs_def]
      tip.shielded_view [OF assms(1) [unfolded view_inv_def], of ss, folded view_abs_def] R(2) by auto
  moreover have "fst (GetBestBlock (tip_ops root et) ?R) = fst (GetBestBlock (tip_ops root et) C)"
    using tip.cache_get_block [OF R(1) [unfolded view_inv_def], folded view_abs_def]
      tip.cache_get_block [OF assms(1) [unfolded view_inv_def], folded view_abs_def] R(2) by (metis prod.collapse)
  ultimately show ?thesis
    using T by (auto simp: Let_def)
qed

section \<open>An example\<close>

definition coins_db1 :: "uint256 coins_db" where
  "coins_db1 = \<lparr>dbCoins = [1 \<mapsto> \<lparr>fCoinBase = False, cc_vout = [\<lparr>to_scriptPubKey = [0x51], to_nValue = 50\<rparr>], cc_nHeight = 3, cc_nVersion = 4\<rparr>],
     dbAnchors = Map.empty, dbNullifiers = (\<lambda>_. False), dbBestBlock = Some 5, dbBestAnchor = None\<rparr>"

definition coinbase_tx1 :: coins_tx where
  "coinbase_tx1 = \<lparr>tx_hash = 2, tx_vin = [(0, -1)], tx_vout = [\<lparr>to_scriptPubKey = [0x51], to_nValue = 3\<rparr>],
     ct_nVersion = 4, ct_vShieldedSpend = [], ct_vShieldedOutput = []\<rparr>"

definition spend_tx1 :: coins_tx where
  "spend_tx1 = \<lparr>tx_hash = 3, tx_vin = [(1, 0)], tx_vout = [\<lparr>to_scriptPubKey = [0x51], to_nValue = 40\<rparr>],
     ct_nVersion = 4, ct_vShieldedSpend = [(11, 7)], ct_vShieldedOutput = [13]\<rparr>"

lemmas coins_example = coins_db1_def coinbase_tx1_def spend_tx1_def

lemma tip1: "tip_inv id 7 (new_view coins_db1)"
  by (rule new_tip_view) (auto simp: db_inv_def coins_db1_def coins_ok_def coins_raw_def Cleanup_def drop_null_def IsPruned_def txout_IsNull_def split: if_splits)

lemmas tx_kind = IsCoinBase_def IsCoinImport_def IsPegsImport_def IsMint_def OutPoint_IsNull_def
lemmas coins_run = tx_kind MAX_SCRIPT_SIZE_def IsUnspendable_def Clear_def drop_null_def Cleanup_def ClearUnspendable_def FromTx_def IsPruned_def IsAvailable_def coins_eq_def Spend_def
  db_GetCoins_def db_GetNullifier_def db_GetSaplingAnchorAt_def db_GetBestBlock_def db_GetBestAnchor_def db_ops_def fetched_entry_def FetchCoins_def ModifyCoins_def modifier_end_def
  modify_coins_def GetSaplingAnchorAt_def GetNullifier_def GetBestAnchor_def SetBestBlock_def PushAnchor_def SetNullifiers_def cache_ops_def
  txout_IsNull_def null_txout_def UpdateCoins_def add_outputs_def spend_body_def tip_ops_def new_view_def Let_def






theorem no_double_spend_witness:
  "\<exists>us C. UpdateCoins (tip_ops id 7) False spend_tx1 4 (snd (HaveShieldedRequirements (tip_ops id 7) (ct_vShieldedSpend spend_tx1) (snd (HaveInputs (tip_ops id 7) False spend_tx1
       (new_view (new_view coins_db1)))))) = Some (us, C) \<and> \<not> fst (HaveInputs (tip_ops id 7) False spend_tx1 C)"
proof -
  let ?C = "new_view (new_view coins_db1) :: ((uint256 coins_db, uint256) coins_cache, uint256) coins_cache"
  let ?C1 = "snd (HaveInputs (tip_ops id 7) False spend_tx1 ?C)"
  let ?C2 = "snd (HaveShieldedRequirements (tip_ops id 7) (ct_vShieldedSpend spend_tx1) ?C1)"
  have inv: "view_inv id 7 ?C" and abs: "view_abs id 7 ?C = tip_abs id 7 (new_view coins_db1)"
    using new_view_view [OF tip1] by simp_all
  have C1: "HaveInputs (tip_ops id 7) False spend_tx1 ?C = (True, ?C1)"
    by (simp add: HaveInputs_def coins_run coins_example)
  have C2: "HaveShieldedRequirements (tip_ops id 7) (ct_vShieldedSpend spend_tx1) ?C1 = (True, ?C2)"
    by (simp add: HaveInputs_def coins_run coins_example)
  have tx: "tx_ok spend_tx1" "\<not> IsPegsImport False spend_tx1" "distinct (tx_vin spend_tx1)" "distinct (new_keys spend_tx1)"
    "\<forall>k \<in> set (new_keys spend_tx1). av_coins (view_abs id 7 ?C) k = None"
    unfolding abs new_tip_view(2) by (simp_all add: db_abs_def coins_example tx_kind tx_ok_def new_keys_def txout_IsNull_def)
  have same: "set (checked_inputs False spend_tx1) \<inter> set (checked_inputs False spend_tx1) \<noteq> {}"
    by (simp add: checked_inputs_def coins_example tx_kind)
  have h: "(4 :: int) \<noteq> 0"
    by simp
  show ?thesis
    using no_double_spend [OF inv C1 C2 tx h] same by blast
qed

theorem restart_keeps_view_witness:
  "\<exists>T. flush_to_tip id 7 True (SetBestBlock 6 (snd (GetBestAnchor (tip_ops id 7) (new_view (new_view coins_db1))))) = Some T \<and>
     fst (GetBestBlock (tip_ops id 7) (new_view (new_view (cc_base T)))) = 6"
proof -
  let ?C = "SetBestBlock 6 (snd (GetBestAnchor (tip_ops id 7) (new_view (new_view coins_db1)))) :: ((uint256 coins_db, uint256) coins_cache, uint256) coins_cache"
  have "hashBlock ?C \<noteq> 0" "hashSaplingAnchor ?C \<noteq> 0" "fst (GetBestBlock (tip_ops id 7) ?C) = 6"
    by (simp_all add: coins_run GetBestBlock_def coins_example)
  moreover have "view_inv id 7 ?C"
    using tip.cache_get_root [of id 7 "new_view (new_view coins_db1)" "fst (GetBestAnchor (tip_ops id 7) (new_view (new_view coins_db1)))"]
      tip.best_block_view [of id 7 "snd (GetBestAnchor (tip_ops id 7) (new_view (new_view coins_db1)))" 6] new_view_view [OF tip1]
    unfolding view_inv_def by simp
  ultimately have "\<exists>T. flush_to_tip id 7 True ?C = Some T \<and>
      fst (GetBestBlock (tip_ops id 7) (new_view (new_view (cc_base T)))) = fst (GetBestBlock (tip_ops id 7) ?C)"
    using restart_keeps_view [of id 7 ?C] unfolding Let_def by blast
  then show ?thesis
    unfolding \<open>fst (GetBestBlock (tip_ops id 7) ?C) = 6\<close> .
qed

end
